(* ===== verification/Wandio_Prelude.thy ===== *)
theory Wandio_Prelude
  imports Main "HOL-Library.Word" "HOL-Library.Monad_Syntax" "HOL-Library.Sublist"
begin

text \<open>
  What every component shares: bytes, the integer conversions of C, the constants of
  \<^verbatim>\<open>wandio.h\<close>, the error latch of the compression modules, and the lemmas on lists
  and options the component proofs use.

  A computation that can abort (a failed \<^verbatim>\<open>assert\<close>), touch memory it does not own or
  loop for ever returns an \<open>option\<close>: \<open>None\<close> is "no result". Error returns of the code
  (\<open>-1\<close> and the like) are ordinary values.
\<close>

section \<open>Bytes and integers\<close>

type_synonym byte = "8 word"

text \<open>Conversion to a 32-bit C \<open>int\<close>, as in \<open>int towrite = len\<close>.\<close>

definition c_int :: "int \<Rightarrow> int" where
  "c_int x = (x + 2 ^ 31) mod 2 ^ 32 - 2 ^ 31"

text \<open>Conversion to a 32-bit \<open>unsigned int\<close>, as in \<open>strm.avail_in = len\<close>.\<close>

definition c_uint :: "int \<Rightarrow> nat" where
  "c_uint x = nat (x mod 2 ^ 32)"

lemma c_int_id: "- (2 ^ 31) \<le> x \<Longrightarrow> x < 2 ^ 31 \<Longrightarrow> c_int x = x"
  by (simp add: c_int_def)

lemma c_int_id_nat: "n < 2 ^ 31 \<Longrightarrow> c_int (int n) = int n"
  by (simp add: c_int_def)

lemma c_int_periodic: "c_int (x + 2 ^ 32 * k) = c_int x"
proof -
  have "(x + 2 ^ 32 * k + 2 ^ 31) mod 2 ^ 32 = (x + 2 ^ 31 + 2 ^ 32 * k) mod (2 ^ 32 :: int)"
    by (simp add: algebra_simps)
  then show ?thesis by (simp add: c_int_def)
qed

lemma c_uint_id: "n < 2 ^ 32 \<Longrightarrow> c_uint (int n) = n"
  by (simp add: c_uint_def)

section \<open>Constants\<close>

definition WANDIO_BUFFER_SIZE :: nat where
  "WANDIO_BUFFER_SIZE = 1024 * 1024"

lemma WANDIO_BUFFER_SIZE_pos [simp]: "0 < WANDIO_BUFFER_SIZE" "WANDIO_BUFFER_SIZE \<noteq> 0"
  by (simp_all add: WANDIO_BUFFER_SIZE_def)

text \<open>The third argument of \<^verbatim>\<open>lseek(2)\<close> and of the \<open>seek\<close> operations.\<close>

datatype whence = SEEK_SET | SEEK_CUR | SEEK_END

text \<open>The latch every compression module keeps: \<open>ERR_OK = 1\<close>, \<open>ERR_EOF = 0\<close>,
  \<open>ERR_ERROR = -1\<close>.\<close>

datatype err_t = ERR_OK | ERR_EOF | ERR_ERROR

section \<open>Assertions\<close>

definition c_assert :: "bool \<Rightarrow> unit option" where
  "c_assert b = (if b then Some () else None)"

lemma c_assert_simps [simp]: "c_assert True = Some ()" "c_assert False = None"
  by (simp_all add: c_assert_def)

lemma c_assert_bind_Some [simp]:
  "c_assert b \<bind> f = Some x \<longleftrightarrow> b \<and> f () = Some x"
  by (simp add: c_assert_def)

section \<open>Loops\<close>

text \<open>
  A loop of the code: one pass either returns from the function (\<open>Inl\<close>) or goes round again
  (\<open>Inr\<close>); the pass tests the loop's condition itself. A loop that never ends is \<open>None\<close>.
\<close>

partial_function (option) c_loop :: "('s \<Rightarrow> ('r + 's) option) \<Rightarrow> 's \<Rightarrow> 'r option" where
  "c_loop body s = do { x \<leftarrow> body s; case x of Inl r \<Rightarrow> Some r | Inr s' \<Rightarrow> c_loop body s' }"

lemma c_loop_wf:
  assumes "wf R" "I s"
    and "\<And>s. I s \<Longrightarrow> (\<exists>r. body s = Some (Inl r) \<and> Q r) \<or>
      (\<exists>s'. body s = Some (Inr s') \<and> I s' \<and> (s', s) \<in> R)"
  shows "\<exists>r. c_loop body s = Some r \<and> Q r"
  using assms(1,2)
proof (induction s rule: wf_induct_rule)
  case (less s)
  from assms(3) [OF less.prems] less.IH show ?case
    by (subst c_loop.simps) fastforce
qed

lemma c_loop_returns:
  assumes "I s"
    and "\<And>s. I s \<Longrightarrow> (\<exists>r. body s = Some (Inl r) \<and> Q r) \<or>
      (\<exists>s'. body s = Some (Inr s') \<and> I s' \<and> m s' < (m s :: nat))"
  shows "\<exists>r. c_loop body s = Some r \<and> Q r"
  by (rule c_loop_wf [OF wf_measure [of m], where I = I]) (use assms in auto)

lemma c_loop_stop: "body s = Some (Inl r) \<Longrightarrow> c_loop body s = Some r"
  by (subst c_loop.simps) simp

lemma c_loop_next: "body s = Some (Inr s') \<Longrightarrow> c_loop body s = c_loop body s'"
  by (subst c_loop.simps) simp

text \<open>What holds of the result of a loop, if it ends.\<close>

lemma c_loop_partial:
  assumes "c_loop body s = Some r" "I s"
    and "\<And>s s'. I s \<Longrightarrow> body s = Some (Inr s') \<Longrightarrow> I s'" "\<And>s r. I s \<Longrightarrow> body s = Some (Inl r) \<Longrightarrow> Q r"
  shows "Q r"
proof -
  have "body = body \<longrightarrow> I s \<longrightarrow> Q r"
  proof (rule c_loop.raw_induct [OF _ assms(1), where P = "\<lambda>b s r. b = body \<longrightarrow> I s \<longrightarrow> Q r"], intro impI)
    fix loop b s r
    assume IH: "\<And>b s r. loop b s = Some r \<Longrightarrow> b = body \<longrightarrow> I s \<longrightarrow> Q r"
      and run: "b s \<bind> case_sum Some (loop b) = Some r" and b: "b = body" and I: "I s"
    from run b obtain x where x: "body s = Some x" "case_sum Some (loop body) x = Some r"
      by (auto simp: bind_eq_Some_conv)
    show "Q r"
    proof (cases x)
      case (Inl r')
      with x I assms(4) show ?thesis by simp
    next
      case (Inr s')
      with x I assms(3) have "I s'" "loop body s' = Some r" by auto
      with IH show ?thesis by blast
    qed
  qed
  with assms(2) show ?thesis by simp
qed

section \<open>Lists\<close>

named_theorems io_simps \<open>unfolding rules of the model's small operations\<close>

lemma take_append_drop_take: "k \<le> n \<Longrightarrow> take k xs @ take (n - k) (drop k xs) = take n xs"
  by (metis take_add le_add_diff_inverse)

lemma take_append_drop_length [simp]: "take m xs @ drop (length (take m xs)) xs = xs"
  by (cases "m \<le> length xs") simp_all

lemma length_take_append:
  "n \<le> length xs + length ys \<Longrightarrow> length (take n (xs @ ys)) = n"
  by (simp add: min_def del: take_append)

lemma prefix_take_iff: "prefix (take n xs) xs"
  by (metis append_take_drop_id prefix_def)

lemma append_eq_drop: "xs = ys @ zs \<Longrightarrow> zs = drop (length ys) xs"
  by simp

lemma append_eq_take: "xs = ys @ zs \<Longrightarrow> ys = take (length ys) xs"
  by simp

end
