(* ===== verification/Wandio_Io.thy ===== *)
theory Wandio_Io
  imports Wandio_Prelude
begin

text \<open>
  The interfaces of \<^verbatim>\<open>lib/wandio.h\<close>. A module of the library is a table of functions
  (\<open>io_source_t\<close> for readers, \<open>iow_source_t\<close> for writers) over a private state, and the
  public calls \<open>wandio_read\<close>, \<open>wandio_tell\<close> and so on only dispatch through the table.
  The locales \<open>reader\<close>, \<open>calm_reader\<close>, \<open>peekable\<close>, \<open>writer\<close> and \<open>flusher\<close> are the contracts the header's
  comments state for those functions; every module is proved against them, and whatever sits on
  top of a module is proved from them.
\<close>

section \<open>Operation types\<close>

text \<open>
  \<open>read(io, buffer, len)\<close>: the second argument is the destination address, of which only
  the residue modulo the page size is ever looked at (an aligned allocation is at 0); the third
  is the length. The result is the C return value together with the bytes stored at \<open>buffer\<close>.
\<close>

type_synonym 's read_fn = "'s \<Rightarrow> nat \<Rightarrow> nat \<Rightarrow> (int \<times> byte list \<times> 's) option"
type_synonym 's tell_fn = "'s \<Rightarrow> int"
type_synonym 's seek_fn = "'s \<Rightarrow> int \<Rightarrow> whence \<Rightarrow> (int \<times> 's) option"
type_synonym 's write_fn = "'s \<Rightarrow> byte list \<Rightarrow> (int \<times> 's) option"
type_synonym 's flush_fn = "'s \<Rightarrow> (int \<times> 's) option"

record 's io_source_t =
  src_name :: string
  src_read :: "'s read_fn"
  src_peek :: "'s read_fn option"
  src_tell :: "'s tell_fn option"
  src_seek :: "'s seek_fn option"
  src_close :: "'s \<Rightarrow> 's"

record 's iow_source_t =
  wsrc_name :: string
  wsrc_write :: "'s write_fn"
  wsrc_flush :: "'s flush_fn"
  wsrc_close :: "'s \<Rightarrow> 's option"

section \<open>The dispatching calls of wandio.c\<close>

definition wandio_tell :: "'s io_source_t \<Rightarrow> 's \<Rightarrow> int" where
  "wandio_tell src io = (case src_tell src of None \<Rightarrow> -1 | Some f \<Rightarrow> f io)"

definition wandio_seek :: "'s io_source_t \<Rightarrow> 's \<Rightarrow> int \<Rightarrow> whence \<Rightarrow> (int \<times> 's) option" where
  "wandio_seek src io offset wh =
     (case src_seek src of None \<Rightarrow> Some (-1, io) | Some f \<Rightarrow> f io offset wh)"

definition wandio_read :: "'s io_source_t \<Rightarrow> 's read_fn" where
  "wandio_read src io buffer len = src_read src io buffer len"

text \<open>\<open>assert(io->source->peek)\<close>: peeking a reader with no peek operation aborts.\<close>

definition wandio_peek :: "'s io_source_t \<Rightarrow> 's read_fn" where
  "wandio_peek src io buffer len =
     (case src_peek src of None \<Rightarrow> None | Some f \<Rightarrow> f io buffer len)"

definition wandio_destroy :: "'s io_source_t \<Rightarrow> 's option \<Rightarrow> 's option" where
  "wandio_destroy src io = (case io of None \<Rightarrow> None | Some s \<Rightarrow> Some (src_close src s))"

definition wandio_wwrite :: "'s iow_source_t \<Rightarrow> 's write_fn" where
  "wandio_wwrite src iow buffer = wsrc_write src iow buffer"

text \<open>A NULL handle is reported and returns \<open>-1\<close>.\<close>

definition wandio_wflush ::
  "'s iow_source_t \<Rightarrow> 's option \<Rightarrow> (int \<times> 's option) option" where
  "wandio_wflush src iow =
     (case iow of None \<Rightarrow> Some (-1, None)
      | Some s \<Rightarrow> map_option (\<lambda>(r, s'). (r, Some s')) (wsrc_flush src s))"

definition wandio_wdestroy :: "'s iow_source_t \<Rightarrow> 's \<Rightarrow> 's option" where
  "wandio_wdestroy src iow = wsrc_close src iow"

text \<open>
  Reading to the end: the loop a caller writes around \<open>wandio_read\<close> (as \<^verbatim>\<open>wcat.c\<close> does).
  It returns the last, non-positive, result together with everything read before it.
\<close>

partial_function (option) read_all ::
  "'s read_fn \<Rightarrow> nat \<Rightarrow> nat \<Rightarrow> 's \<Rightarrow> byte list \<Rightarrow> (int \<times> byte list \<times> 's) option" where
  "read_all rd buffer len s acc =
     do { (r, bs, s') \<leftarrow> rd s buffer len;
          if 0 < r then read_all rd buffer len s' (acc @ bs) else Some (r, acc, s') }"

text \<open>A sequence of writes whose results the caller does not look at.\<close>

fun write_list :: "'w write_fn \<Rightarrow> 'w \<Rightarrow> byte list list \<Rightarrow> 'w option" where
  "write_list wr w [] = Some w"
| "write_list wr w (bs # rest) = do { (_, w') \<leftarrow> wr w bs; write_list wr w' rest }"

section \<open>The reader contract\<close>

text \<open>
  \<open>pending s\<close> is the byte sequence the reader still owes its caller. A non-negative result
  hands over that many bytes of it, in order; \<open>0\<close> for a non-empty request means nothing is
  owed any more; a negative result (an \<open>int\<close> of C) hands over nothing and loses nothing. No
  call made in a good state aborts. \<open>served\<close> bounds the requests the laws speak of: several
  modules keep the length in an \<open>int\<close> or an \<open>unsigned int\<close>.
\<close>

locale reader =
  fixes rd :: "'s read_fn"
    and inv :: "'s \<Rightarrow> bool"
    and pending :: "'s \<Rightarrow> byte list"
    and served :: "nat \<Rightarrow> bool"
  assumes rd_total: "inv s \<Longrightarrow> served n \<Longrightarrow> \<exists>r bs s'. rd s a n = Some (r, bs, s')"
    and rd_inv: "inv s \<Longrightarrow> served n \<Longrightarrow> rd s a n = Some (r, bs, s') \<Longrightarrow> inv s'"
    and rd_len: "inv s \<Longrightarrow> served n \<Longrightarrow> rd s a n = Some (r, bs, s') \<Longrightarrow> 0 \<le> r \<Longrightarrow>
      int (length bs) = r \<and> length bs \<le> n"
    and rd_data: "inv s \<Longrightarrow> served n \<Longrightarrow> rd s a n = Some (r, bs, s') \<Longrightarrow> 0 \<le> r \<Longrightarrow>
      pending s = bs @ pending s'"
    and rd_eof: "inv s \<Longrightarrow> served n \<Longrightarrow> rd s a n = Some (0, bs, s') \<Longrightarrow> 0 < n \<Longrightarrow> pending s = []"
    and rd_err: "inv s \<Longrightarrow> served n \<Longrightarrow> rd s a n = Some (r, bs, s') \<Longrightarrow> r < 0 \<Longrightarrow>
      bs = [] \<and> pending s' = pending s \<and> - (2 ^ 31) \<le> r"
begin

lemma rd_cases:
  assumes "inv s" "served n"
  obtains (data) bs s' where "rd s a n = Some (int (length bs), bs, s')"
      "bs \<noteq> []" "length bs \<le> n" "pending s = bs @ pending s'" "inv s'"
    | (eof) s' where "rd s a n = Some (0, [], s')" "n = 0 \<or> pending s = []"
      "pending s' = pending s" "inv s'"
    | (err) r s' where "rd s a n = Some (r, [], s')" "r < 0" "- (2 ^ 31) \<le> r"
      "pending s' = pending s" "inv s'"
proof -
  obtain r bs s' where eq: "rd s a n = Some (r, bs, s')"
    using rd_total [OF assms] by blast
  note facts = rd_inv [OF assms eq] rd_len [OF assms eq] rd_data [OF assms eq]
    rd_err [OF assms eq]
  show thesis
  proof (cases "0 \<le> r")
    case True
    show thesis
    proof (cases "bs = []")
      case True
      with eq facts \<open>0 \<le> r\<close> rd_eof [OF assms, of a bs s'] show thesis
        by (intro eof [of s']) auto
    next
      case False
      with eq facts \<open>0 \<le> r\<close> show thesis by (intro data [of bs s']) auto
    qed
  next
    case False
    with eq facts show thesis by (intro err [of r s']) auto
  qed
qed

lemma rd_positive: "inv s \<Longrightarrow> served n \<Longrightarrow> rd s a n = Some (r, bs, s') \<Longrightarrow> 0 < r \<Longrightarrow>
    length (pending s') < length (pending s)"
  using rd_len [of s n a r bs s'] rd_data [of s n a r bs s'] by auto

lemma read_all_result:
  assumes "inv s" "served n" "0 < n"
  shows "\<exists>r xs s'. read_all rd a n s acc = Some (r, acc @ xs, s') \<and> r \<le> 0 \<and> inv s' \<and>
    pending s = xs @ pending s' \<and> (r = 0 \<longrightarrow> xs = pending s)"
  using assms(1)
proof (induction "length (pending s)" arbitrary: s acc rule: less_induct)
  case less
  from less.prems assms(2) show ?case
  proof (cases rule: rd_cases [where a = a])
    case (data bs s')
    then have "length (pending s') < length (pending s)" by simp
    from less.hyps [OF this \<open>inv s'\<close>, of "acc @ bs"] data show ?thesis
      by (subst read_all.simps) auto
  next
    case (eof s')
    with assms(3) show ?thesis by (subst read_all.simps) auto
  next
    case (err r s')
    then show ?thesis by (subst read_all.simps) auto
  qed
qed

end

text \<open>Two such bounds: requests that fit a C \<open>int\<close>, and none.\<close>

abbreviation below_2G :: "nat \<Rightarrow> bool" where
  "below_2G n \<equiv> n < 2 ^ 31"

abbreviation any_size :: "nat \<Rightarrow> bool" where
  "any_size n \<equiv> True"

text \<open>
  The contract of one call, as a predicate on its result: data and end of input, or an error.
  Showing it for every good state shows the whole contract.
\<close>

definition read_outcome ::
  "('s \<Rightarrow> bool) \<Rightarrow> ('s \<Rightarrow> byte list) \<Rightarrow> 's \<Rightarrow> nat \<Rightarrow> (int \<times> byte list \<times> 's) option \<Rightarrow> bool" where
  "read_outcome I P s n res \<longleftrightarrow>
     (\<exists>bs s'. res = Some (int (length bs), bs, s') \<and> length bs \<le> n \<and>
        (bs = [] \<longrightarrow> n = 0 \<or> P s = []) \<and> P s = bs @ P s' \<and> I s') \<or>
     (\<exists>r s'. res = Some (r, [], s') \<and> r < 0 \<and> - (2 ^ 31) \<le> r \<and> P s' = P s \<and> I s')"

lemma read_outcome_data:
  "res = Some (r, bs, s') \<Longrightarrow> r = int (length bs) \<Longrightarrow> length bs \<le> n \<Longrightarrow>
    (bs = [] \<Longrightarrow> n = 0 \<or> P s = []) \<Longrightarrow> P s = bs @ P s' \<Longrightarrow> I s' \<Longrightarrow> read_outcome I P s n res"
  by (auto simp: read_outcome_def)

lemma read_outcome_err:
  "res = Some (r, [], s') \<Longrightarrow> r < 0 \<Longrightarrow> - (2 ^ 31) \<le> r \<Longrightarrow> P s' = P s \<Longrightarrow> I s' \<Longrightarrow> read_outcome I P s n res"
  by (auto simp: read_outcome_def)

lemma readerI:
  assumes "\<And>s a n. I s \<Longrightarrow> ok n \<Longrightarrow> read_outcome I P s n (rd s a n)"
  shows "reader rd I P ok"
proof -
  note one = assms [unfolded read_outcome_def]
  show ?thesis
  proof (unfold_locales, goal_cases)
    case (1 s n a) with one [of s n a] show ?case by blast
  next
    case (2 s n a r bs s') with one [of s n a] show ?case by auto
  next
    case (3 s n a r bs s') with one [of s n a] show ?case by auto
  next
    case (4 s n a r bs s') with one [of s n a] show ?case by auto
  next
    case (5 s n a bs s') with one [of s n a] show ?case by auto
  next
    case (6 s n a r bs s') with one [of s n a] show ?case by auto
  qed
qed

context reader
begin

lemma outcome: "inv s \<Longrightarrow> served n \<Longrightarrow> read_outcome inv pending s n (rd s a n)"
  by (cases rule: rd_cases [of s n a]) (auto simp: read_outcome_def)

lemma weaken: "(\<And>n. ok n \<Longrightarrow> served n) \<Longrightarrow> reader rd inv pending ok"
  by (rule readerI) (rule outcome)

end

section \<open>Readers that never fail\<close>

text \<open>
  The contract leaves a reader free to return an error at any time. A reader that does not, in the
  states of \<open>I\<close>, delivers everything; and a reader built on it that makes no errors of its own
  never fails either. This is how the properties tell an error that comes from below from one
  that the code itself makes.
\<close>

definition never_fails :: "'s read_fn \<Rightarrow> ('s \<Rightarrow> bool) \<Rightarrow> (nat \<Rightarrow> bool) \<Rightarrow> bool" where
  "never_fails rd I ok \<longleftrightarrow>
     (\<forall>s a n r bs s'. I s \<and> ok n \<and> rd s a n = Some (r, bs, s') \<longrightarrow> 0 \<le> r)"

lemma never_failsD:
  "never_fails rd I ok \<Longrightarrow> I s \<Longrightarrow> ok n \<Longrightarrow> rd s a n = Some (r, bs, s') \<Longrightarrow> 0 \<le> r"
  unfolding never_fails_def by blast

locale calm_reader = reader rd inv pending served
  for rd :: "'s read_fn" and inv pending served +
  assumes never_err: "inv s \<Longrightarrow> served n \<Longrightarrow> rd s a n = Some (r, bs, s') \<Longrightarrow> 0 \<le> r"
begin

lemma never: "never_fails rd inv served"
  unfolding never_fails_def using never_err by blast

lemma read_all_whole:
  assumes "inv s" "served n" "0 < n"
  shows "\<exists>s'. read_all rd a n s acc = Some (0, acc @ pending s, s') \<and> inv s' \<and> pending s' = []"
  using assms(1)
proof (induction "length (pending s)" arbitrary: s acc rule: less_induct)
  case less
  from less.prems assms(2) show ?case
  proof (cases rule: rd_cases [where a = a])
    case (data bs s')
    then have "length (pending s') < length (pending s)" by simp
    from less.hyps [OF this \<open>inv s'\<close>, of "acc @ bs"] data show ?thesis
      by (subst read_all.simps) auto
  next
    case (eof s')
    with assms(3) show ?thesis by (subst read_all.simps) auto
  next
    case (err r s')
    with never_err [OF less.prems assms(2) err(1)] show ?thesis by simp
  qed
qed

end

lemma calm_readerI:
  assumes "reader rd I P ok" "never_fails rd I ok"
  shows "calm_reader rd I P ok"
  using assms(2) unfolding never_fails_def
  by (intro calm_reader.intro calm_reader_axioms.intro assms(1)) blast

text \<open>A property of the states that every call keeps can be added to the invariant.\<close>

lemma reader_strengthen:
  assumes "reader rd I P ok"
    and "\<And>s a n r bs s'. I s \<Longrightarrow> G s \<Longrightarrow> ok n \<Longrightarrow> rd s a n = Some (r, bs, s') \<Longrightarrow> G s'"
  shows "reader rd (\<lambda>s. I s \<and> G s) P ok"
proof (rule readerI)
  fix s a n
  assume "I s \<and> G s" and n: "ok n"
  then have I: "I s" and G: "G s" by simp_all
  from reader.outcome [OF assms(1) I n, of a] assms(2) [OF I G n, of a]
  show "read_outcome (\<lambda>s. I s \<and> G s) P s n (rd s a n)"
    unfolding read_outcome_def by blast
qed

text \<open>
  A reader that can also be peeked: in a \<open>ready\<close> state a peek shows a prefix of what is
  pending and takes nothing away from it.
\<close>

locale peekable = reader rd inv pending served
  for rd :: "'s read_fn" and inv pending served +
  fixes pk :: "'s read_fn"
    and ready :: "'s \<Rightarrow> bool"
  assumes pk_total: "inv s \<Longrightarrow> ready s \<Longrightarrow> \<exists>r bs s'. pk s a n = Some (r, bs, s')"
    and pk_inv: "inv s \<Longrightarrow> ready s \<Longrightarrow> pk s a n = Some (r, bs, s') \<Longrightarrow> inv s' \<and> ready s'"
    and pk_keeps: "inv s \<Longrightarrow> ready s \<Longrightarrow> pk s a n = Some (r, bs, s') \<Longrightarrow> pending s' = pending s"
    and pk_len: "inv s \<Longrightarrow> ready s \<Longrightarrow> pk s a n = Some (r, bs, s') \<Longrightarrow> 0 \<le> r \<Longrightarrow>
      int (length bs) = r \<and> length bs \<le> n"
    and pk_data: "inv s \<Longrightarrow> ready s \<Longrightarrow> pk s a n = Some (r, bs, s') \<Longrightarrow> prefix bs (pending s)"
begin

text \<open>What was peeked is what a later read returns first.\<close>

lemma peek_then_read:
  assumes "inv s" "ready s" "pk s a n = Some (r, bs, s1)" "0 \<le> r"
    and "rd s1 b m = Some (k, cs, s2)" "0 \<le> k" "served m"
  shows "take (min (length bs) (length cs)) cs = take (min (length bs) (length cs)) bs"
proof -
  from assms have inv1: "inv s1" and p1: "pending s1 = pending s"
    using pk_inv pk_keeps by blast+
  from rd_data [OF inv1 assms(7,5,6)] p1 have p2: "pending s = cs @ pending s2" by simp
  from pk_data [OF assms(1-3)] obtain zs where "pending s = bs @ zs" by (auto simp: prefix_def)
  with p2 have "take (min (length bs) (length cs)) (cs @ pending s2) =
      take (min (length bs) (length cs)) (bs @ zs)" by simp
  then show ?thesis by simp
qed

end

section \<open>The writer contract\<close>

text \<open>
  \<open>sunk w\<close> is everything the writer has accepted. In a good state a write below 1 GiB is
  accepted whole, is appended, and returns its length; a flush keeps what was accepted.
\<close>

locale writer =
  fixes wr :: "'w write_fn"
    and winv :: "'w \<Rightarrow> bool"
    and sunk :: "'w \<Rightarrow> byte list"
  assumes wr_ok: "winv w \<Longrightarrow> length bs < 2 ^ 30 \<Longrightarrow>
    \<exists>w'. wr w bs = Some (int (length bs), w') \<and> winv w' \<and> sunk w' = sunk w @ bs"
begin

lemma write_list_ok:
  "winv w \<Longrightarrow> \<forall>bs\<in>set bss. length bs < 2 ^ 30 \<Longrightarrow>
    \<exists>w'. write_list wr w bss = Some w' \<and> winv w' \<and> sunk w' = sunk w @ concat bss"
proof (induction bss arbitrary: w)
  case (Cons bs rest)
  with wr_ok [of w bs] obtain w1 where "wr w bs = Some (int (length bs), w1)" "winv w1"
    "sunk w1 = sunk w @ bs" by auto
  with Cons.IH [of w1] Cons.prems show ?case by auto
qed simp

end

locale flusher = writer wr winv sunk
  for wr :: "'w write_fn" and winv sunk +
  fixes fl :: "'w flush_fn"
  assumes fl_ok: "winv w \<Longrightarrow>
    \<exists>r w'. fl w = Some (r, w') \<and> 0 \<le> r \<and> winv w' \<and> sunk w' = sunk w"

end
