(* ===== verification/Posix_Fd.thy ===== *)
theory Posix_Fd
  imports Wandio_Prelude
begin

text \<open>
  File descriptors as the stdio modules see them: what \<^verbatim>\<open>read(2)\<close>, \<^verbatim>\<open>lseek(2)\<close>,
  \<^verbatim>\<open>writev(2)\<close>, \<^verbatim>\<open>write(2)\<close>, \<^verbatim>\<open>fcntl(2)\<close> and \<^verbatim>\<open>close(2)\<close> promise. The kernel may
  transfer less than it was asked to, or fail: each descriptor carries the list of such events
  still to come, one per transfer; once the list is used up, transfers are complete. Every
  theorem about a descriptor therefore covers every finite pattern of short and failed
  transfers.
\<close>

datatype io_event = Short nat | Fail

section \<open>Descriptors open for reading\<close>

record fd_t =
  fd_data :: "byte list"
  fd_pos :: nat
  fd_open :: bool
  fd_seekable :: bool
  fd_plan :: "io_event list"

definition fd_rest :: "fd_t \<Rightarrow> byte list" where
  "fd_rest f = drop (fd_pos f) (fd_data f)"

text \<open>A short read still transfers at least one byte before the end of the file.\<close>

definition posix_read :: "fd_t \<Rightarrow> nat \<Rightarrow> int \<times> byte list \<times> fd_t" where
  "posix_read f len =
     (if \<not> fd_open f then (-1, [], f)
      else case fd_plan f of
          [] \<Rightarrow> (let bs = take len (fd_rest f)
                in (int (length bs), bs, f\<lparr>fd_pos := fd_pos f + length bs\<rparr>))
        | Fail # ps \<Rightarrow> (-1, [], f\<lparr>fd_plan := ps\<rparr>)
        | Short k # ps \<Rightarrow>
            (let bs = take (min len (Suc k)) (fd_rest f)
             in (int (length bs), bs, f\<lparr>fd_pos := fd_pos f + length bs, fd_plan := ps\<rparr>)))"

definition posix_lseek :: "fd_t \<Rightarrow> int \<Rightarrow> whence \<Rightarrow> int \<times> fd_t" where
  "posix_lseek f offset wh =
     (if \<not> fd_open f \<or> \<not> fd_seekable f then (-1, f)
      else let base = (case wh of SEEK_SET \<Rightarrow> 0 | SEEK_CUR \<Rightarrow> int (fd_pos f)
                         | SEEK_END \<Rightarrow> int (length (fd_data f)));
               new = base + offset
           in if new < 0 then (-1, f) else (new, f\<lparr>fd_pos := nat new\<rparr>))"

definition posix_close :: "fd_t \<Rightarrow> fd_t" where
  "posix_close f = f\<lparr>fd_open := False\<rparr>"

lemma fd_rest_advance:
  "fd_rest (f\<lparr>fd_pos := fd_pos f + k\<rparr>) = drop k (fd_rest f)"
  "fd_rest (f\<lparr>fd_pos := fd_pos f + k, fd_plan := ps\<rparr>) = drop k (fd_rest f)"
  "fd_rest (f\<lparr>fd_plan := ps\<rparr>) = fd_rest f"
  "fd_rest (f\<lparr>fd_pos := Suc (fd_pos f + k)\<rparr>) = drop (Suc k) (fd_rest f)"
  by (simp_all add: fd_rest_def add.commute)

lemma posix_read_cases:
  assumes "posix_read f n = (r, bs, f')" "fd_open f"
  obtains (ok) "r = int (length bs)" "length bs \<le> n" "bs = [] \<longrightarrow> n = 0 \<or> fd_rest f = []"
      "fd_rest f = bs @ fd_rest f'" "fd_open f'" "fd_data f' = fd_data f"
      "fd_pos f' = fd_pos f + length bs"
    | (fail) "r = -1" "bs = []" "fd_rest f' = fd_rest f" "fd_open f'" "fd_data f' = fd_data f"
      "fd_pos f' = fd_pos f"
proof (cases "fd_plan f")
  case Nil
  with assms show thesis
    by (intro ok) (auto simp: posix_read_def Let_def fd_rest_advance min_def split: if_splits)
next
  case (Cons e ps)
  show thesis
  proof (cases e)
    case (Short k)
    with Cons assms show thesis
      by (intro ok) (auto simp: posix_read_def Let_def fd_rest_advance min_def split: if_splits)
  next
    case Fail
    with Cons assms show thesis by (intro fail) (auto simp: posix_read_def fd_rest_advance)
  qed
qed

section \<open>Descriptors open for writing\<close>

record ofd_t =
  ofd_out :: "byte list"
  ofd_open :: bool
  ofd_direct :: bool
  ofd_plan :: "io_event list"

text \<open>\<open>write\<close> and \<open>writev\<close>: the count transferred, or \<open>-1\<close>.\<close>

definition posix_write :: "ofd_t \<Rightarrow> byte list \<Rightarrow> int \<times> ofd_t" where
  "posix_write f bs =
     (if \<not> ofd_open f then (-1, f)
      else case ofd_plan f of
          [] \<Rightarrow> (int (length bs), f\<lparr>ofd_out := ofd_out f @ bs\<rparr>)
        | Fail # ps \<Rightarrow> (-1, f\<lparr>ofd_plan := ps\<rparr>)
        | Short k # ps \<Rightarrow>
            (int (min k (length bs)), f\<lparr>ofd_out := ofd_out f @ take k bs, ofd_plan := ps\<rparr>))"

definition posix_writev :: "ofd_t \<Rightarrow> byte list list \<Rightarrow> int \<times> ofd_t" where
  "posix_writev f iov = posix_write f (concat iov)"

definition posix_wclose :: "ofd_t \<Rightarrow> ofd_t" where
  "posix_wclose f = f\<lparr>ofd_open := False\<rparr>"

lemma posix_write_cases:
  assumes "posix_write f bs = (r, f')"
  obtains (ok) k where "k \<le> length bs" "r = int k" "ofd_out f' = ofd_out f @ take k bs"
      "ofd_open f'" "ofd_open f" "ofd_direct f' = ofd_direct f"
      "length (ofd_plan f') \<le> length (ofd_plan f)"
      "ofd_plan f = [] \<and> k = length bs \<or> length (ofd_plan f') < length (ofd_plan f)"
    | (fail) "r = -1" "ofd_out f' = ofd_out f" "ofd_open f' = ofd_open f"
      "ofd_direct f' = ofd_direct f"
proof (cases "ofd_open f")
  case False
  with assms show thesis by (intro fail) (auto simp: posix_write_def)
next
  case opened: True
  show thesis
  proof (cases "ofd_plan f")
    case Nil
    with assms opened show thesis by (intro ok [of "length bs"]) (auto simp: posix_write_def)
  next
    case (Cons e ps)
    show thesis
    proof (cases e)
      case (Short k)
      with Cons assms opened show thesis
        by (intro ok [of "min k (length bs)"]) (auto simp: posix_write_def min_def)
    next
      case Fail
      with Cons assms opened show thesis by (intro fail) (auto simp: posix_write_def)
    qed
  qed
qed

end
