(* ===== verification/Stdio_Reader.thy ===== *)
theory Stdio_Reader
  imports Wandio_Io Posix_Fd
begin

text \<open>
  \<^verbatim>\<open>lib/ior-stdio.c\<close>: the reader over a file descriptor. \<open>os_t\<close> stands for the process
  environment: its standard input and what \<^verbatim>\<open>open(2)\<close> finds under a name, with or without
  \<^verbatim>\<open>O_DIRECT\<close>.
\<close>

record os_t =
  os_stdin :: fd_t
  os_open :: "string \<Rightarrow> bool \<Rightarrow> fd_t option"

record stdio_t =
  fd :: fd_t

text \<open>\<open>stdio_open\<close>: "-" is standard input; a failed \<^verbatim>\<open>open\<close> gives NULL.\<close>

definition stdio_open :: "os_t \<Rightarrow> bool \<Rightarrow> string \<Rightarrow> stdio_t option" where
  "stdio_open os force_directio_read filename =
     (if filename = ''-'' then Some \<lparr>fd = os_stdin os\<rparr>
      else case os_open os filename force_directio_read of
          None \<Rightarrow> None
        | Some f \<Rightarrow> Some \<lparr>fd = f\<rparr>)"

definition stdio_read :: "stdio_t read_fn" where
  "stdio_read io buffer len =
     (let (r, bs, f) = posix_read (fd io) len in Some (r, bs, io\<lparr>fd := f\<rparr>))"

definition stdio_tell :: "stdio_t \<Rightarrow> int" where
  "stdio_tell io = fst (posix_lseek (fd io) 0 SEEK_CUR)"

definition stdio_seek :: "stdio_t seek_fn" where
  "stdio_seek io offset wh =
     (let (r, f) = posix_lseek (fd io) offset wh in Some (r, io\<lparr>fd := f\<rparr>))"

definition stdio_close :: "stdio_t \<Rightarrow> stdio_t" where
  "stdio_close io = io\<lparr>fd := posix_close (fd io)\<rparr>"

definition stdio_source :: "stdio_t io_source_t" where
  "stdio_source = \<lparr>src_name = ''stdio'', src_read = stdio_read, src_peek = None,
     src_tell = Some stdio_tell, src_seek = Some stdio_seek, src_close = stdio_close\<rparr>"

section \<open>The reader contract\<close>

definition stdio_inv :: "stdio_t \<Rightarrow> bool" where
  "stdio_inv io \<longleftrightarrow> fd_open (fd io)"

definition stdio_pending :: "stdio_t \<Rightarrow> byte list" where
  "stdio_pending io = fd_rest (fd io)"

interpretation stdio: reader stdio_read stdio_inv stdio_pending any_size
proof (rule readerI, goal_cases)
  case (1 s a n)
  then have opened: "fd_open (fd s)" by (simp add: stdio_inv_def)
  obtain r bs f where eq: "posix_read (fd s) n = (r, bs, f)" by (metis prod_cases3)
  then have rd: "stdio_read s a n = Some (r, bs, s\<lparr>fd := f\<rparr>)" by (simp add: stdio_read_def)
  from eq opened show ?case
    by (cases rule: posix_read_cases)
      (auto simp: rd read_outcome_def stdio_inv_def stdio_pending_def)
qed

text \<open>With no failing \<^verbatim>\<open>read(2)\<close> to come (short ones are no failure), the reader never fails.\<close>

definition stdio_calm :: "stdio_t \<Rightarrow> bool" where
  "stdio_calm io \<longleftrightarrow> fd_open (fd io) \<and> Fail \<notin> set (fd_plan (fd io))"

interpretation calm_stdio: calm_reader stdio_read stdio_calm stdio_pending any_size
proof (rule calm_readerI)
  have step: "0 \<le> r \<and> Fail \<notin> set (fd_plan (fd s'))"
    if "stdio_calm s" "stdio_read s a n = Some (r, bs, s')" for s a n r bs s'
    using that
    by (auto simp: stdio_calm_def stdio_read_def posix_read_def Let_def
        split: list.splits io_event.splits)
  show "never_fails stdio_read stdio_calm any_size"
    unfolding never_fails_def using step by blast
  have "reader stdio_read (\<lambda>s. stdio_inv s \<and> Fail \<notin> set (fd_plan (fd s))) stdio_pending any_size"
    by (rule reader_strengthen [OF stdio.reader_axioms])
      (use step in \<open>simp add: stdio_calm_def stdio_inv_def\<close>)
  moreover have "(\<lambda>s. stdio_inv s \<and> Fail \<notin> set (fd_plan (fd s))) = stdio_calm"
    by (rule ext) (simp add: stdio_calm_def stdio_inv_def)
  ultimately show "reader stdio_read stdio_calm stdio_pending any_size" by simp
qed

text \<open>\<open>tell\<close> gives the position of the next byte a read returns, and a seek moves it.\<close>

lemma stdio_tell_pending:
  "stdio_inv io \<Longrightarrow> fd_seekable (fd io) \<Longrightarrow>
    stdio_tell io = int (fd_pos (fd io)) \<and>
    stdio_pending io = drop (nat (stdio_tell io)) (fd_data (fd io))"
  by (simp add: stdio_inv_def stdio_tell_def posix_lseek_def stdio_pending_def fd_rest_def Let_def)

lemma stdio_seek_tell:
  assumes "stdio_seek io offset wh = Some (r, io')" "0 \<le> r"
  shows "stdio_tell io' = r"
  using assms
  by (auto simp: stdio_seek_def stdio_tell_def posix_lseek_def Let_def split: if_splits)

lemma stdio_seek_fail:
  "stdio_seek io offset wh = Some (r, io') \<Longrightarrow> r < 0 \<Longrightarrow> io' = io \<and> r = -1"
  by (auto simp: stdio_seek_def posix_lseek_def Let_def split: if_splits)

end
