(* ===== verification/Stdio_Writer.thy ===== *)
theory Stdio_Writer
  imports Wandio_Io Posix_Fd
begin

text \<open>
  \<^verbatim>\<open>lib/iow-stdio.c\<close>: the writer over a file descriptor. It collects bytes in a 4096-byte
  buffer so that every \<^verbatim>\<open>writev\<close> before the final flush is a multiple of the block size
  (\<^verbatim>\<open>O_DIRECT\<close> needs that). The C fields \<^verbatim>\<open>buffer\<close> and \<^verbatim>\<open>offset\<close> are the list
  \<open>wbuffer\<close>, the first \<^verbatim>\<open>offset\<close> bytes of the array.
\<close>

definition MIN_WRITE_SIZE :: nat where
  "MIN_WRITE_SIZE = 4096"

record stdiow_t =
  wbuffer :: "byte list"
  wfd :: ofd_t

section \<open>Opening\<close>

text \<open>
  The environment of \<open>safe_open\<close>: what \<^verbatim>\<open>open(2)\<close> gives for a name, flags and
  \<^verbatim>\<open>O_DIRECT\<close>, the user id, the numbers \<^verbatim>\<open>strtol\<close> reads from \<^verbatim>\<open>SUDO_UID\<close> and
  \<^verbatim>\<open>SUDO_GID\<close>, and whether \<^verbatim>\<open>fchown\<close> succeeds.
\<close>

record wos_t =
  os_stdout :: ofd_t
  os_wopen :: "string \<Rightarrow> int \<Rightarrow> bool \<Rightarrow> ofd_t option"
  os_uid :: nat
  os_sudo_uid :: "int option"
  os_sudo_gid :: "int option"
  os_fchown :: "int \<Rightarrow> int \<Rightarrow> bool"

definition safe_open :: "wos_t \<Rightarrow> bool \<Rightarrow> string \<Rightarrow> int \<Rightarrow> ofd_t option" where
  "safe_open os force_directio_write filename flags =
     (let fd0 = os_wopen os filename flags force_directio_write;
          fd1 = (case fd0 of None \<Rightarrow> os_wopen os filename flags False | Some f \<Rightarrow> Some f)
      in case fd1 of
          None \<Rightarrow> None
        | Some f \<Rightarrow>
            if os_uid os = 0
            then (let userid = (case os_sudo_uid os of None \<Rightarrow> 0 | Some u \<Rightarrow> u);
                      groupid = (case os_sudo_gid os of None \<Rightarrow> 0 | Some g \<Rightarrow> g)
                  in if userid \<noteq> 0 \<and> \<not> os_fchown os userid groupid then None else Some f)
            else Some f)"

definition stdio_wopen :: "wos_t \<Rightarrow> bool \<Rightarrow> string \<Rightarrow> int \<Rightarrow> stdiow_t option" where
  "stdio_wopen os force_directio_write filename flags =
     (if filename = ''-'' then Some \<lparr>wbuffer = [], wfd = os_stdout os\<rparr>
      else case safe_open os force_directio_write filename flags of
          None \<Rightarrow> None
        | Some f \<Rightarrow> Some \<lparr>wbuffer = [], wfd = f\<rparr>)"

section \<open>Writing\<close>

text \<open>
  One round of the \<^verbatim>\<open>while\<close> loop of \<open>stdio_wwrite\<close>: the vector for \<^verbatim>\<open>writev\<close> is made of
  the buffered bytes and of as much of the caller's data as completes a multiple of the block
  size; what the kernel took is dropped from both. \<open>None\<close> is a failed assertion; a result of
  \<open>-1\<close> is the error return.
\<close>

definition writev_round :: "stdiow_t \<Rightarrow> byte list \<Rightarrow> (int \<times> stdiow_t \<times> byte list) option" where
  "writev_round iow buffer =
     (let offset = length (wbuffer iow);
          towrite = length buffer;
          total = (offset + towrite) - (offset + towrite) mod MIN_WRITE_SIZE;
          iov0 = (if offset = 0 then [] else [take (min offset total) (wbuffer iow)]);
          amount1 = (if offset = 0 then total else total - min offset total);
          iov1 = (if towrite = 0 then [] else [take amount1 buffer]);
          amount2 = (if towrite = 0 then amount1 else 0);
          (err, f) = posix_writev (wfd iow) (iov0 @ iov1)
      in if amount2 \<noteq> 0 then None
         else if err = -1 then Some (-1, iow\<lparr>wfd := f\<rparr>, buffer)
         else let took = min offset (nat err);
                  written = nat err - took;
                  wb = drop took (wbuffer iow)
              in if written \<le> towrite \<and> wb = []
                 then Some (err, iow\<lparr>wbuffer := wb, wfd := f\<rparr>, drop written buffer)
                 else None)"

text \<open>What a round sends is the block-aligned prefix of the buffer followed by the data.\<close>

definition round_size :: "stdiow_t \<Rightarrow> byte list \<Rightarrow> nat" where
  "round_size iow buffer =
     (length (wbuffer iow) + length buffer) - (length (wbuffer iow) + length buffer) mod MIN_WRITE_SIZE"

lemma round_size_props:
  "round_size iow buffer \<le> length (wbuffer iow) + length buffer"
  "MIN_WRITE_SIZE dvd round_size iow buffer"
  "length (wbuffer iow) + length buffer - round_size iow buffer < MIN_WRITE_SIZE"
  "MIN_WRITE_SIZE \<le> length (wbuffer iow) + length buffer \<Longrightarrow> MIN_WRITE_SIZE \<le> round_size iow buffer"
proof -
  let ?n = "length (wbuffer iow) + length buffer"
  show "round_size iow buffer \<le> ?n" by (simp add: round_size_def)
  show dvd: "MIN_WRITE_SIZE dvd round_size iow buffer" by (simp add: round_size_def)
  have "?n mod MIN_WRITE_SIZE \<le> ?n" by simp
  then have "?n - round_size iow buffer = ?n mod MIN_WRITE_SIZE"
    unfolding round_size_def by linarith
  then show "?n - round_size iow buffer < MIN_WRITE_SIZE" by (simp add: MIN_WRITE_SIZE_def)
  then show "MIN_WRITE_SIZE \<le> round_size iow buffer" if "MIN_WRITE_SIZE \<le> ?n"
    using that dvd by (cases "round_size iow buffer = 0") (auto dest: dvd_imp_le)
qed

lemma writev_round_eq:
  assumes "posix_write (wfd iow) (take (round_size iow buffer) (wbuffer iow @ buffer)) = (err, f)"
  shows "writev_round iow buffer =
     (if buffer = [] \<and> length (wbuffer iow) < round_size iow buffer then None
      else if err = -1 then Some (-1, iow\<lparr>wfd := f\<rparr>, buffer)
      else if nat err - length (wbuffer iow) \<le> length buffer \<and> length (wbuffer iow) \<le> nat err
      then Some (err, iow\<lparr>wbuffer := [], wfd := f\<rparr>, drop (nat err - length (wbuffer iow)) buffer)
      else None)"
proof -
  let ?o = "length (wbuffer iow)" and ?t = "round_size iow buffer"
  have t: "(?o + length buffer) - (?o + length buffer) mod MIN_WRITE_SIZE = ?t"
    by (simp add: round_size_def)
  have "concat ((if ?o = 0 then [] else [take (min ?o ?t) (wbuffer iow)]) @
      (if length buffer = 0 then [] else [take (if ?o = 0 then ?t else ?t - min ?o ?t) buffer])) =
      take ?t (wbuffer iow @ buffer)"
    by (simp add: min_def)
  then have sent: "posix_writev (wfd iow)
      ((if ?o = 0 then [] else [take (min ?o ?t) (wbuffer iow)]) @
       (if length buffer = 0 then [] else [take (if ?o = 0 then ?t else ?t - min ?o ?t) buffer])) =
      (err, f)"
    using assms by (simp only: posix_writev_def)
  have left: "((if length buffer = 0 then (if ?o = 0 then ?t else ?t - min ?o ?t) else 0) \<noteq> 0) =
      (buffer = [] \<and> ?o < ?t)"
    by (auto simp: min_def)
  have took: "nat err - min ?o (nat err) = nat err - ?o"
      "(drop (min ?o (nat err)) (wbuffer iow) = []) = (?o \<le> nat err)"
    by (auto simp: min_def)
  show ?thesis
    unfolding writev_round_def Let_def t sent prod.case left took by auto
qed

text \<open>
  The loop. \<open>None\<close> is an aborted run (a failed assertion, or an \<open>int\<close> sum out of range).
  Otherwise the result is the new state, with \<open>None\<close> when the function returns \<open>-1\<close> from the
  loop and \<open>Some rest\<close> when the loop ends with \<open>rest\<close> still to be copied into the buffer.
\<close>

function stdio_wwrite_loop ::
  "stdiow_t \<Rightarrow> byte list \<Rightarrow> (stdiow_t \<times> byte list option) option" where
  "stdio_wwrite_loop iow buffer =
     (if 2 ^ 31 \<le> length (wbuffer iow) + length buffer then None
      else if MIN_WRITE_SIZE \<le> length (wbuffer iow) + length buffer then
        (case writev_round iow buffer of
            None \<Rightarrow> None
          | Some (err, iow', buffer') \<Rightarrow>
              if err = -1 then Some (iow', None) else stdio_wwrite_loop iow' buffer')
      else Some (iow, Some buffer))"
  by pat_completeness auto

text \<open>Every round uses up an event of the descriptor, or is complete and the last.\<close>

definition loop_measure :: "stdiow_t \<times> byte list \<Rightarrow> nat" where
  "loop_measure x = 2 * length (ofd_plan (wfd (fst x))) +
     (if MIN_WRITE_SIZE \<le> length (wbuffer (fst x)) + length (snd x) then 1 else 0)"

lemma writev_round_cases:
  assumes "writev_round iow buffer = Some (err, iow', buffer')"
  obtains (ok) k where "k \<le> round_size iow buffer" "err = int k" "length (wbuffer iow) \<le> k"
      "wbuffer iow' = []" "buffer' = drop (k - length (wbuffer iow)) buffer"
      "k - length (wbuffer iow) \<le> length buffer"
      "ofd_out (wfd iow') = ofd_out (wfd iow) @ take k (wbuffer iow @ buffer)"
      "ofd_open (wfd iow')"
      "ofd_plan (wfd iow) = [] \<and> ofd_plan (wfd iow') = [] \<and> k = round_size iow buffer \<or>
       length (ofd_plan (wfd iow')) < length (ofd_plan (wfd iow))"
    | (fail) "err = -1" "wbuffer iow' = wbuffer iow" "ofd_out (wfd iow') = ofd_out (wfd iow)"
      "buffer' = buffer"
proof -
  obtain e f where w: "posix_write (wfd iow) (take (round_size iow buffer) (wbuffer iow @ buffer)) = (e, f)"
    by fastforce
  note eq = assms [unfolded writev_round_eq [OF w]]
  from w show thesis
  proof (cases rule: posix_write_cases)
    case (ok k)
    have "k \<le> round_size iow buffer" using ok(1) by simp
    moreover have "take k (take (round_size iow buffer) (wbuffer iow @ buffer)) = take k (wbuffer iow @ buffer)"
      using calculation by (simp add: min_def)
    ultimately show thesis using eq ok round_size_props(1) [of iow buffer]
      by (intro that(1) [of k]) (auto split: if_splits)
  next
    case fail
    with eq show thesis by (intro that(2)) (auto split: if_splits)
  qed
qed

lemma writev_round_measure:
  assumes "writev_round iow buffer = Some (err, iow', buffer')" "err \<noteq> -1"
    and "MIN_WRITE_SIZE \<le> length (wbuffer iow) + length buffer"
  shows "loop_measure (iow', buffer') < loop_measure (iow, buffer)"
  using assms(1)
proof (cases rule: writev_round_cases)
  case (ok k)
  from ok(9) show ?thesis
  proof
    assume full: "ofd_plan (wfd iow) = [] \<and> ofd_plan (wfd iow') = [] \<and> k = round_size iow buffer"
    with ok round_size_props(3) [of iow buffer]
    have "length (wbuffer iow') + length buffer' < MIN_WRITE_SIZE" by simp
    with full assms(3) show ?thesis by (simp add: loop_measure_def)
  next
    assume "length (ofd_plan (wfd iow')) < length (ofd_plan (wfd iow))"
    with assms(3) show ?thesis by (simp add: loop_measure_def)
  qed
next
  case fail
  with assms(2) show ?thesis by simp
qed

termination stdio_wwrite_loop
  by (relation "measure loop_measure") (auto simp: writev_round_measure)

declare stdio_wwrite_loop.simps [simp del]

text \<open>\<open>int towrite = len\<close> keeps the low 32 bits of the length only.\<close>

definition stdio_wwrite :: "stdiow_t write_fn" where
  "stdio_wwrite iow buffer =
     (let len = int (length buffer); towrite = c_int len
      in if towrite < 0 then None
         else case stdio_wwrite_loop iow (take (nat towrite) buffer) of
             None \<Rightarrow> None
           | Some (iow', None) \<Rightarrow> Some (-1, iow')
           | Some (iow', Some rest) \<Rightarrow>
               if length (wbuffer iow') + length rest \<le> MIN_WRITE_SIZE
               then Some (len, iow'\<lparr>wbuffer := wbuffer iow' @ rest\<rparr>)
               else None)"

section \<open>Flushing and closing\<close>

text \<open>
  \<^verbatim>\<open>fcntl(F_GETFL)\<close> fails on a closed descriptor; otherwise \<^verbatim>\<open>O_DIRECT\<close> is switched
  off and the remainder is written in one \<^verbatim>\<open>write\<close>. The buffer is emptied whatever that
  \<^verbatim>\<open>write\<close> returned.
\<close>

definition stdio_wflush :: "stdiow_t flush_fn" where
  "stdio_wflush iow =
     (if \<not> ofd_open (wfd iow) then Some (-1, iow)
      else let (err, f) = posix_write ((wfd iow)\<lparr>ofd_direct := False\<rparr>) (wbuffer iow)
           in Some (err, iow\<lparr>wbuffer := [], wfd := f\<rparr>))"

definition stdio_wclose :: "stdiow_t \<Rightarrow> stdiow_t option" where
  "stdio_wclose iow =
     (case stdio_wflush iow of None \<Rightarrow> None
      | Some (_, iow') \<Rightarrow> Some (iow'\<lparr>wfd := posix_wclose (wfd iow')\<rparr>))"

definition stdio_wsource :: "stdiow_t iow_source_t" where
  "stdio_wsource = \<lparr>wsrc_name = ''stdiow'', wsrc_write = stdio_wwrite,
     wsrc_flush = stdio_wflush, wsrc_close = stdio_wclose\<rparr>"

section \<open>What the writer has accepted\<close>

definition stdio_sunk :: "stdiow_t \<Rightarrow> byte list" where
  "stdio_sunk iow = ofd_out (wfd iow) @ wbuffer iow"

definition stdio_winv :: "stdiow_t \<Rightarrow> bool" where
  "stdio_winv iow \<longleftrightarrow> ofd_open (wfd iow) \<and> ofd_plan (wfd iow) = [] \<and>
     length (wbuffer iow) < MIN_WRITE_SIZE"

lemma writev_round_sunk:
  assumes "writev_round iow buffer = Some (err, iow', buffer')" "err \<noteq> -1"
  shows "stdio_sunk iow' @ buffer' = stdio_sunk iow @ buffer"
  using assms(1)
proof (cases rule: writev_round_cases)
  case (ok k)
  then have "take k (wbuffer iow @ buffer) @ buffer' = wbuffer iow @ buffer" by simp
  with ok show ?thesis by (simp add: stdio_sunk_def)
next
  case fail
  with assms(2) show ?thesis by simp
qed

lemma writev_round_error:
  "writev_round iow buffer = Some (-1, iow', buffer') \<Longrightarrow> stdio_sunk iow' = stdio_sunk iow"
  by (erule writev_round_cases) (auto simp: stdio_sunk_def)

text \<open>
  Nothing is lost or reordered by the loop whatever the kernel does: at the end the data is in
  the file, in the buffer or still in hand; after an error what was accepted is a prefix.
\<close>

lemma stdio_wwrite_loop_sunk:
  "stdio_wwrite_loop iow buffer = Some (iow', res) \<Longrightarrow>
    (case res of
       Some rest \<Rightarrow> stdio_sunk iow' @ rest = stdio_sunk iow @ buffer \<and>
         length (wbuffer iow') + length rest < MIN_WRITE_SIZE
     | None \<Rightarrow> prefix (stdio_sunk iow') (stdio_sunk iow @ buffer) \<and>
         prefix (stdio_sunk iow) (stdio_sunk iow'))"
proof (induction iow buffer rule: stdio_wwrite_loop.induct)
  case (1 iow buffer)
  show ?case
  proof (cases "MIN_WRITE_SIZE \<le> length (wbuffer iow) + length buffer")
    case False
    with "1.prems" show ?thesis by (auto simp: stdio_wwrite_loop.simps [of iow] split: if_splits)
  next
    case more: True
    with "1.prems" obtain err iow1 buf1 where round: "writev_round iow buffer = Some (err, iow1, buf1)"
      by (auto simp: stdio_wwrite_loop.simps [of iow] split: if_splits option.splits)
    show ?thesis
    proof (cases "err = -1")
      case True
      with "1.prems" more round show ?thesis
        by (auto simp: stdio_wwrite_loop.simps [of iow] writev_round_error split: if_splits)
    next
      case False
      with "1.prems" more round have rec: "stdio_wwrite_loop iow1 buf1 = Some (iow', res)"
        and small: "\<not> 2 ^ 31 \<le> length (wbuffer iow) + length buffer"
        by (auto simp: stdio_wwrite_loop.simps [of iow] split: if_splits)
      have keep: "stdio_sunk iow1 @ buf1 = stdio_sunk iow @ buffer"
        using round False by (rule writev_round_sunk)
      have grow: "prefix (stdio_sunk iow) (stdio_sunk iow1)"
        using round False by (cases rule: writev_round_cases) (auto simp: stdio_sunk_def)
      from "1.IH" [OF small more round refl refl False rec] keep grow
      show ?thesis by (auto split: option.splits)
    qed
  qed
qed

text \<open>With no fault to come one round is enough, and it sends a multiple of the block size.\<close>

lemma writev_round_clean:
  assumes "stdio_winv iow" "MIN_WRITE_SIZE \<le> length (wbuffer iow) + length buffer"
  shows "writev_round iow buffer = Some (int (round_size iow buffer),
    iow\<lparr>wbuffer := [], wfd := (wfd iow)\<lparr>ofd_out := ofd_out (wfd iow) @
      take (round_size iow buffer) (wbuffer iow @ buffer)\<rparr>\<rparr>,
    drop (round_size iow buffer - length (wbuffer iow)) buffer)"
proof -
  let ?t = "round_size iow buffer"
  have le: "?t \<le> length (wbuffer iow) + length buffer" "length (wbuffer iow) \<le> ?t"
    using round_size_props [of iow buffer] assms by (auto simp: stdio_winv_def)
  have "buffer \<noteq> []" using assms by (auto simp: stdio_winv_def)
  moreover have "posix_write (wfd iow) (take ?t (wbuffer iow @ buffer)) =
      (int ?t, (wfd iow)\<lparr>ofd_out := ofd_out (wfd iow) @ take ?t (wbuffer iow @ buffer)\<rparr>)"
    using assms(1) length_take_append [OF le(1)]
    by (simp add: posix_write_def stdio_winv_def del: take_append)
  ultimately show ?thesis using le by (simp add: writev_round_eq)
qed

lemma stdio_wwrite_loop_clean:
  assumes "stdio_winv iow" "length (wbuffer iow) + length buffer < 2 ^ 31"
  obtains iow' rest where "stdio_wwrite_loop iow buffer = Some (iow', Some rest)"
    "ofd_open (wfd iow')" "ofd_plan (wfd iow') = []"
    "MIN_WRITE_SIZE dvd length (ofd_out (wfd iow')) - length (ofd_out (wfd iow))"
proof (cases "MIN_WRITE_SIZE \<le> length (wbuffer iow) + length buffer")
  case False
  with assms that [of iow buffer] show thesis
    by (simp add: stdio_wwrite_loop.simps stdio_winv_def)
next
  case True
  let ?t = "round_size iow buffer"
  define iow1 where "iow1 = iow\<lparr>wbuffer := [], wfd := (wfd iow)\<lparr>ofd_out := ofd_out (wfd iow) @
      take ?t (wbuffer iow @ buffer)\<rparr>\<rparr>"
  define buf1 where "buf1 = drop (?t - length (wbuffer iow)) buffer"
  have round: "writev_round iow buffer = Some (int ?t, iow1, buf1)"
    unfolding iow1_def buf1_def using assms(1) True by (rule writev_round_clean)
  have "length (wbuffer iow1) + length buf1 < MIN_WRITE_SIZE"
    using round_size_props(3) [of iow buffer] round_size_props(4) [OF True] assms(1)
    by (simp add: iow1_def buf1_def stdio_winv_def)
  then have "stdio_wwrite_loop iow1 buf1 = Some (iow1, Some buf1)"
    by (simp add: stdio_wwrite_loop.simps MIN_WRITE_SIZE_def)
  with round True assms(2) have "stdio_wwrite_loop iow buffer = Some (iow1, Some buf1)"
    by (simp add: stdio_wwrite_loop.simps [of iow])
  moreover have "length (ofd_out (wfd iow1)) - length (ofd_out (wfd iow)) = ?t"
    using length_take_append [OF round_size_props(1), of iow buffer]
    by (simp add: iow1_def del: take_append)
  moreover have "ofd_open (wfd iow1)" "ofd_plan (wfd iow1) = []"
    using assms(1) by (simp_all add: iow1_def stdio_winv_def)
  ultimately show thesis
    using that [of iow1 buf1] round_size_props(2) [of iow buffer] by simp
qed

lemma stdio_wwrite_clean:
  assumes "stdio_winv iow" "length bs < 2 ^ 30"
  obtains iow' where "stdio_wwrite iow bs = Some (int (length bs), iow')" "stdio_winv iow'"
    "stdio_sunk iow' = stdio_sunk iow @ bs"
    "MIN_WRITE_SIZE dvd length (ofd_out (wfd iow')) - length (ofd_out (wfd iow))"
proof -
  have "length (wbuffer iow) + length bs < 2 ^ 31"
    using assms by (simp add: stdio_winv_def MIN_WRITE_SIZE_def)
  from stdio_wwrite_loop_clean [OF assms(1) this] obtain iow1 rest where
    loop: "stdio_wwrite_loop iow bs = Some (iow1, Some rest)" "ofd_open (wfd iow1)"
      "ofd_plan (wfd iow1) = []"
      "MIN_WRITE_SIZE dvd length (ofd_out (wfd iow1)) - length (ofd_out (wfd iow))"
    by blast
  from stdio_wwrite_loop_sunk [OF loop(1)]
  have s: "stdio_sunk iow1 @ rest = stdio_sunk iow @ bs"
      "length (wbuffer iow1) + length rest < MIN_WRITE_SIZE" by simp_all
  have "c_int (int (length bs)) = int (length bs)" using assms(2) by (simp add: c_int_id_nat)
  with loop s show thesis
    by (intro that [of "iow1\<lparr>wbuffer := wbuffer iow1 @ rest\<rparr>"])
      (simp_all add: stdio_wwrite_def Let_def stdio_winv_def stdio_sunk_def)
qed

interpretation stdiow: flusher stdio_wwrite stdio_winv stdio_sunk stdio_wflush
proof (unfold_locales, goal_cases)
  case (1 w bs)
  then show ?case by (metis stdio_wwrite_clean)
next
  case (2 w)
  then show ?case
    by (simp add: stdio_wflush_def posix_write_def stdio_winv_def stdio_sunk_def MIN_WRITE_SIZE_def)
qed

text \<open>After a successful close everything accepted is in the file.\<close>

lemma stdio_wclose_clean:
  "stdio_winv iow \<Longrightarrow>
    \<exists>iow'. stdio_wclose iow = Some iow' \<and> ofd_out (wfd iow') = stdio_sunk iow \<and>
      \<not> ofd_open (wfd iow')"
  by (simp add: stdio_wclose_def stdio_wflush_def posix_write_def stdio_winv_def stdio_sunk_def
      posix_wclose_def)

section \<open>Properties\<close>

text \<open>C29: whatever short and failed transfers the kernel produces, a \<open>stdio_wwrite\<close> that returns
  has either accepted all the bytes, in order and with less than a block left in the buffer, or
  has returned \<open>-1\<close> having accepted a prefix of them; bytes already accepted are never lost,
  duplicated or reordered.\<close>

theorem stdio_wwrite_conserves:
  assumes "stdio_wwrite iow bs = Some (r, iow')" "length bs < 2 ^ 31"
  shows "r = int (length bs) \<and> stdio_sunk iow' = stdio_sunk iow @ bs \<and>
      length (wbuffer iow') < MIN_WRITE_SIZE \<or>
    r = -1 \<and> (\<exists>k. stdio_sunk iow' = stdio_sunk iow @ take k bs)"
proof -
  have c: "c_int (int (length bs)) = int (length bs)" using assms(2) by (rule c_int_id_nat)
  with assms(1) obtain iow1 res where loop: "stdio_wwrite_loop iow bs = Some (iow1, res)"
    by (auto simp: stdio_wwrite_def Let_def split: option.splits)
  note sunk = stdio_wwrite_loop_sunk [OF loop]
  show ?thesis
  proof (cases res)
    case None
    with sunk obtain zs ys where "stdio_sunk iow1 = stdio_sunk iow @ zs" "bs = zs @ ys"
      by (auto simp: prefix_def)
    then have "stdio_sunk iow1 = stdio_sunk iow @ take (length zs) bs" by simp
    moreover have "r = -1" "iow' = iow1"
      using assms(1) c loop None by (auto simp: stdio_wwrite_def Let_def)
    ultimately show ?thesis by blast
  next
    case (Some rest)
    with sunk have "stdio_sunk iow1 @ rest = stdio_sunk iow @ bs"
      "length (wbuffer iow1) + length rest < MIN_WRITE_SIZE" by simp_all
    moreover have "r = int (length bs)" "iow' = iow1\<lparr>wbuffer := wbuffer iow1 @ rest\<rparr>"
      using assms(1) c loop Some by (auto simp: stdio_wwrite_def Let_def split: if_splits)
    ultimately show ?thesis by (simp add: stdio_sunk_def)
  qed
qed

definition demo_ofd :: "io_event list \<Rightarrow> ofd_t" where
  "demo_ofd plan = \<lparr>ofd_out = [], ofd_open = True, ofd_direct = False, ofd_plan = plan\<rparr>"

definition demo_iow :: "io_event list \<Rightarrow> stdiow_t" where
  "demo_iow plan = \<lparr>wbuffer = [1, 2], wfd = demo_ofd plan\<rparr>"

theorem stdio_wwrite_conserves_witness:
  "stdio_wwrite (demo_iow []) [3] = Some (1, (demo_iow [])\<lparr>wbuffer := [1, 2, 3]\<rparr>) \<and>
   stdio_sunk ((demo_iow [])\<lparr>wbuffer := [1, 2, 3]\<rparr>) = [1, 2, 3]"
proof -
  have run: "stdio_wwrite (demo_iow []) [3] = Some (1, (demo_iow [])\<lparr>wbuffer := [1, 2, 3]\<rparr>)"
    by (simp add: stdio_wwrite_def stdio_wwrite_loop.simps demo_iow_def MIN_WRITE_SIZE_def c_int_def)
  from stdio_wwrite_conserves [OF run] run show ?thesis
    by (simp add: stdio_sunk_def demo_iow_def demo_ofd_def)
qed

text \<open>On a descriptor with no faults to come every write is accepted whole, and the bytes it
  sends to the file are a whole number of 4096-byte blocks, as \<^verbatim>\<open>O_DIRECT\<close> requires; less
  than a block stays behind in the buffer.\<close>

theorem stdio_wwrite_block_aligned:
  assumes "stdio_winv iow" "length bs < 2 ^ 30"
  shows "\<exists>iow'. stdio_wwrite iow bs = Some (int (length bs), iow') \<and> stdio_winv iow' \<and>
    ofd_out (wfd iow') @ wbuffer iow' = ofd_out (wfd iow) @ wbuffer iow @ bs \<and>
    MIN_WRITE_SIZE dvd length (ofd_out (wfd iow')) - length (ofd_out (wfd iow))"
  using stdio_wwrite_clean [OF assms] by (metis stdio_sunk_def append.assoc)

theorem stdio_wwrite_block_aligned_witness:
  "\<exists>iow'. stdio_wwrite (demo_iow []) (replicate 5000 7) = Some (5000, iow') \<and>
     MIN_WRITE_SIZE dvd length (ofd_out (wfd iow'))"
proof -
  have inv: "stdio_winv (demo_iow [])"
    by (simp add: stdio_winv_def demo_iow_def demo_ofd_def MIN_WRITE_SIZE_def)
  have small: "length (replicate 5000 (7::byte)) < 2 ^ 30" by simp
  from stdio_wwrite_block_aligned [OF inv small] show ?thesis
    by (auto simp: demo_iow_def demo_ofd_def)
qed

text \<open>\<^verbatim>\<open>int towrite = len\<close> truncates. A write of \<open>2 ^ 32 * q + j\<close> bytes (with \<open>j\<close> below
  1 GiB) is reported as complete although only its first \<open>j\<close> bytes are accepted; for \<open>j = 0\<close>
  nothing is written at all.\<close>

theorem stdio_wwrite_truncates_length:
  assumes "stdio_winv iow" "length bs = 2 ^ 32 * q + j" "j < 2 ^ 30"
  shows "\<exists>iow'. stdio_wwrite iow bs = Some (int (length bs), iow') \<and>
    stdio_sunk iow' = stdio_sunk iow @ take j bs"
proof -
  have c: "c_int (int (length bs)) = int j"
    using assms(2,3) c_int_periodic [of "int j" "int q"] by (simp add: c_int_id_nat algebra_simps)
  have len: "length (take j bs) = j" using assms(2) by simp
  from len assms(3) have "length (take j bs) < 2 ^ 30" by simp
  from stdio_wwrite_clean [OF assms(1) this] obtain iow' where
    w: "stdio_wwrite iow (take j bs) = Some (int (length (take j bs)), iow')"
      "stdio_sunk iow' = stdio_sunk iow @ take j bs" by blast
  have "c_int (int (length (take j bs))) = int j"
    using assms(3) len by (simp add: c_int_id_nat)
  with w(1) len have "stdio_wwrite iow bs = Some (int (length bs), iow')"
    by (auto simp: stdio_wwrite_def Let_def c split: option.splits if_splits)
  with w(2) show ?thesis by blast
qed

theorem stdio_wwrite_truncates_length_witness:
  "\<exists>iow'. stdio_wwrite (demo_iow []) (replicate (2 ^ 32) 0) = Some (2 ^ 32, iow') \<and>
     stdio_sunk iow' = [1, 2]"
proof -
  have inv: "stdio_winv (demo_iow [])"
    by (simp add: stdio_winv_def demo_iow_def demo_ofd_def MIN_WRITE_SIZE_def)
  have len: "length (replicate (2 ^ 32) (0::byte)) = 2 ^ 32 * 1 + 0" by simp
  have "stdio_sunk (demo_iow []) = [1, 2]" by (simp add: stdio_sunk_def demo_iow_def demo_ofd_def)
  with stdio_wwrite_truncates_length [OF inv len] show ?thesis
    by simp
qed

text \<open>A short \<^verbatim>\<open>writev\<close> that takes less than the bytes waiting in the buffer, which
  POSIX allows, makes the assertion \<^verbatim>\<open>offset == 0\<close> fail: the process aborts.\<close>

theorem stdio_wwrite_aborts_on_short_writev:
  assumes "ofd_open (wfd iow)" "ofd_plan (wfd iow) = Short k # ps" "k < length (wbuffer iow)"
    and "length (wbuffer iow) < MIN_WRITE_SIZE" "MIN_WRITE_SIZE \<le> length (wbuffer iow) + length bs"
    and "length bs < 2 ^ 30"
  shows "stdio_wwrite iow bs = None"
proof -
  let ?t = "round_size iow bs"
  have "length (wbuffer iow) \<le> ?t" using assms(4) round_size_props(4) [OF assms(5)] by simp
  then obtain f where "posix_write (wfd iow) (take ?t (wbuffer iow @ bs)) = (int k, f)"
    using assms(1-3) by (simp add: posix_write_def min_def)
  then have "writev_round iow bs = None" using assms(3) by (simp add: writev_round_eq)
  moreover have "length (wbuffer iow) + length bs < 2 ^ 31"
    using assms(4,6) by (simp add: MIN_WRITE_SIZE_def)
  ultimately have "stdio_wwrite_loop iow bs = None"
    using assms(5) by (simp add: stdio_wwrite_loop.simps)
  with assms(6) show ?thesis by (simp add: stdio_wwrite_def Let_def c_int_id_nat)
qed

theorem stdio_wwrite_aborts_on_short_writev_witness:
  "stdio_wwrite (demo_iow [Short 1]) (replicate 4096 0) = None"
  by (rule stdio_wwrite_aborts_on_short_writev [where k = 1 and ps = "[]"])
    (simp_all add: demo_iow_def demo_ofd_def MIN_WRITE_SIZE_def)

text \<open>\<open>stdio_wflush\<close> makes one \<^verbatim>\<open>write\<close> and empties the buffer whatever it returned: with
  a short write of \<open>k\<close> bytes the file gets the first \<open>k\<close> and the rest is lost, with a failed
  one everything buffered is lost; \<open>-1\<close> or the short count is the only trace.\<close>

theorem stdio_wflush_drops_buffer:
  assumes "ofd_open (wfd iow)" "stdio_wflush iow = Some (r, iow')"
  shows "wbuffer iow' = [] \<and> ofd_out (wfd iow') = ofd_out (wfd iow) @ take (nat r) (wbuffer iow) \<and>
    (r = -1 \<or> 0 \<le> r \<and> r \<le> int (length (wbuffer iow)))"
proof -
  obtain f where w: "posix_write ((wfd iow)\<lparr>ofd_direct := False\<rparr>) (wbuffer iow) = (r, f)"
    and iow': "iow' = iow\<lparr>wbuffer := [], wfd := f\<rparr>"
    using assms by (auto simp: stdio_wflush_def split: prod.splits)
  from w show ?thesis by (cases rule: posix_write_cases) (auto simp: iow')
qed

theorem stdio_wflush_drops_buffer_witness:
  "\<exists>iow'. stdio_wflush (demo_iow [Short 1]) = Some (1, iow') \<and> wbuffer iow' = [] \<and>
     ofd_out (wfd iow') = [1]"
proof -
  have opened: "ofd_open (wfd (demo_iow [Short 1]))" by (simp add: demo_iow_def demo_ofd_def)
  obtain iow' where run: "stdio_wflush (demo_iow [Short 1]) = Some (1, iow')"
    by (simp add: stdio_wflush_def demo_iow_def demo_ofd_def posix_write_def)
  from stdio_wflush_drops_buffer [OF opened run] run show ?thesis
    by (simp add: demo_iow_def demo_ofd_def)
qed

end
