(* ===== verification/Peek_Reader.thy ===== *)
theory Peek_Reader
  imports Wandio_Io Stdio_Reader
begin

text \<open>
  \<^verbatim>\<open>lib/ior-peek.c\<close>: the peeking reader that wraps every other reader. It keeps a buffer
  of bytes already taken from its child; \<open>peek\<close> fills the buffer and shows its front,
  \<open>read\<close> hands it out first. Memory is modelled far enough to see invalid accesses: the
  buffer pointer is null, a live block (its capacity and the bytes stored so far), or dangling.
  \<open>alloc size\<close> is the result code of \<^verbatim>\<open>posix_memalign\<close> for that size (0 is success).
\<close>

definition MIN_READ_SIZE :: nat where
  "MIN_READ_SIZE = 4096"

definition PEEK_SIZE :: nat where
  "PEEK_SIZE = WANDIO_BUFFER_SIZE"

datatype cbuf = Null | Live (cap: nat) (stored: "byte list") | Dangling

record 'c peek_t =
  child :: 'c
  pbuffer :: cbuf
  plength :: int
  poffset :: int

definition peek_open :: "'c option \<Rightarrow> 'c peek_t option" where
  "peek_open c = (case c of None \<Rightarrow> None
     | Some ch \<Rightarrow> Some \<lparr>child = ch, pbuffer = Null, plength = 0, poffset = 0\<rparr>)"

text \<open>Reading \<open>n\<close> stored bytes at \<open>off\<close>: \<open>None\<close> is an access outside what was stored.\<close>

definition cbuf_slice :: "cbuf \<Rightarrow> int \<Rightarrow> nat \<Rightarrow> byte list option" where
  "cbuf_slice b off n =
     (case b of
        Live c d \<Rightarrow> if 0 \<le> off \<and> nat off + n \<le> length d then Some (take n (drop (nat off) d)) else None
      | _ \<Rightarrow> if n = 0 then Some [] else None)"

section \<open>Refilling\<close>

text \<open>
  \<open>refill_buffer\<close>: the size is the largest of the request, \<open>PEEK_SIZE\<close> and the current
  length, rounded up to a multiple of \<open>MIN_READ_SIZE\<close>. When \<^verbatim>\<open>posix_memalign\<close> fails the old
  block has already been freed and the fields already changed.
\<close>

definition refill_size :: "'c peek_t \<Rightarrow> nat \<Rightarrow> nat" where
  "refill_size io len =
     (let b0 = (if len < PEEK_SIZE then PEEK_SIZE else len);
          b1 = (if int b0 < plength io then nat (plength io) else b0)
      in b1 + (MIN_READ_SIZE - b1 mod MIN_READ_SIZE))"

definition refill_buffer ::
  "'c read_fn \<Rightarrow> (nat \<Rightarrow> int) \<Rightarrow> 'c peek_t \<Rightarrow> nat \<Rightarrow> (int \<times> 'c peek_t) option" where
  "refill_buffer rd alloc io len =
     do { c_assert (plength io - poffset io = 0);
          let bytes_read = refill_size io len;
          let grow = plength io < int bytes_read;
          c_assert (\<not> (grow \<and> pbuffer io = Dangling));
          if grow \<and> alloc bytes_read \<noteq> 0
          then Some (-1, io\<lparr>pbuffer := (if pbuffer io = Null then Null else Dangling),
                            plength := int bytes_read, poffset := 0\<rparr>)
          else do {
            let io1 = (if grow then io\<lparr>pbuffer := Live bytes_read [], plength := int bytes_read,
                                      poffset := 0\<rparr>
                       else io\<lparr>plength := int bytes_read\<rparr>);
            c_assert (pbuffer io1 \<noteq> Null);
            c_assert (pbuffer io1 \<noteq> Dangling \<and> bytes_read \<le> cap (pbuffer io1));
            (r, bs, c) \<leftarrow> rd (child io1) 0 bytes_read;
            Some (r, io1\<lparr>child := c, pbuffer := Live (cap (pbuffer io1)) bs, poffset := 0,
                         plength := r\<rparr>) } }"

section \<open>Reading\<close>

text \<open>The end of \<open>peek_read\<close>: a used-up buffer is freed.\<close>

definition free_if_used :: "'c peek_t \<Rightarrow> 'c peek_t option" where
  "free_if_used io =
     (if pbuffer io \<noteq> Null \<and> plength io \<le> poffset io
      then do { c_assert (pbuffer io \<noteq> Dangling);
                Some (io\<lparr>pbuffer := Null, poffset := 0, plength := 0\<rparr>) }
      else Some io)"

text \<open>The first part: whatever the buffer holds is copied out.\<close>

definition take_buffered :: "'c peek_t \<Rightarrow> nat \<Rightarrow> (byte list \<times> 'c peek_t) option" where
  "take_buffered io len =
     (if pbuffer io \<noteq> Null \<and> plength io \<noteq> 0
      then let ret = min len (nat (plength io - poffset io))
           in do { bs \<leftarrow> cbuf_slice (pbuffer io) (poffset io) ret;
                   c_assert (pbuffer io \<noteq> Dangling);
                   Some (bs, io\<lparr>poffset := poffset io + int ret\<rparr>) }
      else Some ([], io))"

definition peek_read :: "'c read_fn \<Rightarrow> (nat \<Rightarrow> int) \<Rightarrow> 'c peek_t read_fn" where
  "peek_read rd alloc io buffer len =
     (if plength io < 0 then Some (plength io, [], io)
      else do {
        (got, io1) \<leftarrow> take_buffered io len;
        let ret = length got;
        let len1 = len - ret;
        if 0 < len1 then do {
          c_assert (plength io1 - poffset io1 = 0);
          if len1 mod MIN_READ_SIZE = 0 \<and> (buffer + ret) mod 4096 = 0 then do {
            (r, bs, c) \<leftarrow> rd (child io1) (buffer + ret) len1;
            let io2 = io1\<lparr>child := c\<rparr>;
            if r < 1 then Some (if 0 < ret then (int ret, got, io2) else (r, [], io2))
            else do { io3 \<leftarrow> free_if_used io2; Some (int ret + r, got @ bs, io3) } }
          else do {
            (r, io2) \<leftarrow> refill_buffer rd alloc io1 len1;
            if r < 1 then Some (if 0 < ret then (int ret, got, io2) else (r, [], io2))
            else do {
              let k = min len1 (nat r);
              bs \<leftarrow> cbuf_slice (pbuffer io2) 0 k;
              io3 \<leftarrow> free_if_used (io2\<lparr>poffset := int k\<rparr>);
              Some (int ret + int k, got @ bs, io3) } } }
        else do { io3 \<leftarrow> free_if_used io1; Some (int ret, got, io3) } })"

section \<open>Peeking\<close>

text \<open>
  \<open>alignedrealloc\<close> with its \<^verbatim>\<open>size_t\<close> arguments: conversion of an \<^verbatim>\<open>int64_t\<close> keeps
  non-negative values and turns a negative one into a huge size.
\<close>

definition size_t :: "int \<Rightarrow> int" where
  "size_t x = (if x < 0 then x + 2 ^ 64 else x)"

definition alignedrealloc ::
  "(nat \<Rightarrow> int) \<Rightarrow> cbuf \<Rightarrow> int \<Rightarrow> int \<Rightarrow> (cbuf \<times> int) option" where
  "alignedrealloc alloc old oldlen newlen =
     (let oldsize = size_t oldlen; size = size_t newlen
      in if size < oldsize then Some (old, 0)
         else if alloc (nat size) \<noteq> 0 then Some (Null, alloc (nat size))
         else do { c_assert (oldsize < size);
                   d \<leftarrow> cbuf_slice old 0 (nat oldsize);
                   c_assert (old \<noteq> Dangling);
                   Some (Live (nat size) d, 0) })"

text \<open>What \<open>peek_peek\<close> asks of the child: enough for the request, up to a multiple of
  \<open>PEEK_SIZE\<close> in total.\<close>

definition peek_amount :: "'c peek_t \<Rightarrow> nat \<Rightarrow> int" where
  "peek_amount io len =
     (let need = int len - (plength io - poffset io)
      in need + (int PEEK_SIZE - (plength io + need) mod int PEEK_SIZE))"

text \<open>The read extends the block at \<open>length\<close>: it must lie inside the block.\<close>

definition peek_peek :: "'c read_fn \<Rightarrow> (nat \<Rightarrow> int) \<Rightarrow> 'c peek_t read_fn" where
  "peek_peek rd alloc io buffer len =
     do { (r, io1) \<leftarrow>
            (if plength io - poffset io < int len then do {
               let read_amount = peek_amount io len;
               (b, res) \<leftarrow> alignedrealloc alloc (pbuffer io) (plength io) (plength io + read_amount);
               if b = Null then Some (Inl res, io\<lparr>pbuffer := b\<rparr>)
               else do {
                 c_assert (0 \<le> plength io \<and> b \<noteq> Dangling \<and> nat (plength io + read_amount) \<le> cap b);
                 (r, bs, c) \<leftarrow> rd (child io) (nat (plength io)) (nat read_amount);
                 if r < 0 then Some (Inl r, io\<lparr>pbuffer := b, child := c\<rparr>)
                 else Some (Inr (), io\<lparr>pbuffer := Live (cap b) (stored b @ bs), child := c,
                                       plength := plength io + r\<rparr>) } }
             else Some (Inr (), io));
          case r of
            Inl e \<Rightarrow> Some (e, [], io1)
          | Inr _ \<Rightarrow> do {
              let ret = min len (nat (plength io1 - poffset io1));
              bs \<leftarrow> cbuf_slice (pbuffer io1) (poffset io1) ret;
              Some (int ret, bs, io1) } }"

section \<open>Position, seeking, closing\<close>

text \<open>\<open>peek_tell\<close> and \<open>peek_seek\<close> only ask the child.\<close>

definition peek_tell :: "'c io_source_t \<Rightarrow> 'c peek_t \<Rightarrow> int" where
  "peek_tell csrc io = wandio_tell csrc (child io)"

definition peek_seek :: "'c io_source_t \<Rightarrow> 'c peek_t seek_fn" where
  "peek_seek csrc io offset wh =
     map_option (\<lambda>(r, c). (r, io\<lparr>child := c\<rparr>)) (wandio_seek csrc (child io) offset wh)"

definition peek_close :: "'c io_source_t \<Rightarrow> 'c peek_t \<Rightarrow> 'c peek_t" where
  "peek_close csrc io = io\<lparr>child := src_close csrc (child io), pbuffer := Null\<rparr>"

definition peek_source :: "'c io_source_t \<Rightarrow> (nat \<Rightarrow> int) \<Rightarrow> 'c peek_t io_source_t" where
  "peek_source csrc alloc = \<lparr>src_name = ''peek'', src_read = peek_read (src_read csrc) alloc,
     src_peek = Some (peek_peek (wandio_read csrc) alloc), src_tell = Some (peek_tell csrc),
     src_seek = Some (peek_seek csrc), src_close = peek_close csrc\<rparr>"

section \<open>Invariant and abstraction\<close>

text \<open>
  The buffer is absent with both counters at 0, or live with \<open>length\<close> stored bytes and the
  offset inside them, or live and empty after a failed refill (negative \<open>length\<close>: the error is
  sticky). What the reader owes is the unread part of the buffer followed by what the child owes.
\<close>

definition peek_shape :: "'c peek_t \<Rightarrow> bool" where
  "peek_shape io =
     (case pbuffer io of
        Null \<Rightarrow> plength io = 0 \<and> poffset io = 0
      | Live c d \<Rightarrow> (plength io < 0 \<and> - (2 ^ 31) \<le> plength io \<and> poffset io = 0 \<and> d = []) \<or>
          (0 \<le> poffset io \<and> poffset io \<le> plength io \<and> plength io = int (length d) \<and> length d \<le> c)
      | Dangling \<Rightarrow> False)"

definition peek_buffered :: "'c peek_t \<Rightarrow> byte list" where
  "peek_buffered io = (case pbuffer io of Live c d \<Rightarrow> drop (nat (poffset io)) d | _ \<Rightarrow> [])"

definition peek_ready :: "'c peek_t \<Rightarrow> bool" where
  "peek_ready io \<longleftrightarrow> 0 \<le> plength io"

definition peek_inv :: "('c \<Rightarrow> bool) \<Rightarrow> 'c peek_t \<Rightarrow> bool" where
  "peek_inv cinv io \<longleftrightarrow> peek_shape io \<and> cinv (child io)"

definition peek_pending :: "('c \<Rightarrow> byte list) \<Rightarrow> 'c peek_t \<Rightarrow> byte list" where
  "peek_pending cpending io = peek_buffered io @ cpending (child io)"

text \<open>The requested size is a positive multiple of 4096 that exceeds the old length, so a
  refill always allocates.\<close>

lemma refill_size_props:
  "MIN_READ_SIZE dvd refill_size io len" "plength io < int (refill_size io len)"
  "len < refill_size io len" "PEEK_SIZE < refill_size io len"
proof -
  have round: "MIN_READ_SIZE dvd b + (MIN_READ_SIZE - b mod MIN_READ_SIZE)"
    "b < b + (MIN_READ_SIZE - b mod MIN_READ_SIZE)" for b
  proof -
    have M: "0 < MIN_READ_SIZE" by (simp add: MIN_READ_SIZE_def)
    have lt: "b mod MIN_READ_SIZE < MIN_READ_SIZE" using M by simp
    then show "b < b + (MIN_READ_SIZE - b mod MIN_READ_SIZE)" by simp
    have "b mod MIN_READ_SIZE \<le> b" by simp
    then have up: "b + (MIN_READ_SIZE - b mod MIN_READ_SIZE) = (b - b mod MIN_READ_SIZE) + MIN_READ_SIZE"
      using lt by linarith
    show "MIN_READ_SIZE dvd b + (MIN_READ_SIZE - b mod MIN_READ_SIZE)"
      unfolding up by (intro dvd_add dvd_minus_mod dvd_refl)
  qed
  let ?b0 = "if len < PEEK_SIZE then PEEK_SIZE else len"
  let ?b1 = "if int ?b0 < plength io then nat (plength io) else ?b0"
  have eq: "refill_size io len = ?b1 + (MIN_READ_SIZE - ?b1 mod MIN_READ_SIZE)"
    by (simp add: refill_size_def Let_def)
  show "MIN_READ_SIZE dvd refill_size io len" unfolding eq by (rule round)
  have "?b1 < refill_size io len" unfolding eq by (rule round)
  then show "plength io < int (refill_size io len)" "len < refill_size io len"
    "PEEK_SIZE < refill_size io len"
    by (auto split: if_splits)
qed

abbreviation alloc_ok :: "nat \<Rightarrow> int" where
  "alloc_ok \<equiv> (\<lambda>_. 0)"

lemma cbuf_slice_shape:
  assumes "peek_shape io" "peek_ready io" "n \<le> nat (plength io - poffset io)"
  shows "cbuf_slice (pbuffer io) (poffset io) n = Some (take n (peek_buffered io))"
  using assms by (auto simp: cbuf_slice_def peek_shape_def peek_buffered_def peek_ready_def
      split: cbuf.splits)

lemma length_peek_buffered:
  "peek_shape io \<Longrightarrow> peek_ready io \<Longrightarrow> length (peek_buffered io) = nat (plength io - poffset io)"
  by (auto simp: peek_shape_def peek_buffered_def peek_ready_def split: cbuf.splits)

lemma take_buffered_ok:
  assumes "peek_shape io" "peek_ready io"
  obtains got io1 where "take_buffered io len = Some (got, io1)"
    "got = take len (peek_buffered io)" "peek_buffered io1 = drop len (peek_buffered io)"
    "peek_shape io1" "peek_ready io1" "child io1 = child io" "plength io1 = plength io"
proof (cases "pbuffer io \<noteq> Null \<and> plength io \<noteq> 0")
  case False
  then have "peek_buffered io = []" using assms
    by (auto simp: peek_shape_def peek_buffered_def split: cbuf.splits)
  with False assms show thesis by (intro that [of "[]" io]) (auto simp: take_buffered_def)
next
  case True
  let ?ret = "min len (nat (plength io - poffset io))"
  let ?io1 = "io\<lparr>poffset := poffset io + int ?ret\<rparr>"
  have slice: "cbuf_slice (pbuffer io) (poffset io) ?ret = Some (take ?ret (peek_buffered io))"
    using assms by (intro cbuf_slice_shape) auto
  have "take ?ret (peek_buffered io) = take len (peek_buffered io)"
    using length_peek_buffered [OF assms] by (simp add: min_def)
  moreover have "pbuffer io \<noteq> Dangling" using assms by (auto simp: peek_shape_def)
  moreover have "peek_buffered ?io1 = drop len (peek_buffered io)" "peek_shape ?io1" "peek_ready ?io1"
    using assms True
    by (auto simp: peek_shape_def peek_buffered_def peek_ready_def min_def nat_add_distrib
        add.commute split: cbuf.splits)
  ultimately show thesis using slice True
    by (intro that [of "take len (peek_buffered io)" ?io1]) (simp_all add: take_buffered_def Let_def)
qed

lemma free_if_used_ok:
  assumes "peek_shape io" "peek_ready io"
  obtains io1 where "free_if_used io = Some io1" "peek_buffered io1 = peek_buffered io"
    "peek_shape io1" "peek_ready io1" "child io1 = child io"
proof (cases "pbuffer io \<noteq> Null \<and> plength io \<le> poffset io")
  case True
  with assms show thesis
    by (intro that [of "io\<lparr>pbuffer := Null, poffset := 0, plength := 0\<rparr>"])
      (auto simp: free_if_used_def peek_shape_def peek_buffered_def peek_ready_def split: cbuf.splits)
next
  case False
  with assms show thesis by (intro that [of io]) (auto simp: free_if_used_def)
qed

lemma refill_buffer_eq:
  assumes "peek_shape io" "peek_ready io" "plength io = poffset io"
    and "rd (child io) 0 (refill_size io len) = Some (r, bs, c)"
  shows "refill_buffer rd alloc_ok io len =
    Some (r, io\<lparr>child := c, pbuffer := Live (refill_size io len) bs, poffset := 0, plength := r\<rparr>)"
  using assms refill_size_props(2) [of io len]
  by (auto simp: refill_buffer_def peek_shape_def Let_def split: cbuf.splits)

section \<open>The peeking reader over a correct child\<close>

locale peek_call = child: reader rd cinv cpending served
  for rd :: "'c read_fn" and cinv cpending served
begin

lemma refill_read:
  assumes "peek_inv cinv io" "peek_ready io" "peek_buffered io = []" "plength io = poffset io" "0 < n"
    and "served (refill_size io n)"
  shows "(\<exists>r io2. refill_buffer rd alloc_ok io n = Some (r, io2) \<and> r < 1 \<and> - (2 ^ 31) \<le> r \<and> peek_inv cinv io2 \<and>
      peek_pending cpending io2 = peek_pending cpending io \<and> (r = 0 \<longrightarrow> peek_pending cpending io = [])) \<or>
    (\<exists>bs c. refill_buffer rd alloc_ok io n = Some (int (length bs),
        io\<lparr>child := c, pbuffer := Live (refill_size io n) bs, poffset := 0, plength := int (length bs)\<rparr>) \<and>
      bs \<noteq> [] \<and> length bs \<le> refill_size io n \<and> cinv c \<and>
      peek_pending cpending io = bs @ cpending c)"
proof -
  from assms have shape: "peek_shape io" and ci: "cinv (child io)" by (auto simp: peek_inv_def)
  have pend: "peek_pending cpending io = cpending (child io)"
    using assms(3) by (simp add: peek_pending_def)
  have pos: "refill_size io n \<noteq> 0" using refill_size_props(3) [of n io] by simp
  note eq = refill_buffer_eq [OF shape assms(2,4), where rd = rd and len = n]
  from ci assms(6) show ?thesis
  proof (cases rule: child.rd_cases [where a = 0])
    case (data bs c)
    with eq pend show ?thesis by (intro disjI2 exI [of _ bs] exI [of _ c]) auto
  next
    case (eof c)
    note run = eq [OF eof(1)]
    from eof pos pend show ?thesis
      by - (intro disjI1 exI conjI, rule run,
        auto simp: peek_inv_def peek_shape_def peek_pending_def peek_buffered_def)
  next
    case (err r c)
    note run = eq [OF err(1)]
    from err pend show ?thesis
      by - (intro disjI1 exI conjI, rule run,
        auto simp: peek_inv_def peek_shape_def peek_pending_def peek_buffered_def)
  qed
qed

text \<open>The child gave nothing: what was buffered is returned, or the child's result.\<close>

lemma short_outcome:
  assumes "peek_pending cpending io = got @ peek_pending cpending io1" "length got \<le> n"
    and "peek_pending cpending io2 = peek_pending cpending io1" "peek_inv cinv io2"
    and "r < 1" "- (2 ^ 31) \<le> r" "r = 0 \<longrightarrow> peek_pending cpending io1 = []"
  shows "read_outcome (peek_inv cinv) (peek_pending cpending) io n
    (Some (if 0 < length got then (int (length got), got, io2) else (r, [], io2)))"
proof (cases "got = []")
  case False
  with assms show ?thesis
    by (intro read_outcome_data [where s' = io2 and bs = got and r = "int (length got)"]) simp_all
next
  case empty: True
  show ?thesis
  proof (cases "r = 0")
    case True
    with empty assms show ?thesis
      by (intro read_outcome_data [where s' = io2 and bs = "[]" and r = 0]) simp_all
  next
    case False
    with empty assms show ?thesis
      by (intro read_outcome_err [where s' = io2 and r = r]) simp_all
  qed
qed

lemma peek_inv_child: "peek_inv cinv io \<Longrightarrow> cinv c \<Longrightarrow> peek_inv cinv (io\<lparr>child := c\<rparr>)"
  by (auto simp: peek_inv_def peek_shape_def split: cbuf.splits)

lemma peek_pending_child:
  "peek_pending cpending (io\<lparr>child := c\<rparr>) = peek_buffered io @ cpending c"
  by (simp add: peek_pending_def peek_buffered_def split: cbuf.splits)

lemma free_if_used_inv:
  assumes "peek_inv cinv io" "peek_ready io"
  obtains io' where "free_if_used io = Some io'" "peek_inv cinv io'"
    "peek_pending cpending io' = peek_pending cpending io"
proof -
  from assms have "peek_shape io" by (simp add: peek_inv_def)
  from free_if_used_ok [OF this assms(2)] obtain io1 where "free_if_used io = Some io1"
    "peek_buffered io1 = peek_buffered io" "peek_shape io1" "child io1 = child io" by blast
  with assms(1) show thesis by (intro that [of io1]) (auto simp: peek_inv_def peek_pending_def)
qed

text \<open>A request for whole aligned blocks goes straight to the child.\<close>

lemma direct_outcome:
  assumes "peek_inv cinv io1" "peek_ready io1" "peek_buffered io1 = []" "0 < m" "served m"
    and "peek_pending cpending io = got @ peek_pending cpending io1" "length got + m \<le> n"
  shows "read_outcome (peek_inv cinv) (peek_pending cpending) io n
    (do { (r, bs, c) \<leftarrow> rd (child io1) b m;
          let io2 = io1\<lparr>child := c\<rparr>;
          if r < 1 then Some (if 0 < length got then (int (length got), got, io2) else (r, [], io2))
          else do { io3 \<leftarrow> free_if_used io2; Some (int (length got) + r, got @ bs, io3) } })"
proof -
  have pend1: "peek_pending cpending io1 = cpending (child io1)"
    using assms(3) by (simp add: peek_pending_def)
  from assms(1) have "cinv (child io1)" by (simp add: peek_inv_def)
  from this assms(5) show ?thesis
  proof (cases rule: child.rd_cases [where a = b])
    case (data bs c)
    have "peek_inv cinv (io1\<lparr>child := c\<rparr>)" using assms(1) data by (simp add: peek_inv_child)
    moreover have "peek_ready (io1\<lparr>child := c\<rparr>)" using assms(2) by (simp add: peek_ready_def)
    ultimately obtain io3 where io3: "free_if_used (io1\<lparr>child := c\<rparr>) = Some io3" "peek_inv cinv io3"
      "peek_pending cpending io3 = cpending c"
      using assms(3) by (metis free_if_used_inv peek_pending_child append_Nil)
    with data assms pend1 show ?thesis
      by (intro read_outcome_data [where s' = io3 and bs = "got @ bs"]) auto
  next
    case (eof c)
    then show ?thesis
      using assms pend1 short_outcome [of io got io1 n "io1\<lparr>child := c\<rparr>" 0]
      by (simp add: peek_inv_child peek_pending_child Let_def)
  next
    case (err r c)
    then show ?thesis
      using assms pend1 short_outcome [of io got io1 n "io1\<lparr>child := c\<rparr>" r]
      by (simp add: peek_inv_child peek_pending_child Let_def)
  qed
qed

text \<open>Any other request goes through the refilled buffer.\<close>

lemma refill_outcome:
  assumes "peek_inv cinv io1" "peek_ready io1" "peek_buffered io1 = []" "plength io1 = poffset io1"
    and "0 < m" "served (refill_size io1 m)" "peek_pending cpending io = got @ peek_pending cpending io1" "length got + m \<le> n"
  shows "read_outcome (peek_inv cinv) (peek_pending cpending) io n
    (do { (r, io2) \<leftarrow> refill_buffer rd alloc_ok io1 m;
          if r < 1 then Some (if 0 < length got then (int (length got), got, io2) else (r, [], io2))
          else do {
            let k = min m (nat r);
            bs \<leftarrow> cbuf_slice (pbuffer io2) 0 k;
            io3 \<leftarrow> free_if_used (io2\<lparr>poffset := int k\<rparr>);
            Some (int (length got) + int k, got @ bs, io3) } })"
  using refill_read [OF assms(1-6)]
proof (elim disjE exE conjE)
  fix r io2
  assume "refill_buffer rd alloc_ok io1 m = Some (r, io2)" "r < 1" "- (2 ^ 31) \<le> r" "peek_inv cinv io2"
    "peek_pending cpending io2 = peek_pending cpending io1"
    "r = 0 \<longrightarrow> peek_pending cpending io1 = []"
  with short_outcome [OF assms(7), of n io2 r] assms(8) show ?thesis by simp
next
  fix bs :: "byte list" and c
  let ?k = "min m (length bs)"
  let ?io2 = "io1\<lparr>child := c, pbuffer := Live (refill_size io1 m) bs, poffset := 0,
    plength := int (length bs)\<rparr>"
  assume run: "refill_buffer rd alloc_ok io1 m = Some (int (length bs), ?io2)" "bs \<noteq> []"
    "length bs \<le> refill_size io1 m" "cinv c" "peek_pending cpending io1 = bs @ cpending c"
  have "peek_inv cinv (?io2\<lparr>poffset := int ?k\<rparr>)" "peek_ready (?io2\<lparr>poffset := int ?k\<rparr>)"
    using run by (simp_all add: peek_inv_def peek_shape_def peek_ready_def)
  then obtain io3 where io3: "free_if_used (?io2\<lparr>poffset := int ?k\<rparr>) = Some io3" "peek_inv cinv io3"
    "peek_pending cpending io3 = drop ?k bs @ cpending c"
    by (rule free_if_used_inv) (simp add: peek_pending_def peek_buffered_def)
  have "cbuf_slice (pbuffer ?io2) 0 ?k = Some (take ?k bs)" by (simp add: cbuf_slice_def)
  with run(1,2) io3(1) have "(do { (r, io2) \<leftarrow> refill_buffer rd alloc_ok io1 m;
          if r < 1 then Some (if 0 < length got then (int (length got), got, io2) else (r, [], io2))
          else do {
            let k = min m (nat r);
            bs \<leftarrow> cbuf_slice (pbuffer io2) 0 k;
            io3 \<leftarrow> free_if_used (io2\<lparr>poffset := int k\<rparr>);
            Some (int (length got) + int k, got @ bs, io3) } }) =
      Some (int (length got) + int ?k, got @ take ?k bs, io3)"
    by (auto simp: Let_def)
  then show ?thesis
    by (rule read_outcome_data) (use run io3 assms(5,7,8) in \<open>auto simp: min_def split: if_splits\<close>)
qed

lemma peek_read_outcome:
  assumes "peek_inv cinv io" "\<And>m. m \<le> n \<Longrightarrow> served m \<and> served (refill_size io m)"
  shows "read_outcome (peek_inv cinv) (peek_pending cpending) io n (peek_read rd alloc_ok io a n)"
proof (cases "peek_ready io")
  case False
  with assms show ?thesis
    by (intro read_outcome_err)
      (auto simp: peek_read_def peek_ready_def peek_inv_def peek_shape_def split: cbuf.splits)
next
  case ready: True
  from assms have shape: "peek_shape io" and ci: "cinv (child io)" by (auto simp: peek_inv_def)
  from take_buffered_ok [OF shape ready, of n] obtain got io1 where
    take: "take_buffered io n = Some (got, io1)" "got = take n (peek_buffered io)"
      "peek_buffered io1 = drop n (peek_buffered io)"
    and io1: "peek_shape io1" "peek_ready io1" "child io1 = child io" "plength io1 = plength io" by blast
  have sv: "served (n - length got)" "served (refill_size io1 (n - length got))"
    using assms(2) [of "n - length got"] unfolding refill_size_def io1(4) by simp_all
  have pend: "peek_pending cpending io = got @ peek_pending cpending io1"
    by (simp add: take io1 peek_pending_def)
  have inv1: "peek_inv cinv io1" using io1 ci by (simp add: peek_inv_def)
  have start: "peek_read rd alloc_ok io a n =
      (if 0 < n - length got
       then do { c_assert (plength io1 - poffset io1 = 0);
          if (n - length got) mod MIN_READ_SIZE = 0 \<and> (a + length got) mod 4096 = 0 then do {
            (r, bs, c) \<leftarrow> rd (child io1) (a + length got) (n - length got);
            let io2 = io1\<lparr>child := c\<rparr>;
            if r < 1 then Some (if 0 < length got then (int (length got), got, io2) else (r, [], io2))
            else do { io3 \<leftarrow> free_if_used io2; Some (int (length got) + r, got @ bs, io3) } }
          else do {
            (r, io2) \<leftarrow> refill_buffer rd alloc_ok io1 (n - length got);
            if r < 1 then Some (if 0 < length got then (int (length got), got, io2) else (r, [], io2))
            else do {
              let k = min (n - length got) (nat r);
              bs \<leftarrow> cbuf_slice (pbuffer io2) 0 k;
              io3 \<leftarrow> free_if_used (io2\<lparr>poffset := int k\<rparr>);
              Some (int (length got) + int k, got @ bs, io3) } } }
       else do { io3 \<leftarrow> free_if_used io1; Some (int (length got), got, io3) })"
    using ready by (simp add: peek_read_def peek_ready_def take(1) Let_def)
  show ?thesis
  proof (cases "0 < n - length got")
    case False
    from free_if_used_inv [OF inv1 io1(2)] obtain io3 where "free_if_used io1 = Some io3"
      "peek_inv cinv io3" "peek_pending cpending io3 = peek_pending cpending io1" .
    moreover have "length got \<le> n" by (simp add: take)
    ultimately show ?thesis using False pend start
      by (intro read_outcome_data [where s' = io3 and bs = got]) auto
  next
    case more: True
    then have empty: "peek_buffered io1 = []" by (simp add: take min_def split: if_splits)
    then have used: "plength io1 = poffset io1"
      using io1(1,2) length_peek_buffered [OF io1(1,2)]
      by (auto simp: peek_shape_def peek_ready_def split: cbuf.splits)
    have le: "length got + (n - length got) \<le> n" using more by simp
    from start more used
      direct_outcome [OF inv1 io1(2) empty more sv(1) pend le, of "a + length got"]
      refill_outcome [OF inv1 io1(2) empty used more sv(2) pend le]
    show ?thesis by (cases "(n - length got) mod MIN_READ_SIZE = 0 \<and> (a + length got) mod 4096 = 0")
        simp_all
  qed
qed

end

locale peek_over = peek_call rd cinv cpending any_size
  for rd :: "'c read_fn" and cinv cpending

sublocale peek_over \<subseteq> pr: reader "peek_read rd alloc_ok" "peek_inv cinv" "peek_pending cpending" any_size
  by (rule readerI) (rule peek_read_outcome, simp_all)

text \<open>Over a child that never fails the buffer never holds an error, and no call returns one.\<close>

lemma free_if_used_ready: "free_if_used io = Some io' \<Longrightarrow> peek_ready io \<Longrightarrow> peek_ready io'"
  by (auto simp: free_if_used_def peek_ready_def bind_eq_Some_conv split: if_splits)

lemma take_buffered_same:
  "take_buffered io n = Some (got, io1) \<Longrightarrow> plength io1 = plength io \<and> child io1 = child io"
  by (auto simp: take_buffered_def Let_def bind_eq_Some_conv split: if_splits)

lemma refill_buffer_calm:
  assumes "never_fails rd cinv any_size" "cinv (child io)"
    and "refill_buffer rd alloc_ok io n = Some (r, io')"
  shows "0 \<le> r \<and> plength io' = r"
  using assms(3) never_failsD [OF assms(1,2) TrueI]
  by (auto simp: refill_buffer_def Let_def bind_eq_Some_conv split: if_splits)

lemma peek_read_calm:
  assumes calm: "never_fails rd cinv any_size" and inv: "peek_inv cinv io" "peek_ready io"
    and run: "peek_read rd alloc_ok io a n = Some (r, bs, io')"
  shows "0 \<le> r \<and> peek_ready io'"
proof -
  from inv run obtain got io1 where take: "take_buffered io n = Some (got, io1)"
    by (auto simp: peek_read_def peek_ready_def bind_eq_Some_conv)
  from take_buffered_same [OF take] inv have io1: "cinv (child io1)" "0 \<le> plength io1"
    by (simp_all add: peek_inv_def peek_ready_def)
  have child: "0 \<le> r'" if "rd (child io1) b m = Some (r', bs', c)" for b m r' bs' c
    using never_failsD [OF calm io1(1) TrueI that] .
  note refill = refill_buffer_calm [OF calm io1(1)]
  show ?thesis
    using run take inv(2) io1(2)
    by (auto simp: peek_read_def peek_ready_def Let_def bind_eq_Some_conv
        dest!: child refill free_if_used_ready split: if_splits)
qed

lemma peek_calm_reader:
  assumes "calm_reader rd cinv cpending any_size"
  shows "calm_reader (peek_read rd alloc_ok) (\<lambda>io. peek_inv cinv io \<and> peek_ready io)
    (peek_pending cpending) any_size"
proof (rule calm_readerI)
  have child: "reader rd cinv cpending any_size" and calm: "never_fails rd cinv any_size"
    by (rule calm_reader.axioms(1) [OF assms], rule calm_reader.never [OF assms])
  have "peek_over rd cinv cpending" by (intro peek_over.intro peek_call.intro child)
  then have "reader (peek_read rd alloc_ok) (peek_inv cinv) (peek_pending cpending) any_size"
    by (intro readerI peek_call.peek_read_outcome [OF peek_over.axioms]) simp_all
  then show "reader (peek_read rd alloc_ok) (\<lambda>io. peek_inv cinv io \<and> peek_ready io)
      (peek_pending cpending) any_size"
    by (rule reader_strengthen) (use peek_read_calm [OF calm] in blast)
  show "never_fails (peek_read rd alloc_ok) (\<lambda>io. peek_inv cinv io \<and> peek_ready io) any_size"
    unfolding never_fails_def using peek_read_calm [OF calm] by blast
qed

section \<open>Peeking takes nothing away\<close>

definition stored_bytes :: "'c peek_t \<Rightarrow> byte list" where
  "stored_bytes io = (case pbuffer io of Live c d \<Rightarrow> d | _ \<Rightarrow> [])"

lemma peek_amount_pos:
  assumes "plength io - poffset io < int len"
  shows "0 < peek_amount io len" "int len \<le> plength io - poffset io + peek_amount io len"
proof -
  have "(plength io + (int len - (plength io - poffset io))) mod int PEEK_SIZE < int PEEK_SIZE"
    by (simp add: PEEK_SIZE_def)
  with assms show "0 < peek_amount io len" "int len \<le> plength io - poffset io + peek_amount io len"
    by (simp_all add: peek_amount_def Let_def)
qed

lemma stored_buffered:
  "peek_shape io \<Longrightarrow> peek_ready io \<Longrightarrow> int (length (stored_bytes io)) = plength io \<and>
    peek_buffered io = drop (nat (poffset io)) (stored_bytes io) \<and> 0 \<le> poffset io \<and>
    poffset io \<le> plength io"
  by (auto simp: peek_shape_def stored_bytes_def peek_buffered_def peek_ready_def split: cbuf.splits)

lemma alignedrealloc_ok:
  assumes "peek_shape io" "peek_ready io" "0 < ra"
  shows "alignedrealloc alloc_ok (pbuffer io) (plength io) (plength io + ra) =
    Some (Live (nat (plength io + ra)) (stored_bytes io), 0)"
  using assms
  by (auto simp: alignedrealloc_def Let_def size_t_def peek_ready_def peek_shape_def cbuf_slice_def
      stored_bytes_def split: cbuf.splits)

definition extended :: "'c peek_t \<Rightarrow> int \<Rightarrow> byte list \<Rightarrow> 'c \<Rightarrow> 'c peek_t" where
  "extended io ra bs c = io\<lparr>pbuffer := Live (nat (plength io + ra)) (stored_bytes io @ bs),
     child := c, plength := plength io + int (length bs)\<rparr>"

lemma extended_props:
  assumes "peek_shape io" "peek_ready io" "0 < ra" "int (length bs) \<le> ra"
  shows "peek_shape (extended io ra bs c)" "peek_ready (extended io ra bs c)"
    "peek_buffered (extended io ra bs c) = peek_buffered io @ bs" "child (extended io ra bs c) = c"
  using stored_buffered [OF assms(1,2)] assms(2-4)
  by (auto simp: extended_def peek_shape_def peek_ready_def peek_buffered_def)

context peek_call
begin

lemma peek_show:
  assumes "peek_shape io" "peek_ready io"
  shows "(do { let ret = min n (nat (plength io - poffset io));
               bs \<leftarrow> cbuf_slice (pbuffer io) (poffset io) ret;
               Some (int ret, bs, io) }) =
    Some (int (length (take n (peek_buffered io))), take n (peek_buffered io), io)"
proof -
  let ?ret = "min n (nat (plength io - poffset io))"
  have "cbuf_slice (pbuffer io) (poffset io) ?ret = Some (take ?ret (peek_buffered io))"
    using assms by (intro cbuf_slice_shape) auto
  moreover have "take ?ret (peek_buffered io) = take n (peek_buffered io)"
    "length (take n (peek_buffered io)) = ?ret"
    using length_peek_buffered [OF assms] by (simp_all add: min_def)
  ultimately show ?thesis by (simp add: Let_def)
qed

lemma peek_peek_cases:
  assumes "peek_inv cinv io" "peek_ready io" "served (nat (peek_amount io n))"
  obtains (shown) io' where "peek_peek rd alloc_ok io a n =
      Some (int (length (take n (peek_buffered io'))), take n (peek_buffered io'), io')"
      "peek_inv cinv io'" "peek_ready io'" "peek_pending cpending io' = peek_pending cpending io"
      "n \<le> length (peek_buffered io) \<or>
        (\<exists>bs m. peek_buffered io' = peek_buffered io @ bs \<and> n \<le> length (peek_buffered io) + m \<and>
          (\<exists>b. rd (child io) b m = Some (int (length bs), bs, child io')))"
    | (err) r io' where "peek_peek rd alloc_ok io a n = Some (r, [], io')" "r < 0"
      "peek_inv cinv io'" "peek_ready io'" "peek_pending cpending io' = peek_pending cpending io"
proof -
  from assms have shape: "peek_shape io" and ci: "cinv (child io)" by (auto simp: peek_inv_def)
  note len = length_peek_buffered [OF shape assms(2)]
  show thesis
  proof (cases "plength io - poffset io < int n")
    case False
    then have "n \<le> length (peek_buffered io)" using len by simp
    with False shape assms peek_show [OF shape assms(2), of n] show thesis
      by (intro shown [of io]) (simp_all add: peek_peek_def)
  next
    case more: True
    let ?ra = "peek_amount io n"
    note ra = peek_amount_pos [OF more]
    have nonneg: "0 \<le> plength io" using assms(2) by (simp add: peek_ready_def)
    have start: "peek_peek rd alloc_ok io a n =
        do { (r, io1) \<leftarrow> do {
               (r, bs, c) \<leftarrow> rd (child io) (nat (plength io)) (nat ?ra);
               if r < 0 then Some (Inl r, io\<lparr>pbuffer := Live (nat (plength io + ?ra)) (stored_bytes io), child := c\<rparr>)
               else Some (Inr (), io\<lparr>pbuffer := Live (nat (plength io + ?ra)) (stored_bytes io @ bs),
                                     child := c, plength := plength io + r\<rparr>) };
          case r of
            Inl e \<Rightarrow> Some (e, [], io1)
          | Inr _ \<Rightarrow> do { let ret = min n (nat (plength io1 - poffset io1));
                         bs \<leftarrow> cbuf_slice (pbuffer io1) (poffset io1) ret;
                         Some (int ret, bs, io1) } }"
      using more nonneg alignedrealloc_ok [OF shape assms(2) ra(1)]
      by (simp add: peek_peek_def Let_def cong: if_cong prod.case_cong)
    have got: "peek_peek rd alloc_ok io a n =
        Some (int (length (take n (peek_buffered (extended io ?ra bs c)))),
          take n (peek_buffered (extended io ?ra bs c)), extended io ?ra bs c)"
      if run: "rd (child io) (nat (plength io)) (nat ?ra) = Some (int (length bs), bs, c)"
        "length bs \<le> nat ?ra" for bs c
    proof -
      have "int (length bs) \<le> ?ra" using run(2) ra(1) by simp
      note ext = extended_props [OF shape assms(2) ra(1) this, of c]
      show ?thesis using run(1) peek_show [OF ext(1,2), of n]
        by (simp add: start extended_def [symmetric])
    qed
    have result: thesis if run: "rd (child io) (nat (plength io)) (nat ?ra) = Some (int (length bs), bs, c)"
        "length bs \<le> nat ?ra" "cinv c" "cpending (child io) = bs @ cpending c" for bs c
    proof (rule shown [OF got [OF run(1,2)]])
      have "int (length bs) \<le> ?ra" using run(2) ra(1) by simp
      note ext = extended_props [OF shape assms(2) ra(1) this, of c]
      show "peek_inv cinv (extended io ?ra bs c)" "peek_ready (extended io ?ra bs c)"
        "peek_pending cpending (extended io ?ra bs c) = peek_pending cpending io"
        using ext run by (simp_all add: peek_inv_def peek_pending_def)
      have "n \<le> length (peek_buffered io) + nat ?ra" using len ra by linarith
      with ext run(1) show "n \<le> length (peek_buffered io) \<or>
        (\<exists>bs' m. peek_buffered (extended io ?ra bs c) = peek_buffered io @ bs' \<and>
          n \<le> length (peek_buffered io) + m \<and>
          (\<exists>b. rd (child io) b m = Some (int (length bs'), bs', child (extended io ?ra bs c))))"
        by auto
    qed
    from ci assms(3) show thesis
    proof (cases rule: child.rd_cases [where a = "nat (plength io)"])
      case (data bs c)
      then show thesis by (intro result) auto
    next
      case (eof c)
      then show thesis by (intro result [of "[]" c]) auto
    next
      case (err r c)
      have "peek_shape (io\<lparr>pbuffer := Live (nat (plength io + ?ra)) (stored_bytes io), child := c\<rparr>)"
        using extended_props(1) [OF shape assms(2) ra(1), of "[]" c] ra(1) by (simp add: extended_def)
      moreover have "peek_buffered (io\<lparr>pbuffer := Live (nat (plength io + ?ra)) (stored_bytes io), child := c\<rparr>) =
          peek_buffered io"
        using extended_props(3) [OF shape assms(2) ra(1), of "[]" c] ra(1) by (simp add: extended_def)
      ultimately show thesis using err assms(2)
        by (intro that(2) [where io' = "io\<lparr>pbuffer := Live (nat (plength io + ?ra)) (stored_bytes io), child := c\<rparr>"])
          (simp_all add: start peek_inv_def peek_ready_def peek_pending_def)
    qed
  qed
qed

lemma peek_peek_data:
  assumes "peek_inv cinv io" "peek_ready io" "peek_peek rd alloc_ok io a n = Some (r, bs, io1)" "0 \<le> r"
    "served (nat (peek_amount io n))"
  shows "r = int (length bs)" "bs = take n (peek_buffered io1)" "peek_inv cinv io1"
    "peek_ready io1" "peek_pending cpending io1 = peek_pending cpending io"
  using assms(1,2,5) by (cases rule: peek_peek_cases [where a = a and n = n]; use assms(3,4) in simp)+

end

sublocale peek_over \<subseteq> pk: peekable "peek_read rd alloc_ok" "peek_inv cinv" "peek_pending cpending" any_size
  "peek_peek rd alloc_ok" peek_ready
proof (unfold_locales, goal_cases)
  case (1 s a n)
  from this TrueI show ?case by (cases rule: peek_peek_cases [where a = a and n = n]) auto
next
  case (2 s a n r bs s') from 2(1,2) TrueI show ?case by (cases rule: peek_peek_cases [where a = a and n = n]) (use 2 in auto)
next
  case (3 s a n r bs s') from 3(1,2) TrueI show ?case by (cases rule: peek_peek_cases [where a = a and n = n]) (use 3 in auto)
next
  case (4 s a n r bs s')
  from 4(1,2) TrueI show ?case by (cases rule: peek_peek_cases [where a = a and n = n]) (use 4 in auto)
next
  case (5 s a n r bs s')
  from 5(1,2) TrueI show ?case
  proof (cases rule: peek_peek_cases [where a = a and n = n])
    case (shown io')
    then have "prefix (take n (peek_buffered io')) (peek_pending cpending io')"
      by (metis peek_pending_def prefix_append prefix_take_iff prefix_order.trans prefixI)
    with shown 5(3) show ?thesis by auto
  next
    case (err r' io')
    with 5(3) show ?thesis by auto
  qed
qed

context peek_over
begin

lemma is_peekable: "peekable (peek_read rd alloc_ok) (peek_inv cinv) (peek_pending cpending) any_size
    (peek_peek rd alloc_ok) peek_ready"
  by (rule pk.peekable_axioms)

end

lemma peek_over_peekable:
  assumes "reader rd cinv cpending any_size"
  shows "peekable (peek_read rd alloc_ok) (peek_inv cinv) (peek_pending cpending) any_size
    (peek_peek rd alloc_ok) peek_ready"
proof -
  have "peek_over rd cinv cpending" using assms by (intro peek_over.intro peek_call.intro)
  then show ?thesis by (rule peek_over.is_peekable)
qed

section \<open>On the model's own readers\<close>

text \<open>A peeking reader over a file, and (as \<open>wandio_create\<close> builds it for an uncompressed
  file without threads) a peeking reader over that one.\<close>

interpretation peek_stdio: peek_over stdio_read stdio_inv stdio_pending
  by (intro peek_over.intro peek_call.intro) (rule stdio.reader_axioms)

interpretation peek_peek_stdio: peek_over "peek_read stdio_read alloc_ok" "peek_inv stdio_inv"
    "peek_pending stdio_pending"
  by (intro peek_over.intro peek_call.intro) (rule peek_stdio.pr.reader_axioms)

definition demo_fd :: "byte list \<Rightarrow> io_event list \<Rightarrow> fd_t" where
  "demo_fd bs plan = \<lparr>fd_data = bs, fd_pos = 0, fd_open = True, fd_seekable = True, fd_plan = plan\<rparr>"

definition demo_peek :: "byte list \<Rightarrow> io_event list \<Rightarrow> stdio_t peek_t" where
  "demo_peek bs plan = \<lparr>child = \<lparr>fd = demo_fd bs plan\<rparr>, pbuffer = Null, plength = 0, poffset = 0\<rparr>"

lemma demo_peek_inv: "peek_inv stdio_inv (demo_peek bs plan)" "peek_ready (demo_peek bs plan)"
  by (simp_all add: demo_peek_def demo_fd_def peek_inv_def peek_shape_def stdio_inv_def peek_ready_def)

lemma demo_peek_pending: "peek_pending stdio_pending (demo_peek bs plan) = bs"
  by (simp add: demo_peek_def demo_fd_def peek_pending_def peek_buffered_def stdio_pending_def
      fd_rest_def)

section \<open>Properties\<close>

text \<open>C25: over any child that keeps the reader contract, \<open>peek_read\<close> keeps it too, whichever of
  its three paths (buffer, direct, refill) serves the request: it never aborts, hands out the
  buffered bytes first and then the child's, each once and in order; \<open>0\<close> means end of input; an
  error loses nothing.\<close>

theorem peek_read_contract:
  assumes "reader rd cinv cpending served" "peek_inv cinv io"
    "\<forall>m\<le>n. served m \<and> served (refill_size io m)"
  shows "\<exists>r bs io'. peek_read rd alloc_ok io a n = Some (r, bs, io') \<and> peek_inv cinv io' \<and>
    (if 0 \<le> r then int (length bs) = r \<and> length bs \<le> n \<and>
       peek_pending cpending io = bs @ peek_pending cpending io' \<and>
       (r = 0 \<longrightarrow> n = 0 \<or> peek_pending cpending io = [])
     else bs = [] \<and> peek_pending cpending io' = peek_pending cpending io)"
proof -
  have "read_outcome (peek_inv cinv) (peek_pending cpending) io n (peek_read rd alloc_ok io a n)"
    using assms(3) by (intro peek_call.peek_read_outcome [OF peek_call.intro [OF assms(1)] assms(2)]) auto
  then show ?thesis unfolding read_outcome_def by (elim disjE exE conjE) auto
qed

theorem peek_read_contract_witness:
  "\<exists>r bs io'. peek_read stdio_read alloc_ok (demo_peek [1, 2, 3] [Short 0]) 0 2 = Some (r, bs, io') \<and>
     (0 \<le> r \<longrightarrow> [1, 2, 3] = bs @ peek_pending stdio_pending io')"
proof -
  from peek_read_contract [OF stdio.reader_axioms demo_peek_inv(1), of 2 "[1, 2, 3]" "[Short 0]" 0]
  obtain r bs io' where "peek_read stdio_read alloc_ok (demo_peek [1, 2, 3] [Short 0]) 0 2 = Some (r, bs, io')"
    "0 \<le> r \<longrightarrow> [1, 2, 3] = bs @ peek_pending stdio_pending io'"
    by (auto simp: demo_peek_pending split: if_splits)
  then show ?thesis by blast
qed

text \<open>What was peeked is exactly what a read of that many bytes returns next, without asking
  the child again; the auto-detection of \<open>create_io_reader\<close> therefore loses nothing.\<close>

theorem peek_then_read_same:
  assumes "reader rd cinv cpending served" "peek_inv cinv io" "peek_ready io"
    and "served (nat (peek_amount io n))"
    and "peek_peek rd alloc_ok io a n = Some (r, bs, io1)" "0 \<le> r"
  shows "\<exists>io2. peek_read rd alloc_ok io1 b (length bs) = Some (r, bs, io2) \<and>
    peek_pending cpending io = bs @ peek_pending cpending io2 \<and> child io2 = child io1"
proof -
  note io1 = peek_call.peek_peek_data [OF peek_call.intro [OF assms(1)] assms(2,3,5,6,4)]
  have shape: "peek_shape io1" using io1(3) by (simp add: peek_inv_def)
  obtain got io' where take: "take_buffered io1 (length bs) = Some (got, io')"
    "got = take (length bs) (peek_buffered io1)" "peek_buffered io' = drop (length bs) (peek_buffered io1)"
    "peek_shape io'" "peek_ready io'" "child io' = child io1"
    by (rule take_buffered_ok [OF shape io1(4)])
  obtain io2 where used: "free_if_used io' = Some io2" "peek_buffered io2 = peek_buffered io'"
    "child io2 = child io'"
    by (rule free_if_used_ok [OF take(4,5)])
  have got: "got = bs" using take(2) io1(2) by (simp add: min_def)
  have "peek_read rd alloc_ok io1 b (length bs) = Some (r, bs, io2)"
    using io1(1,4) take(1) used(1) got by (simp add: peek_read_def peek_ready_def Let_def)
  moreover have split: "peek_buffered io1 = bs @ drop (length bs) (peek_buffered io1)"
    using take(2) got by (metis append_take_drop_id)
  have "peek_pending cpending io1 = bs @ peek_pending cpending io2"
    by (subst (1) peek_pending_def, subst split) (simp add: peek_pending_def take used del: append_take_drop_id)
  ultimately show ?thesis using io1(5) take(6) used(3) by auto
qed

lemmas peek_run_defs = peek_peek_def peek_read_def peek_amount_def alignedrealloc_def cbuf_slice_def
  take_buffered_def free_if_used_def stdio_read_def posix_read_def fd_rest_def size_t_def
  PEEK_SIZE_def MIN_READ_SIZE_def WANDIO_BUFFER_SIZE_def demo_peek_def demo_fd_def Let_def

theorem peek_then_read_same_witness:
  "\<exists>io1 io2. peek_peek stdio_read alloc_ok (demo_peek [1, 2, 3] []) 0 2 = Some (2, [1, 2], io1) \<and>
     peek_read stdio_read alloc_ok io1 0 2 = Some (2, [1, 2], io2)"
proof -
  obtain io1 where run: "peek_peek stdio_read alloc_ok (demo_peek [1, 2, 3] []) 0 2 = Some (2, [1, 2], io1)"
    by (simp add: peek_run_defs)
  from peek_then_read_same [OF stdio.reader_axioms demo_peek_inv TrueI run, of 0] run show ?thesis
    by (auto simp: numeral_2_eq_2)
qed

text \<open>Every refill asks the child for a multiple of 4096 bytes that exceeds both the request
  and \<open>PEEK_SIZE\<close>, reads it to an aligned address, and always allocates a new block: the branch
  that reuses the old one is dead.\<close>

theorem refill_reads_whole_blocks:
  assumes "refill_buffer rd alloc io len = Some (r, io')" "alloc (refill_size io len) = 0"
  shows "4096 dvd refill_size io len \<and> len < refill_size io len \<and> PEEK_SIZE < refill_size io len \<and>
    (\<exists>bs c. rd (child io) 0 (refill_size io len) = Some (r, bs, c) \<and>
       io' = io\<lparr>child := c, pbuffer := Live (refill_size io len) bs, poffset := 0, plength := r\<rparr>)"
proof -
  have grow: "plength io < int (refill_size io len)" by (rule refill_size_props)
  have "\<exists>bs c. rd (child io) 0 (refill_size io len) = Some (r, bs, c) \<and>
       io' = io\<lparr>child := c, pbuffer := Live (refill_size io len) bs, poffset := 0, plength := r\<rparr>"
    using assms grow by (auto simp: refill_buffer_def Let_def bind_eq_Some_conv)
  with refill_size_props [where io = io and len = len] show ?thesis
    by (simp add: MIN_READ_SIZE_def)
qed

theorem refill_reads_whole_blocks_witness:
  "\<exists>io'. refill_buffer stdio_read alloc_ok (demo_peek [5] []) 10 = Some (1, io') \<and>
     4096 dvd refill_size (demo_peek [5] []) 10"
proof -
  obtain io' where "refill_buffer stdio_read alloc_ok (demo_peek [5] []) 10 = Some (1, io')"
    by (simp add: refill_buffer_def refill_size_def peek_run_defs)
  from this refill_reads_whole_blocks [OF this] show ?thesis by blast
qed

text \<open>\<open>peek_tell\<close> is the child's offset, not the caller's: after a first peek of a file it has
  moved forward by the number of bytes buffered although nothing has been read.\<close>

theorem peek_tell_runs_ahead:
  assumes "peek_inv stdio_inv io" "peek_ready io" "peek_buffered io = []" "0 < n"
    and "fd_seekable (fd (child io))"
    and "peek_peek stdio_read alloc_ok io a n = Some (r, bs, io')" "0 \<le> r"
  shows "peek_pending stdio_pending io' = peek_pending stdio_pending io \<and>
    peek_tell stdio_source io' = peek_tell stdio_source io + int (length (peek_buffered io'))"
  using assms(1,2) TrueI
proof (cases rule: peek_stdio.peek_peek_cases [where a = a and n = n])
  case (shown io1)
  with assms(6) have io': "io' = io1" by simp
  from shown assms(3,4) obtain cs m b where
    rd: "stdio_read (child io) b m = Some (int (length cs), cs, child io1)" "peek_buffered io1 = cs"
    by auto
  from rd(1) obtain f where f: "posix_read (fd (child io)) m = (int (length cs), cs, f)"
    "child io1 = (child io)\<lparr>fd := f\<rparr>"
    by (auto simp: stdio_read_def split: prod.splits)
  have opened: "fd_open (fd (child io))" using assms(1) by (simp add: peek_inv_def stdio_inv_def)
  have "fd_pos f = fd_pos (fd (child io)) + length cs" "fd_open f"
    using f(1) opened by (cases rule: posix_read_cases; simp)+
  moreover have "fd_seekable f = fd_seekable (fd (child io))"
    using f(1) by (auto simp: posix_read_def Let_def split: if_splits list.splits io_event.splits)
  ultimately have "stdio_tell (child io1) = stdio_tell (child io) + int (length cs)"
    using f(2) opened assms(5) by (simp add: stdio_tell_def posix_lseek_def Let_def)
  then show ?thesis using shown(4) rd(2) io'
    by (simp add: peek_tell_def wandio_tell_def stdio_source_def)
next
  case (err r' io1)
  with assms(6,7) show ?thesis by simp
qed

theorem peek_tell_runs_ahead_witness:
  "\<exists>bs io'. peek_peek stdio_read alloc_ok (demo_peek [1, 2, 3] []) 0 1 = Some (1, bs, io') \<and>
     peek_tell stdio_source (demo_peek [1, 2, 3] []) = 0 \<and> peek_tell stdio_source io' = 3"
proof -
  obtain io' where run: "peek_peek stdio_read alloc_ok (demo_peek [1, 2, 3] []) 0 1 = Some (1, [1], io')"
    and buf: "peek_buffered io' = [1, 2, 3]"
    by (simp add: peek_run_defs peek_buffered_def)
  have "peek_buffered (demo_peek [1, 2, 3] []) = []" by (simp add: demo_peek_def peek_buffered_def)
  moreover have "fd_seekable (fd (child (demo_peek [1, 2, 3] [])))" by (simp add: demo_peek_def demo_fd_def)
  moreover have "peek_tell stdio_source (demo_peek [1, 2, 3] []) = 0"
    by (simp add: peek_tell_def wandio_tell_def stdio_source_def stdio_tell_def posix_lseek_def
        demo_peek_def demo_fd_def Let_def)
  ultimately show ?thesis
    using peek_tell_runs_ahead [OF demo_peek_inv _ _ _ run] run buf by simp
qed

text \<open>\<open>peek_seek\<close> moves the child but leaves the buffer: after any seek, over any child,
  reads go on returning the bytes that were buffered before it.\<close>

theorem peek_seek_keeps_stale_bytes:
  assumes "peek_shape io" "peek_ready io" "n \<le> length (peek_buffered io)"
    and "peek_seek csrc io offset wh = Some (r, io')"
  shows "\<exists>io2. peek_read (src_read csrc) alloc io' a n = Some (int n, take n (peek_buffered io), io2)"
proof -
  from assms(4) obtain c where io': "io' = io\<lparr>child := c\<rparr>" by (auto simp: peek_seek_def)
  have shape: "peek_shape io'" "peek_ready io'" "peek_buffered io' = peek_buffered io"
    using assms(1,2) by (auto simp: io' peek_shape_def peek_ready_def peek_buffered_def split: cbuf.splits)
  obtain got io1 where take: "take_buffered io' n = Some (got, io1)" "got = take n (peek_buffered io')"
    "peek_shape io1" "peek_ready io1" by (rule take_buffered_ok [OF shape(1,2)])
  obtain io2 where "free_if_used io1 = Some io2" by (rule free_if_used_ok [OF take(3,4)])
  moreover have "length got = n" using take(2) shape(3) assms(3) by simp
  ultimately show ?thesis
    using take(1,2) shape(2,3) by (simp add: peek_read_def peek_ready_def Let_def)
qed

theorem peek_seek_keeps_stale_bytes_witness:
  "\<exists>io1 io2 io3. peek_peek stdio_read alloc_ok (demo_peek [1, 2, 3] []) 0 1 = Some (1, [1], io1) \<and>
     peek_seek stdio_source io1 2 SEEK_SET = Some (2, io2) \<and>
     peek_read (src_read stdio_source) alloc_ok io2 0 1 = Some (1, [1], io3)"
proof -
  obtain io1 io2 where run: "peek_peek stdio_read alloc_ok (demo_peek [1, 2, 3] []) 0 1 = Some (1, [1], io1)"
    and seek: "peek_seek stdio_source io1 2 SEEK_SET = Some (2, io2)"
    and io1: "peek_shape io1" "peek_ready io1" "peek_buffered io1 = [1, 2, 3]"
    by (simp add: peek_run_defs peek_buffered_def peek_shape_def peek_ready_def peek_seek_def
        wandio_seek_def stdio_source_def stdio_seek_def posix_lseek_def)
  have one: "1 \<le> length (peek_buffered io1)" using io1 by simp
  from peek_seek_keeps_stale_bytes [OF io1(1,2) one seek, of alloc_ok 0] run seek io1(3)
  show ?thesis by auto
qed

text \<open>When \<^verbatim>\<open>posix_memalign\<close> fails inside a peek, the positive error number itself is
  returned, which the caller takes for a byte count, and the buffered bytes are gone.\<close>

theorem peek_alloc_failure_looks_like_data:
  assumes "peek_shape io" "peek_ready io" "plength io - poffset io < int n"
    and "alloc (nat (plength io + peek_amount io n)) = e" "0 < e"
  shows "\<exists>io'. peek_peek rd alloc io a n = Some (e, [], io') \<and> peek_buffered io' = []"
proof -
  have "0 < peek_amount io n" "0 \<le> plength io"
    using peek_amount_pos [OF assms(3)] assms(2) by (simp_all add: peek_ready_def)
  then have "alignedrealloc alloc (pbuffer io) (plength io) (plength io + peek_amount io n) = Some (Null, e)"
    using assms(4,5) by (simp add: alignedrealloc_def size_t_def Let_def)
  then have "peek_peek rd alloc io a n = Some (e, [], io\<lparr>pbuffer := Null\<rparr>)"
    using assms(3) by (simp add: peek_peek_def Let_def)
  then show ?thesis by (simp add: peek_buffered_def)
qed

theorem peek_alloc_failure_looks_like_data_witness:
  "\<exists>io'. peek_peek stdio_read (\<lambda>_. 12) (demo_peek [1, 2] []) 0 16 = Some (12, [], io')"
  using peek_alloc_failure_looks_like_data [OF demo_peek_inv(1) [unfolded peek_inv_def, THEN conjunct1]
      demo_peek_inv(2), where n = 16 and alloc = "\<lambda>_. 12" and e = 12 and rd = stdio_read and a = 0]
  by (simp add: demo_peek_def) blast

text \<open>A refill whose allocation fails has already freed the old block and set the length: the
  next read either copies from freed memory or fails an assertion, so it has no result.\<close>

theorem refill_alloc_failure_breaks_next_read:
  assumes "peek_shape io" "peek_ready io"
    and "refill_buffer rd alloc io len = Some (r, io')" "alloc (refill_size io len) \<noteq> 0"
    and "0 < m"
  shows "r = -1 \<and> peek_read rd alloc io' a m = None"
proof -
  have grow: "plength io < int (refill_size io len)" by (rule refill_size_props)
  have "pbuffer io \<noteq> Dangling" using assms(1) by (auto simp: peek_shape_def)
  with assms(3,4) grow have r: "r = -1" and
    io': "io' = io\<lparr>pbuffer := (if pbuffer io = Null then Null else Dangling),
      plength := int (refill_size io len), poffset := 0\<rparr>"
    by (auto simp: refill_buffer_def Let_def bind_eq_Some_conv)
  have pos: "0 < refill_size io len" using refill_size_props(3) [of len io] by simp
  show ?thesis
  proof (cases "pbuffer io = Null")
    case True
    with r io' pos assms(5) show ?thesis
      by (simp add: peek_read_def take_buffered_def Let_def)
  next
    case False
    with r io' pos assms(5) show ?thesis
      by (simp add: peek_read_def take_buffered_def Let_def cbuf_slice_def)
  qed
qed

theorem refill_alloc_failure_breaks_next_read_witness:
  "\<exists>io'. refill_buffer stdio_read (\<lambda>_. 12) (demo_peek [1, 2] []) 10 = Some (-1, io') \<and>
     peek_read stdio_read (\<lambda>_. 12) io' 1 10 = None"
proof -
  obtain io' where run: "refill_buffer stdio_read (\<lambda>_. 12) (demo_peek [1, 2] []) 10 = Some (-1, io')"
    by (simp add: refill_buffer_def refill_size_def peek_run_defs)
  from refill_alloc_failure_breaks_next_read [OF demo_peek_inv(1) [unfolded peek_inv_def, THEN conjunct1]
      demo_peek_inv(2) run, of 10 1] run show ?thesis by auto
qed

text \<open>After a failed refill the length field holds the negative result. A peek in that state
  keeps the old block (the length converts to a huge size) and has the child read to an address
  below it: it has no valid result.\<close>

theorem peek_after_error_underflows:
  assumes "peek_shape io" "plength io < 0" "- (2 ^ 62) \<le> plength io" "n < 2 ^ 62"
  shows "peek_peek rd alloc io a n = None"
proof -
  have off: "poffset io = 0" "pbuffer io \<noteq> Null"
    using assms(1,2) by (auto simp: peek_shape_def split: cbuf.splits)
  then have lt: "plength io - poffset io < int n" using assms(2) by simp
  let ?ra = "peek_amount io n"
  have "(plength io + (int n - (plength io - poffset io))) mod int PEEK_SIZE \<ge> 0"
    by (simp add: PEEK_SIZE_def)
  then have ra: "?ra \<le> int n - plength io + int PEEK_SIZE" using off by (simp add: peek_amount_def Let_def)
  moreover have "int PEEK_SIZE < 2 ^ 62" by (simp add: PEEK_SIZE_def WANDIO_BUFFER_SIZE_def)
  moreover have "int n < 2 ^ 62" using assms(4) by (simp add: nat_less_iff flip: of_nat_less_iff)
  ultimately have "plength io + ?ra < plength io + 2 ^ 64" "0 \<le> plength io + ?ra"
    using assms(3) peek_amount_pos(2) [OF lt] off by simp_all
  then have "alignedrealloc alloc (pbuffer io) (plength io) (plength io + ?ra) = Some (pbuffer io, 0)"
    using assms(2) by (simp add: alignedrealloc_def size_t_def Let_def)
  with lt off(2) assms(2) show ?thesis by (simp add: peek_peek_def Let_def)
qed

theorem peek_after_error_underflows_witness:
  "\<exists>io'. peek_read stdio_read alloc_ok (demo_peek [1, 2] [Fail]) 0 10 = Some (-1, [], io') \<and>
     peek_peek stdio_read alloc_ok io' 0 10 = None"
proof -
  obtain io' where run: "peek_read stdio_read alloc_ok (demo_peek [1, 2] [Fail]) 0 10 = Some (-1, [], io')"
    and io': "plength io' = -1" "peek_shape io'"
    by (simp add: refill_buffer_def refill_size_def peek_run_defs peek_shape_def)
  from peek_after_error_underflows [OF io'(2), of 10 stdio_read alloc_ok 0] io'(1) run
  show ?thesis by auto
qed

end
