(* ===== verification/Ring.thy ===== *)
theory Ring
  imports Wandio_Prelude
begin

text \<open>
  The ring of slices that \<^verbatim>\<open>lib/ior-thread.c\<close> and \<^verbatim>\<open>lib/iow-thread.c\<close> share between
  two threads: an array of slots with a FULL/EMPTY flag each, a taking index \<open>h\<close> and a filling
  index \<open>k\<close> slots further on. \<open>ring_of\<close> reads the \<open>k\<close> full slots as a queue; the lemmas say
  what filling and emptying a slot does to that queue. The flag is a parameter \<open>full\<close>, as the
  two modules have slot types of their own.
\<close>

definition ring_of :: "'a list \<Rightarrow> nat \<Rightarrow> nat \<Rightarrow> 'a list" where
  "ring_of slots h k = map (\<lambda>i. slots ! ((h + i) mod length slots)) [0..<k]"

definition ring_ok :: "('a \<Rightarrow> bool) \<Rightarrow> 'a list \<Rightarrow> nat \<Rightarrow> nat \<Rightarrow> bool" where
  "ring_ok full slots h k \<longleftrightarrow> h < length slots \<and> k \<le> length slots \<and>
     (\<forall>i<length slots. full (slots ! ((h + i) mod length slots)) \<longleftrightarrow> i < k)"

lemma ring_of_0 [simp]: "ring_of slots h 0 = []"
  by (simp add: ring_of_def)

lemma length_ring_of [simp]: "length (ring_of slots h k) = k"
  by (simp add: ring_of_def)

lemma ring_of_Suc: "ring_of slots h (Suc k) = ring_of slots h k @ [slots ! ((h + k) mod length slots)]"
  by (simp add: ring_of_def)

lemma ring_of_head:
  assumes "h < length slots" "0 < k"
  shows "ring_of slots h k = slots ! h # ring_of slots ((h + 1) mod length slots) (k - 1)"
proof -
  obtain m where k: "k = Suc m" using assms(2) by (cases k) auto
  have "map (\<lambda>i. slots ! ((h + i) mod length slots)) [0..<Suc m] =
    slots ! ((h + 0) mod length slots) # map (\<lambda>i. slots ! ((h + Suc i) mod length slots)) [0..<m]"
    by (simp only: upt_rec [of 0 "Suc m"] map_Suc_upt [symmetric] list.map list.map_comp o_def) simp
  then show ?thesis
    using assms(1) by (simp add: ring_of_def k mod_add_left_eq del: upt_Suc)
qed

lemma ring_index_inj:
  assumes "i < n" "j < n" "(h + i) mod n = (h + j) mod (n::nat)"
  shows "i = j"
proof -
  have le: "a = b" if "a \<le> b" "b < n" "(h + a) mod n = (h + b) mod n" for a b
  proof -
    from that have "n dvd (h + b) - (h + a)" using mod_eq_dvd_iff_nat [of "h + a" "h + b" n] by simp
    then have dvd: "n dvd b - a" by simp
    have "b - a < n" using that(2) by simp
    then have "b - a = 0" using nat_dvd_not_less [of "b - a" n] dvd by blast
    then show ?thesis using that(1) by simp
  qed
  show ?thesis using le [of i j] le [of j i] assms by (cases "i \<le> j") auto
qed

lemma ring_okD:
  assumes "ring_ok full slots h k"
  shows "h < length slots" "k \<le> length slots" "0 < length slots"
    "full (slots ! h) \<longleftrightarrow> 0 < k" "full (slots ! ((h + k) mod length slots)) \<longleftrightarrow> k = length slots"
    "\<And>x. x \<in> set (ring_of slots h k) \<Longrightarrow> full x"
proof -
  show 1: "h < length slots" "k \<le> length slots" using assms by (simp_all add: ring_ok_def)
  show 2: "0 < length slots" using 1(1) by linarith
  have all: "\<And>i. i < length slots \<Longrightarrow> full (slots ! ((h + i) mod length slots)) \<longleftrightarrow> i < k"
    using assms by (simp add: ring_ok_def)
  show 3: "full (slots ! h) \<longleftrightarrow> 0 < k" using all [of 0] 1 2 by simp
  show "full (slots ! ((h + k) mod length slots)) \<longleftrightarrow> k = length slots"
    using all [of k] 1 2 3 by (cases "k = length slots") auto
  show "full x" if "x \<in> set (ring_of slots h k)" for x
    using that all 1 by (auto simp: ring_of_def)
qed

text \<open>Filling the slot \<open>k\<close> places after the head appends it to the queue.\<close>

lemma ring_fill:
  assumes "ring_ok full slots h k" "k < length slots" "full x"
  shows "ring_ok full (slots[(h + k) mod length slots := x]) h (Suc k)"
    "ring_of (slots[(h + k) mod length slots := x]) h (Suc k) = ring_of slots h k @ [x]"
proof -
  note ok = assms(1) [unfolded ring_ok_def]
  have neq: "(h + k) mod length slots \<noteq> (h + i) mod length slots" if "i < length slots" "i \<noteq> k" for i
    using ring_index_inj [of k "length slots" i h] assms(2) that by metis
  have pos: "(h + k) mod length slots < length slots" using ok by (auto intro: mod_less_divisor)
  have nth: "slots[(h + k) mod length slots := x] ! ((h + i) mod length slots) =
      (if i = k then x else slots ! ((h + i) mod length slots))" if "i < length slots" for i
    using neq [OF that] pos by auto
  show "ring_ok full (slots[(h + k) mod length slots := x]) h (Suc k)"
    using ok assms(2,3) by (auto simp: ring_ok_def nth)
  show "ring_of (slots[(h + k) mod length slots := x]) h (Suc k) = ring_of slots h k @ [x]"
    using assms(2) by (simp add: ring_of_def nth)
qed

text \<open>Writing into the slot being filled, while it is still EMPTY, leaves the queue alone.\<close>

lemma ring_scribble:
  assumes "ring_ok full slots h k" "k < length slots" "\<not> full x"
  shows "ring_ok full (slots[(h + k) mod length slots := x]) h k"
    "ring_of (slots[(h + k) mod length slots := x]) h k = ring_of slots h k"
proof -
  note ok = assms(1) [unfolded ring_ok_def]
  have neq: "(h + k) mod length slots \<noteq> (h + i) mod length slots" if "i < length slots" "i \<noteq> k" for i
    using ring_index_inj [of k "length slots" i h] assms(2) that by metis
  have pos: "(h + k) mod length slots < length slots" using ok by (auto intro: mod_less_divisor)
  have nth: "slots[(h + k) mod length slots := x] ! ((h + i) mod length slots) =
      (if i = k then x else slots ! ((h + i) mod length slots))" if "i < length slots" for i
    using neq [OF that] pos by auto
  show "ring_ok full (slots[(h + k) mod length slots := x]) h k"
    using ok assms(2,3) by (auto simp: ring_ok_def nth)
  show "ring_of (slots[(h + k) mod length slots := x]) h k = ring_of slots h k"
    using assms(2) by (simp add: ring_of_def nth)
qed

text \<open>Emptying the head slot takes the first element off the queue.\<close>

lemma ring_take:
  assumes "ring_ok full slots h k" "0 < k" "\<not> full x"
  shows "ring_ok full (slots[h := x]) ((h + 1) mod length slots) (k - 1)"
    "ring_of slots h k = slots ! h # ring_of (slots[h := x]) ((h + 1) mod length slots) (k - 1)"
    "((h + 1) mod length slots + (k - 1)) mod length slots = (h + k) mod length slots"
proof -
  note ok = assms(1) [unfolded ring_ok_def]
  let ?n = "length slots"
  have n: "0 < ?n" "h < ?n" "k \<le> ?n" using ok by auto
  have idx: "((h + 1) mod ?n + i) mod ?n = (h + Suc i) mod ?n" for i
    by (simp add: mod_add_left_eq)
  show "((h + 1) mod length slots + (k - 1)) mod length slots = (h + k) mod length slots"
    using idx [of "k - 1"] assms(2) by simp
  have neq: "h \<noteq> (h + Suc i) mod ?n" if "Suc i < ?n" for i
    using ring_index_inj [of 0 ?n "Suc i" h] n that by auto
  have nth: "slots[h := x] ! ((h + Suc i) mod ?n) =
      (if Suc i = ?n then x else slots ! ((h + Suc i) mod ?n))" if "i < ?n" for i
  proof (cases "Suc i = ?n")
    case True
    have "(h + ?n) mod ?n = h" using n by simp
    with True n show ?thesis by simp
  next
    case False
    with neq [of i] that show ?thesis by simp
  qed
  have "full (slots[h := x] ! (((h + 1) mod ?n + i) mod ?n)) \<longleftrightarrow> i < k - 1" if "i < ?n" for i
  proof (cases "Suc i = ?n")
    case True
    with nth [OF that] assms(3) n show ?thesis by (simp only: idx) simp
  next
    case False
    with that have "Suc i < ?n" by simp
    with ok have "full (slots ! ((h + Suc i) mod ?n)) \<longleftrightarrow> Suc i < k" by blast
    with nth [OF that] False show ?thesis by (simp only: idx if_False) (simp add: less_diff_conv)
  qed
  then show "ring_ok full (slots[h := x]) ((h + 1) mod ?n) (k - 1)"
    using n assms(2) by (auto simp: ring_ok_def)
  have "ring_of (slots[h := x]) ((h + 1) mod ?n) (k - 1) = ring_of slots ((h + 1) mod ?n) (k - 1)"
    unfolding ring_of_def length_list_update
  proof (rule map_cong [OF refl])
    fix i assume "i \<in> set [0..<k - 1]"
    with n have "i < ?n" "Suc i \<noteq> ?n" by auto
    with nth [of i] show "slots[h := x] ! (((h + 1) mod ?n + i) mod ?n) =
        slots ! (((h + 1) mod ?n + i) mod ?n)" by (simp only: idx if_False)
  qed
  with ring_of_head [OF n(2) assms(2)]
  show "ring_of slots h k = slots ! h # ring_of (slots[h := x]) ((h + 1) mod ?n) (k - 1)" by simp
qed

lemma ring_index_neq:
  assumes "ring_ok full slots h k" "0 < k" "k < length slots"
  shows "(h + k) mod length slots \<noteq> h"
proof
  assume "(h + k) mod length slots = h"
  moreover have "h < length slots" using assms(1) by (simp add: ring_ok_def)
  ultimately have "(h + 0) mod length slots = (h + k) mod length slots" by simp
  from ring_index_inj [OF _ assms(3) this] assms(2,3) show False by linarith
qed

lemma ring_ok_init: "0 < n \<Longrightarrow> \<not> full x \<Longrightarrow> ring_ok full (replicate n x) 0 0"
  by (simp add: ring_ok_def)

text \<open>The queue read off the array itself: from the taking index, as far as the slots are FULL.\<close>

lemma ring_queue:
  assumes "ring_ok full slots h k"
  shows "takeWhile full (rotate h slots) = ring_of slots h k"
proof -
  note ok = assms [unfolded ring_ok_def]
  have nth: "rotate h slots ! i = slots ! ((h + i) mod length slots)" if "i < length slots" for i
    using that by (simp add: nth_rotate)
  have "takeWhile full (rotate h slots) = take k (rotate h slots)"
    by (rule takeWhile_eq_take_P_nth) (use ok nth in auto)
  also have "\<dots> = ring_of slots h k"
    by (rule nth_equalityI) (use ok nth in \<open>auto simp: ring_of_def\<close>)
  finally show ?thesis .
qed

lemma ring_reaches:
  assumes "h < n" "j < (n::nat)"
  obtains i where "i < n" "(h + i) mod n = j"
proof
  have pos: "0 < n" using assms(1) by linarith
  then show "(j + (n - h)) mod n < n" by simp
  have "h + (j + (n - h)) = j + n" using assms(1) by simp
  then show "(h + (j + (n - h)) mod n) mod n = j" using assms(2) by (simp add: mod_add_right_eq)
qed

lemma ring_ok_0_iff: "ring_ok full slots h 0 \<longleftrightarrow> h < length slots \<and> (\<forall>j<length slots. \<not> full (slots ! j))"
proof
  assume ok: "ring_ok full slots h 0"
  then have h: "h < length slots" by (simp add: ring_ok_def)
  moreover have "\<not> full (slots ! j)" if "j < length slots" for j
    by (rule ring_reaches [OF h that]) (use ok in \<open>auto simp: ring_ok_def\<close>)
  ultimately show "h < length slots \<and> (\<forall>j<length slots. \<not> full (slots ! j))" by blast
next
  assume *: "h < length slots \<and> (\<forall>j<length slots. \<not> full (slots ! j))"
  then have "0 < length slots" by linarith
  with * show "ring_ok full slots h 0" by (auto simp: ring_ok_def intro: mod_less_divisor)
qed

end
