(* ===== verification/Thread_Reader.thy ===== *)
theory Thread_Reader
  imports Ring Stdio_Reader Peek_Reader
begin

text \<open>
  The threaded reader, \<^verbatim>\<open>lib/ior-thread.c\<close>. A producer thread fills a ring of
  \<open>max_buffers\<close> slices of 1 MiB from the parent reader; \<open>thread_read\<close>, called by the main thread,
  copies out of them. Both threads are program counters over the shared state: a step is one
  critical section of the mutex, or one stretch of code outside it, and the threads interleave
  in any order. A thread blocked in \<^verbatim>\<open>pthread_cond_wait\<close> has its own program
  counter, which only a signal (or a spurious wake-up) leaves, so that a lost signal would show
  as a deadlock.

  The parent is any \<open>reader\<close>. \<open>thread_read\<close> itself is the run of both threads under a schedule
  that is part of the state; the contract is proved for every schedule.
\<close>

section \<open>State\<close>

text \<open>\<open>struct buffer_t\<close> and \<open>struct state_t\<close>. \<open>space\<close> holds the bytes ever stored, \<open>tr_gone\<close> is
  the parent after \<open>wandio_destroy\<close> (its handle \<open>tr_io\<close> is not used again), \<open>tr_out\<close> the caller's
  buffer of the current call.\<close>

record tslot =
  sl_space :: "byte list"
  sl_len :: int
  sl_full :: bool

datatype producer_pc = P_Check | P_Wait | P_Read | P_Publish | P_Exit | P_Done

datatype consumer_pc =
  C_Idle
| C_Loop (c_len: int) (c_copied: int)
| C_Wait (c_len: int) (c_copied: int)
| C_Copy (c_len: int) (c_copied: int) (c_slice: int)
| C_Commit (c_len: int) (c_copied: int) (c_slice: int)
| C_Ret (c_result: int)
| C_Join
| C_Closed

record 'c thread_t =
  tr_slots :: "tslot list"
  tr_in :: nat
  tr_offset :: int
  tr_closing :: bool
  tr_io :: 'c
  tr_gone :: "'c option"
  tr_pidx :: nat
  tr_ppc :: producer_pc
  tr_cpc :: consumer_pc
  tr_out :: "byte list"

text \<open>\<open>pthread_cond_signal\<close> on \<open>data_ready\<close> and on \<open>space_avail\<close>: each has one possible waiter.\<close>

definition wake_consumer :: "'c thread_t \<Rightarrow> 'c thread_t" where
  "wake_consumer s = (case tr_cpc s of
     C_Wait len copied \<Rightarrow> s\<lparr>tr_cpc := C_Loop len copied\<rparr> | _ \<Rightarrow> s)"

definition wake_producer :: "'c thread_t \<Rightarrow> 'c thread_t" where
  "wake_producer s = (if tr_ppc s = P_Wait then s\<lparr>tr_ppc := P_Check\<rparr> else s)"

section \<open>The producer\<close>

definition producer_step :: "'c io_source_t \<Rightarrow> 'c thread_t \<Rightarrow> 'c thread_t option" where
  "producer_step src s =
     (let slot = tr_slots s ! tr_pidx s in
      case tr_ppc s of
        P_Check \<Rightarrow> Some (s\<lparr>tr_ppc :=
            (if sl_full slot \<and> \<not> tr_closing s then P_Wait
             else if tr_closing s then P_Exit else P_Read)\<rparr>)
      | P_Wait \<Rightarrow> None
      | P_Read \<Rightarrow> do {
          (r, bs, io) \<leftarrow> wandio_read src (tr_io s) 0 WANDIO_BUFFER_SIZE;
          let slot' = slot\<lparr>sl_space := bs @ drop (length bs) (sl_space slot), sl_len := c_int r\<rparr>;
          Some (s\<lparr>tr_io := io, tr_slots := (tr_slots s)[tr_pidx s := slot'], tr_ppc := P_Publish\<rparr>) }
      | P_Publish \<Rightarrow>
          let s1 = s\<lparr>tr_slots := (tr_slots s)[tr_pidx s := slot\<lparr>sl_full := True\<rparr>],
                     tr_pidx := (tr_pidx s + 1) mod length (tr_slots s),
                     tr_ppc := (if 0 < sl_len slot then P_Check else P_Exit)\<rparr>
          in Some (wake_consumer s1)
      | P_Exit \<Rightarrow> Some (wake_consumer (s\<lparr>tr_gone := Some (src_close src (tr_io s)), tr_ppc := P_Done\<rparr>))
      | P_Done \<Rightarrow> None)"

section \<open>The consumer\<close>

definition consumer_step :: "'c thread_t \<Rightarrow> 'c thread_t option" where
  "consumer_step s =
     (let slot = tr_slots s ! tr_in s in
      case tr_cpc s of
        C_Loop len copied \<Rightarrow>
          Some (s\<lparr>tr_cpc :=
            (if len \<le> 0 then C_Ret copied
             else if \<not> sl_full slot then C_Wait len copied
             else if sl_len slot < 1 then C_Ret (if copied < 1 then sl_len slot else copied)
             else C_Copy len copied (c_int (min (sl_len slot - tr_offset s) len)))\<rparr>)
      | C_Copy len copied piece \<Rightarrow>
          Some (s\<lparr>tr_out := tr_out s @ take (nat piece) (drop (nat (tr_offset s)) (sl_space slot)),
                  tr_cpc := C_Commit (len - piece) (c_int (copied + piece)) piece\<rparr>)
      | C_Commit len copied piece \<Rightarrow>
          let s1 = s\<lparr>tr_offset := tr_offset s + piece, tr_cpc := C_Loop len copied\<rparr>
          in Some (if sl_len slot \<le> tr_offset s1
                   then wake_producer (s1\<lparr>tr_slots := (tr_slots s)[tr_in s := slot\<lparr>sl_full := False\<rparr>],
                                          tr_in := (tr_in s + 1) mod length (tr_slots s),
                                          tr_offset := 0\<rparr>)
                   else s1)
      | C_Join \<Rightarrow> if tr_ppc s = P_Done then Some (s\<lparr>tr_cpc := C_Closed\<rparr>) else None
      | _ \<Rightarrow> None)"

section \<open>Opening, calling, closing\<close>

text \<open>\<open>thread_open\<close>: NULL for a NULL parent or when a slice cannot be allocated (the \<open>i\<close>-th
  call of the allocator returning non-zero); otherwise all slices EMPTY and the thread started.\<close>

definition thread_open :: "nat \<Rightarrow> (nat \<Rightarrow> int) \<Rightarrow> 'c option \<Rightarrow> 'c thread_t option" where
  "thread_open max_buffers memalign parent =
     (case parent of
        None \<Rightarrow> None
      | Some io \<Rightarrow>
          if \<exists>i\<in>{..<max_buffers}. memalign i \<noteq> 0 then None
          else Some \<lparr>tr_slots = replicate max_buffers \<lparr>sl_space = [], sl_len = 0, sl_full = False\<rparr>,
                     tr_in = 0, tr_offset = 0, tr_closing = False, tr_io = io, tr_gone = None,
                     tr_pidx = 0, tr_ppc = P_Check, tr_cpc = C_Idle, tr_out = []\<rparr>)"

definition thread_call :: "'c thread_t \<Rightarrow> int \<Rightarrow> 'c thread_t" where
  "thread_call s len = s\<lparr>tr_cpc := C_Loop len 0, tr_out := []\<rparr>"

definition thread_close_call :: "'c thread_t \<Rightarrow> 'c thread_t" where
  "thread_close_call s = wake_producer (s\<lparr>tr_closing := True, tr_cpc := C_Join\<rparr>)"

text \<open>One step of either thread, and a spurious wake-up.\<close>

inductive tstep :: "'c io_source_t \<Rightarrow> 'c thread_t \<Rightarrow> 'c thread_t \<Rightarrow> bool"
  for src where
  produce: "producer_step src s = Some t \<Longrightarrow> tstep src s t"
| consume: "consumer_step s = Some t \<Longrightarrow> tstep src s t"

inductive spurious :: "'c thread_t \<Rightarrow> 'c thread_t \<Rightarrow> bool" where
  producer_up: "tr_ppc s = P_Wait \<Longrightarrow> spurious s (wake_producer s)"
| consumer_up: "tr_cpc s = C_Wait len copied \<Longrightarrow> spurious s (wake_consumer s)"

inductive_cases tstep_cases: "tstep src s t"
inductive_cases spurious_cases: "spurious s t"

text \<open>
  A schedule is a list of choices, \<open>True\<close> for the producer; a thread that cannot go on leaves the
  turn to the other one, and the producer goes first when the list is used up.
\<close>

definition sched_step ::
  "'c io_source_t \<Rightarrow> bool list \<Rightarrow> 'c thread_t \<Rightarrow> (bool list \<times> 'c thread_t) option" where
  "sched_step src sched s =
     (let first = (sched = [] \<or> hd sched);
          one = (if first then producer_step src s else consumer_step s);
          other = (if first then consumer_step s else producer_step src s)
      in map_option (\<lambda>t. (tl sched, t)) (case one of Some t \<Rightarrow> Some t | None \<Rightarrow> other))"

partial_function (option) run_call ::
  "'c io_source_t \<Rightarrow> bool list \<Rightarrow> 'c thread_t \<Rightarrow> (int \<times> bool list \<times> 'c thread_t) option" where
  "run_call src sched s =
     (case tr_cpc s of
        C_Ret r \<Rightarrow> Some (r, sched, s\<lparr>tr_cpc := C_Idle\<rparr>)
      | C_Closed \<Rightarrow> Some (0, sched, s)
      | _ \<Rightarrow> do { (sched', t) \<leftarrow> sched_step src sched s; run_call src sched' t })"

definition thread_read :: "'c io_source_t \<Rightarrow> (bool list \<times> 'c thread_t) read_fn" where
  "thread_read src io buffer len =
     (let (sched, s) = io in
      do { (r, sched', t) \<leftarrow> run_call src sched (thread_call s (int len));
           Some (r, tr_out t, (sched', t)) })"

definition thread_close :: "'c io_source_t \<Rightarrow> (bool list \<times> 'c thread_t) \<Rightarrow> (bool list \<times> 'c thread_t) option" where
  "thread_close src io =
     (let (sched, s) = io in map_option snd (run_call src sched (thread_close_call s)))"

definition thread_source :: "'c io_source_t \<Rightarrow> (bool list \<times> 'c thread_t) io_source_t" where
  "thread_source src = \<lparr>src_name = ''thread'', src_read = thread_read src, src_peek = None,
     src_tell = None, src_seek = None,
     src_close = (\<lambda>io. case thread_close src io of Some t \<Rightarrow> t | None \<Rightarrow> io)\<rparr>"

section \<open>Invariant and abstraction\<close>

definition slot_data :: "tslot \<Rightarrow> byte list" where
  "slot_data x = take (nat (sl_len x)) (sl_space x)"

definition tr_queue :: "'c thread_t \<Rightarrow> tslot list" where
  "tr_queue s = takeWhile sl_full (rotate (tr_in s) (tr_slots s))"

definition tr_taken :: "'c thread_t \<Rightarrow> nat" where
  "tr_taken s = nat (tr_offset s) + (case tr_cpc s of C_Commit len copied piece \<Rightarrow> nat piece | _ \<Rightarrow> 0)"

definition tr_inflight :: "'c thread_t \<Rightarrow> byte list" where
  "tr_inflight s = (if tr_ppc s = P_Publish then slot_data (tr_slots s ! tr_pidx s) else [])"

text \<open>What the reader owes: the rest of the FULL slices, the slice being filled, the parent's.\<close>

definition tr_pending :: "('c \<Rightarrow> byte list) \<Rightarrow> 'c thread_t \<Rightarrow> byte list" where
  "tr_pending cpending s =
     drop (tr_taken s) (concat (map slot_data (tr_queue s))) @ tr_inflight s @ cpending (tr_io s)"

definition good_slot :: "tslot \<Rightarrow> bool" where
  "good_slot x \<longleftrightarrow> - (2 ^ 31) \<le> sl_len x \<and> sl_len x < 2 ^ 31 \<and> sl_len x \<le> int (length (sl_space x))"

text \<open>The ring with \<open>k\<close> FULL slices, and where the producer can be.\<close>

definition tr_ring :: "('c \<Rightarrow> bool) \<Rightarrow> ('c \<Rightarrow> byte list) \<Rightarrow> 'c thread_t \<Rightarrow> nat \<Rightarrow> bool" where
  "tr_ring cinv cpending s k \<longleftrightarrow>
     (let n = length (tr_slots s); q = ring_of (tr_slots s) (tr_in s) k in
      ring_ok sl_full (tr_slots s) (tr_in s) k \<and> tr_pidx s = (tr_in s + k) mod n \<and>
      cinv (tr_io s) \<and> (\<forall>x\<in>set q. good_slot x) \<and>
      (case tr_ppc s of
         P_Check \<Rightarrow> \<forall>x\<in>set q. 0 < sl_len x
       | P_Wait \<Rightarrow> (\<forall>x\<in>set q. 0 < sl_len x) \<and> k = n \<and> \<not> tr_closing s
       | P_Read \<Rightarrow> (\<forall>x\<in>set q. 0 < sl_len x) \<and> k < n
       | P_Publish \<Rightarrow> (\<forall>x\<in>set q. 0 < sl_len x) \<and> k < n \<and> good_slot (tr_slots s ! tr_pidx s) \<and>
           (sl_len (tr_slots s ! tr_pidx s) = 0 \<longrightarrow> cpending (tr_io s) = [])
       | _ \<Rightarrow> tr_closing s \<or> (0 < k \<and> (\<forall>x\<in>set (butlast q). 0 < sl_len x) \<and> sl_len (last q) < 1 \<and>
           (sl_len (last q) = 0 \<longrightarrow> cpending (tr_io s) = []))))"

text \<open>The consumer inside a call for \<open>L\<close> bytes that started with \<open>base\<close> pending.\<close>

definition tr_cons :: "int \<Rightarrow> byte list \<Rightarrow> 'c thread_t \<Rightarrow> nat \<Rightarrow> bool" where
  "tr_cons L base s k \<longleftrightarrow>
     L < 2 ^ 31 \<and> 0 \<le> tr_offset s \<and>
     (0 < tr_offset s \<longrightarrow> 0 < k \<and> tr_offset s < sl_len (tr_slots s ! tr_in s)) \<and>
     (tr_closing s \<longrightarrow> tr_cpc s = C_Join \<or> tr_cpc s = C_Closed) \<and>
     (case tr_cpc s of
        C_Idle \<Rightarrow> True
      | C_Loop len copied \<Rightarrow> copied = int (length (tr_out s)) \<and> len + copied = L \<and> 0 \<le> len
      | C_Wait len copied \<Rightarrow> copied = int (length (tr_out s)) \<and> len + copied = L \<and> 0 < len \<and> k = 0
      | C_Copy len copied piece \<Rightarrow> copied = int (length (tr_out s)) \<and> len + copied = L \<and> 0 < k \<and>
          0 < piece \<and> piece \<le> len \<and> tr_offset s + piece \<le> sl_len (tr_slots s ! tr_in s)
      | C_Commit len copied piece \<Rightarrow> copied = int (length (tr_out s)) \<and> len + copied = L \<and> 0 < k \<and>
          0 \<le> len \<and> 0 < piece \<and> tr_offset s + piece \<le> sl_len (tr_slots s ! tr_in s)
      | C_Ret r \<Rightarrow> if 0 \<le> r then r = int (length (tr_out s)) \<and> r \<le> L \<and> (r = 0 \<longrightarrow> L = 0 \<or> base = [])
          else - (2 ^ 31) \<le> r \<and> tr_out s = []
      | C_Join \<Rightarrow> tr_closing s
      | C_Closed \<Rightarrow> tr_closing s \<and> tr_ppc s = P_Done)"

definition tr_inv ::
  "('c \<Rightarrow> bool) \<Rightarrow> ('c \<Rightarrow> byte list) \<Rightarrow> int \<Rightarrow> byte list \<Rightarrow> 'c thread_t \<Rightarrow> bool" where
  "tr_inv cinv cpending L base s \<longleftrightarrow>
     (\<exists>k. tr_ring cinv cpending s k \<and> tr_cons L base s k) \<and>
     (tr_cpc s \<noteq> C_Idle \<longrightarrow> base = tr_out s @ tr_pending cpending s)"

text \<open>The steps, one rewrite rule per program counter.\<close>

lemmas tr_case_splits = producer_pc.splits consumer_pc.splits

lemma tr_pending_ring:
  "tr_ring cinv cpending s k \<Longrightarrow> tr_pending cpending s =
    drop (tr_taken s) (concat (map slot_data (ring_of (tr_slots s) (tr_in s) k))) @
      tr_inflight s @ cpending (tr_io s)"
  using ring_queue [of sl_full "tr_slots s" "tr_in s" k]
  by (simp add: tr_pending_def tr_queue_def tr_ring_def Let_def)

lemma length_slot_data: "good_slot x \<Longrightarrow> length (slot_data x) = nat (sl_len x)"
  by (auto simp: good_slot_def slot_data_def min_def)

text \<open>The head slice is never overrun.\<close>

lemma tr_head:
  assumes "tr_ring cinv cpending s k" "0 < k"
  shows "good_slot (tr_slots s ! tr_in s)" "sl_full (tr_slots s ! tr_in s)"
    "concat (map slot_data (ring_of (tr_slots s) (tr_in s) k)) =
       slot_data (tr_slots s ! tr_in s) @
       concat (map slot_data (ring_of (tr_slots s) ((tr_in s + 1) mod length (tr_slots s)) (k - 1)))"
proof -
  have ok: "ring_ok sl_full (tr_slots s) (tr_in s) k" and
    good: "\<forall>x\<in>set (ring_of (tr_slots s) (tr_in s) k). good_slot x"
    using assms(1) by (simp_all add: tr_ring_def Let_def)
  note head = ring_of_head [OF ring_okD(1) [OF ok] assms(2)]
  show "good_slot (tr_slots s ! tr_in s)" using good head by simp
  show "sl_full (tr_slots s ! tr_in s)" using ring_okD(4) [OF ok] assms(2) by simp
  show "concat (map slot_data (ring_of (tr_slots s) (tr_in s) k)) =
       slot_data (tr_slots s ! tr_in s) @
       concat (map slot_data (ring_of (tr_slots s) ((tr_in s + 1) mod length (tr_slots s)) (k - 1)))"
    using head by simp
qed

lemma tr_taken_le:
  assumes "tr_ring cinv cpending s k" "tr_cons L base s k"
  shows "tr_taken s \<le> (if 0 < k then length (slot_data (tr_slots s ! tr_in s)) else 0)"
    "tr_taken s \<le> length (concat (map slot_data (ring_of (tr_slots s) (tr_in s) k)))"
proof -
  show 1: "tr_taken s \<le> (if 0 < k then length (slot_data (tr_slots s ! tr_in s)) else 0)"
  proof (cases "0 < k")
    case True
    note len = length_slot_data [OF tr_head(1) [OF assms(1) True]]
    from assms(2) True show ?thesis
      by (auto simp: tr_taken_def tr_cons_def len split: consumer_pc.splits)
  next
    case False
    with assms(2) show ?thesis by (auto simp: tr_taken_def tr_cons_def split: consumer_pc.splits)
  qed
  then show "tr_taken s \<le> length (concat (map slot_data (ring_of (tr_slots s) (tr_in s) k)))"
    using tr_head(3) [OF assms(1)] by (cases "0 < k") auto
qed

text \<open>What is left to do: the parent's bytes, the request, and the distance in each thread's loop.\<close>

definition tr_measure :: "('c \<Rightarrow> byte list) \<Rightarrow> 'c thread_t \<Rightarrow> nat" where
  "tr_measure cpending s = 10 * length (cpending (tr_io s)) +
     (case tr_ppc s of P_Check \<Rightarrow> 8 | P_Wait \<Rightarrow> 7 | P_Read \<Rightarrow> 6
      | P_Publish \<Rightarrow> (if 0 < sl_len (tr_slots s ! tr_pidx s) then 15 else 5)
      | P_Exit \<Rightarrow> 3 | P_Done \<Rightarrow> 0) +
     (case tr_cpc s of C_Loop len copied \<Rightarrow> 10 * nat len + 5 | C_Wait len copied \<Rightarrow> 10 * nat len + 4
      | C_Copy len copied piece \<Rightarrow> 10 * nat len + 3
      | C_Commit len copied piece \<Rightarrow> 10 * nat (len + piece) + 2
      | C_Join \<Rightarrow> 1 | _ \<Rightarrow> 0)"

lemma tr_cons_more:
  assumes "tr_cons L base s k" "tr_offset t = tr_offset s" "tr_closing t = tr_closing s"
    "tr_cpc t = tr_cpc s" "tr_out t = tr_out s" "tr_ppc s \<noteq> P_Done"
    "0 < k \<Longrightarrow> tr_slots t ! tr_in t = tr_slots s ! tr_in s" "k \<le> k'"
  shows "tr_cons L base (wake_consumer t) k'"
  using assms
  by (auto simp: tr_cons_def wake_consumer_def split: consumer_pc.splits)

lemma wake_consumer_simps [simp]:
  "tr_slots (wake_consumer s) = tr_slots s" "tr_in (wake_consumer s) = tr_in s"
  "tr_offset (wake_consumer s) = tr_offset s" "tr_closing (wake_consumer s) = tr_closing s"
  "tr_io (wake_consumer s) = tr_io s" "tr_gone (wake_consumer s) = tr_gone s"
  "tr_pidx (wake_consumer s) = tr_pidx s" "tr_ppc (wake_consumer s) = tr_ppc s"
  "tr_out (wake_consumer s) = tr_out s" "tr_taken (wake_consumer s) = tr_taken s"
  by (simp_all add: wake_consumer_def tr_taken_def split: consumer_pc.splits)

lemma wake_producer_simps [simp]:
  "tr_slots (wake_producer s) = tr_slots s" "tr_in (wake_producer s) = tr_in s"
  "tr_offset (wake_producer s) = tr_offset s" "tr_closing (wake_producer s) = tr_closing s"
  "tr_io (wake_producer s) = tr_io s" "tr_gone (wake_producer s) = tr_gone s"
  "tr_pidx (wake_producer s) = tr_pidx s" "tr_cpc (wake_producer s) = tr_cpc s"
  "tr_out (wake_producer s) = tr_out s" "tr_taken (wake_producer s) = tr_taken s"
  by (simp_all add: wake_producer_def tr_taken_def)

lemma wake_consumer_idle [simp]: "tr_cpc (wake_consumer s) = C_Idle \<longleftrightarrow> tr_cpc s = C_Idle"
  by (simp add: wake_consumer_def split: consumer_pc.splits)

text \<open>The ring part of the invariant does not look at the consumer's own variables.\<close>

lemma tr_ring_pc [simp]:
  "tr_ring cinv cpending (s\<lparr>tr_cpc := pc\<rparr>) k = tr_ring cinv cpending s k"
  "tr_ring cinv cpending (s\<lparr>tr_out := out\<rparr>) k = tr_ring cinv cpending s k"
  "tr_ring cinv cpending (s\<lparr>tr_offset := offset\<rparr>) k = tr_ring cinv cpending s k"
  by (simp_all add: tr_ring_def Let_def split: producer_pc.splits)

lemma tr_ring_wake [simp]: "tr_ring cinv cpending (wake_consumer s) k = tr_ring cinv cpending s k"
  by (simp add: wake_consumer_def split: consumer_pc.splits)

lemma wake_consumer_measure: "tr_measure cpending (wake_consumer s) \<le> tr_measure cpending s + 1"
  by (simp add: tr_measure_def wake_consumer_def split: consumer_pc.splits)

lemma wake_producer_measure: "tr_measure cpending (wake_producer s) \<le> tr_measure cpending s + 1"
  by (simp add: tr_measure_def wake_producer_def split: producer_pc.splits)

lemma step_closing: "tstep src s t \<Longrightarrow> tr_closing t = tr_closing s"
  by (erule tstep_cases)
    (auto simp: producer_step_def consumer_step_def Let_def bind_eq_Some_conv
      split: producer_pc.splits consumer_pc.splits if_splits)

lemma step_not_idle: "tstep src s t \<Longrightarrow> tr_cpc s \<noteq> C_Idle \<Longrightarrow> tr_cpc t \<noteq> C_Idle"
  by (erule tstep_cases)
    (auto simp: producer_step_def consumer_step_def Let_def bind_eq_Some_conv
      split: producer_pc.splits consumer_pc.splits if_splits)

section \<open>Every step keeps the invariant\<close>

locale threaded = par: reader "src_read src" cinv cpending served
  for src :: "'c io_source_t" and cinv cpending served +
  assumes served_slice: "served WANDIO_BUFFER_SIZE"
begin

lemma check_inv:
  assumes "tr_inv cinv cpending L base s" "tr_ppc s = P_Check" "producer_step src s = Some t"
  shows "tr_inv cinv cpending L base t"
proof -
  from assms(1) obtain k where ring: "tr_ring cinv cpending s k" and cons: "tr_cons L base s k"
    and base: "tr_cpc s \<noteq> C_Idle \<longrightarrow> base = tr_out s @ tr_pending cpending s"
    by (auto simp: tr_inv_def)
  have ok: "ring_ok sl_full (tr_slots s) (tr_in s) k" and pidx: "tr_pidx s = (tr_in s + k) mod length (tr_slots s)"
    using ring by (simp_all add: tr_ring_def Let_def)
  have full: "sl_full (tr_slots s ! tr_pidx s) \<longleftrightarrow> k = length (tr_slots s)" and le: "k \<le> length (tr_slots s)"
    using ring_okD [OF ok] pidx by auto
  have t: "t = s\<lparr>tr_ppc := (if sl_full (tr_slots s ! tr_pidx s) \<and> \<not> tr_closing s then P_Wait
             else if tr_closing s then P_Exit else P_Read)\<rparr>"
    using assms(2,3) by (simp add: producer_step_def)
  have "tr_ring cinv cpending t k"
    using ring assms(2) full le by (simp add: tr_ring_def t Let_def)
  moreover have "tr_cons L base t k"
    using cons assms(2) by (auto simp: tr_cons_def t split: consumer_pc.splits)
  moreover have "tr_pending cpending t = tr_pending cpending s"
    using assms(2) by (simp add: t tr_pending_def tr_queue_def tr_taken_def tr_inflight_def)
  moreover have "tr_cpc t = tr_cpc s" "tr_out t = tr_out s" by (simp_all add: t)
  ultimately show ?thesis using base by (auto simp: tr_inv_def)
qed

text \<open>Filling the slice outside the mutex: the slot is EMPTY, so no FULL slot changes.\<close>

lemma read_inv:
  assumes "tr_inv cinv cpending L base s" "tr_ppc s = P_Read"
  shows "\<exists>t. producer_step src s = Some t \<and> tr_inv cinv cpending L base t"
proof -
  from assms(1) obtain k where ring: "tr_ring cinv cpending s k" and cons: "tr_cons L base s k"
    and base: "tr_cpc s \<noteq> C_Idle \<longrightarrow> base = tr_out s @ tr_pending cpending s"
    by (auto simp: tr_inv_def)
  let ?n = "length (tr_slots s)" and ?slot = "tr_slots s ! tr_pidx s"
  have ok: "ring_ok sl_full (tr_slots s) (tr_in s) k" and pidx: "tr_pidx s = (tr_in s + k) mod ?n"
    and lt: "k < ?n" and ci: "cinv (tr_io s)"
    using ring assms(2) by (simp_all add: tr_ring_def Let_def)
  have empty: "\<not> sl_full ?slot" and pos: "tr_pidx s < ?n"
    using ring_okD [OF ok] pidx lt by auto
  from ci served_slice obtain r bs io where rd: "src_read src (tr_io s) 0 WANDIO_BUFFER_SIZE = Some (r, bs, io)"
    and io: "cinv io" "cpending (tr_io s) = bs @ cpending io" and r: "- (2 ^ 31) \<le> r"
      "0 \<le> r \<longrightarrow> r = int (length bs)" "length bs \<le> WANDIO_BUFFER_SIZE" "r = 0 \<longrightarrow> cpending io = []" "r < 0 \<longrightarrow> bs = []"
    by (cases rule: par.rd_cases [where a = 0]) auto
  have r31: "c_int r = r" using r by (intro c_int_id) (auto simp: WANDIO_BUFFER_SIZE_def)
  let ?new = "?slot\<lparr>sl_space := bs @ drop (length bs) (sl_space ?slot), sl_len := r\<rparr>"
  let ?t = "s\<lparr>tr_io := io, tr_slots := (tr_slots s)[tr_pidx s := ?new], tr_ppc := P_Publish\<rparr>"
  have step: "producer_step src s = Some ?t"
    using assms(2) rd by (simp add: producer_step_def wandio_read_def r31 Let_def)
  have "\<not> sl_full ?new" using empty by simp
  note scrib = ring_scribble [OF ok lt this, folded pidx]
  have good: "good_slot ?new" using r by (auto simp: good_slot_def WANDIO_BUFFER_SIZE_def)
  have data: "slot_data ?new = bs" using r by (auto simp: slot_data_def)
  have "tr_ring cinv cpending ?t k"
    using ring assms(2) scrib io(1) pos good r(4) pidx by (simp add: tr_ring_def Let_def)
  moreover have "tr_cons L base ?t k"
  proof -
    have "0 < k \<Longrightarrow> tr_slots ?t ! tr_in s = tr_slots s ! tr_in s"
      using ring_index_neq [OF ok] lt pidx by simp
    with cons assms(2) show ?thesis by (auto simp: tr_cons_def split: consumer_pc.splits)
  qed
  moreover have "tr_pending cpending ?t = tr_pending cpending s"
  proof -
    have "tr_inflight ?t = bs" using pos data by (simp add: tr_inflight_def)
    moreover have "tr_inflight s = []" using assms(2) by (simp add: tr_inflight_def)
    moreover have "tr_taken ?t = tr_taken s" by (simp add: tr_taken_def)
    ultimately show ?thesis
      using tr_pending_ring [OF ring] tr_pending_ring [OF \<open>tr_ring cinv cpending ?t k\<close>] scrib io(2)
      by simp
  qed
  ultimately have "tr_inv cinv cpending L base ?t" using base by (auto simp: tr_inv_def)
  with step show ?thesis by blast
qed

lemma publish_inv:
  assumes "tr_inv cinv cpending L base s" "tr_ppc s = P_Publish" "producer_step src s = Some t"
  shows "tr_inv cinv cpending L base t"
proof -
  from assms(1) obtain k where ring: "tr_ring cinv cpending s k" and cons: "tr_cons L base s k"
    and base: "tr_cpc s \<noteq> C_Idle \<longrightarrow> base = tr_out s @ tr_pending cpending s"
    by (auto simp: tr_inv_def)
  let ?n = "length (tr_slots s)" and ?slot = "tr_slots s ! tr_pidx s"
  have ok: "ring_ok sl_full (tr_slots s) (tr_in s) k" and pidx: "tr_pidx s = (tr_in s + k) mod ?n"
    and lt: "k < ?n" and ci: "cinv (tr_io s)" and good: "good_slot ?slot"
    and eof: "sl_len ?slot = 0 \<longrightarrow> cpending (tr_io s) = []"
    and run: "\<forall>x\<in>set (ring_of (tr_slots s) (tr_in s) k). good_slot x \<and> 0 < sl_len x"
    using ring unfolding tr_ring_def Let_def assms(2) producer_pc.case by blast+
  let ?new = "?slot\<lparr>sl_full := True\<rparr>"
  let ?t = "s\<lparr>tr_slots := (tr_slots s)[tr_pidx s := ?new], tr_pidx := (tr_pidx s + 1) mod ?n,
              tr_ppc := (if 0 < sl_len ?slot then P_Check else P_Exit)\<rparr>"
  have t: "t = wake_consumer ?t" using assms(2,3) by (simp add: producer_step_def Let_def)
  have "sl_full ?new" by simp
  note fill = ring_fill [OF ok lt this, folded pidx]
  have same: "slot_data ?new = slot_data ?slot" "good_slot ?new" "sl_len ?new = sl_len ?slot"
    using good by (simp_all add: slot_data_def good_slot_def)
  have idx: "(tr_pidx s + 1) mod ?n = (tr_in s + Suc k) mod ?n"
    using pidx by (simp add: mod_Suc_eq)
  have ring': "tr_ring cinv cpending t (Suc k)"
    using fill same ci run eof idx by (auto simp: tr_ring_def Let_def t)
  moreover have "tr_cons L base t (Suc k)"
    unfolding t using assms(2) ring_index_neq [OF ok] lt pidx by (intro tr_cons_more [OF cons]) auto
  moreover have "tr_pending cpending t = tr_pending cpending s"
  proof -
    have "tr_inflight s = slot_data ?slot" "tr_inflight t = []"
      using assms(2) by (simp_all add: tr_inflight_def t)
    moreover have "tr_taken t = tr_taken s" by (simp add: t) (simp add: tr_taken_def)
    moreover have "tr_slots t = (tr_slots s)[tr_pidx s := ?new]" "tr_in t = tr_in s" "tr_io t = tr_io s"
      by (simp_all add: t)
    ultimately show ?thesis
      using tr_pending_ring [OF ring] tr_pending_ring [OF ring'] fill(2) same(1)
        tr_taken_le(2) [OF ring cons] by simp
  qed
  moreover have "tr_out t = tr_out s" "tr_cpc t = C_Idle \<longleftrightarrow> tr_cpc s = C_Idle" by (simp_all add: t)
  ultimately show ?thesis using base by (auto simp: tr_inv_def)
qed

lemma exit_inv:
  assumes "tr_inv cinv cpending L base s" "tr_ppc s = P_Exit" "producer_step src s = Some t"
  shows "tr_inv cinv cpending L base t"
proof -
  from assms(1) obtain k where ring: "tr_ring cinv cpending s k" and cons: "tr_cons L base s k"
    and base: "tr_cpc s \<noteq> C_Idle \<longrightarrow> base = tr_out s @ tr_pending cpending s"
    by (auto simp: tr_inv_def)
  let ?t = "s\<lparr>tr_gone := Some (src_close src (tr_io s)), tr_ppc := P_Done\<rparr>"
  have t: "t = wake_consumer ?t" using assms(2,3) by (simp add: producer_step_def Let_def)
  have "tr_ring cinv cpending t k" using ring assms(2) by (simp add: tr_ring_def Let_def t)
  moreover have "tr_cons L base t k"
    unfolding t using assms(2) by (intro tr_cons_more [OF cons]) auto
  moreover have "tr_pending cpending t = tr_pending cpending s"
    using assms(2) by (simp add: t tr_pending_def tr_queue_def tr_inflight_def) (simp add: tr_taken_def)
  moreover have "tr_out t = tr_out s" "tr_cpc t = C_Idle \<longleftrightarrow> tr_cpc s = C_Idle" by (simp_all add: t)
  ultimately show ?thesis using base by (auto simp: tr_inv_def)
qed

lemma producer_inv:
  assumes "tr_inv cinv cpending L base s" "producer_step src s = Some t"
  shows "tr_inv cinv cpending L base t"
proof (cases "tr_ppc s")
  case P_Check with assms check_inv show ?thesis by blast
next
  case P_Wait with assms(2) show ?thesis by (simp add: producer_step_def)
next
  case P_Read with read_inv [OF assms(1)] assms(2) show ?thesis by auto
next
  case P_Publish with assms publish_inv show ?thesis by blast
next
  case P_Exit with assms exit_inv show ?thesis by blast
next
  case P_Done with assms(2) show ?thesis by (simp add: producer_step_def)
qed

text \<open>An unreadable head slice is the last one: the producer has finished and nothing is behind it.\<close>

lemma head_end:
  assumes "tr_ring cinv cpending s k" "\<not> tr_closing s" "0 < k" "sl_len (tr_slots s ! tr_in s) < 1"
  shows "k = 1" "ring_of (tr_slots s) (tr_in s) k = [tr_slots s ! tr_in s]" "tr_inflight s = []"
    "sl_len (tr_slots s ! tr_in s) = 0 \<longrightarrow> cpending (tr_io s) = []"
proof -
  let ?q = "ring_of (tr_slots s) (tr_in s) k"
  have ok: "ring_ok sl_full (tr_slots s) (tr_in s) k"
    using assms(1) unfolding tr_ring_def Let_def by blast
  note head = ring_of_head [OF ring_okD(1) [OF ok] assms(3)]
  have pc: "tr_ppc s = P_Exit \<or> tr_ppc s = P_Done"
    using assms(1,4) head by (cases "tr_ppc s") (auto simp: tr_ring_def Let_def)
  then have "(\<forall>x\<in>set (butlast ?q). 0 < sl_len x) \<and> (sl_len (last ?q) = 0 \<longrightarrow> cpending (tr_io s) = [])"
    using assms(1,2) by (auto simp: tr_ring_def Let_def)
  moreover have "ring_of (tr_slots s) ((tr_in s + 1) mod length (tr_slots s)) (k - 1) = []"
    using calculation head assms(4) by (auto split: if_splits)
  ultimately show "k = 1" "?q = [tr_slots s ! tr_in s]"
    "sl_len (tr_slots s ! tr_in s) = 0 \<longrightarrow> cpending (tr_io s) = []"
    using head length_ring_of [of "tr_slots s" "tr_in s" k] by auto
  show "tr_inflight s = []" using pc by (auto simp: tr_inflight_def)
qed

lemma loop_inv:
  assumes "tr_inv cinv cpending L base s" "tr_cpc s = C_Loop len copied" "consumer_step s = Some t"
  shows "tr_inv cinv cpending L base t"
proof -
  from assms(1,2) obtain k where ring: "tr_ring cinv cpending s k" and cons: "tr_cons L base s k"
    and base: "base = tr_out s @ tr_pending cpending s"
    by (auto simp: tr_inv_def)
  let ?slot = "tr_slots s ! tr_in s"
  have ok: "ring_ok sl_full (tr_slots s) (tr_in s) k"
    using ring unfolding tr_ring_def Let_def by blast
  have full: "sl_full ?slot \<longleftrightarrow> 0 < k" using ring_okD [OF ok] by auto
  have c: "L < 2 ^ 31" "0 \<le> tr_offset s" "\<not> tr_closing s" "copied = int (length (tr_out s))"
    "len + copied = L" "0 \<le> len" "0 < tr_offset s \<longrightarrow> 0 < k \<and> tr_offset s < sl_len ?slot"
    using cons assms(2) by (auto simp: tr_cons_def)
  obtain pc where t: "t = s\<lparr>tr_cpc := pc\<rparr>" and pc: "pc =
      (if len \<le> 0 then C_Ret copied else if \<not> sl_full ?slot then C_Wait len copied
       else if sl_len ?slot < 1 then C_Ret (if copied < 1 then sl_len ?slot else copied)
       else C_Copy len copied (c_int (min (sl_len ?slot - tr_offset s) len)))"
    using assms(2,3) by (simp add: consumer_step_def Let_def)
  have ring': "tr_ring cinv cpending t k" using ring by (simp add: t)
  have pend: "tr_pending cpending t = tr_pending cpending s"
    using assms(2) pc by (simp add: t tr_pending_def tr_queue_def tr_inflight_def tr_taken_def)
  have "tr_cons L base t k"
  proof (cases "0 < len \<and> 0 < k")
    case False
    then show ?thesis using c pc full by (auto simp: t tr_cons_def)
  next
    case True
    show ?thesis
    proof (cases "sl_len ?slot < 1")
      case last: True
      note fin = head_end [OF ring c(3) _ last]
      have "good_slot ?slot" using tr_head(1) [OF ring] True by simp
      moreover have "base = []" if "copied < 1" "sl_len ?slot = 0"
        using that fin True c(4) base tr_pending_ring [OF ring] by (simp add: slot_data_def)
      ultimately show ?thesis using c pc full True last
        by (auto simp: t tr_cons_def good_slot_def)
    next
      case False
      have "good_slot ?slot" using tr_head(1) [OF ring] True by simp
      with c(1,2,4,5) True have "c_int (min (sl_len ?slot - tr_offset s) len) =
          min (sl_len ?slot - tr_offset s) len"
        by (intro c_int_id) (use c False in \<open>auto simp: good_slot_def\<close>)
      with False True c pc full show ?thesis by (auto simp: t tr_cons_def)
    qed
  qed
  with ring' pend base show ?thesis by (auto simp: tr_inv_def t)
qed

lemma copy_inv:
  assumes "tr_inv cinv cpending L base s" "tr_cpc s = C_Copy len copied piece" "consumer_step s = Some t"
  shows "tr_inv cinv cpending L base t"
proof -
  from assms(1,2) obtain k where ring: "tr_ring cinv cpending s k" and cons: "tr_cons L base s k"
    and base: "base = tr_out s @ tr_pending cpending s"
    by (auto simp: tr_inv_def)
  let ?slot = "tr_slots s ! tr_in s"
  have c: "L < 2 ^ 31" "0 \<le> tr_offset s" "copied = int (length (tr_out s))" "len + copied = L"
    "0 < k" "0 < piece" "piece \<le> len" "tr_offset s + piece \<le> sl_len ?slot"
    using cons assms(2) by (auto simp: tr_cons_def)
  note head = tr_head [OF ring c(5)]
  have good: "sl_len ?slot \<le> int (length (sl_space ?slot))" using head(1) by (simp add: good_slot_def)
  have ci: "c_int (copied + piece) = copied + piece" using c by (intro c_int_id) auto
  let ?bs = "take (nat piece) (drop (nat (tr_offset s)) (sl_space ?slot))"
  have t: "t = s\<lparr>tr_out := tr_out s @ ?bs, tr_cpc := C_Commit (len - piece) (copied + piece) piece\<rparr>"
    using assms(2,3) ci by (simp add: consumer_step_def Let_def)
  have len: "length ?bs = nat piece" using good c by simp
  have ring': "tr_ring cinv cpending t k" using ring by (simp add: t)
  have cons': "tr_cons L base t k" using cons assms(2) c len by (auto simp: t tr_cons_def)
  have bs: "?bs = take (nat piece) (drop (nat (tr_offset s)) (slot_data ?slot))"
    using c by (simp add: slot_data_def drop_take nat_diff_distrib min_def)
  have split: "drop (nat (tr_offset s)) (slot_data ?slot) =
      ?bs @ drop (nat (tr_offset s) + nat piece) (slot_data ?slot)"
    unfolding bs by (metis append_take_drop_id drop_drop add.commute)
  have le: "nat (tr_offset s) + nat piece \<le> length (slot_data ?slot)"
    using length_slot_data [OF head(1)] c by simp
  have "tr_taken s = nat (tr_offset s)" "tr_taken t = nat (tr_offset s) + nat piece"
    using assms(2) by (simp_all add: tr_taken_def t)
  then have "tr_pending cpending s = ?bs @ tr_pending cpending t"
    using tr_pending_ring [OF ring] tr_pending_ring [OF ring'] head(3) split le
    by (simp add: t tr_inflight_def)
  with base ring' cons' show ?thesis by (auto simp: tr_inv_def t)
qed

lemma commit_inv:
  assumes "tr_inv cinv cpending L base s" "tr_cpc s = C_Commit len copied piece"
    "consumer_step s = Some t"
  shows "tr_inv cinv cpending L base t"
proof -
  from assms(1,2) obtain k where ring: "tr_ring cinv cpending s k" and cons: "tr_cons L base s k"
    and base: "base = tr_out s @ tr_pending cpending s"
    by (auto simp: tr_inv_def)
  let ?slot = "tr_slots s ! tr_in s" and ?n = "length (tr_slots s)"
  have c: "L < 2 ^ 31" "0 \<le> tr_offset s" "\<not> tr_closing s" "copied = int (length (tr_out s))"
    "len + copied = L" "0 \<le> len" "0 < k" "0 < piece" "tr_offset s + piece \<le> sl_len ?slot"
    using cons assms(2) by (auto simp: tr_cons_def)
  note head = tr_head [OF ring c(7)]
  have taken: "tr_taken s = nat (tr_offset s + piece)"
    using assms(2) c by (simp add: tr_taken_def nat_add_distrib)
  show ?thesis
  proof (cases "sl_len ?slot \<le> tr_offset s + piece")
    case False
    then have t: "t = s\<lparr>tr_offset := tr_offset s + piece, tr_cpc := C_Loop len copied\<rparr>"
      using assms(2,3) by (simp add: consumer_step_def Let_def)
    have "tr_ring cinv cpending t k" using ring by (simp add: t)
    moreover have "tr_cons L base t k" using c False by (simp add: t tr_cons_def)
    moreover have "tr_pending cpending t = tr_pending cpending s"
      using taken by (simp add: t tr_pending_def tr_queue_def tr_inflight_def) (simp add: tr_taken_def)
    ultimately show ?thesis using base by (auto simp: tr_inv_def t)
  next
    case True
    with c have used: "tr_offset s + piece = sl_len ?slot" by simp
    let ?new = "?slot\<lparr>sl_full := False\<rparr>"
    let ?t = "s\<lparr>tr_cpc := C_Loop len copied, tr_slots := (tr_slots s)[tr_in s := ?new],
        tr_in := (tr_in s + 1) mod ?n, tr_offset := 0\<rparr>"
    have t: "t = wake_producer ?t"
      using assms(2,3) True by (simp add: consumer_step_def Let_def)
    have ok: "ring_ok sl_full (tr_slots s) (tr_in s) k" and pidx: "tr_pidx s = (tr_in s + k) mod ?n"
      using ring unfolding tr_ring_def Let_def by blast+
    have "\<not> sl_full ?new" by simp
    note take = ring_take [OF ok c(7) this]
    note n = ring_okD [OF ok]
    have pos: "0 < sl_len ?slot" using used c by simp
    have keep: "(tr_slots s)[tr_in s := ?new] ! tr_pidx s = tr_slots s ! tr_pidx s" if "k < ?n"
      using ring_index_neq [OF ok c(7) that] pidx by simp
    have q: "ring_of (tr_slots s) (tr_in s) k =
        ?slot # ring_of ((tr_slots s)[tr_in s := ?new]) ((tr_in s + 1) mod ?n) (k - 1)"
      by (rule take(2))
    define q' where "q' = ring_of ((tr_slots s)[tr_in s := ?new]) ((tr_in s + 1) mod ?n) (k - 1)"
    have ends: "0 < k - 1 \<and> (\<forall>x\<in>set (butlast q'). 0 < sl_len x) \<and> sl_len (last q') < 1 \<and>
        (sl_len (last q') = 0 \<longrightarrow> cpending (tr_io s) = [])"
      if "tr_ppc s = P_Exit \<or> tr_ppc s = P_Done"
    proof -
      have all: "(\<forall>x\<in>set (butlast (?slot # q')). 0 < sl_len x) \<and> sl_len (last (?slot # q')) < 1 \<and>
          (sl_len (last (?slot # q')) = 0 \<longrightarrow> cpending (tr_io s) = [])"
        using ring c(3) that q unfolding q'_def by (auto simp: tr_ring_def Let_def)
      then have "q' \<noteq> []" using pos by auto
      moreover have "length q' = k - 1" by (simp add: q'_def)
      ultimately show ?thesis using all by (auto simp: neq_Nil_conv)
    qed
    note ends = ends [unfolded q'_def]
    have km: "k - 1 < ?n" using n(2) c(7) by linarith
    have ring': "tr_ring cinv cpending t (k - 1)"
    proof (cases "tr_ppc s")
      case P_Wait
      with ring take(1,3) q pidx n c(7) show ?thesis
        by (auto simp: tr_ring_def Let_def t wake_producer_def)
    next
      case P_Exit
      with ring take(1,3) q ends n(1) c(3) pidx show ?thesis
        by (simp add: tr_ring_def Let_def t wake_producer_def del: length_ring_of)
    next
      case P_Done
      with ring take(1,3) q ends n(1) c(3) pidx show ?thesis
        by (simp add: tr_ring_def Let_def t wake_producer_def del: length_ring_of)
    next
      case P_Publish
      with ring take(1,3) q pidx n(1) keep km show ?thesis
        by (simp add: tr_ring_def Let_def t wake_producer_def)
    qed (use ring take(1,3) q pidx n in \<open>auto simp: tr_ring_def Let_def t wake_producer_def\<close>)
    moreover have "tr_cons L base t (k - 1)" using c by (simp add: t tr_cons_def)
    moreover have "tr_pending cpending t = tr_pending cpending s"
    proof -
      have "tr_taken t = 0" by (simp add: t) (simp add: tr_taken_def)
      moreover have "tr_inflight t = tr_inflight s"
      proof (cases "tr_ppc s = P_Publish")
        case True
        then have "k < ?n" using ring by (simp add: tr_ring_def Let_def)
        with True keep show ?thesis by (simp add: tr_inflight_def t wake_producer_def)
      qed (auto simp: tr_inflight_def t wake_producer_def)
      moreover have "tr_taken s = length (slot_data ?slot)"
        using taken used length_slot_data [OF head(1)] by simp
      ultimately show ?thesis
        using tr_pending_ring [OF ring] tr_pending_ring [OF ring'] q by (simp add: t)
    qed
    ultimately show ?thesis using base by (auto simp: tr_inv_def t)
  qed
qed

lemma consumer_inv:
  assumes "tr_inv cinv cpending L base s" "consumer_step s = Some t"
  shows "tr_inv cinv cpending L base t"
proof (cases "tr_cpc s")
  case C_Join
  then have t: "t = s\<lparr>tr_cpc := C_Closed\<rparr>" "tr_ppc s = P_Done"
    using assms(2) by (auto simp: consumer_step_def Let_def split: if_splits)
  have "tr_pending cpending t = tr_pending cpending s"
    using C_Join by (simp add: t tr_pending_def tr_queue_def tr_inflight_def tr_taken_def)
  with assms(1) C_Join show ?thesis by (auto simp: tr_inv_def tr_cons_def t)
next
  case C_Loop with assms loop_inv show ?thesis by blast
next
  case C_Copy with assms copy_inv show ?thesis by blast
next
  case C_Commit with assms commit_inv show ?thesis by blast
next
  case C_Idle with assms(2) show ?thesis by (simp add: consumer_step_def)
next
  case C_Wait with assms(2) show ?thesis by (simp add: consumer_step_def)
next
  case C_Ret with assms(2) show ?thesis by (simp add: consumer_step_def)
next
  case C_Closed with assms(2) show ?thesis by (simp add: consumer_step_def)
qed

lemma tstep_inv: "tstep src s t \<Longrightarrow> tr_inv cinv cpending L base s \<Longrightarrow> tr_inv cinv cpending L base t"
  by (erule tstep_cases) (auto intro: producer_inv consumer_inv)

section \<open>No deadlock, and every call returns\<close>

lemma produces:
  assumes "tr_inv cinv cpending L base s" "tr_ppc s \<noteq> P_Wait" "tr_ppc s \<noteq> P_Done"
  shows "\<exists>t. producer_step src s = Some t"
proof (cases "tr_ppc s")
  case P_Read
  with read_inv [OF assms(1)] show ?thesis by blast
qed (use assms in \<open>auto simp: producer_step_def Let_def\<close>)

text \<open>A waiting consumer means an empty ring, so the producer is neither waiting nor finished; a
  waiting producer means a full ring.\<close>

lemma no_deadlock:
  assumes "tr_inv cinv cpending L base s" "tr_cpc s \<notin> {C_Idle, C_Closed}" "\<nexists>r. tr_cpc s = C_Ret r"
  shows "\<exists>t. tstep src s t"
proof -
  from assms(1) obtain k where ring: "tr_ring cinv cpending s k" and cons: "tr_cons L base s k"
    by (auto simp: tr_inv_def)
  have n: "0 < length (tr_slots s)"
    using ring ring_okD(3) unfolding tr_ring_def Let_def by blast
  show ?thesis
  proof (cases "tr_cpc s")
    case (C_Wait len copied)
    then have "k = 0" "\<not> tr_closing s" using cons by (auto simp: tr_cons_def)
    with ring n have "tr_ppc s \<noteq> P_Wait" "tr_ppc s \<noteq> P_Done" by (auto simp: tr_ring_def Let_def)
    from produces [OF assms(1) this] show ?thesis by (auto intro: produce)
  next
    case C_Join
    then have closing: "tr_closing s" using cons by (simp add: tr_cons_def)
    then have "tr_ppc s \<noteq> P_Wait" using ring by (auto simp: tr_ring_def Let_def)
    show ?thesis
    proof (cases "tr_ppc s = P_Done")
      case True
      with C_Join show ?thesis by (intro exI, intro consume) (simp add: consumer_step_def Let_def)
    next
      case False
      with produces [OF assms(1)] \<open>tr_ppc s \<noteq> P_Wait\<close> show ?thesis by (auto intro: produce)
    qed
  next
    case (C_Loop len copied)
    then show ?thesis by (intro exI, intro consume) (simp add: consumer_step_def Let_def)
  next
    case (C_Copy len copied piece)
    then show ?thesis by (intro exI, intro consume) (simp add: consumer_step_def Let_def)
  next
    case (C_Commit len copied piece)
    then show ?thesis by (intro exI, intro consume) (simp add: consumer_step_def Let_def)
  qed (use assms in auto)
qed

lemma producer_decreases:
  assumes inv: "tr_inv cinv cpending L base s" and step: "producer_step src s = Some t"
  shows "tr_measure cpending t < tr_measure cpending s"
proof (cases "tr_ppc s")
  case P_Check
  with step show ?thesis by (auto simp: producer_step_def tr_measure_def Let_def)
next
  case P_Read
  then obtain k where ok: "ring_ok sl_full (tr_slots s) (tr_in s) k" and ci: "cinv (tr_io s)"
    and pidx: "tr_pidx s = (tr_in s + k) mod length (tr_slots s)"
    using inv unfolding tr_inv_def tr_ring_def Let_def by blast
  have pos: "tr_pidx s < length (tr_slots s)" using ring_okD(3) [OF ok] pidx by simp
  from step P_Read obtain r bs io where rd: "src_read src (tr_io s) 0 WANDIO_BUFFER_SIZE = Some (r, bs, io)"
    and t: "t = s\<lparr>tr_io := io, tr_slots := (tr_slots s)[tr_pidx s := (tr_slots s ! tr_pidx s)
      \<lparr>sl_space := bs @ drop (length bs) (sl_space (tr_slots s ! tr_pidx s)), sl_len := c_int r\<rparr>],
      tr_ppc := P_Publish\<rparr>"
    by (auto simp: producer_step_def wandio_read_def Let_def bind_eq_Some_conv)
  from ci served_slice show ?thesis
  proof (cases rule: par.rd_cases [where a = 0])
    case (data bs' s')
    then have "length (cpending io) < length (cpending (tr_io s))" using rd by auto
    with P_Read show ?thesis by (simp add: tr_measure_def t)
  next
    case (eof s')
    with rd P_Read pos show ?thesis by (simp add: tr_measure_def t c_int_def)
  next
    case (err r' s')
    then have "c_int r = r" using rd by (intro c_int_id) auto
    with err rd P_Read pos show ?thesis by (simp add: tr_measure_def t)
  qed
next
  case P_Publish
  let ?t = "s\<lparr>tr_slots := (tr_slots s)[tr_pidx s := (tr_slots s ! tr_pidx s)\<lparr>sl_full := True\<rparr>],
      tr_pidx := (tr_pidx s + 1) mod length (tr_slots s),
      tr_ppc := (if 0 < sl_len (tr_slots s ! tr_pidx s) then P_Check else P_Exit)\<rparr>"
  have t: "t = wake_consumer ?t" using step P_Publish by (simp add: producer_step_def Let_def)
  have "tr_measure cpending ?t + 1 < tr_measure cpending s" using P_Publish by (simp add: tr_measure_def)
  with wake_consumer_measure [of cpending ?t] show ?thesis by (simp add: t)
next
  case P_Exit
  let ?t = "s\<lparr>tr_gone := Some (src_close src (tr_io s)), tr_ppc := P_Done\<rparr>"
  have t: "t = wake_consumer ?t" using step P_Exit by (simp add: producer_step_def Let_def)
  have "tr_measure cpending ?t + 1 < tr_measure cpending s" using P_Exit by (simp add: tr_measure_def)
  with wake_consumer_measure [of cpending ?t] show ?thesis by (simp add: t)
qed (use step in \<open>auto simp: producer_step_def Let_def\<close>)

lemma consumer_decreases:
  assumes inv: "tr_inv cinv cpending L base s" and step: "consumer_step s = Some t"
  shows "tr_measure cpending t < tr_measure cpending s"
proof (cases "tr_cpc s")
  case (C_Loop len copied)
  have "0 \<le> len" using inv C_Loop by (auto simp: tr_inv_def tr_cons_def)
  with step C_Loop show ?thesis by (auto simp: consumer_step_def tr_measure_def Let_def)
next
  case (C_Copy len copied piece)
  with step show ?thesis by (auto simp: consumer_step_def tr_measure_def Let_def)
next
  case (C_Commit len copied piece)
  have c: "0 \<le> len" "0 < piece" using inv C_Commit by (auto simp: tr_inv_def tr_cons_def)
  let ?s1 = "s\<lparr>tr_offset := tr_offset s + piece, tr_cpc := C_Loop len copied\<rparr>"
  let ?t = "?s1\<lparr>tr_slots := (tr_slots s)[tr_in s := (tr_slots s ! tr_in s)\<lparr>sl_full := False\<rparr>],
      tr_in := (tr_in s + 1) mod length (tr_slots s), tr_offset := 0\<rparr>"
  have t: "t = (if sl_len (tr_slots s ! tr_in s) \<le> tr_offset s + piece then wake_producer ?t else ?s1)"
    using step C_Commit by (simp add: consumer_step_def Let_def)
  have len: "sl_len ((tr_slots s)[tr_in s := (tr_slots s ! tr_in s)\<lparr>sl_full := False\<rparr>] ! i) =
      sl_len (tr_slots s ! i)" for i
    by (cases "i = tr_in s"; cases "i < length (tr_slots s)") (simp_all add: not_less list_update_beyond)
  have "tr_measure cpending ?s1 + 1 < tr_measure cpending s" "tr_measure cpending ?t = tr_measure cpending ?s1"
    using C_Commit c len by (simp_all add: tr_measure_def)
  with wake_producer_measure [of cpending ?t] show ?thesis by (auto simp: t)
next
  case C_Join
  with step show ?thesis by (auto simp: consumer_step_def tr_measure_def Let_def split: if_splits)
qed (use step in \<open>auto simp: consumer_step_def Let_def\<close>)

lemma tstep_decreases:
  "tstep src s t \<Longrightarrow> tr_inv cinv cpending L base s \<Longrightarrow> tr_measure cpending t < tr_measure cpending s"
  by (erule tstep_cases) (auto intro: producer_decreases consumer_decreases)

lemma sched_step_tstep:
  assumes "tr_inv cinv cpending L base s" "tr_cpc s \<notin> {C_Idle, C_Closed}" "\<nexists>r. tr_cpc s = C_Ret r"
  obtains t where "sched_step src sched s = Some (tl sched, t)" "tstep src s t"
proof -
  from no_deadlock [OF assms] have "producer_step src s \<noteq> None \<or> consumer_step s \<noteq> None"
    by (auto elim: tstep_cases)
  then have "\<exists>t. sched_step src sched s = Some (tl sched, t) \<and> tstep src s t"
    by (cases "producer_step src s"; cases "consumer_step s"; cases "sched = [] \<or> hd sched")
      (auto simp: sched_step_def intro: produce consume)
  then show thesis using that by blast
qed

text \<open>Whatever the schedule, a call comes back, with the invariant at its return.\<close>

lemma run_call_returns:
  assumes "tr_inv cinv cpending L base s" "tr_cpc s \<noteq> C_Idle"
  shows "\<exists>r sched' t. tr_inv cinv cpending L base t \<and> tr_closing t = tr_closing s \<and>
    (tr_cpc t = C_Ret r \<and> run_call src sched s = Some (r, sched', t\<lparr>tr_cpc := C_Idle\<rparr>) \<or>
     tr_cpc t = C_Closed \<and> run_call src sched s = Some (0, sched', t))"
  using assms
proof (induction "tr_measure cpending s" arbitrary: s sched rule: less_induct)
  case less
  show ?case
  proof (cases "tr_cpc s = C_Closed \<or> (\<exists>r. tr_cpc s = C_Ret r)")
    case True
    then have "tr_cpc s = C_Closed \<and> run_call src sched s = Some (0, sched, s) \<or>
        (\<exists>r. tr_cpc s = C_Ret r \<and> run_call src sched s = Some (r, sched, s\<lparr>tr_cpc := C_Idle\<rparr>))"
      by (auto simp: run_call.simps)
    with less.prems(1) show ?thesis by blast
  next
    case False
    with less.prems obtain u where u: "sched_step src sched s = Some (tl sched, u)" "tstep src s u"
      using sched_step_tstep by blast
    have run: "run_call src sched s = run_call src (tl sched) u"
      using False less.prems(2) u(1) by (subst run_call.simps) (auto split: consumer_pc.splits)
    from less.hyps [OF tstep_decreases [OF u(2) less.prems(1)] tstep_inv [OF u(2) less.prems(1)]
        step_not_idle [OF u(2) less.prems(2)], of "tl sched"] step_closing [OF u(2)]
    show ?thesis by (simp add: run)
  qed
qed

lemma idle_call:
  assumes "tr_inv cinv cpending L base s" "tr_cpc s = C_Idle" "n < 2 ^ 31"
  shows "tr_inv cinv cpending (int n) (tr_pending cpending s) (thread_call s (int n))"
proof -
  from assms(1) obtain k where "tr_ring cinv cpending s k" "tr_cons L base s k"
    by (auto simp: tr_inv_def)
  moreover have "tr_taken (thread_call s (int n)) = tr_taken s"
    using assms(2) by (simp add: thread_call_def tr_taken_def)
  ultimately show ?thesis using assms(2,3)
    by (auto simp: tr_inv_def tr_cons_def thread_call_def tr_pending_def tr_queue_def tr_inflight_def
        intro!: exI [of _ k])
qed

end

text \<open>The state between calls.\<close>

definition thread_inv ::
  "('c \<Rightarrow> bool) \<Rightarrow> ('c \<Rightarrow> byte list) \<Rightarrow> (bool list \<times> 'c thread_t) \<Rightarrow> bool" where
  "thread_inv cinv cpending io \<longleftrightarrow>
     tr_inv cinv cpending 0 [] (snd io) \<and> tr_cpc (snd io) = C_Idle"

definition thread_pending :: "('c \<Rightarrow> byte list) \<Rightarrow> (bool list \<times> 'c thread_t) \<Rightarrow> byte list" where
  "thread_pending cpending io = tr_pending cpending (snd io)"

context threaded
begin

lemma thread_read_outcome:
  assumes "thread_inv cinv cpending io" "n < 2 ^ 31"
  shows "read_outcome (thread_inv cinv cpending) (thread_pending cpending) io n (thread_read src io a n)"
proof -
  obtain sched s where io: "io = (sched, s)" by (cases io)
  from assms have inv: "tr_inv cinv cpending 0 [] s" "tr_cpc s = C_Idle"
    by (simp_all add: thread_inv_def io)
  note call = idle_call [OF inv assms(2)]
  have "tr_cpc (thread_call s (int n)) \<noteq> C_Idle" by (simp add: thread_call_def)
  from run_call_returns [OF call this, of sched] obtain r sched' t where
    t: "tr_inv cinv cpending (int n) (tr_pending cpending s) t" "tr_closing t = tr_closing s"
    and ret: "tr_cpc t = C_Ret r \<and>
        run_call src sched (thread_call s (int n)) = Some (r, sched', t\<lparr>tr_cpc := C_Idle\<rparr>) \<or>
      tr_cpc t = C_Closed"
    by (auto simp: thread_call_def)
  from t(1) obtain k where ring: "tr_ring cinv cpending t k"
    and cons: "tr_cons (int n) (tr_pending cpending s) t k" by (auto simp: tr_inv_def)
  have "\<not> tr_closing s" using inv by (auto simp: tr_inv_def tr_cons_def)
  with t(2) cons have "tr_cpc t \<noteq> C_Closed" by (auto simp: tr_cons_def)
  with ret have pc: "tr_cpc t = C_Ret r"
    and run: "thread_read src io a n = Some (r, tr_out t, (sched', t\<lparr>tr_cpc := C_Idle\<rparr>))"
    by (auto simp: thread_read_def io)
  let ?t = "t\<lparr>tr_cpc := C_Idle\<rparr>"
  have pend: "tr_pending cpending s = tr_out t @ tr_pending cpending ?t"
    using t(1) pc by (simp add: tr_inv_def tr_pending_def tr_queue_def tr_inflight_def tr_taken_def)
  have "tr_cons 0 [] ?t k" using cons pc by (auto simp: tr_cons_def)
  with ring have inv': "thread_inv cinv cpending (sched', ?t)"
    by (auto simp: thread_inv_def tr_inv_def)
  show ?thesis
  proof (cases "0 \<le> r")
    case True
    then have "r = int (length (tr_out t))" "r \<le> int n" "r = 0 \<longrightarrow> n = 0 \<or> tr_pending cpending s = []"
      using cons pc by (auto simp: tr_cons_def)
    with run pend inv' show ?thesis
      by (intro read_outcome_data [where s' = "(sched', ?t)"]) (auto simp: thread_pending_def io)
  next
    case False
    then have "- (2 ^ 31) \<le> r" "tr_out t = []" using cons pc by (auto simp: tr_cons_def)
    with False run pend inv' show ?thesis
      by (intro read_outcome_err [where s' = "(sched', ?t)"]) (auto simp: thread_pending_def io)
  qed
qed

end

sublocale threaded \<subseteq> thr: reader "thread_read src" "thread_inv cinv cpending"
    "thread_pending cpending" below_2G
  by (rule readerI) (rule thread_read_outcome)

text \<open>Opening: at least one slice, all of them allocated.\<close>

lemma thread_open_inv:
  assumes "thread_open m memalign (Some io) = Some s" "0 < m" "cinv io"
  shows "thread_inv cinv cpending (sched, s)" "thread_pending cpending (sched, s) = cpending io"
proof -
  have s: "s = \<lparr>tr_slots = replicate m \<lparr>sl_space = [], sl_len = 0, sl_full = False\<rparr>,
      tr_in = 0, tr_offset = 0, tr_closing = False, tr_io = io, tr_gone = None,
      tr_pidx = 0, tr_ppc = P_Check, tr_cpc = C_Idle, tr_out = []\<rparr>"
    using assms(1) by (simp add: thread_open_def split: if_splits)
  have ring: "tr_ring cinv cpending s 0"
    using ring_ok_init [of m sl_full "\<lparr>sl_space = [], sl_len = 0, sl_full = False\<rparr>"] assms(2,3)
    by (simp add: tr_ring_def s)
  then show "thread_inv cinv cpending (sched, s)"
    by (auto simp: thread_inv_def tr_inv_def tr_cons_def s intro!: exI [of _ 0])
  show "thread_pending cpending (sched, s) = cpending io"
    using tr_pending_ring [OF ring] by (simp add: thread_pending_def tr_inflight_def s)
qed

text \<open>Spurious wake-ups are harmless: the woken thread tests its condition again.\<close>

lemma spurious_inv:
  assumes "spurious s t" "tr_inv cinv cpending L base s"
  shows "tr_inv cinv cpending L base t"
  using assms(1)
proof (cases rule: spurious.cases)
  case producer_up
  then have pc: "tr_ppc s = P_Wait" and t: "t = s\<lparr>tr_ppc := P_Check\<rparr>"
    by (simp_all add: wake_producer_def)
  from assms(2) obtain k where ring: "tr_ring cinv cpending s k" and cons: "tr_cons L base s k"
    and base: "tr_cpc s \<noteq> C_Idle \<longrightarrow> base = tr_out s @ tr_pending cpending s"
    by (auto simp: tr_inv_def)
  have "tr_ring cinv cpending t k" using ring pc by (auto simp: tr_ring_def t Let_def)
  moreover have "tr_cons L base t k"
    using cons pc by (auto simp: tr_cons_def t split: consumer_pc.splits)
  moreover have "tr_pending cpending t = tr_pending cpending s"
    using pc by (simp add: t tr_pending_def tr_queue_def tr_inflight_def tr_taken_def)
  ultimately show ?thesis using base by (auto simp: tr_inv_def t)
next
  case (consumer_up len copied)
  from assms(2) consumer_up obtain k where ring: "tr_ring cinv cpending s k" and cons: "tr_cons L base s k"
    and base: "base = tr_out s @ tr_pending cpending s"
    by (auto simp: tr_inv_def)
  have t: "t = s\<lparr>tr_cpc := C_Loop len copied\<rparr>" using consumer_up by (simp add: wake_consumer_def)
  have "tr_cons L base t k" using cons consumer_up(2) by (auto simp: tr_cons_def t)
  moreover have "tr_pending cpending t = tr_pending cpending s"
    using consumer_up(2) by (simp add: t tr_pending_def tr_queue_def tr_inflight_def tr_taken_def)
  ultimately show ?thesis using base ring by (auto simp: tr_inv_def t)
qed

text \<open>Any number of steps of the two threads, with spurious wake-ups.\<close>

inductive trun :: "'c io_source_t \<Rightarrow> 'c thread_t \<Rightarrow> 'c thread_t \<Rightarrow> bool" for src where
  stop: "trun src s s"
| go: "trun src s t \<Longrightarrow> tstep src t u \<Longrightarrow> trun src s u"
| spur: "trun src s t \<Longrightarrow> spurious t u \<Longrightarrow> trun src s u"

context threaded
begin

lemma trun_inv:
  "trun src s t \<Longrightarrow> tr_inv cinv cpending L base s \<Longrightarrow> tr_inv cinv cpending L base t"
  by (induction rule: trun.induct) (auto intro: tstep_inv spurious_inv)

end

lemma trun_not_idle: "trun src s t \<Longrightarrow> tr_cpc s \<noteq> C_Idle \<Longrightarrow> tr_cpc t \<noteq> C_Idle"
  by (induction rule: trun.induct)
    (auto elim!: spurious_cases simp: step_not_idle wake_producer_def wake_consumer_def
      split: consumer_pc.splits)

lemma trun_closing: "trun src s t \<Longrightarrow> tr_closing t = tr_closing s"
  by (induction rule: trun.induct) (auto elim!: spurious_cases simp: step_closing)

context threaded
begin

lemma trun_call:
  assumes "thread_inv cinv cpending (sched, s)" "n < 2 ^ 31" "trun src (thread_call s (int n)) t"
  shows "tr_inv cinv cpending (int n) (tr_pending cpending s) t" "tr_cpc t \<noteq> C_Idle" "\<not> tr_closing t"
proof -
  have idle: "tr_inv cinv cpending 0 [] s" "tr_cpc s = C_Idle" using assms(1) by (simp_all add: thread_inv_def)
  show "tr_inv cinv cpending (int n) (tr_pending cpending s) t"
    by (rule trun_inv [OF assms(3) idle_call [OF idle assms(2)]])
  show "tr_cpc t \<noteq> C_Idle" using trun_not_idle [OF assms(3)] by (simp add: thread_call_def)
  have "\<not> tr_closing s" using idle by (auto simp: tr_inv_def tr_cons_def)
  then show "\<not> tr_closing t" using trun_closing [OF assms(3)] by (simp add: thread_call_def)
qed

end

text \<open>The parent is destroyed once, by the producer, when it leaves its loop.\<close>

definition destroyed_once :: "'c io_source_t \<Rightarrow> 'c thread_t \<Rightarrow> bool" where
  "destroyed_once src s \<longleftrightarrow>
     tr_gone s = (if tr_ppc s = P_Done then Some (src_close src (tr_io s)) else None)"

lemma step_destroyed: "tstep src s t \<Longrightarrow> destroyed_once src s \<Longrightarrow> destroyed_once src t"
  by (erule tstep_cases)
    (auto simp: destroyed_once_def producer_step_def consumer_step_def Let_def bind_eq_Some_conv
      wake_consumer_def wake_producer_def split: producer_pc.splits consumer_pc.splits if_splits)

lemma sched_step_is_tstep: "sched_step src sched s = Some (sched', t) \<Longrightarrow> tstep src s t"
  by (auto simp: sched_step_def Let_def intro: produce consume split: option.splits if_splits)

text \<open>What every step keeps holds where a call ends.\<close>

lemma run_call_ends:
  assumes "run_call src sched s = Some (r, sched', t)"
    and "\<forall>s t. tstep src s t \<and> J s \<longrightarrow> J t" "J s"
  shows "\<exists>u. J u \<and> (tr_cpc u = C_Ret r \<and> t = u\<lparr>tr_cpc := C_Idle\<rparr> \<or> tr_cpc u = C_Closed \<and> r = 0 \<and> t = u)"
proof -
  let ?Q = "\<lambda>y. \<exists>u. J u \<and> (tr_cpc u = C_Ret (fst y) \<and> snd (snd y) = u\<lparr>tr_cpc := C_Idle\<rparr> \<or>
      tr_cpc u = C_Closed \<and> fst y = 0 \<and> snd (snd y) = u)"
  have "src = src \<longrightarrow> J s \<longrightarrow> ?Q (r, sched', t)"
  proof (rule run_call.raw_induct [where P = "\<lambda>a b c y. a = src \<longrightarrow> J c \<longrightarrow> ?Q y",
        OF _ assms(1)], intro impI)
    fix rec a b c y
    assume IH: "\<And>a' b' c' y. rec a' b' c' = Some y \<Longrightarrow> a' = src \<longrightarrow> J c' \<longrightarrow> ?Q y"
      and eq: "(case tr_cpc c of C_Ret r \<Rightarrow> Some (r, b, c\<lparr>tr_cpc := C_Idle\<rparr>)
        | C_Closed \<Rightarrow> Some (0, b, c)
        | _ \<Rightarrow> do { (sched', t) \<leftarrow> sched_step a b c; rec a sched' t }) = Some y"
      and a: "a = src" and J: "J c"
    have more: "?Q y" if "do { (sched', t) \<leftarrow> sched_step a b c; rec a sched' t } = Some y"
    proof -
      from that obtain b' c' where "sched_step a b c = Some (b', c')" "rec a b' c' = Some y"
        by (auto simp: bind_eq_Some_conv)
      with IH [of a b' c' y] assms(2) J a sched_step_is_tstep show ?thesis by blast
    qed
    show "?Q y"
    proof (cases "tr_cpc c")
      case (C_Ret r')
      with eq J show ?thesis by (intro exI [of _ c]) auto
    next
      case C_Closed
      with eq J show ?thesis by (intro exI [of _ c]) auto
    qed (use eq more in auto)
  qed
  with assms(3) show ?thesis by simp
qed

lemma run_call_keeps:
  assumes "run_call src sched s = Some (r, sched', t)"
    and "\<And>s t. tstep src s t \<Longrightarrow> J s \<Longrightarrow> J t" "\<And>s. J s \<Longrightarrow> J (s\<lparr>tr_cpc := C_Idle\<rparr>)" "J s"
  shows "J t"
proof -
  have "\<exists>u. J u \<and> (tr_cpc u = C_Ret r \<and> t = u\<lparr>tr_cpc := C_Idle\<rparr> \<or> tr_cpc u = C_Closed \<and> r = 0 \<and> t = u)"
    using assms(2) by (intro run_call_ends [where J = J, OF assms(1) _ assms(4)]) blast
  then obtain u where "J u" "t = u\<lparr>tr_cpc := C_Idle\<rparr> \<or> t = u" by auto
  with assms(3) [of u] show ?thesis by auto
qed

lemma open_destroyed: "thread_open m memalign (Some io) = Some s \<Longrightarrow> destroyed_once src s"
  by (auto simp: thread_open_def destroyed_once_def split: if_splits)

lemma thread_read_destroyed:
  "thread_read src (sched, s) a n = Some (r, bs, (sched', t)) \<Longrightarrow> destroyed_once src s \<Longrightarrow>
    destroyed_once src t"
  by (auto simp: thread_read_def thread_call_def bind_eq_Some_conv
      elim!: run_call_keeps [where J = "destroyed_once src"] step_destroyed)
    (auto simp: destroyed_once_def)

context threaded
begin

lemma close_call_inv:
  assumes "tr_inv cinv cpending L base s" "tr_cpc s = C_Idle"
  shows "\<exists>base'. tr_inv cinv cpending L base' (thread_close_call s)"
proof -
  from assms(1) obtain k where ring: "tr_ring cinv cpending s k" and cons: "tr_cons L base s k"
    by (auto simp: tr_inv_def)
  have "tr_ring cinv cpending (thread_close_call s) k"
    using ring by (cases "tr_ppc s") (auto simp: tr_ring_def thread_close_call_def wake_producer_def Let_def)
  moreover have "tr_cons L base (thread_close_call s) k" for base
    using cons assms(2) by (auto simp: tr_cons_def thread_close_call_def)
  ultimately show ?thesis by (auto simp: tr_inv_def)
qed

end

section \<open>Over a parent that never fails\<close>

text \<open>No slice ever holds an error, and no call returns one.\<close>

definition slots_calm :: "tslot list \<Rightarrow> bool" where
  "slots_calm xs \<longleftrightarrow> (\<forall>x\<in>set xs. 0 \<le> sl_len x)"

lemma slots_calm_put: "slots_calm xs \<Longrightarrow> 0 \<le> sl_len x \<Longrightarrow> slots_calm (xs[i := x])"
  using set_update_subset_insert [of xs i x] by (auto simp: slots_calm_def)

lemma slots_calm_nth: "slots_calm xs \<Longrightarrow> i < length xs \<Longrightarrow> 0 \<le> sl_len (xs ! i)"
  by (simp add: slots_calm_def)

definition tr_calm :: "'c thread_t \<Rightarrow> bool" where
  "tr_calm s \<longleftrightarrow> slots_calm (tr_slots s) \<and> (\<forall>r. tr_cpc s = C_Ret r \<longrightarrow> 0 \<le> r)"

lemma tr_calm_wake [simp]:
  "tr_calm (wake_consumer s) = tr_calm s" "tr_calm (wake_producer s) = tr_calm s"
  by (simp_all add: tr_calm_def wake_consumer_def split: consumer_pc.splits)

context threaded
begin

lemma tr_positions:
  assumes "tr_inv cinv cpending L base s"
  shows "tr_in s < length (tr_slots s)" "tr_pidx s < length (tr_slots s)" "cinv (tr_io s)"
    "tr_cpc s = C_Loop len copied \<Longrightarrow> 0 \<le> copied"
proof -
  from assms obtain k where ring: "tr_ring cinv cpending s k" and cons: "tr_cons L base s k"
    by (auto simp: tr_inv_def)
  from ring have ok: "ring_ok sl_full (tr_slots s) (tr_in s) k"
    and pidx: "tr_pidx s = (tr_in s + k) mod length (tr_slots s)" by (simp_all add: tr_ring_def Let_def)
  from ok show "tr_in s < length (tr_slots s)" by (rule ring_okD(1))
  then show "tr_pidx s < length (tr_slots s)" using pidx by (auto intro: mod_less_divisor)
  from ring show "cinv (tr_io s)" by (simp add: tr_ring_def Let_def)
  from cons show "tr_cpc s = C_Loop len copied \<Longrightarrow> 0 \<le> copied" by (simp add: tr_cons_def)
qed

lemma slice_calm:
  assumes "never_fails (src_read src) cinv served" "cinv io0"
    and "wandio_read src io0 0 WANDIO_BUFFER_SIZE = Some (r, bs, io)"
  shows "0 \<le> c_int r"
proof -
  from assms(3) have run: "src_read src io0 0 WANDIO_BUFFER_SIZE = Some (r, bs, io)"
    by (simp add: wandio_read_def)
  from never_failsD [OF assms(1,2) served_slice run] have "0 \<le> r" .
  with par.rd_len [OF assms(2) served_slice run] have "int (length bs) = r" "length bs \<le> WANDIO_BUFFER_SIZE"
    by simp_all
  then have "c_int r = r" by (intro c_int_id) (auto simp: WANDIO_BUFFER_SIZE_def)
  with \<open>0 \<le> r\<close> show ?thesis by simp
qed

lemma producer_calm:
  assumes "never_fails (src_read src) cinv served" "tr_inv cinv cpending L base s" "tr_calm s"
    and "producer_step src s = Some t"
  shows "tr_calm t"
proof -
  note pos = tr_positions [OF assms(2)]
  from assms(3) have slots: "slots_calm (tr_slots s)" and ret: "\<forall>r. tr_cpc s = C_Ret r \<longrightarrow> 0 \<le> r"
    by (simp_all add: tr_calm_def)
  note old = slots_calm_nth [OF slots pos(2)]
  show ?thesis
  proof (cases "tr_ppc s")
    case P_Read
    show ?thesis
    proof (cases "wandio_read src (tr_io s) 0 WANDIO_BUFFER_SIZE")
      case None
      with P_Read assms(4) show ?thesis by (simp add: producer_step_def Let_def)
    next
      case (Some res)
      obtain r bs io where res: "res = (r, bs, io)" by (metis prod_cases3)
      note new = slice_calm [OF assms(1) pos(3), of r bs io]
      from Some res P_Read assms(4) slots ret new show ?thesis
        by (auto simp: producer_step_def Let_def tr_calm_def intro!: slots_calm_put)
    qed
  next
    case P_Publish
    let ?s1 = "s\<lparr>tr_slots := (tr_slots s)[tr_pidx s := (tr_slots s ! tr_pidx s)\<lparr>sl_full := True\<rparr>],
      tr_pidx := (tr_pidx s + 1) mod length (tr_slots s),
      tr_ppc := (if 0 < sl_len (tr_slots s ! tr_pidx s) then P_Check else P_Exit)\<rparr>"
    from P_Publish assms(4) have t: "t = wake_consumer ?s1" by (simp add: producer_step_def Let_def)
    have "tr_calm ?s1" using slots ret old by (simp add: tr_calm_def slots_calm_put)
    then show ?thesis unfolding t by (simp only: tr_calm_wake)
  next
    case P_Exit
    with assms(4) have "t = wake_consumer (s\<lparr>tr_gone := Some (src_close src (tr_io s)), tr_ppc := P_Done\<rparr>)"
      by (simp add: producer_step_def)
    with assms(3) show ?thesis by (simp only: tr_calm_wake) (simp add: tr_calm_def)
  qed (use assms(3,4) in \<open>auto simp: producer_step_def Let_def tr_calm_def\<close>)
qed

lemma consumer_calm:
  assumes "tr_inv cinv cpending L base s" "tr_calm s" "consumer_step s = Some t"
  shows "tr_calm t"
proof -
  from assms(2) have slots: "slots_calm (tr_slots s)" by (simp add: tr_calm_def)
  note old = slots_calm_nth [OF slots tr_positions(1) [OF assms(1)]]
  show ?thesis
  proof (cases "tr_cpc s")
    case (C_Loop len copied)
    from assms(3) slots old C_Loop tr_positions(4) [OF assms(1) C_Loop] show ?thesis
      by (auto simp: consumer_step_def Let_def tr_calm_def split: if_splits)
  next
    case (C_Commit len copied piece)
    let ?s1 = "s\<lparr>tr_offset := tr_offset s + piece, tr_cpc := C_Loop len copied\<rparr>"
    let ?s2 = "?s1\<lparr>tr_slots := (tr_slots s)[tr_in s := (tr_slots s ! tr_in s)\<lparr>sl_full := False\<rparr>],
      tr_in := (tr_in s + 1) mod length (tr_slots s), tr_offset := 0\<rparr>"
    from C_Commit assms(3) have "t = ?s1 \<or> t = wake_producer ?s2"
      by (simp add: consumer_step_def Let_def split: if_splits)
    moreover have "tr_calm ?s1" "tr_calm ?s2"
      using slots old by (simp_all add: tr_calm_def slots_calm_put)
    ultimately show ?thesis by (auto simp only: tr_calm_wake)
  qed (use assms(2,3) in \<open>auto simp: consumer_step_def Let_def tr_calm_def split: if_splits\<close>)
qed

lemma thread_read_calm:
  assumes "never_fails (src_read src) cinv served" "thread_inv cinv cpending io" "tr_calm (snd io)"
    and "n < 2 ^ 31" "thread_read src io a n = Some (r, bs, io')"
  shows "0 \<le> r \<and> tr_calm (snd io')"
proof -
  obtain sched s where io: "io = (sched, s)" by (cases io)
  from assms(2) have idle: "tr_inv cinv cpending 0 [] s" "tr_cpc s = C_Idle"
    by (simp_all add: thread_inv_def io)
  note call = idle_call [OF idle assms(4)]
  from assms(5) obtain sched' t where run: "run_call src sched (thread_call s (int n)) = Some (r, sched', t)"
    and io': "io' = (sched', t)" by (auto simp: thread_read_def io bind_eq_Some_conv)
  let ?J = "\<lambda>s'. tr_inv cinv cpending (int n) (tr_pending cpending s) s' \<and> tr_calm s'"
  have keep: "?J t'" if "tstep src s' t'" "?J s'" for s' t'
  proof -
    from that(2) have inv: "tr_inv cinv cpending (int n) (tr_pending cpending s) s'" and "tr_calm s'"
      by simp_all
    from that(1) this have "tr_calm t'"
      by (cases rule: tstep_cases) (auto intro: producer_calm [OF assms(1)] consumer_calm)
    with tstep_inv [OF that(1) inv] show ?thesis by simp
  qed
  have "?J (thread_call s (int n))"
    using call assms(3) by (auto simp: io tr_calm_def thread_call_def)
  moreover from keep have "\<forall>s' t'. tstep src s' t' \<and> ?J s' \<longrightarrow> ?J t'" by blast
  ultimately obtain u where u: "tr_calm u"
      "tr_cpc u = C_Ret r \<and> t = u\<lparr>tr_cpc := C_Idle\<rparr> \<or> tr_cpc u = C_Closed \<and> r = 0 \<and> t = u"
    using run_call_ends [where J = ?J, OF run] by blast
  then show ?thesis unfolding io' tr_calm_def by auto
qed

lemma thread_calm:
  assumes "never_fails (src_read src) cinv served"
  shows "calm_reader (thread_read src) (\<lambda>io. thread_inv cinv cpending io \<and> tr_calm (snd io))
    (thread_pending cpending) below_2G"
proof (rule calm_readerI)
  show "reader (thread_read src) (\<lambda>io. thread_inv cinv cpending io \<and> tr_calm (snd io))
      (thread_pending cpending) below_2G"
    by (rule reader_strengthen [OF readerI [OF thread_read_outcome]])
      (use thread_read_calm [OF assms] in blast)+
  show "never_fails (thread_read src) (\<lambda>io. thread_inv cinv cpending io \<and> tr_calm (snd io)) below_2G"
    unfolding never_fails_def using thread_read_calm [OF assms] by blast
qed

end

lemma thread_open_calm: "thread_open m memalign parent = Some s \<Longrightarrow> tr_calm s"
  by (auto simp: thread_open_def tr_calm_def slots_calm_def split: option.splits if_splits)

section \<open>On the model's own readers\<close>

lemma stdio_src [simp]: "src_read stdio_source = stdio_read"
  by (simp add: stdio_source_def)

lemma peek_src [simp]: "src_read (peek_source src alloc) = peek_read (src_read src) alloc"
  by (simp add: peek_source_def)

text \<open>\<open>thread_open (peek_open (stdio_open f))\<close>, what \<open>create_io_reader\<close> builds for an uncompressed
  file, and the peeking reader the caller sees on top of it.\<close>

interpretation thread_stdio: threaded stdio_source stdio_inv stdio_pending any_size
  by (intro threaded.intro threaded_axioms.intro) (simp_all add: stdio.reader_axioms)

interpretation thread_peek_stdio: threaded "peek_source stdio_source alloc_ok" "peek_inv stdio_inv"
    "peek_pending stdio_pending" any_size
  by (intro threaded.intro threaded_axioms.intro) (simp_all add: peek_stdio.pr.reader_axioms)

interpretation peek_thread_peek_stdio: peek_call "thread_read (peek_source stdio_source alloc_ok)"
    "thread_inv (peek_inv stdio_inv) (peek_pending stdio_pending)"
    "thread_pending (peek_pending stdio_pending)" below_2G
  by (rule peek_call.intro) (rule thread_peek_stdio.thr.reader_axioms)

definition demo_thread :: "bool list \<Rightarrow> byte list \<Rightarrow> io_event list \<Rightarrow> bool list \<times> stdio_t thread_t" where
  "demo_thread sched bs plan =
     (sched, the (thread_open 2 alloc_ok (Some \<lparr>fd = demo_fd bs plan\<rparr>)))"

lemma demo_thread_open:
  "thread_open 2 alloc_ok (Some \<lparr>fd = demo_fd bs plan\<rparr>) = Some (snd (demo_thread sched bs plan))"
  by (simp add: demo_thread_def thread_open_def)

lemma demo_thread_inv:
  "thread_inv stdio_inv stdio_pending (demo_thread sched bs plan)"
  "thread_pending stdio_pending (demo_thread sched bs plan) = bs"
  using thread_open_inv [OF demo_thread_open, of stdio_inv bs plan stdio_pending sched sched]
  by (simp_all add: demo_thread_def stdio_inv_def stdio_pending_def demo_fd_def fd_rest_def)

lemma demo_thread_eta: "demo_thread sched bs plan = (sched, snd (demo_thread sched bs plan))"
  by (simp add: demo_thread_def)

lemma stdio_threaded: "reader (src_read stdio_source) stdio_inv stdio_pending any_size"
  by (simp add: stdio.reader_axioms)

section \<open>Properties\<close>

text \<open>C3: over any parent that keeps the reader contract, and whatever the schedule of the two
  threads, \<open>thread_read\<close> returns, and keeps the contract itself for requests below 2 GiB: bytes
  arrive once and in the parent's order, \<open>0\<close> only at the end of input, an error loses nothing
  that was read before it.\<close>

theorem thread_read_contract:
  assumes "reader (src_read src) cinv cpending served" "served WANDIO_BUFFER_SIZE"
    and "thread_inv cinv cpending io" "n < 2 ^ 31"
  shows "\<exists>r bs io'. thread_read src io a n = Some (r, bs, io') \<and> thread_inv cinv cpending io' \<and>
    (if 0 \<le> r then int (length bs) = r \<and> length bs \<le> n \<and>
       thread_pending cpending io = bs @ thread_pending cpending io' \<and>
       (r = 0 \<longrightarrow> n = 0 \<or> thread_pending cpending io = [])
     else bs = [] \<and> thread_pending cpending io' = thread_pending cpending io)"
proof -
  have "threaded src cinv cpending served"
    using assms(1,2) by (intro threaded.intro threaded_axioms.intro)
  from threaded.thread_read_outcome [OF this assms(3,4), of a] show ?thesis
    unfolding read_outcome_def by (elim disjE exE conjE) auto
qed

theorem thread_read_contract_witness:
  "\<exists>r bs io'. thread_read stdio_source (demo_thread [False, True, False] [1, 2, 3] [Short 1]) 0 2 = Some (r, bs, io') \<and>
     (0 \<le> r \<longrightarrow> [1, 2, 3] = bs @ thread_pending stdio_pending io')"
proof -
  from thread_read_contract [OF stdio_threaded TrueI demo_thread_inv(1), of 2 "[False, True, False]"
      "[1, 2, 3]" "[Short 1]" 0]
  show ?thesis by (auto simp: demo_thread_inv(2) split: if_splits)
qed

text \<open>C1: in every interleaving of the two threads, spurious wake-ups included, from the start of a
  call to any point of it: the bytes copied out and those still owed are together what was owed
  at the start, at most \<open>n\<close> are copied, and the slice the producer is filling outside the mutex is
  never the slice the consumer is copying from.\<close>

theorem thread_interleavings_safe:
  assumes "reader (src_read src) cinv cpending served" "served WANDIO_BUFFER_SIZE"
    and "thread_inv cinv cpending (sched, s)" "n < 2 ^ 31"
    and "trun src (thread_call s (int n)) t"
  shows "tr_pending cpending s = tr_out t @ tr_pending cpending t \<and> length (tr_out t) \<le> n \<and>
    (tr_ppc t = P_Read \<and> tr_cpc t = C_Copy len copied piece \<longrightarrow> tr_pidx t \<noteq> tr_in t)"
proof -
  have th: "threaded src cinv cpending served"
    using assms(1,2) by (intro threaded.intro threaded_axioms.intro)
  note run = threaded.trun_call [OF th assms(3-5)]
  from run(1) obtain k where ring: "tr_ring cinv cpending t k"
    and cons: "tr_cons (int n) (tr_pending cpending s) t k" by (auto simp: tr_inv_def)
  have "length (tr_out t) \<le> n"
    using cons run(2,3) by (auto simp: tr_cons_def split: consumer_pc.splits if_splits)
  moreover have "tr_pidx t \<noteq> tr_in t" if "tr_ppc t = P_Read" "tr_cpc t = C_Copy len copied piece"
  proof -
    have "0 < k" "k < length (tr_slots t)" "tr_pidx t = (tr_in t + k) mod length (tr_slots t)"
      "ring_ok sl_full (tr_slots t) (tr_in t) k"
      using that ring cons by (auto simp: tr_ring_def tr_cons_def Let_def)
    with ring_index_neq show ?thesis by metis
  qed
  ultimately show ?thesis using run(1,2) by (simp add: tr_inv_def)
qed

theorem thread_interleavings_safe_witness:
  "\<exists>t. trun stdio_source (thread_call (snd (demo_thread [] [1, 2] [])) (int 1)) t \<and>
     [1, 2] = tr_out t @ tr_pending stdio_pending t"
proof -
  have run: "trun stdio_source (thread_call (snd (demo_thread [] [1, 2] [])) (int 1))
      (thread_call (snd (demo_thread [] [1, 2] [])) (int 1))" by (rule stop)
  have "thread_inv stdio_inv stdio_pending ([], snd (demo_thread [] [1, 2] []))"
    using demo_thread_inv(1) [of "[]"] by (simp add: demo_thread_def)
  from thread_interleavings_safe [OF stdio_threaded TrueI this _ run] run show ?thesis
    using demo_thread_inv(2) [of "[]" "[1, 2]" "[]"] by (auto simp: thread_pending_def)
qed

text \<open>C2: no lost wake-up and no livelock: at every point of a call, reached by any interleaving,
  either the call has its result or one of the two threads can go on; and every step of either
  thread brings a measure down (the parent's bytes, the bytes asked for, and the place in the
  loops), so that without spurious wake-ups every run of the call is finite.\<close>

theorem thread_call_progress:
  assumes "reader (src_read src) cinv cpending served" "served WANDIO_BUFFER_SIZE"
    and "thread_inv cinv cpending (sched, s)" "n < 2 ^ 31"
    and "trun src (thread_call s (int n)) t"
  shows "((\<exists>r. tr_cpc t = C_Ret r) \<or> (\<exists>u. tstep src t u)) \<and>
    (\<forall>u. tstep src t u \<longrightarrow> tr_measure cpending u < tr_measure cpending t)"
proof -
  have th: "threaded src cinv cpending served"
    using assms(1,2) by (intro threaded.intro threaded_axioms.intro)
  note run = threaded.trun_call [OF th assms(3-5)]
  have "tr_cpc t \<noteq> C_Closed" using run(1,3) by (auto simp: tr_inv_def tr_cons_def)
  with threaded.no_deadlock [OF th run(1)] threaded.tstep_decreases [OF th _ run(1)] run(2)
  show ?thesis by blast
qed

theorem thread_call_progress_witness:
  "\<exists>u. tstep stdio_source (thread_call (snd (demo_thread [] [1, 2] [])) (int 1)) u \<and>
     tr_measure stdio_pending u < tr_measure stdio_pending (thread_call (snd (demo_thread [] [1, 2] [])) (int 1))"
proof -
  have "thread_inv stdio_inv stdio_pending ([], snd (demo_thread [] [1, 2] []))"
    using demo_thread_inv(1) [of "[]"] by (simp add: demo_thread_def)
  from thread_call_progress [OF stdio_threaded TrueI this _ stop, of 1] show ?thesis
    by (auto simp: thread_call_def)
qed

text \<open>\<open>thread_close\<close> returns under every schedule: the producer is joined, and the parent has
  been destroyed exactly once, by the producer, in the state its last read left it.\<close>

theorem thread_close_joins:
  assumes "reader (src_read src) cinv cpending served" "served WANDIO_BUFFER_SIZE"
    and "thread_inv cinv cpending (sched, s)" "destroyed_once src s"
  shows "\<exists>sched' t. thread_close src (sched, s) = Some (sched', t) \<and> tr_cpc t = C_Closed \<and>
    tr_ppc t = P_Done \<and> tr_gone t = Some (src_close src (tr_io t))"
proof -
  have th: "threaded src cinv cpending served"
    using assms(1,2) by (intro threaded.intro threaded_axioms.intro)
  have "tr_inv cinv cpending 0 [] s" "tr_cpc s = C_Idle" using assms(3) by (simp_all add: thread_inv_def)
  from threaded.close_call_inv [OF th this] obtain base where
    inv: "tr_inv cinv cpending 0 base (thread_close_call s)" by blast
  have closing: "tr_closing (thread_close_call s)" "tr_cpc (thread_close_call s) \<noteq> C_Idle"
    by (simp_all add: thread_close_call_def)
  from threaded.run_call_returns [OF th inv closing(2), of sched] obtain r sched' t where
    t: "tr_inv cinv cpending 0 base t" "tr_closing t"
      "tr_cpc t = C_Ret r \<or>
       tr_cpc t = C_Closed \<and> run_call src sched (thread_close_call s) = Some (0, sched', t)"
    using closing(1) by blast
  then have pc: "tr_cpc t = C_Closed" "tr_ppc t = P_Done"
    and run: "run_call src sched (thread_close_call s) = Some (0, sched', t)"
    by (auto simp: tr_inv_def tr_cons_def)
  have "destroyed_once src (thread_close_call s)"
    using assms(4) by (auto simp: destroyed_once_def thread_close_call_def wake_producer_def)
  from run_call_keeps [where J = "destroyed_once src", OF run step_destroyed _ this]
  have "destroyed_once src t" by (simp add: destroyed_once_def)
  with pc run show ?thesis by (simp add: thread_close_def destroyed_once_def)
qed

theorem thread_close_joins_witness:
  "\<exists>sched' t. thread_close stdio_source (demo_thread [True, True] [1, 2] []) = Some (sched', t) \<and>
     tr_gone t = Some (stdio_close (tr_io t))"
proof -
  have "thread_inv stdio_inv stdio_pending ([True, True], snd (demo_thread [True, True] [1, 2] []))"
    using demo_thread_inv(1) [of "[True, True]"] by (simp add: demo_thread_def)
  from thread_close_joins [OF stdio_threaded TrueI this open_destroyed [OF demo_thread_open]]
  show ?thesis by (simp add: demo_thread_def) (auto simp: stdio_source_def)
qed

end
