(* ===== verification/Thread_Writer.thy ===== *)
theory Thread_Writer
  imports Ring Stdio_Writer
begin

text \<open>
  The threaded writer, \<^verbatim>\<open>lib/iow-thread.c\<close>. \<open>thread_wwrite\<close> copies into a ring of five
  slices of 1 MiB; a consumer thread hands FULL slices to the child writer. As in the threaded
  reader, both threads are program counters over the shared state, one step is one critical
  section or one stretch outside the mutex, and waiting on a condition has a counter of its own.

  The results of the child's calls are ignored by the code, so the development does not assume
  that they succeed: \<open>tw_sent\<close> is what the child was given, and what the child makes of it is a
  relation between its state and those bytes that its operations keep.
\<close>

section \<open>State\<close>

record wslot =
  ws_buffer :: "byte list"
  ws_len :: int
  ws_full :: bool
  ws_flush :: bool

datatype writer_pc = K_Check | K_Wait | K_Work | K_Release | K_Exit | K_Done

datatype main_pc =
  M_Idle
| M_Loop (m_rest: "byte list") (m_copied: int)
| M_Wait (m_rest: "byte list") (m_copied: int)
| M_Copy (m_rest: "byte list") (m_copied: int) (m_slice: int)
| M_Commit (m_rest: "byte list") (m_copied: int) (m_slice: int)
| M_Ret (m_result: int)
| M_Join
| M_Closed

record 'w threadw_t =
  tw_slots :: "wslot list"
  tw_offset :: int
  tw_iow :: 'w
  tw_sent :: "byte list"
  tw_gone :: "'w option"
  tw_out :: nat
  tw_closing :: bool
  tw_cidx :: nat
  tw_kpc :: writer_pc
  tw_mpc :: main_pc

definition BUFFERS :: nat where
  "BUFFERS = 5"

text \<open>\<open>pthread_cond_signal\<close> on \<open>data_ready\<close> and \<open>space_avail\<close>.\<close>

definition wake_writer :: "'w threadw_t \<Rightarrow> 'w threadw_t" where
  "wake_writer s = (if tw_kpc s = K_Wait then s\<lparr>tw_kpc := K_Check\<rparr> else s)"

definition wake_main :: "'w threadw_t \<Rightarrow> 'w threadw_t" where
  "wake_main s = (case tw_mpc s of
     M_Wait rest copied \<Rightarrow> s\<lparr>tw_mpc := M_Loop rest copied\<rparr> | _ \<Rightarrow> s)"

section \<open>The consumer thread\<close>

definition wslot_data :: "wslot \<Rightarrow> byte list" where
  "wslot_data x = take (nat (ws_len x)) (ws_buffer x)"

text \<open>The stretch outside the mutex: write the slice, flush when asked to; results are dropped.\<close>

definition empty_slot :: "'w iow_source_t \<Rightarrow> wslot \<Rightarrow> 'w \<Rightarrow> 'w option" where
  "empty_slot csrc slot iow =
     do { w1 \<leftarrow> (if 0 < ws_len slot then map_option snd (wandio_wwrite csrc iow (wslot_data slot))
                 else Some iow);
          if ws_flush slot
          then (case wandio_wflush csrc (Some w1) of Some (_, Some w2) \<Rightarrow> Some w2 | _ \<Rightarrow> None)
          else Some w1 }"

definition writer_step :: "'w iow_source_t \<Rightarrow> 'w threadw_t \<Rightarrow> 'w threadw_t option" where
  "writer_step csrc s =
     (let slot = tw_slots s ! tw_cidx s in
      case tw_kpc s of
        K_Check \<Rightarrow> Some (s\<lparr>tw_kpc := (if \<not> ws_full slot \<and> \<not> tw_closing s then K_Wait else K_Work)\<rparr>)
      | K_Wait \<Rightarrow> None
      | K_Work \<Rightarrow> do {
          w \<leftarrow> empty_slot csrc slot (tw_iow s);
          Some (s\<lparr>tw_iow := w, tw_sent := tw_sent s @ wslot_data slot, tw_kpc := K_Release\<rparr>) }
      | K_Release \<Rightarrow>
          Some (wake_main (s\<lparr>tw_slots := (tw_slots s)[tw_cidx s :=
                               slot\<lparr>ws_len := 0, ws_full := False, ws_flush := False\<rparr>],
                             tw_cidx := (tw_cidx s + 1) mod BUFFERS,
                             tw_kpc := (if 0 < ws_len slot then K_Check else K_Exit)\<rparr>))
      | K_Exit \<Rightarrow> do {
          w \<leftarrow> wandio_wdestroy csrc (tw_iow s);
          Some (s\<lparr>tw_gone := Some w, tw_kpc := K_Done\<rparr>) }
      | K_Done \<Rightarrow> None)"

section \<open>The main thread\<close>

text \<open>\<open>memcpy(slot.buffer + offset, buffer, slice)\<close>.\<close>

definition store_at :: "nat \<Rightarrow> byte list \<Rightarrow> byte list \<Rightarrow> byte list" where
  "store_at off bs buf = take off buf @ bs @ drop (off + length bs) buf"

definition main_step :: "'w threadw_t \<Rightarrow> 'w threadw_t option" where
  "main_step s =
     (let slot = tw_slots s ! tw_out s in
      case tw_mpc s of
        M_Loop rest copied \<Rightarrow>
          Some (s\<lparr>tw_mpc :=
            (if rest = [] then M_Ret copied
             else if ws_full slot then M_Wait rest copied
             else M_Copy rest copied (c_int (min (int WANDIO_BUFFER_SIZE - tw_offset s) (int (length rest)))))\<rparr>)
      | M_Copy rest copied piece \<Rightarrow>
          Some (s\<lparr>tw_slots := (tw_slots s)[tw_out s := slot\<lparr>ws_buffer :=
                    store_at (nat (tw_offset s)) (take (nat piece) rest) (ws_buffer slot)\<rparr>],
                  tw_mpc := M_Commit rest copied piece\<rparr>)
      | M_Commit rest copied piece \<Rightarrow>
          let offset = tw_offset s + piece;
              slot1 = slot\<lparr>ws_len := ws_len slot + piece\<rparr>;
              s1 = s\<lparr>tw_mpc := M_Loop (drop (nat piece) rest) (c_int (copied + piece))\<rparr>
          in Some (if int WANDIO_BUFFER_SIZE \<le> offset
                   then wake_writer (s1\<lparr>tw_slots := (tw_slots s)[tw_out s :=
                                          slot1\<lparr>ws_full := True, ws_flush := False\<rparr>],
                                        tw_offset := 0, tw_out := (tw_out s + 1) mod BUFFERS\<rparr>)
                   else s1\<lparr>tw_slots := (tw_slots s)[tw_out s := slot1], tw_offset := offset\<rparr>)
      | M_Join \<Rightarrow> if tw_kpc s = K_Done then Some (s\<lparr>tw_mpc := M_Closed\<rparr>) else None
      | _ \<Rightarrow> None)"

section \<open>Opening, calling, flushing, closing\<close>

definition thread_wopen :: "'w option \<Rightarrow> 'w threadw_t option" where
  "thread_wopen child =
     (case child of
        None \<Rightarrow> None
      | Some w \<Rightarrow> Some \<lparr>tw_slots = replicate BUFFERS
            \<lparr>ws_buffer = [], ws_len = 0, ws_full = False, ws_flush = False\<rparr>,
          tw_offset = 0, tw_iow = w, tw_sent = [], tw_gone = None, tw_out = 0, tw_closing = False,
          tw_cidx = 0, tw_kpc = K_Check, tw_mpc = M_Idle\<rparr>)"

definition thread_wcall :: "'w threadw_t \<Rightarrow> byte list \<Rightarrow> 'w threadw_t" where
  "thread_wcall s buffer = s\<lparr>tw_mpc := M_Loop buffer 0\<rparr>"

text \<open>One critical section: a slice with something in it is handed over, marked to be flushed.\<close>

definition thread_wflush_step :: "'w threadw_t \<Rightarrow> int \<times> 'w threadw_t" where
  "thread_wflush_step s =
     (if 0 < tw_offset s
      then (c_int (tw_offset s),
            wake_writer (s\<lparr>tw_slots := (tw_slots s)[tw_out s :=
                             (tw_slots s ! tw_out s)\<lparr>ws_full := True, ws_flush := True\<rparr>],
                           tw_offset := 0, tw_out := (tw_out s + 1) mod BUFFERS\<rparr>))
      else (0, s))"

definition thread_wclose_call :: "'w threadw_t \<Rightarrow> 'w threadw_t" where
  "thread_wclose_call s = wake_writer (s\<lparr>tw_closing := True, tw_mpc := M_Join\<rparr>)"

inductive wstep :: "'w iow_source_t \<Rightarrow> 'w threadw_t \<Rightarrow> 'w threadw_t \<Rightarrow> bool" for csrc where
  drain: "writer_step csrc s = Some t \<Longrightarrow> wstep csrc s t"
| feed: "main_step s = Some t \<Longrightarrow> wstep csrc s t"

inductive_cases wstep_cases: "wstep csrc s t"

definition wsched_step ::
  "'w iow_source_t \<Rightarrow> bool list \<Rightarrow> 'w threadw_t \<Rightarrow> (bool list \<times> 'w threadw_t) option" where
  "wsched_step csrc sched s =
     (let first = (sched = [] \<or> hd sched);
          one = (if first then writer_step csrc s else main_step s);
          other = (if first then main_step s else writer_step csrc s)
      in map_option (\<lambda>t. (tl sched, t)) (case one of Some t \<Rightarrow> Some t | None \<Rightarrow> other))"

partial_function (option) run_wcall ::
  "'w iow_source_t \<Rightarrow> bool list \<Rightarrow> 'w threadw_t \<Rightarrow> (int \<times> bool list \<times> 'w threadw_t) option" where
  "run_wcall csrc sched s =
     (case tw_mpc s of
        M_Ret r \<Rightarrow> Some (r, sched, s\<lparr>tw_mpc := M_Idle\<rparr>)
      | M_Closed \<Rightarrow> Some (0, sched, s)
      | _ \<Rightarrow> do { (sched', t) \<leftarrow> wsched_step csrc sched s; run_wcall csrc sched' t })"

definition thread_wwrite :: "'w iow_source_t \<Rightarrow> (bool list \<times> 'w threadw_t) write_fn" where
  "thread_wwrite csrc iow buffer =
     (let (sched, s) = iow in
      do { (r, sched', t) \<leftarrow> run_wcall csrc sched (thread_wcall s buffer); Some (r, (sched', t)) })"

definition thread_wflush :: "(bool list \<times> 'w threadw_t) flush_fn" where
  "thread_wflush iow = (let (sched, s) = iow; (r, t) = thread_wflush_step s in Some (r, (sched, t)))"

definition thread_wclose ::
  "'w iow_source_t \<Rightarrow> (bool list \<times> 'w threadw_t) \<Rightarrow> (bool list \<times> 'w threadw_t) option" where
  "thread_wclose csrc iow =
     (let (sched, s) = iow in map_option snd (run_wcall csrc sched (thread_wclose_call s)))"

definition thread_wsource :: "'w iow_source_t \<Rightarrow> (bool list \<times> 'w threadw_t) iow_source_t" where
  "thread_wsource csrc = \<lparr>wsrc_name = ''threadw'', wsrc_write = thread_wwrite csrc,
     wsrc_flush = thread_wflush, wsrc_close = thread_wclose csrc\<rparr>"

section \<open>Invariant and abstraction\<close>

definition good_wslot :: "wslot \<Rightarrow> bool" where
  "good_wslot x \<longleftrightarrow> 0 \<le> ws_len x \<and> ws_len x \<le> int WANDIO_BUFFER_SIZE \<and>
     ws_len x \<le> int (length (ws_buffer x))"

text \<open>The slices on their way to the child, oldest first: the FULL ones, then the one being filled.\<close>

definition tw_queue :: "'w threadw_t \<Rightarrow> wslot list" where
  "tw_queue s = takeWhile ws_full (rotate (tw_cidx s) (tw_slots s)) @
     (if ws_full (tw_slots s ! tw_out s) then [] else [tw_slots s ! tw_out s])"

text \<open>Everything accepted: what the child was given and what is on its way to it.\<close>

definition tw_accepted :: "'w threadw_t \<Rightarrow> byte list" where
  "tw_accepted s = tw_sent s @
     concat (map wslot_data (if tw_kpc s = K_Release then tl (tw_queue s) else tw_queue s))"

definition tw_ring :: "('w \<Rightarrow> byte list \<Rightarrow> bool) \<Rightarrow> 'w threadw_t \<Rightarrow> nat \<Rightarrow> bool" where
  "tw_ring J s k \<longleftrightarrow>
     length (tw_slots s) = BUFFERS \<and> ring_ok ws_full (tw_slots s) (tw_cidx s) k \<and>
     tw_out s < BUFFERS \<and> J (tw_iow s) (tw_sent s) \<and>
     (\<forall>x\<in>set (tw_slots s). good_wslot x \<and> (ws_full x \<longrightarrow> 0 < ws_len x)) \<and>
     (\<forall>j<BUFFERS. \<not> ws_full (tw_slots s ! j) \<and> j \<noteq> tw_out s \<longrightarrow> ws_len (tw_slots s ! j) = 0) \<and>
     (tw_out s = (tw_cidx s + k) mod BUFFERS \<or>
       tw_closing s \<and> k = 0 \<and> ws_len (tw_slots s ! tw_out s) = 0) \<and>
     (case tw_kpc s of
        K_Check \<Rightarrow> True
      | K_Wait \<Rightarrow> k = 0 \<and> \<not> tw_closing s
      | K_Work \<Rightarrow> k = 0 \<longrightarrow> tw_closing s
      | K_Release \<Rightarrow> k = 0 \<longrightarrow> tw_closing s
      | _ \<Rightarrow> tw_closing s \<and> k = 0 \<and> ws_len (tw_slots s ! tw_out s) = 0)"

text \<open>Inside a call for \<open>L\<close> bytes that ends with \<open>whole\<close> accepted; \<open>slot\<close> is the slot being filled.\<close>

definition tw_call ::
  "byte list \<Rightarrow> int \<Rightarrow> byte list \<Rightarrow> wslot \<Rightarrow> int \<Rightarrow> bool \<Rightarrow> main_pc \<Rightarrow> bool" where
  "tw_call whole L accepted slot offset joined pc \<longleftrightarrow>
     (case pc of
        M_Idle \<Rightarrow> accepted = whole
      | M_Loop rest copied \<Rightarrow> accepted @ rest = whole \<and> 0 \<le> copied \<and> copied + int (length rest) = L
      | M_Wait rest copied \<Rightarrow> accepted @ rest = whole \<and> 0 \<le> copied \<and> copied + int (length rest) = L \<and>
          rest \<noteq> [] \<and> ws_full slot
      | M_Copy rest copied piece \<Rightarrow> accepted @ rest = whole \<and> 0 \<le> copied \<and>
          copied + int (length rest) = L \<and> 0 < piece \<and> piece \<le> int (length rest) \<and>
          offset + piece \<le> int WANDIO_BUFFER_SIZE \<and> \<not> ws_full slot
      | M_Commit rest copied piece \<Rightarrow> accepted @ rest = whole \<and> 0 \<le> copied \<and>
          copied + int (length rest) = L \<and> 0 < piece \<and> piece \<le> int (length rest) \<and>
          offset + piece \<le> int WANDIO_BUFFER_SIZE \<and> \<not> ws_full slot \<and>
          take (nat (offset + piece)) (ws_buffer slot) = wslot_data slot @ take (nat piece) rest \<and>
          offset + piece \<le> int (length (ws_buffer slot))
      | M_Ret r \<Rightarrow> accepted = whole \<and> r = L
      | M_Join \<Rightarrow> accepted = whole
      | M_Closed \<Rightarrow> accepted = whole \<and> joined)"

definition tw_main :: "byte list \<Rightarrow> int \<Rightarrow> 'w threadw_t \<Rightarrow> bool" where
  "tw_main whole L s \<longleftrightarrow>
     L < 2 ^ 31 \<and> (tw_closing s \<longleftrightarrow> tw_mpc s = M_Join \<or> tw_mpc s = M_Closed) \<and>
     (\<not> tw_closing s \<longrightarrow> 0 \<le> tw_offset s \<and> tw_offset s < int WANDIO_BUFFER_SIZE \<and>
        tw_offset s = (if ws_full (tw_slots s ! tw_out s) then 0 else ws_len (tw_slots s ! tw_out s))) \<and>
     tw_call whole L (tw_accepted s) (tw_slots s ! tw_out s) (tw_offset s) (tw_kpc s = K_Done) (tw_mpc s)"

definition tw_inv :: "('w \<Rightarrow> byte list \<Rightarrow> bool) \<Rightarrow> byte list \<Rightarrow> int \<Rightarrow> 'w threadw_t \<Rightarrow> bool" where
  "tw_inv J whole L s \<longleftrightarrow> (\<exists>k. tw_ring J s k) \<and> tw_main whole L s"

lemma BUFFERS_pos [simp]: "0 < BUFFERS" "BUFFERS \<noteq> 0"
  by (simp_all add: BUFFERS_def)

lemma tw_queue_ring:
  "tw_ring J s k \<Longrightarrow> tw_queue s = ring_of (tw_slots s) (tw_cidx s) k @
    (if ws_full (tw_slots s ! tw_out s) then [] else [tw_slots s ! tw_out s])"
  using ring_queue [of ws_full "tw_slots s" "tw_cidx s" k] by (simp add: tw_queue_def tw_ring_def)

lemma tw_accepted_eq:
  assumes "tw_ring J s k"
  shows "tw_accepted s = tw_sent s @ concat (map wslot_data
     (if tw_kpc s = K_Release
      then tl (ring_of (tw_slots s) (tw_cidx s) k @
               (if ws_full (tw_slots s ! tw_out s) then [] else [tw_slots s ! tw_out s]))
      else ring_of (tw_slots s) (tw_cidx s) k @
               (if ws_full (tw_slots s ! tw_out s) then [] else [tw_slots s ! tw_out s])))"
  using tw_queue_ring [OF assms] by (simp add: tw_accepted_def)

lemma tw_ringD:
  assumes "tw_ring J s k"
  shows "length (tw_slots s) = BUFFERS" "ring_ok ws_full (tw_slots s) (tw_cidx s) k"
    "tw_out s < BUFFERS" "J (tw_iow s) (tw_sent s)" "tw_cidx s < BUFFERS" "k \<le> BUFFERS"
    "\<And>j. j < BUFFERS \<Longrightarrow> good_wslot (tw_slots s ! j)"
    "\<And>j. j < BUFFERS \<Longrightarrow> ws_full (tw_slots s ! j) \<Longrightarrow> 0 < ws_len (tw_slots s ! j)"
    "\<And>j. j < BUFFERS \<Longrightarrow> \<not> ws_full (tw_slots s ! j) \<Longrightarrow> j \<noteq> tw_out s \<Longrightarrow> ws_len (tw_slots s ! j) = 0"
    "tw_out s = (tw_cidx s + k) mod BUFFERS \<or> tw_closing s \<and> k = 0 \<and> ws_len (tw_slots s ! tw_out s) = 0"
    "ws_full (tw_slots s ! tw_cidx s) \<longleftrightarrow> 0 < k"
  using assms ring_okD [of ws_full "tw_slots s" "tw_cidx s" k] unfolding tw_ring_def by auto

lemma tw_call_mono:
  "tw_call whole L a x offset joined pc \<Longrightarrow> (joined \<longrightarrow> joined') \<Longrightarrow> tw_call whole L a x offset joined' pc"
  by (cases pc) (simp_all add: tw_call_def)

text \<open>The main thread's part looks at the slot being filled and at what has been accepted.\<close>

lemma tw_main_cong:
  assumes "tw_main whole L s" "tw_mpc t = tw_mpc s" "tw_closing t = tw_closing s"
    "tw_offset t = tw_offset s" "tw_slots t ! tw_out t = tw_slots s ! tw_out s"
    "tw_accepted t = tw_accepted s" "tw_kpc s = K_Done \<longrightarrow> tw_kpc t = K_Done"
  shows "tw_main whole L t"
proof -
  have "tw_call whole L (tw_accepted s) (tw_slots s ! tw_out s) (tw_offset s) (tw_kpc t = K_Done) (tw_mpc s)"
    using assms(1,7) unfolding tw_main_def by (blast intro: tw_call_mono)
  with assms(1) show ?thesis unfolding tw_main_def assms(2-6) by blast
qed

text \<open>The first slice on its way is the one the consumer looks at.\<close>

lemma queue_head:
  assumes "tw_ring J s k" "k = 0 \<longrightarrow> tw_closing s"
  shows "concat (map wslot_data (tw_queue s)) =
    wslot_data (tw_slots s ! tw_cidx s) @ concat (map wslot_data (tl (tw_queue s)))"
proof (cases "0 < k")
  case True
  note d = tw_ringD [OF assms(1)]
  from ring_of_head [of "tw_cidx s" "tw_slots s" k] True d(1,5) tw_queue_ring [OF assms(1)] show ?thesis by simp
next
  case False
  note d = tw_ringD [OF assms(1)]
  have "\<forall>j<BUFFERS. \<not> ws_full (tw_slots s ! j)"
    using d(1,2) False ring_ok_0_iff [of ws_full "tw_slots s" "tw_cidx s"] by simp
  with d(3) False tw_queue_ring [OF assms(1)] have q: "tw_queue s = [tw_slots s ! tw_out s]" by simp
  show ?thesis
  proof (cases "tw_out s = tw_cidx s")
    case True
    then show ?thesis by (simp add: q)
  next
    case ne: False
    with d(5,10) False have "ws_len (tw_slots s ! tw_out s) = 0" by auto
    moreover have "ws_len (tw_slots s ! tw_cidx s) = 0" using d(5,9,11) ne False by auto
    ultimately show ?thesis by (simp add: q wslot_data_def)
  qed
qed

lemma wake_main_simps [simp]:
  "tw_slots (wake_main s) = tw_slots s" "tw_offset (wake_main s) = tw_offset s"
  "tw_iow (wake_main s) = tw_iow s" "tw_sent (wake_main s) = tw_sent s"
  "tw_gone (wake_main s) = tw_gone s" "tw_out (wake_main s) = tw_out s"
  "tw_closing (wake_main s) = tw_closing s" "tw_cidx (wake_main s) = tw_cidx s"
  "tw_kpc (wake_main s) = tw_kpc s" "tw_accepted (wake_main s) = tw_accepted s"
  "tw_ring J (wake_main s) k = tw_ring J s k"
  by (simp_all add: wake_main_def tw_accepted_def tw_queue_def tw_ring_def
      split: main_pc.splits writer_pc.splits)

lemma wake_writer_simps [simp]:
  "tw_slots (wake_writer s) = tw_slots s" "tw_offset (wake_writer s) = tw_offset s"
  "tw_iow (wake_writer s) = tw_iow s" "tw_sent (wake_writer s) = tw_sent s"
  "tw_gone (wake_writer s) = tw_gone s" "tw_out (wake_writer s) = tw_out s"
  "tw_closing (wake_writer s) = tw_closing s" "tw_cidx (wake_writer s) = tw_cidx s"
  "tw_mpc (wake_writer s) = tw_mpc s" "tw_accepted (wake_writer s) = tw_accepted s"
  by (simp_all add: wake_writer_def tw_accepted_def tw_queue_def)

lemma wake_writer_ring: "tw_ring J s k \<Longrightarrow> tw_ring J (wake_writer s) k"
  by (auto simp: wake_writer_def tw_ring_def)

lemma wake_main_main:
  assumes "tw_main whole L s"
  shows "tw_main whole L (wake_main s)"
proof (cases "\<exists>rest copied. tw_mpc s = M_Wait rest copied")
  case False
  then have "wake_main s = s" by (simp add: wake_main_def split: main_pc.splits)
  with assms show ?thesis by simp
next
  case True
  then obtain rest copied where pc: "tw_mpc s = M_Wait rest copied" by blast
  then have mpc: "tw_mpc (wake_main s) = M_Loop rest copied" by (simp add: wake_main_def)
  have "tw_call whole L (tw_accepted s) (tw_slots s ! tw_out s) (tw_offset s) (tw_kpc s = K_Done)
      (M_Loop rest copied)"
    using assms by (simp add: tw_main_def tw_call_def pc)
  moreover have "\<not> tw_closing s" using assms pc by (simp add: tw_main_def)
  ultimately show ?thesis using assms unfolding tw_main_def wake_main_simps mpc pc by blast
qed

text \<open>Releasing the head slice: the queue loses its head, which the child has got.\<close>

lemma release_ring:
  assumes ring: "tw_ring J s k" and pc: "tw_kpc s = K_Release"
    and t: "t = s\<lparr>tw_slots := (tw_slots s)[tw_cidx s :=
        (tw_slots s ! tw_cidx s)\<lparr>ws_len := 0, ws_full := False, ws_flush := False\<rparr>],
      tw_cidx := (tw_cidx s + 1) mod BUFFERS,
      tw_kpc := (if 0 < ws_len (tw_slots s ! tw_cidx s) then K_Check else K_Exit)\<rparr>"
  shows "\<exists>k'. tw_ring J t k'" "tw_accepted t = tw_accepted s"
proof -
  note d = tw_ringD [OF ring]
  let ?slot = "tw_slots s ! tw_cidx s"
  let ?new = "?slot\<lparr>ws_len := 0, ws_full := False, ws_flush := False\<rparr>"
  have nf: "\<not> ws_full ?new" by simp
  have nth: "tw_slots t ! j = (if j = tw_cidx s then ?new else tw_slots s ! j)" if "j < BUFFERS" for j
    using that d(1) by (simp add: t nth_list_update)
  have base: "length (tw_slots t) = BUFFERS" "tw_out t < BUFFERS" "J (tw_iow t) (tw_sent t)"
    "\<forall>x\<in>set (tw_slots t). good_wslot x \<and> (ws_full x \<longrightarrow> 0 < ws_len x)"
    "\<forall>j<BUFFERS. \<not> ws_full (tw_slots t ! j) \<and> j \<noteq> tw_out t \<longrightarrow> ws_len (tw_slots t ! j) = 0"
  proof -
    show "length (tw_slots t) = BUFFERS" "tw_out t < BUFFERS" "J (tw_iow t) (tw_sent t)"
      using d(1,3,4) by (simp_all add: t)
    have "good_wslot ?new" using d(7) [OF d(5)] by (simp add: good_wslot_def)
    then have "good_wslot (tw_slots t ! j) \<and> (ws_full (tw_slots t ! j) \<longrightarrow> 0 < ws_len (tw_slots t ! j))"
      if "j < BUFFERS" for j
      using d(7,8) nth that by auto
    moreover have "length (tw_slots t) = BUFFERS" using d(1) by (simp add: t)
    ultimately show "\<forall>x\<in>set (tw_slots t). good_wslot x \<and> (ws_full x \<longrightarrow> 0 < ws_len x)"
      by (metis in_set_conv_nth)
    show "\<forall>j<BUFFERS. \<not> ws_full (tw_slots t ! j) \<and> j \<noteq> tw_out t \<longrightarrow> ws_len (tw_slots t ! j) = 0"
      using d(9) nth by (simp add: t)
  qed
  have acc: "tw_accepted s = tw_sent s @ concat (map wslot_data (tl (tw_queue s)))"
    using pc by (simp add: tw_accepted_def)
  have "tw_kpc t \<noteq> K_Release" "tw_sent t = tw_sent s" by (simp_all add: t)
  then have acct: "tw_accepted t = tw_sent s @ concat (map wslot_data (tw_queue t))"
    by (simp add: tw_accepted_def)
  have "(\<exists>k'. tw_ring J t k') \<and> tw_accepted t = tw_accepted s"
  proof (cases "0 < k")
    case True
    note take = ring_take [OF d(2) True nf, unfolded d(1)]
    have run: "0 < ws_len ?slot" using d(5,8,11) True by blast
    have "tw_out s = (tw_cidx s + k) mod BUFFERS" using d(10) True by blast
    with take(1,3) base run have ring': "tw_ring J t (k - 1)"
      by (simp add: tw_ring_def t)
    have "concat (map wslot_data (tw_queue t)) = concat (map wslot_data (tl (tw_queue s)))"
    proof (cases "tw_out s = tw_cidx s")
      case same: True
      have "ws_full (tw_slots s ! tw_out s)" using same d(11) True by simp
      with tw_queue_ring [OF ring] take(2) tw_queue_ring [OF ring'] same d(1,5) show ?thesis
        by (simp add: t wslot_data_def)
    next
      case False
      with tw_queue_ring [OF ring] take(2) tw_queue_ring [OF ring'] show ?thesis by (simp add: t)
    qed
    then have "tw_accepted t = tw_accepted s" using acc acct by simp
    with ring' show ?thesis by blast
  next
    case False
    then have k: "k = 0" by simp
    then have closing: "tw_closing s" using ring pc by (simp add: tw_ring_def)
    have none: "\<forall>j<BUFFERS. \<not> ws_full (tw_slots s ! j)"
      using d(1,2) k ring_ok_0_iff [of ws_full "tw_slots s" "tw_cidx s"] by simp
    then have none': "\<forall>j<BUFFERS. \<not> ws_full (tw_slots t ! j)" using nth by simp
    have out: "ws_len (tw_slots t ! tw_out t) = 0"
      using nth [of "tw_out s"] d(3,5,10) k by (auto simp: t)
    have "ring_ok ws_full (tw_slots t) (tw_cidx t) 0"
      using none' base(1) by (simp add: ring_ok_0_iff) (simp add: t)
    with base closing out have ring': "tw_ring J t 0" by (simp add: tw_ring_def) (simp add: t)
    have "tl (tw_queue s) = []" using tw_queue_ring [OF ring] none d(3) k by simp
    moreover have "concat (map wslot_data (tw_queue t)) = []"
      using tw_queue_ring [OF ring'] none' base(2) out by (simp add: wslot_data_def)
    ultimately have "tw_accepted t = tw_accepted s"
      using acc acct by simp
    with ring' show ?thesis by blast
  qed
  then show "\<exists>k'. tw_ring J t k'" "tw_accepted t = tw_accepted s" by blast+
qed

text \<open>The main thread changes only the slot it is filling, which is EMPTY; it either keeps it or
  hands it over.\<close>

lemma fill_ring:
  assumes ring: "tw_ring J s k" and open': "\<not> tw_closing s" and empty: "\<not> ws_full (tw_slots s ! tw_out s)"
    and x: "good_wslot x"
    and t: "tw_slots t = (tw_slots s)[tw_out s := x]" "tw_iow t = tw_iow s" "tw_sent t = tw_sent s"
      "tw_closing t = tw_closing s" "tw_cidx t = tw_cidx s" "tw_kpc t = tw_kpc s"
  shows "\<not> ws_full x \<Longrightarrow> tw_out t = tw_out s \<Longrightarrow> tw_ring J t k"
    "ws_full x \<Longrightarrow> 0 < ws_len x \<Longrightarrow> tw_out t = (tw_out s + 1) mod BUFFERS \<Longrightarrow> tw_kpc s \<noteq> K_Wait \<Longrightarrow>
      tw_ring J t (Suc k)"
    "ws_full x \<Longrightarrow> 0 < ws_len x \<Longrightarrow> tw_out t = (tw_out s + 1) mod BUFFERS \<Longrightarrow>
      tw_ring J (wake_writer t) (Suc k)"
    "\<exists>pre. tw_accepted s = pre @ wslot_data (tw_slots s ! tw_out s) \<and>
      (\<not> ws_full x \<and> tw_out t = tw_out s \<or>
       ws_full x \<and> 0 < ws_len x \<and> tw_out t = (tw_out s + 1) mod BUFFERS \<longrightarrow>
       tw_accepted t = pre @ wslot_data x)"
proof -
  note d = tw_ringD [OF ring]
  have k: "k < BUFFERS"
    using d(2,10) empty ring_okD(2,5) [OF d(2)] open' d(1) by (cases "k = BUFFERS") auto
  have out: "tw_out s = (tw_cidx s + k) mod BUFFERS" using d(10) open' by blast
  have nth: "tw_slots t ! j = (if j = tw_out s then x else tw_slots s ! j)" if "j < BUFFERS" for j
    using that d(1) by (simp add: t)
  have len: "length (tw_slots t) = BUFFERS" using d(1) by (simp add: t)
  have good: "\<forall>y\<in>set (tw_slots t). good_wslot y \<and> (ws_full y \<longrightarrow> 0 < ws_len y)"
    if "ws_full x \<longrightarrow> 0 < ws_len x"
  proof -
    have "good_wslot (tw_slots t ! j) \<and> (ws_full (tw_slots t ! j) \<longrightarrow> 0 < ws_len (tw_slots t ! j))"
      if "j < BUFFERS" for j
      using nth [OF that] d(7,8) [OF that] x \<open>ws_full x \<longrightarrow> 0 < ws_len x\<close> by simp
    with len show ?thesis by (metis in_set_conv_nth)
  qed
  have kpc: "tw_kpc s = K_Release \<or> tw_kpc s = K_Work \<Longrightarrow> 0 < k"
    "tw_kpc s \<noteq> K_Exit" "tw_kpc s \<noteq> K_Done"
    using ring open' by (auto simp: tw_ring_def)
  show keep: "tw_ring J t k" if "\<not> ws_full x" "tw_out t = tw_out s"
  proof -
    have "ring_ok ws_full (tw_slots t) (tw_cidx t) k"
      using ring_scribble(1) [of ws_full "tw_slots s" "tw_cidx s" k x] d(1,2) k that out t(1,5) by simp
    moreover have "\<forall>j<BUFFERS. \<not> ws_full (tw_slots t ! j) \<and> j \<noteq> tw_out t \<longrightarrow> ws_len (tw_slots t ! j) = 0"
      using nth d(9) that by auto
    ultimately show ?thesis
      using good that len ring open' out t kpc by (auto simp: tw_ring_def split: writer_pc.splits)
  qed
  have hand_ok: "ring_ok ws_full (tw_slots t) (tw_cidx t) (Suc k)" if "ws_full x"
    using ring_fill(1) [of ws_full "tw_slots s" "tw_cidx s" k x] d(1,2) k that out t(1,5) by simp
  have zero: "\<forall>j<BUFFERS. \<not> ws_full (tw_slots t ! j) \<and> j \<noteq> tw_out t \<longrightarrow> ws_len (tw_slots t ! j) = 0"
    if "ws_full x" using nth d(9) that by auto
  have out': "(tw_out s + 1) mod BUFFERS = (tw_cidx s + Suc k) mod BUFFERS"
    using out by (simp add: mod_Suc_eq)
  show hand: "tw_ring J t (Suc k)" if "ws_full x" "0 < ws_len x" "tw_out t = (tw_out s + 1) mod BUFFERS"
    "tw_kpc s \<noteq> K_Wait"
    using hand_ok [OF that(1)] zero [OF that(1)] good that len d(4) open' out' t kpc
    by (auto simp: tw_ring_def split: writer_pc.splits)
  show wake: "tw_ring J (wake_writer t) (Suc k)"
    if "ws_full x" "0 < ws_len x" "tw_out t = (tw_out s + 1) mod BUFFERS"
    using hand_ok [OF that(1)] zero [OF that(1)] good that len d(4) open' out' t kpc
    by (auto simp: tw_ring_def wake_writer_def split: writer_pc.splits)
  let ?R = "ring_of (tw_slots s) (tw_cidx s) k"
  let ?pre = "tw_sent s @ concat (map wslot_data (if tw_kpc s = K_Release then tl ?R else ?R))"
  have tl: "tl (?R @ ys) = tl ?R @ ys" if "tw_kpc s = K_Release" for ys
    using kpc(1) that length_ring_of [of "tw_slots s" "tw_cidx s" k] by (cases ?R) auto
  have "tw_accepted s = ?pre @ wslot_data (tw_slots s ! tw_out s)"
    using tw_accepted_eq [OF ring] empty tl by simp
  moreover have "tw_accepted t = ?pre @ wslot_data x"
    if "\<not> ws_full x \<and> tw_out t = tw_out s \<or>
      ws_full x \<and> 0 < ws_len x \<and> tw_out t = (tw_out s + 1) mod BUFFERS"
    using that
  proof
    assume a: "\<not> ws_full x \<and> tw_out t = tw_out s"
    have "ring_of (tw_slots t) (tw_cidx t) k = ?R"
      using ring_scribble(2) [of ws_full "tw_slots s" "tw_cidx s" k x] d(1,2) k a out t(1,5) by simp
    with a tw_accepted_eq [OF keep] nth [OF d(3)] tl show ?thesis by (simp add: t)
  next
    assume a: "ws_full x \<and> 0 < ws_len x \<and> tw_out t = (tw_out s + 1) mod BUFFERS"
    have r: "ring_of (tw_slots t) (tw_cidx t) (Suc k) = ?R @ [x]"
      using ring_fill(2) [of ws_full "tw_slots s" "tw_cidx s" k x] d(1,2) k a out t(1,5) by simp
    have rest: "concat (map wslot_data (if ws_full (tw_slots t ! tw_out t) then [] else [tw_slots t ! tw_out t])) = []"
    proof (cases "ws_full (tw_slots t ! tw_out t)")
      case False
      have o: "tw_out t < BUFFERS" using a by simp
      have "tw_out t \<noteq> tw_out s" using False nth [OF o] a by auto
      with False nth [OF o] d(9) [OF o] show ?thesis by (simp add: wslot_data_def)
    qed simp
    have "tw_queue t = ?R @ [x] @ (if ws_full (tw_slots t ! tw_out t) then [] else [tw_slots t ! tw_out t])"
      using tw_queue_ring [OF wake] a r ring_queue [OF hand_ok] by (simp add: tw_queue_def)
    with rest tl show ?thesis by (simp add: tw_accepted_def t)
  qed
  ultimately show "\<exists>pre. tw_accepted s = pre @ wslot_data (tw_slots s ! tw_out s) \<and>
      (\<not> ws_full x \<and> tw_out t = tw_out s \<or>
       ws_full x \<and> 0 < ws_len x \<and> tw_out t = (tw_out s + 1) mod BUFFERS \<longrightarrow>
       tw_accepted t = pre @ wslot_data x)" by blast
qed

text \<open>What is left to do: the caller's bytes, the slices with something in them, and the place in
  each thread's loop.\<close>

definition tw_busy :: "wslot list \<Rightarrow> nat" where
  "tw_busy slots = length (filter (\<lambda>x. 0 < ws_len x) slots)"

definition tw_measure :: "'w threadw_t \<Rightarrow> nat" where
  "tw_measure s = 10 * tw_busy (tw_slots s) +
     (case tw_kpc s of K_Check \<Rightarrow> 8 | K_Wait \<Rightarrow> 7 | K_Work \<Rightarrow> 6 | K_Release \<Rightarrow> 5 | K_Exit \<Rightarrow> 2 | K_Done \<Rightarrow> 0) +
     (case tw_mpc s of M_Loop rest copied \<Rightarrow> 20 * length rest + 5 | M_Wait rest copied \<Rightarrow> 20 * length rest + 4
      | M_Copy rest copied piece \<Rightarrow> 20 * length rest + 3
      | M_Commit rest copied piece \<Rightarrow> 20 * length rest + 2 | M_Join \<Rightarrow> 1 | _ \<Rightarrow> 0)"

lemma tw_busy_update:
  assumes "i < length slots"
  shows "tw_busy (slots[i := x]) + (if 0 < ws_len (slots ! i) then 1 else 0) =
    tw_busy slots + (if 0 < ws_len x then 1 else 0)"
proof -
  have "slots = take i slots @ slots ! i # drop (Suc i) slots"
    using assms by (simp add: id_take_nth_drop)
  then have "tw_busy slots = tw_busy (take i slots @ slots ! i # drop (Suc i) slots)" by simp
  with assms show ?thesis by (simp add: tw_busy_def upd_conv_take_nth_drop)
qed

lemma wake_main_measure: "tw_measure (wake_main s) \<le> tw_measure s + 1"
  by (simp add: tw_measure_def wake_main_def split: main_pc.splits)

lemma wake_writer_measure: "tw_measure (wake_writer s) \<le> tw_measure s + 1"
  by (simp add: tw_measure_def wake_writer_def)

section \<open>Every step keeps the invariant\<close>

text \<open>All that is asked of the child: no call aborts, and \<open>J\<close> relates its state to what it was
  given. A child that fails every write satisfies this with \<open>J = (\<lambda>_ _. True)\<close>.\<close>

locale threaded_writer =
  fixes csrc :: "'w iow_source_t" and J :: "'w \<Rightarrow> byte list \<Rightarrow> bool"
  assumes child_write: "J w sent \<Longrightarrow> length bs \<le> WANDIO_BUFFER_SIZE \<Longrightarrow>
      \<exists>r w'. wsrc_write csrc w bs = Some (r, w') \<and> J w' (sent @ bs)"
    and child_flush: "J w sent \<Longrightarrow> \<exists>r w'. wsrc_flush csrc w = Some (r, w') \<and> J w' sent"
    and child_close: "J w sent \<Longrightarrow> \<exists>w'. wsrc_close csrc w = Some w'"
begin

lemma empty_slot_ok:
  assumes "J w sent" "good_wslot slot"
  shows "\<exists>w'. empty_slot csrc slot w = Some w' \<and> J w' (sent @ wslot_data slot)"
proof -
  have "\<exists>w1. (if 0 < ws_len slot then map_option snd (wandio_wwrite csrc w (wslot_data slot)) else Some w) =
      Some w1 \<and> J w1 (sent @ wslot_data slot)"
  proof (cases "0 < ws_len slot")
    case True
    have "length (wslot_data slot) \<le> WANDIO_BUFFER_SIZE"
      using assms(2) by (auto simp: good_wslot_def wslot_data_def)
    from child_write [OF assms(1) this] True show ?thesis by (auto simp: wandio_wwrite_def)
  next
    case False
    with assms show ?thesis by (simp add: wslot_data_def good_wslot_def)
  qed
  then obtain w1 where w1: "(if 0 < ws_len slot then map_option snd (wandio_wwrite csrc w (wslot_data slot))
      else Some w) = Some w1" "J w1 (sent @ wslot_data slot)" by blast
  from child_flush [OF w1(2)] obtain r w2 where "wsrc_flush csrc w1 = Some (r, w2)"
    "J w2 (sent @ wslot_data slot)" by blast
  with w1 show ?thesis by (auto simp: empty_slot_def wandio_wflush_def)
qed

lemma kcheck_inv:
  assumes "tw_inv J whole L s" "tw_kpc s = K_Check" "writer_step csrc s = Some t"
  shows "tw_inv J whole L t"
proof -
  from assms(1) obtain k where ring: "tw_ring J s k" and main: "tw_main whole L s" by (auto simp: tw_inv_def)
  have t: "t = s\<lparr>tw_kpc := (if \<not> ws_full (tw_slots s ! tw_cidx s) \<and> \<not> tw_closing s then K_Wait else K_Work)\<rparr>"
    using assms(2,3) by (simp add: writer_step_def)
  have "tw_ring J t k" using ring tw_ringD(11) [OF ring] by (simp add: tw_ring_def t)
  moreover have "tw_main whole L t"
    by (rule tw_main_cong [OF main]) (use assms(2) in \<open>simp_all add: t tw_accepted_def tw_queue_def\<close>)
  ultimately show ?thesis by (auto simp: tw_inv_def)
qed

lemma kwork_inv:
  assumes "tw_inv J whole L s" "tw_kpc s = K_Work"
  shows "\<exists>t. writer_step csrc s = Some t \<and> tw_inv J whole L t"
proof -
  from assms(1) obtain k where ring: "tw_ring J s k" and main: "tw_main whole L s" by (auto simp: tw_inv_def)
  note d = tw_ringD [OF ring]
  let ?slot = "tw_slots s ! tw_cidx s"
  from empty_slot_ok [OF d(4) d(7) [OF d(5)]] obtain w where
    w: "empty_slot csrc ?slot (tw_iow s) = Some w" "J w (tw_sent s @ wslot_data ?slot)" by blast
  let ?t = "s\<lparr>tw_iow := w, tw_sent := tw_sent s @ wslot_data ?slot, tw_kpc := K_Release\<rparr>"
  have step: "writer_step csrc s = Some ?t" using assms(2) w(1) by (simp add: writer_step_def Let_def)
  have kz: "k = 0 \<longrightarrow> tw_closing s" using ring assms(2) by (simp add: tw_ring_def)
  have "tw_ring J ?t k" using ring w(2) kz assms(2) by (simp add: tw_ring_def)
  moreover have "tw_main whole L ?t"
    by (rule tw_main_cong [OF main])
      (use assms(2) queue_head [OF ring kz] in \<open>simp_all add: tw_accepted_def, simp add: tw_queue_def\<close>)
  ultimately show ?thesis using step by (auto simp: tw_inv_def)
qed

lemma kexit_inv:
  assumes "tw_inv J whole L s" "tw_kpc s = K_Exit"
  shows "\<exists>t. writer_step csrc s = Some t \<and> tw_inv J whole L t"
proof -
  from assms(1) obtain k where ring: "tw_ring J s k" and main: "tw_main whole L s" by (auto simp: tw_inv_def)
  from child_close [OF tw_ringD(4) [OF ring]] obtain w where w: "wsrc_close csrc (tw_iow s) = Some w" by blast
  let ?t = "s\<lparr>tw_gone := Some w, tw_kpc := K_Done\<rparr>"
  have step: "writer_step csrc s = Some ?t"
    using assms(2) w by (simp add: writer_step_def Let_def wandio_wdestroy_def)
  have "tw_ring J ?t k" using ring assms(2) by (auto simp: tw_ring_def)
  moreover have "tw_main whole L ?t"
    by (rule tw_main_cong [OF main]) (use assms(2) in \<open>simp_all add: tw_accepted_def tw_queue_def\<close>)
  ultimately show ?thesis using step by (auto simp: tw_inv_def)
qed

lemma krelease_inv:
  assumes "tw_inv J whole L s" "tw_kpc s = K_Release" "writer_step csrc s = Some t"
  shows "tw_inv J whole L t"
proof -
  from assms(1) obtain k where ring: "tw_ring J s k" and main: "tw_main whole L s" by (auto simp: tw_inv_def)
  note d = tw_ringD [OF ring]
  let ?t = "s\<lparr>tw_slots := (tw_slots s)[tw_cidx s :=
        (tw_slots s ! tw_cidx s)\<lparr>ws_len := 0, ws_full := False, ws_flush := False\<rparr>],
      tw_cidx := (tw_cidx s + 1) mod BUFFERS,
      tw_kpc := (if 0 < ws_len (tw_slots s ! tw_cidx s) then K_Check else K_Exit)\<rparr>"
  have t: "t = wake_main ?t" using assms(2,3) by (simp add: writer_step_def Let_def)
  note rel = release_ring [OF ring assms(2) refl]
  have "tw_main whole L (wake_main ?t)"
  proof (cases "tw_closing s \<or> tw_out s \<noteq> tw_cidx s")
    case True
    then show ?thesis
    proof
      assume c: "tw_closing s"
      then have "tw_mpc s = M_Join" using main assms(2) by (auto simp: tw_main_def tw_call_def)
      with c main rel(2) have "tw_main whole L ?t" by (simp add: tw_main_def tw_call_def)
      then show ?thesis by (rule wake_main_main)
    next
      assume "tw_out s \<noteq> tw_cidx s"
      then have "tw_main whole L ?t"
        by (intro tw_main_cong [OF main]) (use rel(2) assms(2) in simp_all)
      then show ?thesis by (rule wake_main_main)
    qed
  next
    case False
    then have same: "tw_out s = tw_cidx s" "\<not> tw_closing s" by auto
    then have full: "ws_full (tw_slots s ! tw_out s)"
      using ring assms(2) d(11) by (auto simp: tw_ring_def)
    have off: "tw_offset s = 0" using main same full by (simp add: tw_main_def)
    have acc: "tw_accepted (wake_main ?t) = tw_accepted s" using rel(2) by simp
    have nth: "tw_slots (wake_main ?t) ! tw_out (wake_main ?t) =
        (tw_slots s ! tw_cidx s)\<lparr>ws_len := 0, ws_full := False, ws_flush := False\<rparr>"
      using same d(1,5) by simp
    show ?thesis
      using main full off same d(1,5) unfolding tw_main_def acc nth
      by (cases "tw_mpc s") (simp_all add: tw_call_def wake_main_def)
  qed
  with rel(1) show ?thesis by (auto simp: tw_inv_def t)
qed

lemma writer_inv:
  assumes "tw_inv J whole L s" "writer_step csrc s = Some t"
  shows "tw_inv J whole L t"
proof (cases "tw_kpc s")
  case K_Check with assms kcheck_inv show ?thesis by blast
next
  case K_Wait with assms(2) show ?thesis by (simp add: writer_step_def)
next
  case K_Work with kwork_inv [OF assms(1)] assms(2) show ?thesis by auto
next
  case K_Release with assms krelease_inv show ?thesis by blast
next
  case K_Exit with kexit_inv [OF assms(1)] assms(2) show ?thesis by auto
next
  case K_Done with assms(2) show ?thesis by (simp add: writer_step_def)
qed

lemma mloop_inv:
  assumes "tw_inv J whole L s" "tw_mpc s = M_Loop rest copied" "main_step s = Some t"
  shows "tw_inv J whole L t"
proof -
  from assms(1) obtain k where ring: "tw_ring J s k" and main: "tw_main whole L s" by (auto simp: tw_inv_def)
  let ?slot = "tw_slots s ! tw_out s"
  have m: "L < 2 ^ 31" "\<not> tw_closing s" "0 \<le> tw_offset s" "tw_offset s < int WANDIO_BUFFER_SIZE"
    "tw_offset s = (if ws_full ?slot then 0 else ws_len ?slot)"
    "tw_accepted s @ rest = whole" "0 \<le> copied" "copied + int (length rest) = L"
    using main assms(2) by (auto simp: tw_main_def tw_call_def)
  let ?piece = "min (int WANDIO_BUFFER_SIZE - tw_offset s) (int (length rest))"
  have ci: "c_int ?piece = ?piece" using m by (intro c_int_id) (auto simp: WANDIO_BUFFER_SIZE_def)
  let ?pc = "if rest = [] then M_Ret copied else if ws_full ?slot then M_Wait rest copied
      else M_Copy rest copied ?piece"
  have t: "t = s\<lparr>tw_mpc := ?pc\<rparr>" using assms(2,3) ci by (auto simp: main_step_def Let_def)
  have "tw_ring J t k" using ring by (simp add: t tw_ring_def split: writer_pc.splits)
  moreover have acc: "tw_accepted t = tw_accepted s" by (simp add: t tw_accepted_def tw_queue_def)
  have "tw_call whole L (tw_accepted s) ?slot (tw_offset s) (tw_kpc s = K_Done) ?pc"
    using m by (auto simp: tw_call_def)
  then have "tw_main whole L t" using m acc by (auto simp: tw_main_def t)
  ultimately show ?thesis by (auto simp: tw_inv_def)
qed

lemma mcopy_inv:
  assumes "tw_inv J whole L s" "tw_mpc s = M_Copy rest copied piece" "main_step s = Some t"
  shows "tw_inv J whole L t"
proof -
  from assms(1) obtain k where ring: "tw_ring J s k" and main: "tw_main whole L s" by (auto simp: tw_inv_def)
  let ?slot = "tw_slots s ! tw_out s"
  have m: "L < 2 ^ 31" "\<not> tw_closing s" "0 \<le> tw_offset s" "tw_offset s < int WANDIO_BUFFER_SIZE"
    "tw_offset s = ws_len ?slot" "\<not> ws_full ?slot"
    "tw_accepted s @ rest = whole" "0 \<le> copied" "copied + int (length rest) = L"
    "0 < piece" "piece \<le> int (length rest)" "tw_offset s + piece \<le> int WANDIO_BUFFER_SIZE"
    using main assms(2) by (auto simp: tw_main_def tw_call_def)
  note d = tw_ringD [OF ring]
  have good: "good_wslot ?slot" using d(3,7) by blast
  let ?bs = "take (nat piece) rest"
  let ?x = "?slot\<lparr>ws_buffer := store_at (nat (tw_offset s)) ?bs (ws_buffer ?slot)\<rparr>"
  have t: "t = s\<lparr>tw_slots := (tw_slots s)[tw_out s := ?x], tw_mpc := M_Commit rest copied piece\<rparr>"
    using assms(2,3) by (simp add: main_step_def Let_def)
  have lens: "nat (tw_offset s) \<le> length (ws_buffer ?slot)" "length ?bs = nat piece"
    using good m by (auto simp: good_wslot_def)
  have data: "wslot_data ?x = wslot_data ?slot"
    using lens m(5) by (simp add: wslot_data_def store_at_def)
  have x: "good_wslot ?x" using good lens m(3,5) by (auto simp: good_wslot_def store_at_def)
  have stored: "take (nat (tw_offset s + piece)) (ws_buffer ?x) = wslot_data ?slot @ ?bs"
    "tw_offset s + piece \<le> int (length (ws_buffer ?x))"
    using lens m(3,5,10) by (simp_all add: wslot_data_def store_at_def nat_add_distrib min_def)
  note fr = fill_ring [OF ring m(2,6) x, of t]
  have ring': "tw_ring J t k" using fr(1) m(6) by (simp add: t)
  have acc: "tw_accepted t = tw_accepted s" using fr(4) m(6) data by (auto simp: t)
  have slot: "tw_slots t ! tw_out t = ?x" using d(1,3) by (simp add: t)
  have "tw_call whole L (tw_accepted s) ?x (tw_offset s) (tw_kpc t = K_Done) (M_Commit rest copied piece)"
    using m stored data by (simp add: tw_call_def)
  then have "tw_main whole L t" using m acc unfolding tw_main_def slot by (simp add: t)
  with ring' show ?thesis by (auto simp: tw_inv_def)
qed

lemma mcommit_inv:
  assumes "tw_inv J whole L s" "tw_mpc s = M_Commit rest copied piece" "main_step s = Some t"
  shows "tw_inv J whole L t"
proof -
  from assms(1) obtain k where ring: "tw_ring J s k" and main: "tw_main whole L s" by (auto simp: tw_inv_def)
  let ?slot = "tw_slots s ! tw_out s"
  have m: "L < 2 ^ 31" "\<not> tw_closing s" "0 \<le> tw_offset s" "tw_offset s < int WANDIO_BUFFER_SIZE"
    "tw_offset s = ws_len ?slot" "\<not> ws_full ?slot"
    "tw_accepted s @ rest = whole" "0 \<le> copied" "copied + int (length rest) = L"
    "0 < piece" "piece \<le> int (length rest)" "tw_offset s + piece \<le> int WANDIO_BUFFER_SIZE"
    "take (nat (tw_offset s + piece)) (ws_buffer ?slot) = wslot_data ?slot @ take (nat piece) rest"
    "tw_offset s + piece \<le> int (length (ws_buffer ?slot))"
    using main assms(2) by (auto simp: tw_main_def tw_call_def)
  note d = tw_ringD [OF ring]
  have ci: "c_int (copied + piece) = copied + piece" using m by (intro c_int_id) auto
  let ?pc = "M_Loop (drop (nat piece) rest) (copied + piece)"
  let ?x1 = "?slot\<lparr>ws_len := ws_len ?slot + piece\<rparr>"
  have x1: "good_wslot ?x1" "wslot_data ?x1 = wslot_data ?slot @ take (nat piece) rest"
    using m by (simp_all add: good_wslot_def wslot_data_def)
  have call: "tw_call whole L (a @ take (nat piece) rest) x off joined ?pc" if "a = tw_accepted s" for a x off joined
    using m that by (simp add: tw_call_def)
  show ?thesis
  proof (cases "int WANDIO_BUFFER_SIZE \<le> tw_offset s + piece")
    case False
    have t: "t = s\<lparr>tw_mpc := ?pc, tw_slots := (tw_slots s)[tw_out s := ?x1], tw_offset := tw_offset s + piece\<rparr>"
      using assms(2,3) False ci by (simp add: main_step_def Let_def)
    note fr = fill_ring [OF ring m(2,6) x1(1), of t]
    have ring': "tw_ring J t k" using fr(1) m(6) by (simp add: t)
    have acc: "tw_accepted t = tw_accepted s @ take (nat piece) rest" using fr(4) m(6) x1(2) by (auto simp: t)
    have slot: "tw_slots t ! tw_out t = ?x1" using d(1,3) by (simp add: t)
    have "tw_main whole L t" unfolding tw_main_def slot acc
      using m False call [OF refl] by (simp add: t)
    with ring' show ?thesis by (auto simp: tw_inv_def)
  next
    case True
    let ?x = "?x1\<lparr>ws_full := True, ws_flush := False\<rparr>"
    let ?t = "s\<lparr>tw_mpc := ?pc, tw_slots := (tw_slots s)[tw_out s := ?x], tw_offset := 0,
        tw_out := (tw_out s + 1) mod BUFFERS\<rparr>"
    have t: "t = wake_writer ?t"
      using assms(2,3) True ci by (simp add: main_step_def Let_def)
    have x: "good_wslot ?x" "wslot_data ?x = wslot_data ?slot @ take (nat piece) rest" "0 < ws_len ?x"
      using x1 m by (simp_all add: good_wslot_def wslot_data_def)
    note fr = fill_ring [OF ring m(2,6) x(1), of ?t]
    have ring': "tw_ring J t (Suc k)" using fr(3) x(3) by (simp add: t)
    have acc: "tw_accepted t = tw_accepted s @ take (nat piece) rest" using fr(4) x(2,3) by (auto simp: t)
    have o: "tw_out t < BUFFERS" by (simp add: t)
    have zero: "ws_len (tw_slots t ! tw_out t) = 0" if "\<not> ws_full (tw_slots t ! tw_out t)"
    proof -
      have "tw_out t \<noteq> tw_out s" using that d(1,3) by (auto simp: t)
      with that o d(9) [OF o] show ?thesis by (simp add: t)
    qed
    have "tw_main whole L t" unfolding tw_main_def acc
      using m zero call [OF refl] by (simp add: t)
    with ring' show ?thesis by (auto simp: tw_inv_def)
  qed
qed

lemma main_inv:
  assumes "tw_inv J whole L s" "main_step s = Some t"
  shows "tw_inv J whole L t"
proof (cases "tw_mpc s")
  case M_Loop with assms mloop_inv show ?thesis by blast
next
  case M_Copy with assms mcopy_inv show ?thesis by blast
next
  case M_Commit with assms mcommit_inv show ?thesis by blast
next
  case M_Join
  then have t: "t = s\<lparr>tw_mpc := M_Closed\<rparr>" "tw_kpc s = K_Done"
    using assms(2) by (auto simp: main_step_def Let_def split: if_splits)
  have "tw_accepted t = tw_accepted s" by (simp add: t(1) tw_accepted_def tw_queue_def)
  with assms(1) M_Join t show ?thesis
    by (auto simp: tw_inv_def tw_main_def tw_call_def tw_ring_def)
qed (use assms(2) in \<open>simp_all add: main_step_def\<close>)

lemma wstep_inv: "wstep csrc s t \<Longrightarrow> tw_inv J whole L s \<Longrightarrow> tw_inv J whole L t"
  by (erule wstep_cases) (auto intro: writer_inv main_inv)

section \<open>No deadlock, and every call returns\<close>

lemma wno_deadlock:
  assumes "tw_inv J whole L s" "tw_mpc s \<notin> {M_Idle, M_Closed}" "\<nexists>r. tw_mpc s = M_Ret r"
  shows "\<exists>t. wstep csrc s t"
proof -
  from assms(1) obtain k where ring: "tw_ring J s k" and main: "tw_main whole L s" by (auto simp: tw_inv_def)
  note d = tw_ringD [OF ring]
  have go: "\<exists>t. wstep csrc s t" if "tw_kpc s \<noteq> K_Wait" "tw_kpc s \<noteq> K_Done"
  proof -
    note pc = that
    consider "tw_kpc s = K_Check" | "tw_kpc s = K_Work" | "tw_kpc s = K_Release" | "tw_kpc s = K_Exit"
      using pc by (cases "tw_kpc s") auto
    then show ?thesis
    proof cases
      case 1 then show ?thesis by (intro exI, intro drain) (simp add: writer_step_def Let_def)
    next
      case 2 with kwork_inv [OF assms(1)] show ?thesis by (auto intro: drain)
    next
      case 3 then show ?thesis by (intro exI, intro drain) (simp add: writer_step_def Let_def)
    next
      case 4 with kexit_inv [OF assms(1)] show ?thesis by (auto intro: drain)
    qed
  qed
  show ?thesis
  proof (cases "tw_mpc s")
    case (M_Wait rest copied)
    then have full: "ws_full (tw_slots s ! tw_out s)" and open': "\<not> tw_closing s"
      using main by (auto simp: tw_main_def tw_call_def)
    have "k \<noteq> 0"
    proof
      assume "k = 0"
      then have "\<not> ws_full (tw_slots s ! tw_out s)"
        using d(1,2,3) ring_ok_0_iff [of ws_full "tw_slots s" "tw_cidx s"] by simp
      with full show False by simp
    qed
    then have "tw_kpc s \<noteq> K_Wait" "tw_kpc s \<noteq> K_Done"
      using ring open' by (auto simp: tw_ring_def)
    then show ?thesis by (rule go)
  next
    case M_Join
    then have "tw_kpc s \<noteq> K_Wait" using main ring by (auto simp: tw_main_def tw_ring_def)
    then show ?thesis
    proof (cases "tw_kpc s = K_Done")
      case True
      with M_Join show ?thesis by (intro exI, intro feed) (simp add: main_step_def Let_def)
    qed (rule go)
  next
    case (M_Loop rest copied)
    then show ?thesis by (intro exI, intro feed) (simp add: main_step_def Let_def)
  next
    case (M_Copy rest copied piece)
    then show ?thesis by (intro exI, intro feed) (simp add: main_step_def Let_def)
  next
    case (M_Commit rest copied piece)
    then show ?thesis by (intro exI, intro feed) (simp add: main_step_def Let_def)
  qed (use assms in auto)
qed

lemma writer_decreases:
  assumes inv: "tw_inv J whole L s" and step: "writer_step csrc s = Some t"
  shows "tw_measure t < tw_measure s"
proof (cases "tw_kpc s")
  case K_Release
  from inv obtain k where ring: "tw_ring J s k" by (auto simp: tw_inv_def)
  note d = tw_ringD [OF ring]
  let ?new = "(tw_slots s ! tw_cidx s)\<lparr>ws_len := 0, ws_full := False, ws_flush := False\<rparr>"
  let ?t = "s\<lparr>tw_slots := (tw_slots s)[tw_cidx s := ?new], tw_cidx := (tw_cidx s + 1) mod BUFFERS,
      tw_kpc := (if 0 < ws_len (tw_slots s ! tw_cidx s) then K_Check else K_Exit)\<rparr>"
  have t: "t = wake_main ?t" using step K_Release by (simp add: writer_step_def Let_def)
  have "tw_measure ?t + 1 < tw_measure s"
    using tw_busy_update [of "tw_cidx s" "tw_slots s" ?new] d(1,5) K_Release
    by (auto simp: tw_measure_def split: if_splits)
  with wake_main_measure [of ?t] show ?thesis by (simp add: t)
next
  case K_Work
  with step show ?thesis by (auto simp: writer_step_def tw_measure_def Let_def bind_eq_Some_conv)
next
  case K_Exit
  with step show ?thesis by (auto simp: writer_step_def tw_measure_def Let_def bind_eq_Some_conv)
next
  case K_Check
  with step show ?thesis by (auto simp: writer_step_def tw_measure_def Let_def)
qed (use step in \<open>simp_all add: writer_step_def\<close>)

lemma main_decreases:
  assumes inv: "tw_inv J whole L s" and step: "main_step s = Some t"
  shows "tw_measure t < tw_measure s"
proof (cases "tw_mpc s")
  case (M_Loop rest copied)
  with step show ?thesis by (auto simp: main_step_def tw_measure_def Let_def)
next
  case (M_Copy rest copied piece)
  from inv obtain k where ring: "tw_ring J s k" by (auto simp: tw_inv_def)
  note d = tw_ringD [OF ring]
  let ?x = "(tw_slots s ! tw_out s)\<lparr>ws_buffer :=
      store_at (nat (tw_offset s)) (take (nat piece) rest) (ws_buffer (tw_slots s ! tw_out s))\<rparr>"
  have "tw_busy ((tw_slots s)[tw_out s := ?x]) = tw_busy (tw_slots s)"
    using tw_busy_update [of "tw_out s" "tw_slots s" ?x] d(1,3) by (simp split: if_splits)
  with step M_Copy show ?thesis by (auto simp: main_step_def tw_measure_def Let_def)
next
  case (M_Commit rest copied piece)
  from inv obtain k where ring: "tw_ring J s k" and main: "tw_main whole L s" by (auto simp: tw_inv_def)
  note d = tw_ringD [OF ring]
  have m: "0 < piece" "piece \<le> int (length rest)"
    using main M_Commit by (auto simp: tw_main_def tw_call_def)
  then have less: "length rest - nat piece < length rest" by linarith
  then have less20: "20 * (length rest - nat piece) + 20 \<le> 20 * length rest" by linarith
  have busy: "tw_busy ((tw_slots s)[tw_out s := x]) \<le> tw_busy (tw_slots s) + 1" for x
    using tw_busy_update [of "tw_out s" "tw_slots s" x] d(1,3) by (simp split: if_splits)
  show ?thesis
  proof (cases "int WANDIO_BUFFER_SIZE \<le> tw_offset s + piece")
    case False
    with step M_Commit less20 busy [of "(tw_slots s ! tw_out s)\<lparr>ws_len := ws_len (tw_slots s ! tw_out s) + piece\<rparr>"]
    show ?thesis by (auto simp: main_step_def tw_measure_def Let_def)
  next
    case True
    let ?x = "(tw_slots s ! tw_out s)\<lparr>ws_len := ws_len (tw_slots s ! tw_out s) + piece, ws_full := True, ws_flush := False\<rparr>"
    let ?t = "s\<lparr>tw_mpc := M_Loop (drop (nat piece) rest) (c_int (copied + piece)),
        tw_slots := (tw_slots s)[tw_out s := ?x], tw_offset := 0, tw_out := (tw_out s + 1) mod BUFFERS\<rparr>"
    have t: "t = wake_writer ?t" using step M_Commit True by (simp add: main_step_def Let_def)
    have "tw_measure ?t + 1 < tw_measure s"
      using M_Commit less20 busy [of ?x] by (simp add: tw_measure_def)
    with wake_writer_measure [of ?t] show ?thesis by (simp add: t)
  qed
next
  case M_Join
  with step show ?thesis by (auto simp: main_step_def tw_measure_def Let_def split: if_splits)
qed (use step in \<open>simp_all add: main_step_def\<close>)

lemma wstep_decreases: "wstep csrc s t \<Longrightarrow> tw_inv J whole L s \<Longrightarrow> tw_measure t < tw_measure s"
  by (erule wstep_cases) (auto intro: writer_decreases main_decreases)

lemma wsched_step_wstep:
  assumes "tw_inv J whole L s" "tw_mpc s \<notin> {M_Idle, M_Closed}" "\<nexists>r. tw_mpc s = M_Ret r"
  obtains t where "wsched_step csrc sched s = Some (tl sched, t)" "wstep csrc s t"
proof -
  from wno_deadlock [OF assms] have "writer_step csrc s \<noteq> None \<or> main_step s \<noteq> None"
    by (auto elim: wstep_cases)
  then have "\<exists>t. wsched_step csrc sched s = Some (tl sched, t) \<and> wstep csrc s t"
    by (cases "writer_step csrc s"; cases "main_step s"; cases "sched = [] \<or> hd sched")
      (auto simp: wsched_step_def intro: drain feed)
  then show thesis using that by blast
qed

lemma wstep_closing: "wstep csrc s t \<Longrightarrow> tw_closing t = tw_closing s"
  by (erule wstep_cases)
    (auto simp: writer_step_def main_step_def Let_def bind_eq_Some_conv
      split: writer_pc.splits main_pc.splits if_splits)

lemma wstep_not_idle: "wstep csrc s t \<Longrightarrow> tw_mpc s \<noteq> M_Idle \<Longrightarrow> tw_mpc t \<noteq> M_Idle"
  by (erule wstep_cases)
    (auto simp: writer_step_def main_step_def wake_main_def Let_def bind_eq_Some_conv
      split: writer_pc.splits main_pc.splits if_splits)

lemma run_wcall_returns:
  assumes "tw_inv J whole L s" "tw_mpc s \<noteq> M_Idle"
  shows "\<exists>r sched' t. tw_inv J whole L t \<and> tw_closing t = tw_closing s \<and>
    (tw_mpc t = M_Ret r \<and> run_wcall csrc sched s = Some (r, sched', t\<lparr>tw_mpc := M_Idle\<rparr>) \<or>
     tw_mpc t = M_Closed \<and> run_wcall csrc sched s = Some (0, sched', t))"
  using assms
proof (induction "tw_measure s" arbitrary: s sched rule: less_induct)
  case less
  show ?case
  proof (cases "tw_mpc s = M_Closed \<or> (\<exists>r. tw_mpc s = M_Ret r)")
    case True
    then have "tw_mpc s = M_Closed \<and> run_wcall csrc sched s = Some (0, sched, s) \<or>
        (\<exists>r. tw_mpc s = M_Ret r \<and> run_wcall csrc sched s = Some (r, sched, s\<lparr>tw_mpc := M_Idle\<rparr>))"
      by (auto simp: run_wcall.simps)
    with less.prems(1) show ?thesis by blast
  next
    case False
    with less.prems obtain u where u: "wsched_step csrc sched s = Some (tl sched, u)" "wstep csrc s u"
      using wsched_step_wstep by blast
    have run: "run_wcall csrc sched s = run_wcall csrc (tl sched) u"
      using False less.prems(2) u(1) by (subst run_wcall.simps) (auto split: main_pc.splits)
    from less.hyps [OF wstep_decreases [OF u(2) less.prems(1)] wstep_inv [OF u(2) less.prems(1)]
        wstep_not_idle [OF u(2) less.prems(2)], of "tl sched"] wstep_closing [OF u(2)]
    show ?thesis by (simp add: run)
  qed
qed

end

text \<open>The state between calls, and everything accepted so far.\<close>

definition threadw_inv :: "('w \<Rightarrow> byte list \<Rightarrow> bool) \<Rightarrow> (bool list \<times> 'w threadw_t) \<Rightarrow> bool" where
  "threadw_inv J iow \<longleftrightarrow> tw_mpc (snd iow) = M_Idle \<and> tw_inv J (tw_accepted (snd iow)) 0 (snd iow)"

definition threadw_sunk :: "(bool list \<times> 'w threadw_t) \<Rightarrow> byte list" where
  "threadw_sunk iow = tw_accepted (snd iow)"

lemma tw_accepted_mpc [simp]: "tw_accepted (s\<lparr>tw_mpc := pc\<rparr>) = tw_accepted s"
  by (simp add: tw_accepted_def tw_queue_def)

lemma tw_ring_mpc [simp]: "tw_ring J (s\<lparr>tw_mpc := pc\<rparr>) k = tw_ring J s k"
  by (simp add: tw_ring_def split: writer_pc.splits)

lemma threadw_inv_any:
  "tw_inv J whole L s \<Longrightarrow> tw_mpc s = M_Idle \<Longrightarrow> L' < 2 ^ 31 \<Longrightarrow> tw_inv J (tw_accepted s) L' s"
  by (auto simp: tw_inv_def tw_main_def tw_call_def)

context threaded_writer
begin

lemma thread_wwrite_ok:
  assumes "threadw_inv J iow" "length bs < 2 ^ 31"
  shows "\<exists>iow'. thread_wwrite csrc iow bs = Some (int (length bs), iow') \<and> threadw_inv J iow' \<and>
    threadw_sunk iow' = threadw_sunk iow @ bs"
proof -
  obtain sched s where iow: "iow = (sched, s)" by (cases iow)
  from assms have inv: "tw_inv J (tw_accepted s) 0 s" "tw_mpc s = M_Idle"
    by (simp_all add: threadw_inv_def iow)
  from inv obtain k where ring: "tw_ring J s k" and main: "tw_main (tw_accepted s) 0 s"
    by (auto simp: tw_inv_def)
  have "\<not> tw_closing s" using main inv(2) by (simp add: tw_main_def)
  then have call: "tw_inv J (tw_accepted s @ bs) (int (length bs)) (thread_wcall s bs)"
    using ring main inv(2) assms(2)
    by (auto simp: tw_inv_def tw_main_def tw_call_def thread_wcall_def)
  have "tw_mpc (thread_wcall s bs) \<noteq> M_Idle" by (simp add: thread_wcall_def)
  from run_wcall_returns [OF call this, of sched] obtain r sched' t where
    t: "tw_inv J (tw_accepted s @ bs) (int (length bs)) t" "tw_closing t = tw_closing s"
    and ret: "tw_mpc t = M_Ret r \<and>
        run_wcall csrc sched (thread_wcall s bs) = Some (r, sched', t\<lparr>tw_mpc := M_Idle\<rparr>) \<or> tw_mpc t = M_Closed"
    by (auto simp: thread_wcall_def)
  from t \<open>\<not> tw_closing s\<close> have "tw_mpc t \<noteq> M_Closed" by (auto simp: tw_inv_def tw_main_def)
  with ret have pc: "tw_mpc t = M_Ret r"
    and run: "run_wcall csrc sched (thread_wcall s bs) = Some (r, sched', t\<lparr>tw_mpc := M_Idle\<rparr>)" by auto
  from t(1) pc have fin: "r = int (length bs)" "tw_accepted t = tw_accepted s @ bs"
    by (auto simp: tw_inv_def tw_main_def tw_call_def)
  have "tw_inv J (tw_accepted (t\<lparr>tw_mpc := M_Idle\<rparr>)) 0 (t\<lparr>tw_mpc := M_Idle\<rparr>)"
    using t(1) pc by (auto simp: tw_inv_def tw_main_def tw_call_def)
  with run fin show ?thesis
    by (simp add: thread_wwrite_def iow threadw_inv_def threadw_sunk_def)
qed

lemma thread_wflush_ok:
  assumes "threadw_inv J iow"
  shows "\<exists>r iow'. thread_wflush iow = Some (r, iow') \<and> 0 \<le> r \<and> threadw_inv J iow' \<and>
    threadw_sunk iow' = threadw_sunk iow"
proof -
  obtain sched s where iow: "iow = (sched, s)" by (cases iow)
  from assms have inv: "tw_inv J (tw_accepted s) 0 s" "tw_mpc s = M_Idle"
    by (simp_all add: threadw_inv_def iow)
  from inv obtain k where ring: "tw_ring J s k" and main: "tw_main (tw_accepted s) 0 s"
    by (auto simp: tw_inv_def)
  have m: "\<not> tw_closing s" "0 \<le> tw_offset s" "tw_offset s < int WANDIO_BUFFER_SIZE"
    "tw_offset s = (if ws_full (tw_slots s ! tw_out s) then 0 else ws_len (tw_slots s ! tw_out s))"
    using main inv(2) by (auto simp: tw_main_def)
  note d = tw_ringD [OF ring]
  show ?thesis
  proof (cases "0 < tw_offset s")
    case False
    with assms show ?thesis
      by (simp add: thread_wflush_def thread_wflush_step_def iow)
  next
    case True
    have empty: "\<not> ws_full (tw_slots s ! tw_out s)" and len: "0 < ws_len (tw_slots s ! tw_out s)"
      using m(4) True by (auto split: if_splits)
    let ?x = "(tw_slots s ! tw_out s)\<lparr>ws_full := True, ws_flush := True\<rparr>"
    let ?t = "s\<lparr>tw_slots := (tw_slots s)[tw_out s := ?x], tw_offset := 0,
        tw_out := (tw_out s + 1) mod BUFFERS\<rparr>"
    have x: "good_wslot ?x" "wslot_data ?x = wslot_data (tw_slots s ! tw_out s)" "0 < ws_len ?x"
      using d(3,7) len by (simp_all add: good_wslot_def wslot_data_def)
    note fr = fill_ring [OF ring m(1) empty x(1), of ?t]
    have ring': "tw_ring J (wake_writer ?t) (Suc k)" using fr(3) x(3) by simp
    have acc: "tw_accepted (wake_writer ?t) = tw_accepted s" using fr(4) x(2,3) by auto
    have o: "tw_out (wake_writer ?t) < BUFFERS" by simp
    have zero: "ws_len (tw_slots (wake_writer ?t) ! tw_out (wake_writer ?t)) = 0"
      if "\<not> ws_full (tw_slots (wake_writer ?t) ! tw_out (wake_writer ?t))"
    proof -
      have "tw_out (wake_writer ?t) \<noteq> tw_out s" using that d(1,3) by auto
      with that o d(9) [OF o] show ?thesis by simp
    qed
    have "tw_inv J (tw_accepted (wake_writer ?t)) 0 (wake_writer ?t)"
      using ring' zero m(1) inv(2) by (auto simp: tw_inv_def tw_main_def tw_call_def)
    moreover have "c_int (tw_offset s) = tw_offset s"
      using m(2,3) by (intro c_int_id) (auto simp: WANDIO_BUFFER_SIZE_def)
    ultimately show ?thesis using True m(2) acc inv(2)
      by (simp add: thread_wflush_def thread_wflush_step_def iow threadw_inv_def threadw_sunk_def)
  qed
qed

text \<open>\<open>thread_wclose\<close>: the consumer drains everything, closes the child and is joined.\<close>

lemma thread_wclose_ok:
  assumes "threadw_inv J iow"
  shows "\<exists>sched' t. thread_wclose csrc iow = Some (sched', t) \<and> tw_mpc t = M_Closed \<and>
    tw_kpc t = K_Done \<and> tw_sent t = threadw_sunk iow \<and> J (tw_iow t) (threadw_sunk iow)"
proof -
  obtain sched s where iow: "iow = (sched, s)" by (cases iow)
  from assms have inv: "tw_inv J (tw_accepted s) 0 s" "tw_mpc s = M_Idle"
    by (simp_all add: threadw_inv_def iow)
  from inv obtain k where ring: "tw_ring J s k" and main: "tw_main (tw_accepted s) 0 s"
    by (auto simp: tw_inv_def)
  let ?s = "s\<lparr>tw_closing := True, tw_mpc := M_Join\<rparr>"
  have "tw_ring J (thread_wclose_call s) k"
    using ring main inv(2) by (cases "tw_kpc s") (auto simp: tw_ring_def thread_wclose_call_def wake_writer_def
        tw_main_def)
  moreover have "tw_main (tw_accepted s) 0 (thread_wclose_call s)"
  proof -
    have "tw_accepted (thread_wclose_call s) = tw_accepted s"
      unfolding thread_wclose_call_def wake_writer_simps by (simp add: tw_accepted_def tw_queue_def)
    then show ?thesis by (simp add: tw_main_def tw_call_def) (simp add: thread_wclose_call_def)
  qed
  ultimately have call: "tw_inv J (tw_accepted s) 0 (thread_wclose_call s)" by (auto simp: tw_inv_def)
  have closing: "tw_closing (thread_wclose_call s)" "tw_mpc (thread_wclose_call s) \<noteq> M_Idle"
    by (simp_all add: thread_wclose_call_def)
  from run_wcall_returns [OF call closing(2), of sched] obtain r sched' t where
    t: "tw_inv J (tw_accepted s) 0 t" "tw_closing t"
      "tw_mpc t = M_Ret r \<or>
       tw_mpc t = M_Closed \<and> run_wcall csrc sched (thread_wclose_call s) = Some (0, sched', t)"
    using closing(1) by blast
  then have pc: "tw_mpc t = M_Closed" "tw_kpc t = K_Done" "tw_accepted t = tw_accepted s"
    and run: "run_wcall csrc sched (thread_wclose_call s) = Some (0, sched', t)"
    by (auto simp: tw_inv_def tw_main_def tw_call_def)
  from t(1) obtain k' where ring': "tw_ring J t k'" by (auto simp: tw_inv_def)
  then have "k' = 0" "ws_len (tw_slots t ! tw_out t) = 0" using pc(2) by (simp_all add: tw_ring_def)
  with tw_accepted_eq [OF ring'] pc(2,3) have "tw_sent t = tw_accepted s" by (simp add: wslot_data_def)
  with pc run tw_ringD(4) [OF ring'] show ?thesis
    by (simp add: thread_wclose_def iow threadw_sunk_def)
qed

end

sublocale threaded_writer \<subseteq> thrw: flusher "thread_wwrite csrc" "threadw_inv J" threadw_sunk thread_wflush
proof (unfold_locales, goal_cases)
  case (1 w bs)
  then have "length bs < 2 ^ 31" by simp
  with 1 thread_wwrite_ok show ?case by blast
next
  case (2 w)
  with thread_wflush_ok show ?case by blast
qed

lemma thread_wopen_inv:
  assumes "thread_wopen (Some w) = Some s" "J w []"
  shows "threadw_inv J (sched, s)" "threadw_sunk (sched, s) = []"
proof -
  let ?e = "\<lparr>ws_buffer = [], ws_len = 0, ws_full = False, ws_flush = False\<rparr>"
  have s: "s = \<lparr>tw_slots = replicate BUFFERS ?e,
          tw_offset = 0, tw_iow = w, tw_sent = [], tw_gone = None, tw_out = 0, tw_closing = False,
          tw_cidx = 0, tw_kpc = K_Check, tw_mpc = M_Idle\<rparr>"
    using assms(1) by (simp add: thread_wopen_def)
  have ring: "tw_ring J s 0"
    using ring_ok_init [of BUFFERS ws_full ?e] assms(2)
    by (simp add: tw_ring_def s good_wslot_def)
  have acc: "tw_accepted s = []" using tw_accepted_eq [OF ring] by (simp add: s wslot_data_def)
  have "tw_main [] 0 s" using acc by (simp add: tw_main_def tw_call_def) (simp add: s)
  with ring acc show "threadw_inv J (sched, s)" "threadw_sunk (sched, s) = []"
    by (auto simp: threadw_inv_def threadw_sunk_def tw_inv_def s)
qed

text \<open>Two children: one that keeps the writer contract, and one of which nothing is known but that
  its calls come back.\<close>

lemma good_child:
  assumes "flusher (wsrc_write csrc) cwinv csunk (wsrc_flush csrc)"
    and "\<And>w. cwinv w \<Longrightarrow> \<exists>w'. wsrc_close csrc w = Some w'"
  shows "threaded_writer csrc (\<lambda>w sent. cwinv w \<and> csunk w = base @ sent)"
proof
  fix w sent and bs :: "byte list"
  assume w: "cwinv w \<and> csunk w = base @ sent" and "length bs \<le> WANDIO_BUFFER_SIZE"
  then have "length bs < 2 ^ 30" by (simp add: WANDIO_BUFFER_SIZE_def)
  with w writer.wr_ok [OF flusher.axioms(1) [OF assms(1)], of w bs]
  show "\<exists>r w'. wsrc_write csrc w bs = Some (r, w') \<and> cwinv w' \<and> csunk w' = base @ sent @ bs"
    by fastforce
next
  fix w sent
  assume w: "cwinv w \<and> csunk w = base @ sent"
  then show "\<exists>r w'. wsrc_flush csrc w = Some (r, w') \<and> cwinv w' \<and> csunk w' = base @ sent"
    using flusher.fl_ok [OF assms(1), of w] by auto
  show "\<exists>w'. wsrc_close csrc w = Some w'" using w assms(2) by blast
qed

text \<open>Once the consumer has left, the child has been closed, exactly once, in the state the last
  write left it.\<close>

definition wclosed_once :: "'w iow_source_t \<Rightarrow> 'w threadw_t \<Rightarrow> bool" where
  "wclosed_once csrc s \<longleftrightarrow> (if tw_kpc s = K_Done then wsrc_close csrc (tw_iow s) = tw_gone s \<and> tw_gone s \<noteq> None
     else tw_gone s = None)"

lemma wstep_closed: "wstep csrc s t \<Longrightarrow> wclosed_once csrc s \<Longrightarrow> wclosed_once csrc t"
  by (erule wstep_cases)
    (auto simp: wclosed_once_def writer_step_def main_step_def Let_def bind_eq_Some_conv wake_main_def
      wake_writer_def wandio_wdestroy_def split: writer_pc.splits main_pc.splits if_splits)

lemma wsched_step_is_wstep: "wsched_step csrc sched s = Some (sched', t) \<Longrightarrow> wstep csrc s t"
  by (auto simp: wsched_step_def Let_def intro: drain feed split: option.splits if_splits)

lemma run_wcall_keeps:
  assumes "run_wcall csrc sched s = Some (r, sched', t)"
    and "\<And>s t. wstep csrc s t \<Longrightarrow> J s \<Longrightarrow> J t" "\<And>s. J s \<Longrightarrow> J (s\<lparr>tw_mpc := M_Idle\<rparr>)" "J s"
  shows "J t"
proof -
  have "csrc = csrc \<longrightarrow> J s \<longrightarrow> J (snd (snd (r, sched', t)))"
  proof (rule run_wcall.raw_induct [where P = "\<lambda>a b c y. a = csrc \<longrightarrow> J c \<longrightarrow> J (snd (snd y))",
        OF _ assms(1)], intro impI)
    fix rec a b c y
    assume IH: "\<And>a' b' c' y. rec a' b' c' = Some y \<Longrightarrow> a' = csrc \<longrightarrow> J c' \<longrightarrow> J (snd (snd y))"
      and eq: "(case tw_mpc c of M_Ret r \<Rightarrow> Some (r, b, c\<lparr>tw_mpc := M_Idle\<rparr>)
        | M_Closed \<Rightarrow> Some (0, b, c)
        | _ \<Rightarrow> do { (sched', t) \<leftarrow> wsched_step a b c; rec a sched' t }) = Some y"
      and a: "a = csrc" and J: "J c"
    have more: "J (snd (snd y))" if "do { (sched', t) \<leftarrow> wsched_step a b c; rec a sched' t } = Some y"
    proof -
      from that obtain b' c' where "wsched_step a b c = Some (b', c')" "rec a b' c' = Some y"
        by (auto simp: bind_eq_Some_conv)
      with IH [of a b' c' y] assms(2) [of c c'] J a wsched_step_is_wstep show ?thesis by blast
    qed
    show "J (snd (snd y))"
      using eq more J assms(3) [of c] by (cases "tw_mpc c") auto
  qed
  with assms(4) show ?thesis by simp
qed

lemma wclosed_once_mpc: "wclosed_once csrc s \<Longrightarrow> wclosed_once csrc (s\<lparr>tw_mpc := pc\<rparr>)"
  by (simp add: wclosed_once_def split: if_splits)

lemma thread_wwrite_closed:
  "thread_wwrite csrc (sched, s) bs = Some (r, (sched', t)) \<Longrightarrow> wclosed_once csrc s \<Longrightarrow> wclosed_once csrc t"
  by (auto simp: thread_wwrite_def bind_eq_Some_conv thread_wcall_def
      elim!: run_wcall_keeps [where J = "wclosed_once csrc"] wstep_closed intro: wclosed_once_mpc)

lemma write_list_closed:
  "write_list (thread_wwrite csrc) iow bss = Some iow' \<Longrightarrow> wclosed_once csrc (snd iow) \<Longrightarrow>
    wclosed_once csrc (snd iow')"
proof (induction bss arbitrary: iow)
  case (Cons bs rest)
  then obtain r sched t where "thread_wwrite csrc iow bs = Some (r, (sched, t))"
    "write_list (thread_wwrite csrc) (sched, t) rest = Some iow'"
    by (auto simp: bind_eq_Some_conv)
  with Cons show ?case
    using thread_wwrite_closed [of csrc "fst iow" "snd iow"] by fastforce
qed simp

lemma thread_wclose_closed:
  assumes "thread_wclose csrc (sched, s) = Some (sched', t)" "wclosed_once csrc s"
  shows "wclosed_once csrc t"
proof -
  from assms(1) obtain r where run: "run_wcall csrc sched (thread_wclose_call s) = Some (r, sched', t)"
    by (auto simp: thread_wclose_def)
  have "wclosed_once csrc (thread_wclose_call s)"
    using assms(2) by (auto simp: thread_wclose_call_def wclosed_once_def wake_writer_def split: if_splits)
  with run_wcall_keeps [where J = "wclosed_once csrc", OF run] wstep_closed wclosed_once_mpc
  show ?thesis by blast
qed

context threaded_writer
begin

lemma write_all_then_close:
  assumes "J w []" "thread_wopen (Some w) = Some s" "\<forall>bs\<in>set bss. length bs < 2 ^ 30"
  shows "\<exists>iow sched' t. write_list (thread_wwrite csrc) (sched, s) bss = Some iow \<and>
    thread_wclose csrc iow = Some (sched', t) \<and> tw_kpc t = K_Done \<and> J (tw_iow t) (concat bss) \<and>
    tw_gone t = wsrc_close csrc (tw_iow t) \<and> tw_gone t \<noteq> None"
proof -
  note start = thread_wopen_inv [where J = J and sched = sched, OF assms(2,1)]
  from thrw.write_list_ok [OF start(1) assms(3)] start(2) obtain iow where
    iow: "write_list (thread_wwrite csrc) (sched, s) bss = Some iow" "threadw_inv J iow"
      "threadw_sunk iow = concat bss" by auto
  from thread_wclose_ok [OF iow(2)] obtain sched' t where
    t: "thread_wclose csrc iow = Some (sched', t)" "tw_kpc t = K_Done" "J (tw_iow t) (concat bss)"
    by (auto simp: iow(3))
  have "wclosed_once csrc s" using assms(2) by (auto simp: thread_wopen_def wclosed_once_def)
  with write_list_closed [OF iow(1)] have "wclosed_once csrc (snd iow)" by simp
  with thread_wclose_closed [of csrc "fst iow" "snd iow" sched' t] t(1,2)
  have "tw_gone t = wsrc_close csrc (tw_iow t)" "tw_gone t \<noteq> None" by (auto simp: wclosed_once_def)
  with iow(1) t show ?thesis by blast
qed

end

section \<open>On the model's own writer\<close>

interpretation threadw_stdio: threaded_writer stdio_wsource
  "\<lambda>w sent. stdio_winv w \<and> stdio_sunk w = base @ sent" for base
proof (rule good_child)
  show "flusher (wsrc_write stdio_wsource) stdio_winv stdio_sunk (wsrc_flush stdio_wsource)"
    using stdiow.flusher_axioms stdiow.writer_axioms by (simp add: stdio_wsource_def flusher_def)
  show "\<exists>w'. wsrc_close stdio_wsource w = Some w'" if "stdio_winv w" for w
    by (simp add: stdio_wsource_def stdio_wclose_def stdio_wflush_def Let_def split: prod.splits)
qed

section \<open>Properties\<close>

text \<open>C4: whatever the schedule, writing any list of buffers through the threaded writer and closing it
  leaves the child having accepted exactly their concatenation, in order, and closed after the last
  byte; no call blocks for ever.\<close>

theorem thread_write_all_then_close:
  assumes "flusher (wsrc_write csrc) cwinv csunk (wsrc_flush csrc)"
    and "\<forall>w. cwinv w \<longrightarrow> wsrc_close csrc w \<noteq> None"
    and "cwinv w" "thread_wopen (Some w) = Some s" "\<forall>bs\<in>set bss. length bs < 2 ^ 30"
  shows "\<exists>iow sched' t. write_list (thread_wwrite csrc) (sched, s) bss = Some iow \<and>
    thread_wclose csrc iow = Some (sched', t) \<and> tw_kpc t = K_Done \<and> cwinv (tw_iow t) \<and>
    csunk (tw_iow t) = csunk w @ concat bss \<and> tw_gone t = wsrc_close csrc (tw_iow t)"
proof -
  have "threaded_writer csrc (\<lambda>v sent. cwinv v \<and> csunk v = csunk w @ sent)"
    using good_child [OF assms(1)] assms(2) by blast
  from threaded_writer.write_all_then_close [OF this _ assms(4,5)] assms(3) show ?thesis by fastforce
qed

lemma stdio_flusher:
  "flusher (wsrc_write stdio_wsource) stdio_winv stdio_sunk (wsrc_flush stdio_wsource)"
  using stdiow.flusher_axioms stdiow.writer_axioms by (simp add: stdio_wsource_def flusher_def)

theorem thread_write_all_then_close_witness:
  "\<exists>s iow sched' t. thread_wopen (Some (\<lparr>wbuffer = [], wfd = demo_ofd []\<rparr>)) = Some s \<and>
     write_list (thread_wwrite stdio_wsource) ([True, False], s) [[1, 2], [], [3]] = Some iow \<and>
     thread_wclose stdio_wsource iow = Some (sched', t) \<and> stdio_sunk (tw_iow t) = [1, 2, 3]"
proof -
  obtain s where s: "thread_wopen (Some (\<lparr>wbuffer = [], wfd = demo_ofd []\<rparr>)) = Some s" by (simp add: thread_wopen_def)
  have close: "\<forall>w. stdio_winv w \<longrightarrow> wsrc_close stdio_wsource w \<noteq> None"
    by (simp add: stdio_wsource_def stdio_wclose_def stdio_wflush_def Let_def split: prod.splits)
  have winv: "stdio_winv (\<lparr>wbuffer = [], wfd = demo_ofd []\<rparr>)"
    by (simp add: stdio_winv_def demo_ofd_def MIN_WRITE_SIZE_def)
  have sunk: "stdio_sunk (\<lparr>wbuffer = [], wfd = demo_ofd []\<rparr>) = []" by (simp add: stdio_sunk_def demo_ofd_def)
  from thread_write_all_then_close [OF stdio_flusher close winv s, of "[[1, 2], [], [3]]" "[True, False]"] s sunk
  show ?thesis by fastforce
qed

text \<open>The threaded writer never reports an error of its child: over any child whose calls merely
  come back, be it with \<open>-1\<close> every time, every write returns its whole length.\<close>

theorem thread_wwrite_hides_errors:
  assumes "\<forall>w bs. wsrc_write csrc w bs \<noteq> None" "\<forall>w. wsrc_flush csrc w \<noteq> None"
    and "\<forall>w. wsrc_close csrc w \<noteq> None"
    and "thread_wopen (Some w) = Some s" "length bs < 2 ^ 31"
  shows "\<exists>iow. thread_wwrite csrc (sched, s) bs = Some (int (length bs), iow)"
proof -
  have th: "threaded_writer csrc (\<lambda>_ _. True)" using assms(1-3) by unfold_locales auto
  from threaded_writer.thread_wwrite_ok [OF th thread_wopen_inv(1) [OF assms(4)] assms(5), of sched]
  show ?thesis by auto
qed

definition failing_wsource :: "nat iow_source_t" where
  "failing_wsource = \<lparr>wsrc_name = ''fail'', wsrc_write = (\<lambda>n _. Some (-1, Suc n)),
     wsrc_flush = (\<lambda>n. Some (-1, n)), wsrc_close = Some\<rparr>"

theorem thread_wwrite_hides_errors_witness:
  "\<exists>s iow. thread_wopen (Some 0) = Some s \<and>
     thread_wwrite failing_wsource ([False], s) [1, 2, 3] = Some (3, iow)"
proof -
  obtain s where s: "thread_wopen (Some (0::nat)) = Some s" by (simp add: thread_wopen_def)
  from thread_wwrite_hides_errors [OF _ _ _ s, of failing_wsource "[1, 2, 3]" "[False]"] s show ?thesis
    by (auto simp: failing_wsource_def)
qed

text \<open>C5: in every interleaving of a write with the consumer thread: what is accepted plus what is left
  of the caller's buffer is the whole of it; the slice the main thread copies into outside the
  mutex is never the one the consumer is writing out; and unless the call has returned one of the
  threads can go on, every step bringing a measure down.\<close>

theorem thread_wwrite_interleavings:
  assumes "threaded_writer csrc J" "threadw_inv J (sched, s)" "length bs < 2 ^ 31"
    and "(wstep csrc)\<^sup>*\<^sup>* (thread_wcall s bs) t"
  shows "prefix (tw_accepted t) (tw_accepted s @ bs) \<and>
    (\<forall>rest copied piece. tw_mpc t = M_Copy rest copied piece \<and> tw_kpc t = K_Work \<longrightarrow> tw_cidx t \<noteq> tw_out t) \<and>
    ((\<exists>r. tw_mpc t = M_Ret r) \<or> (\<exists>u. wstep csrc t u)) \<and>
    (\<forall>u. wstep csrc t u \<longrightarrow> tw_measure u < tw_measure t)"
proof -
  have call: "tw_inv J (tw_accepted s @ bs) (int (length bs)) (thread_wcall s bs) \<and>
      \<not> tw_closing (thread_wcall s bs) \<and> tw_mpc (thread_wcall s bs) \<noteq> M_Idle"
    using assms(2,3) by (auto simp: threadw_inv_def tw_inv_def tw_main_def tw_call_def thread_wcall_def)
  have "tw_inv J (tw_accepted s @ bs) (int (length bs)) t \<and> \<not> tw_closing t \<and> tw_mpc t \<noteq> M_Idle"
    using assms(4)
  proof (induction rule: rtranclp_induct)
    case base show ?case by (rule call)
  next
    case (step u v)
    with threaded_writer.wstep_inv [OF assms(1) step(2)] threaded_writer.wstep_closing [OF assms(1) step(2)]
      threaded_writer.wstep_not_idle [OF assms(1) step(2)] show ?case by blast
  qed
  then have inv: "tw_inv J (tw_accepted s @ bs) (int (length bs)) t" and open': "\<not> tw_closing t"
    and idle: "tw_mpc t \<noteq> M_Idle" by auto
  from inv obtain k where ring: "tw_ring J t k" and main: "tw_main (tw_accepted s @ bs) (int (length bs)) t"
    by (auto simp: tw_inv_def)
  have "\<exists>rest. tw_accepted t @ rest = tw_accepted s @ bs"
    using main open' idle by (cases "tw_mpc t") (auto simp: tw_main_def tw_call_def)
  then have pre: "prefix (tw_accepted t) (tw_accepted s @ bs)" by (metis prefixI)
  have race: "tw_cidx t \<noteq> tw_out t" if "tw_mpc t = M_Copy rest copied piece" "tw_kpc t = K_Work"
    for rest copied piece
  proof -
    have "\<not> ws_full (tw_slots t ! tw_out t)" using main that(1) by (simp add: tw_main_def tw_call_def)
    moreover have "0 < k" using ring that(2) open' by (auto simp: tw_ring_def)
    ultimately show ?thesis using tw_ringD(11) [OF ring] by auto
  qed
  have "tw_mpc t \<noteq> M_Closed" using main open' by (simp add: tw_main_def)
  with threaded_writer.wno_deadlock [OF assms(1) inv] idle
  have go: "(\<exists>r. tw_mpc t = M_Ret r) \<or> (\<exists>u. wstep csrc t u)" by blast
  from pre race go threaded_writer.wstep_decreases [OF assms(1) _ inv] show ?thesis by blast
qed

theorem thread_wwrite_interleavings_witness:
  "\<exists>s u. thread_wopen (Some (0::nat)) = Some s \<and> wstep failing_wsource (thread_wcall s [7]) u \<and>
     tw_measure u < tw_measure (thread_wcall s [7])"
proof -
  obtain s where s: "thread_wopen (Some (0::nat)) = Some s" by (simp add: thread_wopen_def)
  have th: "threaded_writer failing_wsource (\<lambda>_ _. True)" by unfold_locales (auto simp: failing_wsource_def)
  have "threadw_inv (\<lambda>_ _. True) ([], s)" using thread_wopen_inv(1) [OF s] by simp
  from thread_wwrite_interleavings [OF th this _ rtranclp.rtrancl_refl, of "[7]"] s show ?thesis
    by (fastforce simp: thread_wcall_def)
qed

end
