(* ===== verification/Codec.thy ===== *)
theory Codec
  imports Wandio_Io
begin

text \<open>
  The compression libraries behind the codec modules (zlib, libbz2, liblzma) are not part of
  the repository. A decoder or encoder is a parameter of the model: an initial state and the one
  call that works through a \<^verbatim>\<open>z_stream\<close>, \<^verbatim>\<open>bz_stream\<close> or \<^verbatim>\<open>lzma_stream\<close>, taking the bytes at
  \<open>next_in\<close> and the room at \<open>next_out\<close>, and returning its result code, how much input it
  used, the bytes it stored and its next state. What their manuals promise is stated here as
  predicates; a small codec meeting all of them shows that they can be met.
\<close>

section \<open>Decoders\<close>

record ('c, 'd) decoder =
  dec_init :: 'd
  dec_run :: "'d \<Rightarrow> byte list \<Rightarrow> nat \<Rightarrow> 'c \<times> nat \<times> byte list \<times> 'd"

text \<open>
  Any input at all: the call stays inside both buffers, and when it reports success (code
  \<open>ok\<close>, or \<open>fin\<close> for the end of a stream) with input and room at hand it has made progress.
\<close>

definition decoder_sane :: "'c \<Rightarrow> 'c \<Rightarrow> ('c, 'd) decoder \<Rightarrow> bool" where
  "decoder_sane ok fin dec \<longleftrightarrow>
     (\<forall>d inp room c k out d'. dec_run dec d inp room = (c, k, out, d') \<longrightarrow>
        k \<le> length inp \<and> length out \<le> room \<and>
        (inp \<noteq> [] \<and> 0 < room \<and> (c = ok \<or> c = fin) \<longrightarrow> 0 < k \<or> out \<noteq> []))"

text \<open>
  Well-formed input: \<open>plain d ys\<close> is the text that the remaining bytes \<open>ys\<close> of a file stand
  for when the decoder is in state \<open>d\<close> inside a stream, and \<open>after ys\<close> the text of what follows
  the end of a stream. A stream is not finished while bytes of it are missing, and the code
  \<open>fin\<close> comes with the call that uses its last byte.
\<close>

definition never_empty :: "('d \<Rightarrow> byte list \<Rightarrow> byte list option) \<Rightarrow> bool" where
  "never_empty plain \<longleftrightarrow> (\<forall>d. plain d [] = None)"

definition decoder_reads ::
  "'c \<Rightarrow> 'c \<Rightarrow> ('c, 'd) decoder \<Rightarrow> ('d \<Rightarrow> byte list \<Rightarrow> byte list option) \<Rightarrow>
    (byte list \<Rightarrow> byte list option) \<Rightarrow> bool" where
  "decoder_reads ok fin dec plain after \<longleftrightarrow>
     never_empty plain \<and>
     (\<forall>d inp rest room text c k out d'.
        dec_run dec d inp room = (c, k, out, d') \<and> inp \<noteq> [] \<and> 0 < room \<and>
        plain d (inp @ rest) = Some text \<longrightarrow>
        (\<exists>t. text = out @ t \<and>
          (c = ok \<and> plain d' (drop k inp @ rest) = Some t \<or>
           c = fin \<and> after (drop k inp @ rest) = Some t)))"

text \<open>After the end of a stream: another stream or the end of the file (gzip, bzip2), or
  whatever there is, which does not count (a single xz stream).\<close>

definition next_member ::
  "('c, 'd) decoder \<Rightarrow> ('d \<Rightarrow> byte list \<Rightarrow> byte list option) \<Rightarrow> byte list \<Rightarrow> byte list option" where
  "next_member dec plain ys = (if ys = [] then Some [] else plain (dec_init dec) ys)"

definition ignore_rest :: "byte list \<Rightarrow> byte list option" where
  "ignore_rest ys = Some []"

text \<open>Exactly one stream and nothing behind it.\<close>

definition nothing_after :: "byte list \<Rightarrow> byte list option" where
  "nothing_after ys = (if ys = [] then Some [] else None)"

lemma decoder_saneD:
  assumes "decoder_sane ok fin dec" "dec_run dec d inp room = (c, k, out, d')"
  shows "k \<le> length inp" "length out \<le> room"
    "inp \<noteq> [] \<Longrightarrow> 0 < room \<Longrightarrow> c = ok \<or> c = fin \<Longrightarrow> 0 < k \<or> out \<noteq> []"
  using assms unfolding decoder_sane_def by blast+

lemma decoder_reads_cases:
  assumes "decoder_reads ok fin dec plain after" "dec_run dec d inp room = (c, k, out, d')"
    "inp \<noteq> []" "0 < room" "plain d (inp @ rest) = Some text"
  obtains (ok) t where "text = out @ t" "c = ok" "plain d' (drop k inp @ rest) = Some t"
      "drop k inp @ rest \<noteq> []"
    | (fin) t where "text = out @ t" "c = fin" "after (drop k inp @ rest) = Some t"
proof -
  from assms(1) have none: "plain d' [] = None" by (simp add: decoder_reads_def never_empty_def)
  from assms obtain t where "text = out @ t" and
    "c = ok \<and> plain d' (drop k inp @ rest) = Some t \<or> c = fin \<and> after (drop k inp @ rest) = Some t"
    unfolding decoder_reads_def by blast
  with ok fin none show thesis by fastforce
qed

section \<open>Encoders\<close>

text \<open>The action of a call: \<open>NO_FLUSH\<close> is also \<open>BZ_RUN\<close> and \<open>LZMA_RUN\<close>.\<close>

datatype flush_mode = NO_FLUSH | SYNC_FLUSH | FINISH

record ('c, 'e) encoder =
  enc_init :: "int \<Rightarrow> 'e"
  enc_run :: "'e \<Rightarrow> flush_mode \<Rightarrow> byte list \<Rightarrow> nat \<Rightarrow> 'c \<times> nat \<times> byte list \<times> 'e"

text \<open>
  What can be said of a stream of the encoder at some point of its life: whether it still takes
  data (\<open>live\<close>) or is being finished, all the text it has been given, all the bytes it has
  produced, and a bound on what it has still to produce. A stream is determined by the calls made
  on it, so these are functions of its state.
\<close>

record 'e enc_view =
  live :: "'e \<Rightarrow> bool"
  ending :: "'e \<Rightarrow> bool"
  given :: "'e \<Rightarrow> byte list"
  made :: "'e \<Rightarrow> byte list"
  backlog :: "'e \<Rightarrow> nat"

text \<open>A plain call with input and room succeeds, and takes input or brings down the backlog.\<close>

definition encoder_runs :: "'c set \<Rightarrow> ('c, 'e) encoder \<Rightarrow> 'e enc_view \<Rightarrow> bool" where
  "encoder_runs oks enc v \<longleftrightarrow>
     (\<forall>level. live v (enc_init enc level) \<and> given v (enc_init enc level) = [] \<and>
        made v (enc_init enc level) = []) \<and>
     (\<forall>e inp room c k out e'.
        enc_run enc e NO_FLUSH inp room = (c, k, out, e') \<and> inp \<noteq> [] \<and> 0 < room \<and> live v e \<longrightarrow>
        c \<in> oks \<and> k \<le> length inp \<and> length out \<le> room \<and> live v e' \<and>
        made v e' = made v e @ out \<and> given v e' = given v e @ take k inp \<and>
        (0 < k \<or> backlog v e' < backlog v e))"

text \<open>
  Finishing, with no input left: the code \<open>fin\<close> says that all that has been produced is a
  complete stream for the text, a code of \<open>again\<close> that the room did not do; with room at hand the
  backlog then comes down. The law speaks of the first such call on a stream that still took data,
  with room or without, and of a later call only when it has room: a library may report a second
  call that can make no progress as an error (\<^verbatim>\<open>LZMA_BUF_ERROR\<close>).
\<close>

definition encoder_finishes ::
  "'c \<Rightarrow> 'c set \<Rightarrow> ('c, 'e) encoder \<Rightarrow> 'e enc_view \<Rightarrow> (byte list \<Rightarrow> byte list \<Rightarrow> bool) \<Rightarrow> bool" where
  "encoder_finishes fin again enc v stream \<longleftrightarrow>
     (\<forall>e room c k out e'.
        enc_run enc e FINISH [] room = (c, k, out, e') \<and> (live v e \<or> ending v e \<and> 0 < room) \<longrightarrow>
        length out \<le> room \<and> made v e' = made v e @ out \<and> given v e' = given v e \<and>
        (c = fin \<and> stream (made v e') (given v e) \<or>
         c \<in> again \<and> c \<noteq> fin \<and> ending v e' \<and> (0 < room \<longrightarrow> backlog v e' < backlog v e) \<and>
         backlog v e' \<le> backlog v e))"

text \<open>
  Flushing in the middle of a stream: the call returns what it has room for. Only \<open>bad\<close> is
  an error, and it does not happen.
\<close>

definition encoder_flushes :: "'c \<Rightarrow> ('c, 'e) encoder \<Rightarrow> 'e enc_view \<Rightarrow> bool" where
  "encoder_flushes bad enc v \<longleftrightarrow>
     (\<forall>e room c k out e'.
        enc_run enc e SYNC_FLUSH [] room = (c, k, out, e') \<and> live v e \<longrightarrow>
        length out \<le> room \<and> c \<noteq> bad \<and> live v e' \<and> made v e' = made v e @ out \<and> given v e' = given v e)"

lemma encoder_runs_init:
  "encoder_runs oks enc v \<Longrightarrow> live v (enc_init enc level) \<and> given v (enc_init enc level) = [] \<and>
    made v (enc_init enc level) = []"
  unfolding encoder_runs_def by blast

lemma encoder_runsD:
  assumes "encoder_runs oks enc v" "enc_run enc e NO_FLUSH inp room = (c, k, out, e')"
    "inp \<noteq> []" "0 < room" "live v e"
  shows "c \<in> oks" "k \<le> length inp" "length out \<le> room" "live v e'" "made v e' = made v e @ out"
    "given v e' = given v e @ take k inp" "0 < k \<or> backlog v e' < backlog v e"
  using assms unfolding encoder_runs_def by blast+

lemma encoder_finishesD:
  assumes "encoder_finishes fin again enc v stream"
    "enc_run enc e FINISH [] room = (c, k, out, e')" "live v e \<or> ending v e \<and> 0 < room"
  shows "length out \<le> room" "made v e' = made v e @ out" "given v e' = given v e"
    "c = fin \<and> stream (made v e') (given v e) \<or>
     c \<in> again \<and> c \<noteq> fin \<and> ending v e' \<and> (0 < room \<longrightarrow> backlog v e' < backlog v e) \<and>
     backlog v e' \<le> backlog v e"
  using assms unfolding encoder_finishes_def by blast+

lemma encoder_flushesD:
  assumes "encoder_flushes bad enc v"
    "enc_run enc e SYNC_FLUSH [] room = (c, k, out, e')" "live v e"
  shows "length out \<le> room" "c \<noteq> bad" "live v e'" "made v e' = made v e @ out" "given v e' = given v e"
  using assms unfolding encoder_flushes_def by blast+

section \<open>A codec that keeps every promise\<close>

text \<open>
  The smallest instance of the parameters: a byte \<open>b\<close> is written \<open>1, b\<close> and a stream ends with
  \<open>0\<close>. The decoder works byte by byte, the encoder holds at most what does not fit.
\<close>

datatype spell_state = At | Lit

definition spell_decoder :: "'c \<Rightarrow> 'c \<Rightarrow> 'c \<Rightarrow> ('c, spell_state) decoder" where
  "spell_decoder ok fin bad = \<lparr>dec_init = At, dec_run = (\<lambda>s inp room.
     case inp of [] \<Rightarrow> (bad, 0, [], s)
     | b # _ \<Rightarrow>
        (case s of
           At \<Rightarrow> if b = 0 then (fin, 1, [], At) else if b = 1 then (ok, 1, [], Lit)
                 else (bad, 0, [], At)
         | Lit \<Rightarrow> if room = 0 then (bad, 0, [], Lit) else (ok, 1, [b], At)))\<rparr>"

fun spell_plain :: "bool \<Rightarrow> spell_state \<Rightarrow> byte list \<Rightarrow> byte list option" where
  "spell_plain m s [] = None"
| "spell_plain m At (b # ys) =
     (if b = 0 then (if m \<and> ys \<noteq> [] then spell_plain m At ys else Some [])
      else if b = 1 then spell_plain m Lit ys else None)"
| "spell_plain m Lit (b # ys) = map_option ((#) b) (spell_plain m At ys)"

definition spell :: "byte list \<Rightarrow> byte list" where
  "spell text = concat (map (\<lambda>b. [1, b]) text)"

text \<open>The encoder's state is what it has been given and what it has produced.\<close>

definition spell_due :: "byte list \<times> byte list \<Rightarrow> byte list" where
  "spell_due e = drop (length (snd e)) (spell (fst e))"

definition spell_emit :: "byte list \<times> byte list \<Rightarrow> nat \<Rightarrow> byte list \<times> (byte list \<times> byte list)" where
  "spell_emit e room = (take room (spell_due e), (fst e, snd e @ take room (spell_due e)))"

definition spell_encoder :: "'c \<Rightarrow> 'c \<Rightarrow> 'c \<Rightarrow> ('c, byte list \<times> byte list) encoder" where
  "spell_encoder ok again fin = \<lparr>enc_init = (\<lambda>level. ([], [])), enc_run = (\<lambda>e mode inp room.
     case mode of
       NO_FLUSH \<Rightarrow> if spell_due e = [] then (ok, 1, [], (fst e @ [hd inp], snd e))
                   else (ok, 0, spell_emit e room)
     | SYNC_FLUSH \<Rightarrow> (ok, 0, spell_emit e room)
     | FINISH \<Rightarrow> if length (spell_due e) < room
                then (fin, 0, spell_due e @ [0], (fst e, snd e @ spell_due e @ [0]))
                else (again, 0, spell_emit e room))\<rparr>"

definition spell_live :: "byte list \<times> byte list \<Rightarrow> bool" where
  "spell_live e \<longleftrightarrow> prefix (snd e) (spell (fst e))"

definition spell_view :: "(byte list \<times> byte list) enc_view" where
  "spell_view = \<lparr>live = spell_live, ending = spell_live, given = fst, made = snd,
     backlog = (\<lambda>e. length (spell_due e))\<rparr>"

definition spell_stream :: "byte list \<Rightarrow> byte list \<Rightarrow> bool" where
  "spell_stream out text \<longleftrightarrow> out = spell text @ [0]"

lemma spell_Cons [simp]: "spell [] = []" "spell (b # bs) = 1 # b # spell bs"
  by (simp_all add: spell_def)

lemma spell_append [simp]: "spell (xs @ ys) = spell xs @ spell ys"
  by (simp add: spell_def)

lemma spell_decoder_sane: "bad \<noteq> ok \<Longrightarrow> bad \<noteq> fin \<Longrightarrow> decoder_sane ok fin (spell_decoder ok fin bad)"
  by (auto simp: decoder_sane_def spell_decoder_def split: list.splits spell_state.splits if_splits)

lemma spell_decoder_many:
  "decoder_reads ok fin (spell_decoder ok fin bad) (spell_plain True)
     (next_member (spell_decoder ok fin bad) (spell_plain True))"
  by (auto simp: decoder_reads_def never_empty_def spell_decoder_def next_member_def
      split: list.splits spell_state.splits if_splits)

lemma spell_decoder_one:
  "decoder_reads ok fin (spell_decoder ok fin bad) (spell_plain False) ignore_rest"
  by (auto simp: decoder_reads_def never_empty_def spell_decoder_def ignore_rest_def
      split: list.splits spell_state.splits if_splits)

text \<open>The reference decoder of exactly one stream.\<close>

fun spell_plain_one :: "spell_state \<Rightarrow> byte list \<Rightarrow> byte list option" where
  "spell_plain_one s [] = None"
| "spell_plain_one At (b # ys) =
     (if b = 0 then (if ys = [] then Some [] else None)
      else if b = 1 then spell_plain_one Lit ys else None)"
| "spell_plain_one Lit (b # ys) = map_option ((#) b) (spell_plain_one At ys)"

lemma spell_decoder_exact:
  "decoder_reads ok fin (spell_decoder ok fin bad) spell_plain_one nothing_after"
  by (auto simp: decoder_reads_def never_empty_def spell_decoder_def nothing_after_def
      split: list.splits spell_state.splits if_splits)

lemma spell_plain_stream: "spell_plain m At (spell xs @ [0]) = Some xs"
  by (induction xs) simp_all

lemma spell_due_live: "spell_live e \<Longrightarrow> snd e @ spell_due e = spell (fst e)"
  by (auto simp: spell_live_def spell_due_def prefix_def)

lemma spell_emit_live:
  assumes "spell_live e"
  shows "spell_live (snd (spell_emit e room))"
    "length (spell_due (snd (spell_emit e room))) = length (spell_due e) - room"
proof -
  have "spell (fst e) = (snd e @ take room (spell_due e)) @ drop room (spell_due e)"
    using spell_due_live [OF assms] by simp
  then show "spell_live (snd (spell_emit e room))"
    by (simp only: spell_live_def spell_emit_def snd_conv fst_conv prefix_def) blast
  have "length (snd e) + length (spell_due e) = length (spell (fst e))"
    using spell_due_live [OF assms] by (metis length_append)
  then show "length (spell_due (snd (spell_emit e room))) = length (spell_due e) - room"
    by (simp add: spell_emit_def spell_due_def)
qed

lemma spell_live_more: "spell_live e \<Longrightarrow> spell_live (fst e @ xs, snd e)"
  by (auto simp: spell_live_def prefix_def)

lemma spell_encoder_runs: "encoder_runs {ok} (spell_encoder ok again fin) spell_view"
  unfolding encoder_runs_def
proof ((rule conjI; intro allI impI), goal_cases)
  case (2 e inp room c k out e')
  then have live: "spell_live e" by (simp add: spell_view_def)
  show ?case
  proof (cases "spell_due e = []")
    case True
    with 2 live show ?thesis
      by (cases inp) (auto simp: spell_encoder_def spell_view_def intro: spell_live_more)
  next
    case False
    with 2 live spell_emit_live [OF live, of room] show ?thesis
      by (auto simp: spell_encoder_def spell_view_def spell_emit_def)
  qed
qed (simp_all add: spell_encoder_def spell_view_def spell_live_def)

lemma spell_encoder_finishes:
  assumes "again \<noteq> fin"
  shows "encoder_finishes fin {again} (spell_encoder ok again fin) spell_view spell_stream"
  unfolding encoder_finishes_def
proof (intro allI impI, goal_cases)
  case (1 e room c k out e')
  then have live: "spell_live e" by (auto simp: spell_view_def)
  show ?case
  proof (cases "length (spell_due e) < room")
    case True
    with 1 spell_due_live [OF live] show ?thesis
      by (auto simp: spell_encoder_def spell_view_def spell_stream_def)
  next
    case False
    with 1 assms spell_emit_live [OF live, of room] show ?thesis
      by (auto simp: spell_encoder_def spell_view_def spell_emit_def)
  qed
qed

lemma spell_encoder_flushes:
  assumes "ok \<noteq> bad"
  shows "encoder_flushes bad (spell_encoder ok again fin) spell_view"
  unfolding encoder_flushes_def
proof (intro allI impI, goal_cases)
  case (1 e room c k out e')
  then have live: "spell_live e" by (simp add: spell_view_def)
  with 1 assms spell_emit_live [OF live, of room] show ?case
    by (auto simp: spell_encoder_def spell_view_def spell_emit_def)
qed

section \<open>The read loop\<close>

text \<open>
  The loop the three decompressing readers share: while the latch is \<open>ERR_OK\<close> and there is room
  in the caller's buffer (\<open>avail\<close>, of which \<open>out\<close> has been filled), get input and run the
  decoder on it. Getting input (\<open>fill\<close>) may return from the call (\<open>Inl\<close>).
\<close>

definition unpack_pass ::
  "('z \<Rightarrow> err_t) \<Rightarrow> (nat \<Rightarrow> nat \<Rightarrow> byte list \<Rightarrow> 'z \<Rightarrow> ((int \<times> byte list \<times> 'z) + 'z) option) \<Rightarrow>
    (nat \<Rightarrow> byte list \<Rightarrow> 'z \<Rightarrow> nat \<times> byte list \<times> 'z) \<Rightarrow> nat \<Rightarrow> nat \<times> byte list \<times> 'z \<Rightarrow>
    ((int \<times> byte list \<times> 'z) + (nat \<times> byte list \<times> 'z)) option" where
  "unpack_pass err fill decode len = (\<lambda>(avail, out, z).
     if err z = ERR_OK \<and> 0 < avail then
       do { x \<leftarrow> fill len avail out z;
            case x of Inl res \<Rightarrow> Some (Inl res) | Inr z' \<Rightarrow> Some (Inr (decode avail out z')) }
     else Some (Inl (int len - int avail, out, z)))"

text \<open>
  What has to be shown of the two parts: \<open>M\<close> holds between passes, \<open>N\<close> between them, \<open>Q\<close> of
  what is returned, and every pass uses up input or room or sets the latch.
\<close>

lemma unpack_loop:
  assumes "M (avail, out, z)"
    and fill: "\<And>avail out z. M (avail, out, z) \<Longrightarrow> err z = ERR_OK \<Longrightarrow> 0 < avail \<Longrightarrow>
      (\<exists>res. fill len avail out z = Some (Inl res) \<and> Q res) \<or>
      (\<exists>z'. fill len avail out z = Some (Inr z') \<and> N (avail, out, z') \<and> left z' = (left z :: nat))"
    and decode: "\<And>avail out z a o2 z2. N (avail, out, z) \<Longrightarrow> 0 < avail \<Longrightarrow>
      decode avail out z = (a, o2, z2) \<Longrightarrow> M (a, o2, z2) \<and> left z2 \<le> left z \<and> a \<le> avail \<and>
        (left z2 < left z \<or> a < avail \<or> err z2 \<noteq> ERR_OK)"
    and exit: "\<And>avail out z. M (avail, out, z) \<Longrightarrow> err z \<noteq> ERR_OK \<or> avail = 0 \<Longrightarrow>
      Q (int len - int avail, out, z)"
  shows "\<exists>res. c_loop (unpack_pass err fill decode len) (avail, out, z) = Some res \<and> Q res"
proof (rule c_loop_returns [where I = M and
      m = "\<lambda>(avail, out, z). left z + avail + (if err z = ERR_OK then 1 else 0)", OF assms(1)])
  fix s assume "M s"
  obtain avail out z where s: "s = (avail, out, z)" by (cases s)
  show "(\<exists>r. unpack_pass err fill decode len s = Some (Inl r) \<and> Q r) \<or>
    (\<exists>s'. unpack_pass err fill decode len s = Some (Inr s') \<and> M s' \<and>
      (\<lambda>(avail, out, z). left z + avail + (if err z = ERR_OK then 1 else 0)) s' <
      (\<lambda>(avail, out, z). left z + avail + (if err z = ERR_OK then 1 else 0)) s)"
  proof (cases "err z = ERR_OK \<and> 0 < avail")
    case False
    with \<open>M s\<close> exit [of avail out z] show ?thesis by (auto simp: s unpack_pass_def)
  next
    case True
    consider res where "fill len avail out z = Some (Inl res)" "Q res"
      | z' where "fill len avail out z = Some (Inr z')" "N (avail, out, z')" "left z' = left z"
      using fill [of avail out z] \<open>M s\<close> True s by blast
    then show ?thesis
    proof cases
      case 1
      with True show ?thesis by (simp add: s unpack_pass_def)
    next
      case 2
      obtain a o2 z2 where run: "decode avail out z' = (a, o2, z2)" by (metis prod_cases3)
      from decode [OF 2(2) _ run] 2(1,3) True run show ?thesis
        by (auto simp: s unpack_pass_def)
    qed
  qed
qed

text \<open>A pass whose decoder call fails ends the loop.\<close>

lemma unpack_rejected:
  assumes "err z = ERR_OK" "0 < avail" "fill len avail out z = Some (Inr z1)"
    "decode avail out z1 = (a, o2, z2)" "err z2 \<noteq> ERR_OK"
  shows "c_loop (unpack_pass err fill decode len) (avail, out, z) = Some (int len - int a, o2, z2)"
proof -
  have "unpack_pass err fill decode len (avail, out, z) = Some (Inr (a, o2, z2))"
    using assms by (simp add: unpack_pass_def)
  then have "c_loop (unpack_pass err fill decode len) (avail, out, z) =
      c_loop (unpack_pass err fill decode len) (a, o2, z2)" by (rule c_loop_next)
  also have "\<dots> = Some (int len - int a, o2, z2)"
    using assms(5) by (intro c_loop_stop) (simp add: unpack_pass_def)
  finally show ?thesis .
qed

section \<open>The parent of a codec\<close>

text \<open>A codec module asks its parent for a whole buffer at a time, and keeps the result in an
  \<^verbatim>\<open>int\<close>.\<close>

locale feeding = par: reader prd pinv ppend served
  for prd :: "'p read_fn" and pinv ppend served +
  assumes served_chunk: "served WANDIO_BUFFER_SIZE"
begin

text \<open>The parent never fails.\<close>

abbreviation calm :: bool where
  "calm \<equiv> never_fails prd pinv served"

lemma chunk_cases:
  assumes "pinv p"
  obtains (data) bs p' where "prd p a WANDIO_BUFFER_SIZE = Some (int (length bs), bs, p')"
      "c_int (int (length bs)) = int (length bs)" "bs \<noteq> []" "ppend p = bs @ ppend p'" "pinv p'"
    | (eof) p' where "prd p a WANDIO_BUFFER_SIZE = Some (0, [], p')" "c_int 0 = 0"
      "ppend p = []" "ppend p' = []" "pinv p'"
    | (err) r p' where "prd p a WANDIO_BUFFER_SIZE = Some (r, [], p')" "c_int r < 0"
      "ppend p' = ppend p" "pinv p'" "\<not> calm"
  using assms served_chunk
proof (cases rule: par.rd_cases [where a = a])
  case (data bs p')
  then have "c_int (int (length bs)) = int (length bs)"
    by (intro c_int_id_nat) (simp add: WANDIO_BUFFER_SIZE_def)
  with data show thesis by (intro that(1))
next
  case (eof p')
  then show thesis by (intro that(2)) (simp_all add: c_int_def)
next
  case (err r p')
  then have "c_int r < 0" using c_int_id [of r] by linarith
  moreover have "\<not> calm" using assms served_chunk err(1,2) unfolding never_fails_def by fastforce
  ultimately show thesis using err by (intro that(3))
qed

end

end
