(* ===== verification/Zlib_Reader.thy ===== *)
theory Zlib_Reader
  imports Codec
begin

text \<open>
  \<^verbatim>\<open>lib/ior-zlib.c\<close>: reading gzip and zlib streams, with \<open>inflate\<close> as a parameter. One
  \<open>zlib_read\<close> is a loop that refills \<open>inbuff\<close> from the parent whenever it is used up and hands
  it to \<open>inflate\<close>, which writes straight into the caller's buffer.
\<close>

section \<open>State and operations\<close>

datatype zlib_ret = Z_OK | Z_STREAM_END | Z_BUF_ERROR | Z_STREAM_ERROR | Z_DATA_ERROR

text \<open>\<open>z_in\<close> is \<open>strm.next_in\<close> with \<open>strm.avail_in\<close> bytes; \<open>z_at\<close> is where malloc put
  \<open>inbuff\<close>.\<close>

record ('p, 'd) zlib_t =
  z_at :: nat
  z_in :: "byte list"
  z_strm :: 'd
  z_parent :: 'p
  z_err :: err_t
  z_since :: nat

definition zlib_open :: "(zlib_ret, 'd) decoder \<Rightarrow> nat \<Rightarrow> 'p option \<Rightarrow> ('p, 'd) zlib_t option" where
  "zlib_open dec at parent =
     (case parent of None \<Rightarrow> None
      | Some p \<Rightarrow> Some \<lparr>z_at = at, z_in = [], z_strm = dec_init dec, z_parent = p,
          z_err = ERR_OK, z_since = 1\<rparr>)"

text \<open>
  The inner loop, while \<open>avail_in <= 0\<close>. A positive \<open>bytes_read\<close> makes \<open>avail_in\<close> positive, so
  it goes round at most once. \<open>Inl\<close> is a return from \<open>zlib_read\<close>. \<open>avail\<close> is \<open>avail_out\<close> and
  \<open>out\<close> what the caller's buffer holds so far.
\<close>

definition zlib_fill ::
  "'p read_fn \<Rightarrow> nat \<Rightarrow> nat \<Rightarrow> byte list \<Rightarrow> ('p, 'd) zlib_t \<Rightarrow>
    ((int \<times> byte list \<times> ('p, 'd) zlib_t) + ('p, 'd) zlib_t) option" where
  "zlib_fill prd len avail out z =
     (if z_in z \<noteq> [] then Some (Inr z)
      else do {
        (r, bs, p) \<leftarrow> prd (z_parent z) (z_at z) WANDIO_BUFFER_SIZE;
        let bytes_read = c_int r;
        let z = z\<lparr>z_parent := p\<rparr>;
        Some
         (if bytes_read = 0 then
            (if 0 < z_since z then Inl (-1, out, z\<lparr>z_err := ERR_ERROR\<rparr>)
             else if avail = c_uint (int len) then Inl (0, out, z\<lparr>z_err := ERR_EOF\<rparr>)
             else Inl (int len - int avail, out, z))
          else if bytes_read < 0 then
            (if avail \<noteq> c_uint (int len) then Inl (int len - int avail, out, z\<lparr>z_err := ERR_ERROR\<rparr>)
             else Inl (-1, out, z\<lparr>z_err := ERR_ERROR\<rparr>))
          else Inr (z\<lparr>z_in := bs, z_since := z_since z + nat bytes_read\<rparr>)) })"

text \<open>One call of \<open>inflate\<close> and the switch on its code; the end of a stream starts the next.\<close>

definition zlib_inflate ::
  "(zlib_ret, 'd) decoder \<Rightarrow> nat \<Rightarrow> byte list \<Rightarrow> ('p, 'd) zlib_t \<Rightarrow>
    nat \<times> byte list \<times> ('p, 'd) zlib_t" where
  "zlib_inflate dec avail out z =
     (case dec_run dec (z_strm z) (z_in z) avail of (code, k, bs, d) \<Rightarrow>
        (avail - length bs, out @ bs,
         (case code of
            Z_OK \<Rightarrow> z\<lparr>z_in := drop k (z_in z), z_strm := d, z_err := ERR_OK\<rparr>
          | Z_STREAM_END \<Rightarrow> z\<lparr>z_in := drop k (z_in z), z_strm := dec_init dec, z_err := ERR_OK,
              z_since := 0\<rparr>
          | _ \<Rightarrow> z\<lparr>z_in := drop k (z_in z), z_strm := d, z_err := ERR_ERROR\<rparr>)))"

definition zlib_read :: "(zlib_ret, 'd) decoder \<Rightarrow> 'p read_fn \<Rightarrow> ('p, 'd) zlib_t read_fn" where
  "zlib_read dec prd z buffer len =
     (case z_err z of
        ERR_EOF \<Rightarrow> Some (0, [], z)
      | ERR_ERROR \<Rightarrow> Some (-1, [], z)
      | ERR_OK \<Rightarrow> c_loop (unpack_pass z_err (zlib_fill prd) (zlib_inflate dec) len)
          (c_uint (int len), [], z))"

definition zlib_close :: "'p io_source_t \<Rightarrow> ('p, 'd) zlib_t \<Rightarrow> ('p, 'd) zlib_t" where
  "zlib_close src z = z\<lparr>z_parent := src_close src (z_parent z)\<rparr>"

definition zlib_source ::
  "(zlib_ret, 'd) decoder \<Rightarrow> 'p io_source_t \<Rightarrow> ('p, 'd) zlib_t io_source_t" where
  "zlib_source dec src = \<lparr>src_name = ''zlib'', src_read = zlib_read dec (src_read src),
     src_peek = None, src_tell = None, src_seek = None, src_close = zlib_close src\<rparr>"

section \<open>What is still owed\<close>

definition zlib_left :: "('p \<Rightarrow> byte list) \<Rightarrow> ('p, 'd) zlib_t \<Rightarrow> byte list" where
  "zlib_left ppend z = z_in z @ ppend (z_parent z)"

definition zlib_text ::
  "('d \<Rightarrow> byte list \<Rightarrow> byte list option) \<Rightarrow> ('p \<Rightarrow> byte list) \<Rightarrow> ('p, 'd) zlib_t \<Rightarrow> byte list option" where
  "zlib_text plain ppend z =
     (if zlib_left ppend z = [] \<and> z_since z = 0 then Some [] else plain (z_strm z) (zlib_left ppend z))"

definition zlib_pending ::
  "('d \<Rightarrow> byte list \<Rightarrow> byte list option) \<Rightarrow> ('p \<Rightarrow> byte list) \<Rightarrow> ('p, 'd) zlib_t \<Rightarrow> byte list" where
  "zlib_pending plain ppend z = the (zlib_text plain ppend z)"

definition zlib_inv ::
  "('d \<Rightarrow> byte list \<Rightarrow> byte list option) \<Rightarrow> ('p \<Rightarrow> bool) \<Rightarrow> ('p \<Rightarrow> byte list) \<Rightarrow> ('p, 'd) zlib_t \<Rightarrow> bool" where
  "zlib_inv plain pinv ppend z \<longleftrightarrow> pinv (z_parent z) \<and> zlib_text plain ppend z \<noteq> None \<and>
     (z_err z = ERR_EOF \<longrightarrow> zlib_text plain ppend z = Some [])"

lemma zlib_text_simps [simp]:
  "zlib_text plain ppend (z\<lparr>z_err := e\<rparr>) = zlib_text plain ppend z"
  by (simp add: zlib_text_def zlib_left_def)

section \<open>Well-formed files\<close>

text \<open>Between two passes of a call: \<open>text0\<close> is what was owed when it began.\<close>

definition zlib_mid ::
  "('d \<Rightarrow> byte list \<Rightarrow> byte list option) \<Rightarrow> ('p \<Rightarrow> bool) \<Rightarrow> ('p \<Rightarrow> byte list) \<Rightarrow> nat \<Rightarrow> byte list \<Rightarrow>
    nat \<times> byte list \<times> ('p, 'd) zlib_t \<Rightarrow> bool" where
  "zlib_mid plain pinv ppend len text0 = (\<lambda>(avail, out, z).
     pinv (z_parent z) \<and> z_err z = ERR_OK \<and> avail + length out = len \<and>
     (\<exists>t. zlib_text plain ppend z = Some t \<and> text0 = out @ t))"

text \<open>The result of a call; \<open>calm\<close> says that the parent never fails, and then there is no error.\<close>

definition zlib_outcome ::
  "bool \<Rightarrow> ('d \<Rightarrow> byte list \<Rightarrow> byte list option) \<Rightarrow> ('p \<Rightarrow> bool) \<Rightarrow> ('p \<Rightarrow> byte list) \<Rightarrow> nat \<Rightarrow> byte list \<Rightarrow>
    int \<times> byte list \<times> ('p, 'd) zlib_t \<Rightarrow> bool" where
  "zlib_outcome calm plain pinv ppend len text0 = (\<lambda>(r, out, z).
     zlib_inv plain pinv ppend z \<and> text0 = out @ zlib_pending plain ppend z \<and>
     (r = int (length out) \<and> length out \<le> len \<and> (out = [] \<longrightarrow> len = 0 \<or> text0 = []) \<and>
        (calm \<longrightarrow> z_err z \<noteq> ERR_ERROR) \<or>
      r = -1 \<and> out = [] \<and> \<not> calm))"

lemmas zlib_state_defs = zlib_outcome_def zlib_inv_def zlib_pending_def zlib_text_def zlib_left_def

context feeding
begin

lemma zlib_fill_good:
  assumes none: "never_empty plain" and len: "len < 2 ^ 31"
    and start: "zlib_mid plain pinv ppend len text0 (avail, out, z)" "0 < avail"
  shows "(\<exists>res. zlib_fill prd len avail out z = Some (Inl res) \<and>
      zlib_outcome calm plain pinv ppend len text0 res) \<or>
    (\<exists>z'. zlib_fill prd len avail out z = Some (Inr z') \<and>
      (z_in z' \<noteq> [] \<and> zlib_mid plain pinv ppend len text0 (avail, out, z')) \<and>
      length (zlib_left ppend z') = length (zlib_left ppend z))"
proof (cases "z_in z = []")
  case False
  with start(1) show ?thesis by (simp add: zlib_fill_def)
next
  case True
  from start(1) obtain t where inv: "pinv (z_parent z)" "z_err z = ERR_OK"
    "avail + length out = len" "zlib_text plain ppend z = Some t" "text0 = out @ t"
    by (auto simp: zlib_mid_def)
  from len have uint: "c_uint (int len) = len" by (intro c_uint_id) simp
  from inv(3) have room: "avail = len \<longleftrightarrow> out = []" by auto
  show ?thesis
    using inv(1)
  proof (cases rule: chunk_cases [where a = "z_at z"])
    case (data bs p')
    with inv True show ?thesis by (simp add: zlib_fill_def Let_def zlib_mid_def zlib_text_def zlib_left_def)
  next
    case (eof p')
    with True have empty: "zlib_left ppend z = []" by (simp add: zlib_left_def)
    with inv(4) none have "z_since z = 0" "t = []"
      by (auto simp: zlib_text_def never_empty_def split: if_splits)
    with eof empty inv room uint True start(2) show ?thesis
      by (cases "out = []") (simp_all add: zlib_fill_def Let_def zlib_state_defs)
  next
    case (err r p')
    with inv room True uint start(2) show ?thesis
      by (cases "out = []") (auto simp: zlib_fill_def Let_def zlib_state_defs split: if_splits)
  qed
qed

lemma zlib_inflate_good:
  assumes sane: "decoder_sane Z_OK Z_STREAM_END dec"
    and reads: "decoder_reads Z_OK Z_STREAM_END dec plain (next_member dec plain)"
    and start: "z_in z \<noteq> [] \<and> zlib_mid plain pinv ppend len text0 (avail, out, z)" "0 < avail"
    and eq: "zlib_inflate dec avail out z = (a, o2, z2)"
  shows "zlib_mid plain pinv ppend len text0 (a, o2, z2) \<and>
    length (zlib_left ppend z2) \<le> length (zlib_left ppend z) \<and> a \<le> avail \<and>
    (length (zlib_left ppend z2) < length (zlib_left ppend z) \<or> a < avail \<or> z_err z2 \<noteq> ERR_OK)"
proof -
  obtain c k bs d where run: "dec_run dec (z_strm z) (z_in z) avail = (c, k, bs, d)"
    by (metis prod_cases4)
  from start(1) obtain t where mid: "pinv (z_parent z)" "avail + length out = len"
    "text0 = out @ t" "z_in z \<noteq> []" and plain: "plain (z_strm z) (z_in z @ ppend (z_parent z)) = Some t"
    by (auto simp: zlib_mid_def zlib_text_def zlib_left_def split: if_splits)
  note bounds = decoder_saneD [OF sane run]
  from reads run mid(4) start(2) plain
  have "zlib_mid plain pinv ppend len text0 (a, o2, z2) \<and> (c = Z_OK \<or> c = Z_STREAM_END)"
  proof (cases rule: decoder_reads_cases)
    case (ok u)
    with eq run mid bounds(2) show ?thesis
      by (auto simp: zlib_inflate_def zlib_mid_def zlib_text_def zlib_left_def)
  next
    case (fin u)
    with eq run mid bounds(2) show ?thesis
      by (auto simp: zlib_inflate_def zlib_mid_def zlib_text_def zlib_left_def next_member_def
          split: if_splits)
  qed
  then show ?thesis
    using bounds start(2) eq mid(4) run by (auto simp: zlib_inflate_def zlib_left_def)
qed

lemma zlib_read_good:
  assumes sane: "decoder_sane Z_OK Z_STREAM_END dec"
    and reads: "decoder_reads Z_OK Z_STREAM_END dec plain (next_member dec plain)"
    and inv: "zlib_inv plain pinv ppend z" "z_err z = ERR_OK" and n: "n < 2 ^ 31"
  shows "\<exists>res. zlib_read dec prd z a n = Some res \<and>
    zlib_outcome calm plain pinv ppend n (zlib_pending plain ppend z) res"
proof -
  from reads have none: "never_empty plain" by (simp add: decoder_reads_def)
  from n have uint: "c_uint (int n) = n" by (intro c_uint_id) simp
  let ?text = "zlib_pending plain ppend z"
  have "\<exists>res. c_loop (unpack_pass z_err (zlib_fill prd) (zlib_inflate dec) n) (n, [], z) = Some res \<and>
    zlib_outcome calm plain pinv ppend n ?text res"
  proof (rule unpack_loop [where M = "zlib_mid plain pinv ppend n ?text"
        and N = "\<lambda>(avail, out, z). z_in z \<noteq> [] \<and> zlib_mid plain pinv ppend n ?text (avail, out, z)"
        and left = "\<lambda>z. length (zlib_left ppend z)"], goal_cases)
    case 1
    show ?case using inv by (auto simp: zlib_mid_def zlib_inv_def zlib_pending_def)
  next
    case (2 avail out z)
    from zlib_fill_good [OF none n 2(1,3)] show ?case by simp
  next
    case (3 avail out z a o2 z2)
    from 3(1) have "z_in z \<noteq> [] \<and> zlib_mid plain pinv ppend n ?text (avail, out, z)" by simp
    from zlib_inflate_good [OF sane reads this 3(2,3)] show ?case .
  next
    case (4 avail out z)
    then show ?case by (auto simp: zlib_mid_def zlib_outcome_def zlib_inv_def zlib_pending_def)
  qed
  with inv(2) uint show ?thesis by (simp add: zlib_read_def)
qed

lemma zlib_contract:
  assumes sane: "decoder_sane Z_OK Z_STREAM_END dec"
    and reads: "decoder_reads Z_OK Z_STREAM_END dec plain (next_member dec plain)"
  shows "reader (zlib_read dec prd) (zlib_inv plain pinv ppend) (zlib_pending plain ppend) below_2G"
proof (rule readerI)
  fix z and a n :: nat
  assume inv: "zlib_inv plain pinv ppend z" and n: "n < 2 ^ 31"
  show "read_outcome (zlib_inv plain pinv ppend) (zlib_pending plain ppend) z n (zlib_read dec prd z a n)"
  proof (cases "z_err z")
    case ERR_OK
    from zlib_read_good [OF sane reads inv this n, of a] show ?thesis
      by (auto simp: zlib_outcome_def read_outcome_def)
  qed (use inv in \<open>auto simp: zlib_read_def read_outcome_def zlib_inv_def zlib_pending_def\<close>)
qed

text \<open>Over a parent that never fails, no call fails and no error is ever latched.\<close>

lemma zlib_calm:
  assumes sane: "decoder_sane Z_OK Z_STREAM_END dec"
    and reads: "decoder_reads Z_OK Z_STREAM_END dec plain (next_member dec plain)"
    and calm: "never_fails prd pinv served"
  shows "calm_reader (zlib_read dec prd) (\<lambda>z. zlib_inv plain pinv ppend z \<and> z_err z \<noteq> ERR_ERROR)
    (zlib_pending plain ppend) below_2G"
proof (rule calm_readerI)
  have step: "0 \<le> r \<and> z_err z' \<noteq> ERR_ERROR"
    if "zlib_inv plain pinv ppend z" "z_err z \<noteq> ERR_ERROR" "n < 2 ^ 31"
      "zlib_read dec prd z a n = Some (r, bs, z')" for z a n r bs z'
  proof (cases "z_err z")
    case ERR_OK
    from zlib_read_good [OF sane reads that(1) this that(3), of a] that(4) calm show ?thesis
      by (auto simp: zlib_outcome_def)
  qed (use that in \<open>auto simp: zlib_read_def\<close>)
  show "reader (zlib_read dec prd) (\<lambda>z. zlib_inv plain pinv ppend z \<and> z_err z \<noteq> ERR_ERROR)
      (zlib_pending plain ppend) below_2G"
    by (rule reader_strengthen [OF zlib_contract [OF sane reads]]) (use step in blast)
  show "never_fails (zlib_read dec prd) (\<lambda>z. zlib_inv plain pinv ppend z \<and> z_err z \<noteq> ERR_ERROR) below_2G"
    unfolding never_fails_def using step by blast
qed

end

section \<open>Any input whatever\<close>

text \<open>A call comes back, inside its buffer, and a result of \<open>0\<close> sets the latch.\<close>

definition zlib_any ::
  "('p \<Rightarrow> bool) \<Rightarrow> nat \<Rightarrow> nat \<times> byte list \<times> ('p, 'd) zlib_t \<Rightarrow> bool" where
  "zlib_any pinv len = (\<lambda>(avail, out, z). pinv (z_parent z) \<and> avail + length out = len \<and>
     z_err z \<noteq> ERR_EOF)"

definition zlib_answer ::
  "('p \<Rightarrow> bool) \<Rightarrow> nat \<Rightarrow> int \<times> byte list \<times> ('p, 'd) zlib_t \<Rightarrow> bool" where
  "zlib_answer pinv len = (\<lambda>(r, out, z). pinv (z_parent z) \<and> length out \<le> len \<and>
     (r = -1 \<or> r = int (length out)) \<and>
     (r = 0 \<and> 0 < len \<longrightarrow> z_err z = ERR_ERROR \<or> z_err z = ERR_EOF \<and> z_since z = 0))"

context feeding
begin

lemma zlib_fill_any:
  assumes "len < 2 ^ 31" "zlib_any pinv len (avail, out, z)" "0 < avail"
  shows "(\<exists>res. zlib_fill prd len avail out z = Some (Inl res) \<and> zlib_answer pinv len res) \<or>
    (\<exists>z'. zlib_fill prd len avail out z = Some (Inr z') \<and>
      (z_in z' \<noteq> [] \<and> zlib_any pinv len (avail, out, z')) \<and>
      length (zlib_left ppend z') = length (zlib_left ppend z))"
proof (cases "z_in z = []")
  case False
  with assms(2) show ?thesis by (simp add: zlib_fill_def)
next
  case True
  from assms(1) have uint: "c_uint (int len) = len" by (intro c_uint_id) simp
  from assms(2) have mid: "pinv (z_parent z)" "avail + length out = len" "avail = len \<longleftrightarrow> out = []"
    "z_err z \<noteq> ERR_EOF"
    by (auto simp: zlib_any_def)
  show ?thesis
    using mid(1)
  proof (cases rule: chunk_cases [where a = "z_at z"])
    case (data bs p')
    with mid True show ?thesis by (simp add: zlib_fill_def Let_def zlib_any_def zlib_left_def)
  next
    case (eof p')
    with mid True uint assms(3) show ?thesis
      by (cases "out = []"; cases "z_since z = 0") (auto simp: zlib_fill_def Let_def zlib_answer_def)
  next
    case (err r p')
    with mid True uint assms(3) show ?thesis
      by (cases "out = []") (auto simp: zlib_fill_def Let_def zlib_answer_def)
  qed
qed

lemma zlib_inflate_any:
  assumes sane: "decoder_sane Z_OK Z_STREAM_END dec"
    and "z_in z \<noteq> [] \<and> zlib_any pinv len (avail, out, z)" "0 < avail"
    and "zlib_inflate dec avail out z = (a, o2, z2)"
  shows "zlib_any pinv len (a, o2, z2) \<and> length (zlib_left ppend z2) \<le> length (zlib_left ppend z) \<and>
    a \<le> avail \<and> (length (zlib_left ppend z2) < length (zlib_left ppend z) \<or> a < avail \<or> z_err z2 \<noteq> ERR_OK)"
proof -
  obtain c k bs d where run: "dec_run dec (z_strm z) (z_in z) avail = (c, k, bs, d)"
    by (metis prod_cases4)
  from decoder_saneD [OF sane run] assms(2-4) run show ?thesis
    by (cases c) (auto simp: zlib_inflate_def zlib_any_def zlib_left_def)
qed

lemma zlib_read_answers:
  assumes "pinv (z_parent z)" "n < 2 ^ 31" "decoder_sane Z_OK Z_STREAM_END dec"
  shows "\<exists>r bs z'. zlib_read dec prd z a n = Some (r, bs, z') \<and> pinv (z_parent z') \<and> length bs \<le> n \<and>
    (r = -1 \<or> r = int (length bs)) \<and>
    (r = 0 \<and> 0 < n \<and> z_err z = ERR_OK \<longrightarrow> z_err z' = ERR_ERROR \<or> z_err z' = ERR_EOF \<and> z_since z' = 0)"
proof (cases "z_err z")
  case ERR_OK
  from assms(2) have uint: "c_uint (int n) = n" by (intro c_uint_id) simp
  have "\<exists>res. c_loop (unpack_pass z_err (zlib_fill prd) (zlib_inflate dec) n) (n, [], z) = Some res \<and>
    zlib_answer pinv n res"
  proof (rule unpack_loop [where M = "zlib_any pinv n"
        and N = "\<lambda>(avail, out, z). z_in z \<noteq> [] \<and> zlib_any pinv n (avail, out, z)"
        and left = "\<lambda>z. length (zlib_left ppend z)"], goal_cases)
    case 1
    show ?case using assms(1) ERR_OK by (simp add: zlib_any_def)
  next
    case (2 avail out z)
    from zlib_fill_any [OF assms(2) 2(1,3)] show ?case by simp
  next
    case (3 avail out z a o2 z2)
    from 3(1) have "z_in z \<noteq> [] \<and> zlib_any pinv n (avail, out, z)" by simp
    from zlib_inflate_any [OF assms(3) this 3(2,3)] show ?case .
  next
    case (4 avail out z)
    then show ?case by (cases "z_err z") (auto simp: zlib_any_def zlib_answer_def)
  qed
  with ERR_OK uint show ?thesis by (auto simp: zlib_read_def zlib_answer_def)
qed (use assms(1) in \<open>auto simp: zlib_read_def\<close>)

end

section \<open>Truncated files\<close>

text \<open>The parent delivers only the beginning of a stream; the bytes \<open>missing\<close> never come.\<close>

definition zlib_cut ::
  "('d \<Rightarrow> byte list \<Rightarrow> byte list option) \<Rightarrow> ('p \<Rightarrow> bool) \<Rightarrow> ('p \<Rightarrow> byte list) \<Rightarrow> byte list \<Rightarrow> byte list \<Rightarrow>
    ('p, 'd) zlib_t \<Rightarrow> bool" where
  "zlib_cut plain pinv ppend missing t z \<longleftrightarrow> pinv (z_parent z) \<and>
     (z_err z = ERR_OK \<and> 0 < z_since z \<and> plain (z_strm z) (zlib_left ppend z @ missing) = Some t \<or>
      z_err z = ERR_ERROR)"

definition zlib_cut_mid ::
  "('d \<Rightarrow> byte list \<Rightarrow> byte list option) \<Rightarrow> ('p \<Rightarrow> bool) \<Rightarrow> ('p \<Rightarrow> byte list) \<Rightarrow> byte list \<Rightarrow> nat \<Rightarrow>
    byte list \<Rightarrow> nat \<times> byte list \<times> ('p, 'd) zlib_t \<Rightarrow> bool" where
  "zlib_cut_mid plain pinv ppend missing len text0 = (\<lambda>(avail, out, z). avail + length out = len \<and>
     z_err z = ERR_OK \<and> (\<exists>t. zlib_cut plain pinv ppend missing t z \<and> text0 = out @ t))"

definition zlib_cut_out ::
  "('d \<Rightarrow> byte list \<Rightarrow> byte list option) \<Rightarrow> ('p \<Rightarrow> bool) \<Rightarrow> ('p \<Rightarrow> byte list) \<Rightarrow> byte list \<Rightarrow>
    byte list \<Rightarrow> int \<times> byte list \<times> ('p, 'd) zlib_t \<Rightarrow> bool" where
  "zlib_cut_out plain pinv ppend missing text0 = (\<lambda>(r, out, z).
     (r = -1 \<or> r = int (length out) \<and> 0 < r) \<and>
     (\<exists>t. zlib_cut plain pinv ppend missing t z \<and> text0 = out @ t))"

context feeding
begin

lemma zlib_fill_cut:
  assumes "len < 2 ^ 31" "zlib_cut_mid plain pinv ppend missing len text0 (avail, out, z)" "0 < avail"
  shows "(\<exists>res. zlib_fill prd len avail out z = Some (Inl res) \<and>
      zlib_cut_out plain pinv ppend missing text0 res) \<or>
    (\<exists>z'. zlib_fill prd len avail out z = Some (Inr z') \<and>
      (z_in z' \<noteq> [] \<and> zlib_cut_mid plain pinv ppend missing len text0 (avail, out, z')) \<and>
      length (zlib_left ppend z') = length (zlib_left ppend z))"
proof (cases "z_in z = []")
  case False
  with assms(2) show ?thesis by (simp add: zlib_fill_def)
next
  case True
  from assms(1) have uint: "c_uint (int len) = len" by (intro c_uint_id) simp
  from assms(2) obtain t where mid: "pinv (z_parent z)" "z_err z = ERR_OK" "0 < z_since z"
    "avail + length out = len" "plain (z_strm z) (zlib_left ppend z @ missing) = Some t"
    "text0 = out @ t" "avail = len \<longleftrightarrow> out = []"
    by (auto simp: zlib_cut_mid_def zlib_cut_def)
  show ?thesis
    using mid(1)
  proof (cases rule: chunk_cases [where a = "z_at z"])
    case (data bs p')
    with mid True show ?thesis
      by (simp add: zlib_fill_def Let_def zlib_cut_mid_def zlib_cut_def zlib_left_def)
  next
    case (eof p')
    with mid True show ?thesis
      by (auto simp: zlib_fill_def Let_def zlib_cut_out_def zlib_cut_def)
  next
    case (err r p')
    with mid True uint assms(3) show ?thesis
      by (cases "out = []") (auto simp: zlib_fill_def Let_def zlib_cut_out_def zlib_cut_def)
  qed
qed

lemma zlib_inflate_cut:
  assumes sane: "decoder_sane Z_OK Z_STREAM_END dec"
    and reads: "decoder_reads Z_OK Z_STREAM_END dec plain nothing_after" and "missing \<noteq> []"
    and start: "z_in z \<noteq> [] \<and> zlib_cut_mid plain pinv ppend missing len text0 (avail, out, z)" "0 < avail"
    and eq: "zlib_inflate dec avail out z = (a, o2, z2)"
  shows "zlib_cut_mid plain pinv ppend missing len text0 (a, o2, z2) \<and>
    length (zlib_left ppend z2) \<le> length (zlib_left ppend z) \<and> a \<le> avail \<and>
    (length (zlib_left ppend z2) < length (zlib_left ppend z) \<or> a < avail \<or> z_err z2 \<noteq> ERR_OK)"
proof -
  obtain c k bs d where run: "dec_run dec (z_strm z) (z_in z) avail = (c, k, bs, d)"
    by (metis prod_cases4)
  note bounds = decoder_saneD [OF sane run]
  from start(1) obtain t where cut: "z_in z \<noteq> []" "pinv (z_parent z)" "0 < z_since z" "text0 = out @ t"
    "avail + length out = len"
    and plain: "plain (z_strm z) (z_in z @ ppend (z_parent z) @ missing) = Some t"
    by (auto simp: zlib_cut_mid_def zlib_cut_def zlib_left_def)
  from reads run cut(1) start(2) plain
  obtain u where u: "t = bs @ u" "c = Z_OK"
    "plain d (drop k (z_in z) @ ppend (z_parent z) @ missing) = Some u"
  proof (cases rule: decoder_reads_cases)
    case (fin u)
    with assms(3) show thesis by (simp add: nothing_after_def split: if_splits)
  qed auto
  from eq run u(2) have "zlib_left ppend z2 = drop k (z_in z) @ ppend (z_parent z)"
    and z2: "z2 = z\<lparr>z_in := drop k (z_in z), z_strm := d, z_err := ERR_OK\<rparr>"
      "a = avail - length bs" "o2 = out @ bs"
    by (auto simp: zlib_inflate_def zlib_left_def)
  with cut u bounds(1,2) have "zlib_cut_mid plain pinv ppend missing len text0 (a, o2, z2)"
    by (simp add: zlib_cut_mid_def zlib_cut_def)
  then show ?thesis
    using bounds(1,2) bounds(3) [OF cut(1) start(2)] u(2) start(2) cut(1) z2
    by (auto simp: zlib_left_def)
qed

lemma zlib_read_cut:
  assumes sane: "decoder_sane Z_OK Z_STREAM_END dec"
    and reads: "decoder_reads Z_OK Z_STREAM_END dec plain nothing_after"
    and "zlib_cut plain pinv ppend missing t z" "0 < n" "n < 2 ^ 31" "missing \<noteq> []"
  shows "\<exists>r bs z' t'. zlib_read dec prd z a n = Some (r, bs, z') \<and> (r = -1 \<or> r = int (length bs) \<and> 0 < r) \<and>
    zlib_cut plain pinv ppend missing t' z' \<and> (r \<noteq> -1 \<longrightarrow> t = bs @ t')"
proof (cases "z_err z")
  case ERR_OK
  from assms(5) have uint: "c_uint (int n) = n" by (intro c_uint_id) simp
  have "\<exists>res. c_loop (unpack_pass z_err (zlib_fill prd) (zlib_inflate dec) n) (n, [], z) = Some res \<and>
    zlib_cut_out plain pinv ppend missing t res"
  proof (rule unpack_loop [where M = "zlib_cut_mid plain pinv ppend missing n t"
        and N = "\<lambda>(avail, out, z). z_in z \<noteq> [] \<and> zlib_cut_mid plain pinv ppend missing n t (avail, out, z)"
        and left = "\<lambda>z. length (zlib_left ppend z)"], goal_cases)
    case 1
    show ?case using assms(3) ERR_OK by (auto simp: zlib_cut_mid_def zlib_cut_def)
  next
    case (2 avail out z)
    from zlib_fill_cut [OF assms(5) 2(1,3)] show ?case by simp
  next
    case (3 avail out z a o2 z2)
    from 3(1) have "z_in z \<noteq> [] \<and> zlib_cut_mid plain pinv ppend missing n t (avail, out, z)" by simp
    from zlib_inflate_cut [OF sane reads assms(6) this 3(2,3)] show ?case .
  next
    case (4 avail out z)
    with assms(4) show ?case by (auto simp: zlib_cut_mid_def zlib_cut_out_def)
  qed
  with ERR_OK uint show ?thesis by (auto simp: zlib_read_def zlib_cut_out_def)
qed (use assms(3) in \<open>auto simp: zlib_read_def zlib_cut_def\<close>)

lemma zlib_truncation:
  assumes sane: "decoder_sane Z_OK Z_STREAM_END dec"
    and reads: "decoder_reads Z_OK Z_STREAM_END dec plain nothing_after"
    and "zlib_cut plain pinv ppend missing t z" "0 < n" "n < 2 ^ 31" "missing \<noteq> []"
  shows "\<exists>got z'. read_all (zlib_read dec prd) a n z acc = Some (-1, acc @ got, z') \<and> prefix got t"
  using assms(3)
proof (induction "length t" arbitrary: t z acc rule: less_induct)
  case less
  obtain r bs z' t' where step: "zlib_read dec prd z a n = Some (r, bs, z')"
    "r = -1 \<or> r = int (length bs) \<and> 0 < r" "zlib_cut plain pinv ppend missing t' z'" "r \<noteq> -1 \<longrightarrow> t = bs @ t'"
    using zlib_read_cut [OF sane reads less.prems assms(4-6)] by blast
  show ?case
  proof (cases "r = -1")
    case True
    with step(1) show ?thesis by (subst read_all.simps) auto
  next
    case False
    with step have "length t' < length t" by auto
    from less.hyps [OF this step(3), of "acc @ bs"] step False show ?thesis
      by (subst read_all.simps) auto
  qed
qed

end

end
