(* ===== verification/Bzip_Reader.thy ===== *)
theory Bzip_Reader
  imports Codec
begin

text \<open>
  \<^verbatim>\<open>lib/ior-bzip.c\<close>: reading bzip2 streams, one after the other, with
  \<open>BZ2_bzDecompress\<close> as a parameter. The end of the parent's data is taken as the end of the
  file wherever it comes.
\<close>

section \<open>State and operations\<close>

datatype bz_ret = BZ_OK | BZ_RUN_OK | BZ_FLUSH_OK | BZ_FINISH_OK | BZ_STREAM_END | BZ_ERROR

record ('p, 'd) bz_t =
  bz_at :: nat
  bz_in :: "byte list"
  bz_strm :: 'd
  bz_parent :: 'p
  bz_err :: err_t
  streamopen :: bool

definition bz_open :: "(bz_ret, 'd) decoder \<Rightarrow> nat \<Rightarrow> 'p option \<Rightarrow> ('p, 'd) bz_t option" where
  "bz_open dec at parent =
     (case parent of None \<Rightarrow> None
      | Some p \<Rightarrow> Some \<lparr>bz_at = at, bz_in = [], bz_strm = dec_init dec, bz_parent = p,
          bz_err = ERR_OK, streamopen = True\<rparr>)"

text \<open>The inner loop: refill \<open>inbuff\<close>, or return from \<open>bz_read\<close> (\<open>Inl\<close>).\<close>

definition bz_fill ::
  "'p read_fn \<Rightarrow> nat \<Rightarrow> nat \<Rightarrow> byte list \<Rightarrow> ('p, 'd) bz_t \<Rightarrow>
    ((int \<times> byte list \<times> ('p, 'd) bz_t) + ('p, 'd) bz_t) option" where
  "bz_fill prd len avail out b =
     (if bz_in b \<noteq> [] then Some (Inr b)
      else do {
        (r, bs, p) \<leftarrow> prd (bz_parent b) (bz_at b) WANDIO_BUFFER_SIZE;
        let bytes_read = c_int r;
        let b = b\<lparr>bz_parent := p\<rparr>;
        Some
         (if bytes_read = 0 then Inl (int len - int avail, out, b)
          else if bytes_read < 0 then
            (if avail \<noteq> c_uint (int len) then Inl (int len - int avail, out, b\<lparr>bz_err := ERR_ERROR\<rparr>)
             else Inl (-1, out, b\<lparr>bz_err := ERR_ERROR\<rparr>))
          else Inr (b\<lparr>bz_in := bs\<rparr>)) })"

text \<open>One call of \<open>BZ2_bzDecompress\<close>; the end of a stream starts the next and leaves the latch.\<close>

definition bz_decompress ::
  "(bz_ret, 'd) decoder \<Rightarrow> nat \<Rightarrow> byte list \<Rightarrow> ('p, 'd) bz_t \<Rightarrow> nat \<times> byte list \<times> ('p, 'd) bz_t" where
  "bz_decompress dec avail out b =
     (case dec_run dec (bz_strm b) (bz_in b) avail of (code, k, bs, d) \<Rightarrow>
        (avail - length bs, out @ bs,
         (case code of
            BZ_OK \<Rightarrow> b\<lparr>bz_in := drop k (bz_in b), bz_strm := d, bz_err := ERR_OK\<rparr>
          | BZ_STREAM_END \<Rightarrow> b\<lparr>bz_in := drop k (bz_in b), bz_strm := dec_init dec\<rparr>
          | _ \<Rightarrow> b\<lparr>bz_in := drop k (bz_in b), bz_strm := d, bz_err := ERR_ERROR\<rparr>)))"

definition bz_read :: "(bz_ret, 'd) decoder \<Rightarrow> 'p read_fn \<Rightarrow> ('p, 'd) bz_t read_fn" where
  "bz_read dec prd b buffer len =
     (case bz_err b of
        ERR_EOF \<Rightarrow> Some (0, [], b)
      | ERR_ERROR \<Rightarrow> Some (-1, [], b)
      | ERR_OK \<Rightarrow> c_loop (unpack_pass bz_err (bz_fill prd) (bz_decompress dec) len)
          (c_uint (int len), [], b))"

definition bz_close :: "'p io_source_t \<Rightarrow> ('p, 'd) bz_t \<Rightarrow> ('p, 'd) bz_t" where
  "bz_close src b = b\<lparr>bz_parent := src_close src (bz_parent b)\<rparr>"

definition bz_source ::
  "(bz_ret, 'd) decoder \<Rightarrow> 'p io_source_t \<Rightarrow> ('p, 'd) bz_t io_source_t" where
  "bz_source dec src = \<lparr>src_name = ''bzip'', src_read = bz_read dec (src_read src),
     src_peek = None, src_tell = None, src_seek = None, src_close = bz_close src\<rparr>"

section \<open>What is still owed\<close>

definition bz_left :: "('p \<Rightarrow> byte list) \<Rightarrow> ('p, 'd) bz_t \<Rightarrow> byte list" where
  "bz_left ppend b = bz_in b @ ppend (bz_parent b)"

definition bz_text ::
  "('d \<Rightarrow> byte list \<Rightarrow> byte list option) \<Rightarrow> ('p \<Rightarrow> byte list) \<Rightarrow> ('p, 'd) bz_t \<Rightarrow> byte list option" where
  "bz_text plain ppend b =
     (if bz_left ppend b = [] then Some [] else plain (bz_strm b) (bz_left ppend b))"

definition bz_pending ::
  "('d \<Rightarrow> byte list \<Rightarrow> byte list option) \<Rightarrow> ('p \<Rightarrow> byte list) \<Rightarrow> ('p, 'd) bz_t \<Rightarrow> byte list" where
  "bz_pending plain ppend b = the (bz_text plain ppend b)"

text \<open>No operation sets \<open>ERR_EOF\<close>.\<close>

definition bz_inv ::
  "('d \<Rightarrow> byte list \<Rightarrow> byte list option) \<Rightarrow> ('p \<Rightarrow> bool) \<Rightarrow> ('p \<Rightarrow> byte list) \<Rightarrow> ('p, 'd) bz_t \<Rightarrow> bool" where
  "bz_inv plain pinv ppend b \<longleftrightarrow> pinv (bz_parent b) \<and> bz_text plain ppend b \<noteq> None \<and>
     bz_err b \<noteq> ERR_EOF"

section \<open>Well-formed files\<close>

text \<open>Between two passes of a call: \<open>text0\<close> is what was owed when it began.\<close>

definition bz_mid ::
  "('d \<Rightarrow> byte list \<Rightarrow> byte list option) \<Rightarrow> ('p \<Rightarrow> bool) \<Rightarrow> ('p \<Rightarrow> byte list) \<Rightarrow> nat \<Rightarrow> byte list \<Rightarrow>
    nat \<times> byte list \<times> ('p, 'd) bz_t \<Rightarrow> bool" where
  "bz_mid plain pinv ppend len text0 = (\<lambda>(avail, out, b).
     pinv (bz_parent b) \<and> bz_err b = ERR_OK \<and> avail + length out = len \<and>
     (\<exists>t. bz_text plain ppend b = Some t \<and> text0 = out @ t))"

definition bz_outcome ::
  "('d \<Rightarrow> byte list \<Rightarrow> byte list option) \<Rightarrow> ('p \<Rightarrow> bool) \<Rightarrow> ('p \<Rightarrow> byte list) \<Rightarrow> nat \<Rightarrow> byte list \<Rightarrow>
    int \<times> byte list \<times> ('p, 'd) bz_t \<Rightarrow> bool" where
  "bz_outcome plain pinv ppend len text0 = (\<lambda>(r, out, b).
     bz_inv plain pinv ppend b \<and> text0 = out @ bz_pending plain ppend b \<and>
     (r = int (length out) \<and> length out \<le> len \<and> (out = [] \<longrightarrow> len = 0 \<or> text0 = []) \<or>
      r = -1 \<and> out = []))"

lemmas bz_state_defs = bz_outcome_def bz_inv_def bz_pending_def bz_text_def bz_left_def

context feeding
begin

lemma bz_fill_good:
  assumes none: "never_empty plain" and len: "len < 2 ^ 31"
    and start: "bz_mid plain pinv ppend len text0 (avail, out, b)" "0 < avail"
  shows "(\<exists>res. bz_fill prd len avail out b = Some (Inl res) \<and>
      bz_outcome plain pinv ppend len text0 res) \<or>
    (\<exists>b'. bz_fill prd len avail out b = Some (Inr b') \<and>
      (bz_in b' \<noteq> [] \<and> bz_mid plain pinv ppend len text0 (avail, out, b')) \<and>
      length (bz_left ppend b') = length (bz_left ppend b))"
proof (cases "bz_in b = []")
  case False
  with start(1) show ?thesis by (simp add: bz_fill_def)
next
  case True
  from start(1) obtain t where inv: "pinv (bz_parent b)" "bz_err b = ERR_OK"
    "avail + length out = len" "bz_text plain ppend b = Some t" "text0 = out @ t"
    by (auto simp: bz_mid_def)
  from len have uint: "c_uint (int len) = len" by (intro c_uint_id) simp
  from inv(3) have room: "avail = len \<longleftrightarrow> out = []" by auto
  show ?thesis
    using inv(1)
  proof (cases rule: chunk_cases [where a = "bz_at b"])
    case (data bs p')
    with inv True show ?thesis by (simp add: bz_fill_def Let_def bz_mid_def bz_text_def bz_left_def)
  next
    case (eof p')
    with True have empty: "bz_left ppend b = []" by (simp add: bz_left_def)
    with inv(4) have "t = []" by (simp add: bz_text_def)
    with eof empty inv room uint True start(2) show ?thesis
      by (cases "out = []") (auto simp: bz_fill_def Let_def bz_state_defs)
  next
    case (err r p')
    with inv room True uint start(2) show ?thesis
      by (cases "out = []") (auto simp: bz_fill_def Let_def bz_state_defs split: if_splits)
  qed
qed

lemma bz_decompress_good:
  assumes sane: "decoder_sane BZ_OK BZ_STREAM_END dec"
    and reads: "decoder_reads BZ_OK BZ_STREAM_END dec plain (next_member dec plain)"
    and start: "bz_in b \<noteq> [] \<and> bz_mid plain pinv ppend len text0 (avail, out, b)" "0 < avail"
    and eq: "bz_decompress dec avail out b = (a, o2, b2)"
  shows "bz_mid plain pinv ppend len text0 (a, o2, b2) \<and>
    length (bz_left ppend b2) \<le> length (bz_left ppend b) \<and> a \<le> avail \<and>
    (length (bz_left ppend b2) < length (bz_left ppend b) \<or> a < avail \<or> bz_err b2 \<noteq> ERR_OK)"
proof -
  obtain c k bs d where run: "dec_run dec (bz_strm b) (bz_in b) avail = (c, k, bs, d)"
    by (metis prod_cases4)
  from start(1) obtain t where mid: "pinv (bz_parent b)" "avail + length out = len"
    "text0 = out @ t" "bz_in b \<noteq> []" "bz_err b = ERR_OK" and plain: "plain (bz_strm b) (bz_in b @ ppend (bz_parent b)) = Some t"
    by (auto simp: bz_mid_def bz_text_def bz_left_def split: if_splits)
  note bounds = decoder_saneD [OF sane run]
  from reads run mid(4) start(2) plain
  have "bz_mid plain pinv ppend len text0 (a, o2, b2) \<and> (c = BZ_OK \<or> c = BZ_STREAM_END)"
  proof (cases rule: decoder_reads_cases)
    case (ok u)
    with eq run mid bounds(2) show ?thesis
      by (auto simp: bz_decompress_def bz_mid_def bz_text_def bz_left_def)
  next
    case (fin u)
    with eq run mid bounds(2) show ?thesis
      by (auto simp: bz_decompress_def bz_mid_def bz_text_def bz_left_def next_member_def
          split: if_splits)
  qed
  then show ?thesis
    using bounds start(2) eq mid(4) run by (auto simp: bz_decompress_def bz_left_def)
qed

lemma bz_contract:
  assumes sane: "decoder_sane BZ_OK BZ_STREAM_END dec"
    and reads: "decoder_reads BZ_OK BZ_STREAM_END dec plain (next_member dec plain)"
  shows "reader (bz_read dec prd) (bz_inv plain pinv ppend) (bz_pending plain ppend) below_2G"
proof (rule readerI)
  fix b and a n :: nat
  assume inv: "bz_inv plain pinv ppend b" and n: "n < 2 ^ 31"
  from reads have none: "never_empty plain" by (simp add: decoder_reads_def)
  show "read_outcome (bz_inv plain pinv ppend) (bz_pending plain ppend) b n (bz_read dec prd b a n)"
  proof (cases "bz_err b")
    case ERR_OK
    from n have uint: "c_uint (int n) = n" by (intro c_uint_id) simp
    let ?text = "bz_pending plain ppend b"
    have "\<exists>res. c_loop (unpack_pass bz_err (bz_fill prd) (bz_decompress dec) n) (n, [], b) = Some res \<and>
      bz_outcome plain pinv ppend n ?text res"
    proof (rule unpack_loop [where M = "bz_mid plain pinv ppend n ?text"
          and N = "\<lambda>(avail, out, b). bz_in b \<noteq> [] \<and> bz_mid plain pinv ppend n ?text (avail, out, b)"
          and left = "\<lambda>b. length (bz_left ppend b)"], goal_cases)
      case 1
      show ?case using inv ERR_OK by (auto simp: bz_mid_def bz_inv_def bz_pending_def)
    next
      case (2 avail out b)
      from bz_fill_good [OF none n 2(1,3)] show ?case by simp
    next
      case (3 avail out b a o2 b2)
      from 3(1) have "bz_in b \<noteq> [] \<and> bz_mid plain pinv ppend n ?text (avail, out, b)" by simp
      from bz_decompress_good [OF sane reads this 3(2,3)] show ?case .
    next
      case (4 avail out b)
      then show ?case by (auto simp: bz_mid_def bz_outcome_def bz_inv_def bz_pending_def)
    qed
    with ERR_OK uint show ?thesis
      by (auto simp: bz_read_def bz_outcome_def read_outcome_def)
  qed (use inv in \<open>auto simp: bz_read_def read_outcome_def bz_inv_def bz_pending_def\<close>)
qed

end

section \<open>Any input whatever\<close>

text \<open>A call comes back, inside its buffer, and a result of \<open>0\<close> means that the
  input is used up or that the latch is set.\<close>

definition bz_any ::
  "('p \<Rightarrow> bool) \<Rightarrow> nat \<Rightarrow> nat \<times> byte list \<times> ('p, 'd) bz_t \<Rightarrow> bool" where
  "bz_any pinv len = (\<lambda>(avail, out, b). pinv (bz_parent b) \<and> avail + length out = len \<and>
     bz_err b \<noteq> ERR_EOF)"

definition bz_answer ::
  "('p \<Rightarrow> bool) \<Rightarrow> ('p \<Rightarrow> byte list) \<Rightarrow> nat \<Rightarrow> int \<times> byte list \<times> ('p, 'd) bz_t \<Rightarrow> bool" where
  "bz_answer pinv ppend len = (\<lambda>(r, out, b). pinv (bz_parent b) \<and> length out \<le> len \<and>
     (r = -1 \<or> r = int (length out)) \<and>
     (r = 0 \<and> 0 < len \<longrightarrow> bz_err b = ERR_ERROR \<or> bz_left ppend b = []))"

context feeding
begin

lemma bz_fill_any:
  assumes "len < 2 ^ 31" "bz_any pinv len (avail, out, b)" "0 < avail"
  shows "(\<exists>res. bz_fill prd len avail out b = Some (Inl res) \<and> bz_answer pinv ppend len res) \<or>
    (\<exists>b'. bz_fill prd len avail out b = Some (Inr b') \<and>
      (bz_in b' \<noteq> [] \<and> bz_any pinv len (avail, out, b')) \<and>
      length (bz_left ppend b') = length (bz_left ppend b))"
proof (cases "bz_in b = []")
  case False
  with assms(2) show ?thesis by (simp add: bz_fill_def)
next
  case True
  from assms(1) have uint: "c_uint (int len) = len" by (intro c_uint_id) simp
  from assms(2) have mid: "pinv (bz_parent b)" "avail + length out = len" "avail = len \<longleftrightarrow> out = []"
    "bz_err b \<noteq> ERR_EOF"
    by (auto simp: bz_any_def)
  show ?thesis
    using mid(1)
  proof (cases rule: chunk_cases [where a = "bz_at b"])
    case (data bs p')
    with mid True show ?thesis by (simp add: bz_fill_def Let_def bz_any_def bz_left_def)
  next
    case (eof p')
    with mid True uint assms(3) show ?thesis
      by (cases "out = []") (auto simp: bz_fill_def Let_def bz_answer_def bz_left_def)
  next
    case (err r p')
    with mid True uint assms(3) show ?thesis
      by (cases "out = []") (auto simp: bz_fill_def Let_def bz_answer_def bz_left_def)
  qed
qed

lemma bz_decompress_any:
  assumes sane: "decoder_sane BZ_OK BZ_STREAM_END dec"
    and "bz_in b \<noteq> [] \<and> bz_any pinv len (avail, out, b)" "0 < avail"
    and "bz_decompress dec avail out b = (a, o2, b2)"
  shows "bz_any pinv len (a, o2, b2) \<and> length (bz_left ppend b2) \<le> length (bz_left ppend b) \<and>
    a \<le> avail \<and> (length (bz_left ppend b2) < length (bz_left ppend b) \<or> a < avail \<or> bz_err b2 \<noteq> ERR_OK)"
proof -
  obtain c k bs d where run: "dec_run dec (bz_strm b) (bz_in b) avail = (c, k, bs, d)"
    by (metis prod_cases4)
  from decoder_saneD [OF sane run] assms(2-4) run show ?thesis
    by (cases c) (auto simp: bz_decompress_def bz_any_def bz_left_def)
qed

lemma bz_read_answers:
  assumes "pinv (bz_parent b)" "n < 2 ^ 31" "decoder_sane BZ_OK BZ_STREAM_END dec"
  shows "\<exists>r bs b'. bz_read dec prd b a n = Some (r, bs, b') \<and> pinv (bz_parent b') \<and> length bs \<le> n \<and>
    (r = -1 \<or> r = int (length bs)) \<and>
    (r = 0 \<and> 0 < n \<and> bz_err b = ERR_OK \<longrightarrow> bz_err b' = ERR_ERROR \<or> bz_left ppend b' = [])"
proof (cases "bz_err b")
  case ERR_OK
  from assms(2) have uint: "c_uint (int n) = n" by (intro c_uint_id) simp
  have "\<exists>res. c_loop (unpack_pass bz_err (bz_fill prd) (bz_decompress dec) n) (n, [], b) = Some res \<and>
    bz_answer pinv ppend n res"
  proof (rule unpack_loop [where M = "bz_any pinv n"
        and N = "\<lambda>(avail, out, b). bz_in b \<noteq> [] \<and> bz_any pinv n (avail, out, b)"
        and left = "\<lambda>b. length (bz_left ppend b)"], goal_cases)
    case 1
    show ?case using assms(1) ERR_OK by (simp add: bz_any_def)
  next
    case (2 avail out b)
    from bz_fill_any [OF assms(2) 2(1,3)] show ?case by simp
  next
    case (3 avail out b a o2 b2)
    from 3(1) have "bz_in b \<noteq> [] \<and> bz_any pinv n (avail, out, b)" by simp
    from bz_decompress_any [OF assms(3) this 3(2,3)] show ?case .
  next
    case (4 avail out b)
    then show ?case by (cases "bz_err b") (auto simp: bz_any_def bz_answer_def bz_left_def)
  qed
  with ERR_OK uint show ?thesis by (auto simp: bz_read_def bz_answer_def bz_left_def)
qed (use assms(1) in \<open>auto simp: bz_read_def\<close>)

end

end
