(* ===== verification/Lzma_Reader.thy ===== *)
theory Lzma_Reader
  imports Codec
begin

text \<open>
  \<^verbatim>\<open>lib/ior-lzma.c\<close>: reading xz and lzma files, with \<open>lzma_code\<close> as a parameter. The
  reader stops at the end of the first stream. Like the bzip2 reader it takes the end of the
  parent's data for the end of the file wherever it comes, but it latches it.
\<close>

section \<open>State and operations\<close>

datatype lzma_ret = LZMA_OK | LZMA_STREAM_END | LZMA_BUF_ERROR | LZMA_DATA_ERROR | LZMA_PROG_ERROR

record ('p, 'd) lzma_t =
  xz_at :: nat
  xz_in :: "byte list"
  xz_strm :: 'd
  xz_parent :: 'p
  xz_err :: err_t

text \<open>\<open>auto_decoder\<close> is the result of \<^verbatim>\<open>lzma_auto_decoder\<close>.\<close>

definition lzma_open ::
  "(lzma_ret, 'd) decoder \<Rightarrow> lzma_ret \<Rightarrow> nat \<Rightarrow> 'p option \<Rightarrow> ('p, 'd) lzma_t option" where
  "lzma_open dec auto_decoder at parent =
     (case parent of None \<Rightarrow> None
      | Some p \<Rightarrow>
         if auto_decoder \<noteq> LZMA_OK then None
         else Some \<lparr>xz_at = at, xz_in = [], xz_strm = dec_init dec, xz_parent = p, xz_err = ERR_OK\<rparr>)"

text \<open>The inner loop: refill \<open>inbuff\<close>, or return from \<open>lzma_read\<close> (\<open>Inl\<close>).\<close>

definition lzma_fill ::
  "'p read_fn \<Rightarrow> nat \<Rightarrow> nat \<Rightarrow> byte list \<Rightarrow> ('p, 'd) lzma_t \<Rightarrow>
    ((int \<times> byte list \<times> ('p, 'd) lzma_t) + ('p, 'd) lzma_t) option" where
  "lzma_fill prd len avail out x =
     (if xz_in x \<noteq> [] then Some (Inr x)
      else do {
        (r, bs, p) \<leftarrow> prd (xz_parent x) (xz_at x) WANDIO_BUFFER_SIZE;
        let bytes_read = c_int r;
        let x = x\<lparr>xz_parent := p\<rparr>;
        Some
         (if bytes_read = 0 then
            (if avail = c_uint (int len) then Inl (0, out, x\<lparr>xz_err := ERR_EOF\<rparr>)
             else Inl (int len - int avail, out, x))
          else if bytes_read < 0 then
            (if avail \<noteq> c_uint (int len) then Inl (int len - int avail, out, x\<lparr>xz_err := ERR_ERROR\<rparr>)
             else Inl (-1, out, x\<lparr>xz_err := ERR_ERROR\<rparr>))
          else Inr (x\<lparr>xz_in := bs\<rparr>)) })"

text \<open>One call of \<open>lzma_code\<close> with \<open>LZMA_RUN\<close>; the end of the stream is the end of the file.\<close>

definition lzma_decode ::
  "(lzma_ret, 'd) decoder \<Rightarrow> nat \<Rightarrow> byte list \<Rightarrow> ('p, 'd) lzma_t \<Rightarrow> nat \<times> byte list \<times> ('p, 'd) lzma_t" where
  "lzma_decode dec avail out x =
     (case dec_run dec (xz_strm x) (xz_in x) avail of (code, k, bs, d) \<Rightarrow>
        (avail - length bs, out @ bs,
         (case code of
            LZMA_OK \<Rightarrow> x\<lparr>xz_in := drop k (xz_in x), xz_strm := d, xz_err := ERR_OK\<rparr>
          | LZMA_STREAM_END \<Rightarrow> x\<lparr>xz_in := drop k (xz_in x), xz_strm := d, xz_err := ERR_EOF\<rparr>
          | _ \<Rightarrow> x\<lparr>xz_in := drop k (xz_in x), xz_strm := d, xz_err := ERR_ERROR\<rparr>)))"

definition lzma_read :: "(lzma_ret, 'd) decoder \<Rightarrow> 'p read_fn \<Rightarrow> ('p, 'd) lzma_t read_fn" where
  "lzma_read dec prd x buffer len =
     (case xz_err x of
        ERR_EOF \<Rightarrow> Some (0, [], x)
      | ERR_ERROR \<Rightarrow> Some (-1, [], x)
      | ERR_OK \<Rightarrow> c_loop (unpack_pass xz_err (lzma_fill prd) (lzma_decode dec) len)
          (c_uint (int len), [], x))"

definition lzma_close :: "'p io_source_t \<Rightarrow> ('p, 'd) lzma_t \<Rightarrow> ('p, 'd) lzma_t" where
  "lzma_close src x = x\<lparr>xz_parent := src_close src (xz_parent x)\<rparr>"

definition lzma_source ::
  "(lzma_ret, 'd) decoder \<Rightarrow> 'p io_source_t \<Rightarrow> ('p, 'd) lzma_t io_source_t" where
  "lzma_source dec src = \<lparr>src_name = ''lzma'', src_read = lzma_read dec (src_read src),
     src_peek = None, src_tell = None, src_seek = None, src_close = lzma_close src\<rparr>"

section \<open>What is still owed\<close>

definition lzma_left :: "('p \<Rightarrow> byte list) \<Rightarrow> ('p, 'd) lzma_t \<Rightarrow> byte list" where
  "lzma_left ppend x = xz_in x @ ppend (xz_parent x)"

text \<open>After the end of the stream nothing is owed, whatever input is left.\<close>

definition lzma_text ::
  "('d \<Rightarrow> byte list \<Rightarrow> byte list option) \<Rightarrow> ('p \<Rightarrow> byte list) \<Rightarrow> ('p, 'd) lzma_t \<Rightarrow> byte list option" where
  "lzma_text plain ppend x =
     (if xz_err x = ERR_EOF \<or> lzma_left ppend x = [] then Some []
      else plain (xz_strm x) (lzma_left ppend x))"

definition lzma_pending ::
  "('d \<Rightarrow> byte list \<Rightarrow> byte list option) \<Rightarrow> ('p \<Rightarrow> byte list) \<Rightarrow> ('p, 'd) lzma_t \<Rightarrow> byte list" where
  "lzma_pending plain ppend x = the (lzma_text plain ppend x)"

definition lzma_inv ::
  "('d \<Rightarrow> byte list \<Rightarrow> byte list option) \<Rightarrow> ('p \<Rightarrow> bool) \<Rightarrow> ('p \<Rightarrow> byte list) \<Rightarrow> ('p, 'd) lzma_t \<Rightarrow> bool" where
  "lzma_inv plain pinv ppend x \<longleftrightarrow> pinv (xz_parent x) \<and> lzma_text plain ppend x \<noteq> None"

section \<open>Well-formed files\<close>

text \<open>Between two passes of a call: \<open>text0\<close> is what was owed when it began.\<close>

definition lzma_mid ::
  "('d \<Rightarrow> byte list \<Rightarrow> byte list option) \<Rightarrow> ('p \<Rightarrow> bool) \<Rightarrow> ('p \<Rightarrow> byte list) \<Rightarrow> nat \<Rightarrow> byte list \<Rightarrow>
    nat \<times> byte list \<times> ('p, 'd) lzma_t \<Rightarrow> bool" where
  "lzma_mid plain pinv ppend len text0 = (\<lambda>(avail, out, x).
     pinv (xz_parent x) \<and> xz_err x \<noteq> ERR_ERROR \<and> avail + length out = len \<and>
     (\<exists>t. lzma_text plain ppend x = Some t \<and> text0 = out @ t))"

definition lzma_outcome ::
  "('d \<Rightarrow> byte list \<Rightarrow> byte list option) \<Rightarrow> ('p \<Rightarrow> bool) \<Rightarrow> ('p \<Rightarrow> byte list) \<Rightarrow> nat \<Rightarrow> byte list \<Rightarrow>
    int \<times> byte list \<times> ('p, 'd) lzma_t \<Rightarrow> bool" where
  "lzma_outcome plain pinv ppend len text0 = (\<lambda>(r, out, x).
     lzma_inv plain pinv ppend x \<and> text0 = out @ lzma_pending plain ppend x \<and>
     (r = int (length out) \<and> length out \<le> len \<and> (out = [] \<longrightarrow> len = 0 \<or> text0 = []) \<or>
      r = -1 \<and> out = []))"

lemmas lzma_state_defs = lzma_outcome_def lzma_inv_def lzma_pending_def lzma_text_def lzma_left_def

context feeding
begin

lemma lzma_fill_good:
  assumes none: "never_empty plain" and len: "len < 2 ^ 31"
    and start: "lzma_mid plain pinv ppend len text0 (avail, out, x)" "0 < avail" "xz_err x = ERR_OK"
  shows "(\<exists>res. lzma_fill prd len avail out x = Some (Inl res) \<and>
      lzma_outcome plain pinv ppend len text0 res) \<or>
    (\<exists>x'. lzma_fill prd len avail out x = Some (Inr x') \<and>
      (xz_in x' \<noteq> [] \<and> xz_err x' = ERR_OK \<and> lzma_mid plain pinv ppend len text0 (avail, out, x')) \<and>
      length (lzma_left ppend x') = length (lzma_left ppend x))"
proof (cases "xz_in x = []")
  case False
  with start show ?thesis by (simp add: lzma_fill_def)
next
  case True
  from start(1,3) obtain t where inv: "pinv (xz_parent x)" "xz_err x = ERR_OK"
    "avail + length out = len" "lzma_text plain ppend x = Some t" "text0 = out @ t"
    by (auto simp: lzma_mid_def)
  from len have uint: "c_uint (int len) = len" by (intro c_uint_id) simp
  from inv(3) have room: "avail = len \<longleftrightarrow> out = []" by auto
  show ?thesis
    using inv(1)
  proof (cases rule: chunk_cases [where a = "xz_at x"])
    case (data bs p')
    with inv True show ?thesis by (simp add: lzma_fill_def Let_def lzma_mid_def lzma_text_def lzma_left_def)
  next
    case (eof p')
    with True have empty: "lzma_left ppend x = []" by (simp add: lzma_left_def)
    with inv(4) have "t = []" by (simp add: lzma_text_def)
    with eof empty inv room uint True start(2) show ?thesis
      by (cases "out = []") (auto simp: lzma_fill_def Let_def lzma_state_defs)
  next
    case (err r p')
    with inv room True uint start(2) show ?thesis
      by (cases "out = []") (auto simp: lzma_fill_def Let_def lzma_state_defs split: if_splits)
  qed
qed

lemma lzma_decode_good:
  assumes sane: "decoder_sane LZMA_OK LZMA_STREAM_END dec"
    and reads: "decoder_reads LZMA_OK LZMA_STREAM_END dec plain ignore_rest"
    and start: "xz_in x \<noteq> [] \<and> xz_err x = ERR_OK \<and> lzma_mid plain pinv ppend len text0 (avail, out, x)" "0 < avail"
    and eq: "lzma_decode dec avail out x = (a, o2, x2)"
  shows "lzma_mid plain pinv ppend len text0 (a, o2, x2) \<and>
    length (lzma_left ppend x2) \<le> length (lzma_left ppend x) \<and> a \<le> avail \<and>
    (length (lzma_left ppend x2) < length (lzma_left ppend x) \<or> a < avail \<or> xz_err x2 \<noteq> ERR_OK)"
proof -
  obtain c k bs d where run: "dec_run dec (xz_strm x) (xz_in x) avail = (c, k, bs, d)"
    by (metis prod_cases4)
  from start(1) obtain t where mid: "pinv (xz_parent x)" "avail + length out = len"
    "text0 = out @ t" "xz_in x \<noteq> []" and plain: "plain (xz_strm x) (xz_in x @ ppend (xz_parent x)) = Some t"
    by (auto simp: lzma_mid_def lzma_text_def lzma_left_def split: if_splits)
  note bounds = decoder_saneD [OF sane run]
  from reads run mid(4) start(2) plain
  have "lzma_mid plain pinv ppend len text0 (a, o2, x2) \<and> (c = LZMA_OK \<or> c = LZMA_STREAM_END)"
  proof (cases rule: decoder_reads_cases)
    case (ok u)
    with eq run mid bounds(2) show ?thesis
      by (auto simp: lzma_decode_def lzma_mid_def lzma_text_def lzma_left_def)
  next
    case (fin u)
    with eq run mid bounds(2) show ?thesis
      by (auto simp: lzma_decode_def lzma_mid_def lzma_text_def lzma_left_def ignore_rest_def
          split: if_splits)
  qed
  then show ?thesis
    using bounds start(2) eq mid(4) run by (auto simp: lzma_decode_def lzma_left_def)
qed

lemma lzma_contract:
  assumes sane: "decoder_sane LZMA_OK LZMA_STREAM_END dec"
    and reads: "decoder_reads LZMA_OK LZMA_STREAM_END dec plain ignore_rest"
  shows "reader (lzma_read dec prd) (lzma_inv plain pinv ppend) (lzma_pending plain ppend) below_2G"
proof (rule readerI)
  fix x and a n :: nat
  assume inv: "lzma_inv plain pinv ppend x" and n: "n < 2 ^ 31"
  from reads have none: "never_empty plain" by (simp add: decoder_reads_def)
  show "read_outcome (lzma_inv plain pinv ppend) (lzma_pending plain ppend) x n (lzma_read dec prd x a n)"
  proof (cases "xz_err x")
    case ERR_OK
    from n have uint: "c_uint (int n) = n" by (intro c_uint_id) simp
    let ?text = "lzma_pending plain ppend x"
    have "\<exists>res. c_loop (unpack_pass xz_err (lzma_fill prd) (lzma_decode dec) n) (n, [], x) = Some res \<and>
      lzma_outcome plain pinv ppend n ?text res"
    proof (rule unpack_loop [where M = "lzma_mid plain pinv ppend n ?text"
          and N = "\<lambda>(avail, out, x). xz_in x \<noteq> [] \<and> xz_err x = ERR_OK \<and> lzma_mid plain pinv ppend n ?text (avail, out, x)"
          and left = "\<lambda>x. length (lzma_left ppend x)"], goal_cases)
      case 1
      show ?case using inv ERR_OK by (auto simp: lzma_mid_def lzma_inv_def lzma_pending_def)
    next
      case (2 avail out x)
      from lzma_fill_good [OF none n 2(1,3,2)] show ?case by simp
    next
      case (3 avail out x a o2 x2)
      from 3(1) have "xz_in x \<noteq> [] \<and> xz_err x = ERR_OK \<and> lzma_mid plain pinv ppend n ?text (avail, out, x)" by simp
      from lzma_decode_good [OF sane reads this 3(2,3)] show ?case .
    next
      case (4 avail out x)
      then show ?case
        by (cases "xz_err x") (auto simp: lzma_mid_def lzma_outcome_def lzma_inv_def lzma_pending_def lzma_text_def)
    qed
    with ERR_OK uint show ?thesis
      by (auto simp: lzma_read_def lzma_outcome_def read_outcome_def)
  qed (use inv in \<open>auto simp: lzma_read_def read_outcome_def lzma_inv_def lzma_pending_def lzma_text_def\<close>)
qed

end

section \<open>Any input whatever\<close>

text \<open>A call comes back, inside its buffer, and a result of \<open>0\<close> sets the latch.\<close>

definition lzma_any ::
  "('p \<Rightarrow> bool) \<Rightarrow> nat \<Rightarrow> nat \<times> byte list \<times> ('p, 'd) lzma_t \<Rightarrow> bool" where
  "lzma_any pinv len = (\<lambda>(avail, out, x). pinv (xz_parent x) \<and> avail + length out = len)"

definition lzma_answer ::
  "('p \<Rightarrow> bool) \<Rightarrow> nat \<Rightarrow> int \<times> byte list \<times> ('p, 'd) lzma_t \<Rightarrow> bool" where
  "lzma_answer pinv len = (\<lambda>(r, out, x). pinv (xz_parent x) \<and> length out \<le> len \<and>
     (r = -1 \<or> r = int (length out)) \<and>
     (r = 0 \<and> 0 < len \<longrightarrow> xz_err x = ERR_ERROR \<or> xz_err x = ERR_EOF))"

context feeding
begin

lemma lzma_fill_any:
  assumes "len < 2 ^ 31" "lzma_any pinv len (avail, out, x)" "0 < avail" "xz_err x = ERR_OK"
  shows "(\<exists>res. lzma_fill prd len avail out x = Some (Inl res) \<and> lzma_answer pinv len res) \<or>
    (\<exists>x'. lzma_fill prd len avail out x = Some (Inr x') \<and>
      (xz_in x' \<noteq> [] \<and> xz_err x' = ERR_OK \<and> lzma_any pinv len (avail, out, x')) \<and>
      length (lzma_left ppend x') = length (lzma_left ppend x))"
proof (cases "xz_in x = []")
  case False
  with assms(2,4) show ?thesis by (simp add: lzma_fill_def)
next
  case True
  from assms(1) have uint: "c_uint (int len) = len" by (intro c_uint_id) simp
  from assms(2) have mid: "pinv (xz_parent x)" "avail + length out = len" "avail = len \<longleftrightarrow> out = []"
    by (auto simp: lzma_any_def)
  show ?thesis
    using mid(1)
  proof (cases rule: chunk_cases [where a = "xz_at x"])
    case (data bs p')
    with mid True assms(4) show ?thesis by (simp add: lzma_fill_def Let_def lzma_any_def lzma_left_def)
  next
    case (eof p')
    with mid True uint assms(3) show ?thesis
      by (cases "out = []") (auto simp: lzma_fill_def Let_def lzma_answer_def)
  next
    case (err r p')
    with mid True uint assms(3) show ?thesis
      by (cases "out = []") (auto simp: lzma_fill_def Let_def lzma_answer_def)
  qed
qed

lemma lzma_decode_any:
  assumes sane: "decoder_sane LZMA_OK LZMA_STREAM_END dec"
    and "xz_in x \<noteq> [] \<and> xz_err x = ERR_OK \<and> lzma_any pinv len (avail, out, x)" "0 < avail"
    and "lzma_decode dec avail out x = (a, o2, x2)"
  shows "lzma_any pinv len (a, o2, x2) \<and> length (lzma_left ppend x2) \<le> length (lzma_left ppend x) \<and>
    a \<le> avail \<and> (length (lzma_left ppend x2) < length (lzma_left ppend x) \<or> a < avail \<or> xz_err x2 \<noteq> ERR_OK)"
proof -
  obtain c k bs d where run: "dec_run dec (xz_strm x) (xz_in x) avail = (c, k, bs, d)"
    by (metis prod_cases4)
  from decoder_saneD [OF sane run] assms(2-4) run show ?thesis
    by (cases c) (auto simp: lzma_decode_def lzma_any_def lzma_left_def)
qed

lemma lzma_read_answers:
  assumes "pinv (xz_parent x)" "n < 2 ^ 31" "decoder_sane LZMA_OK LZMA_STREAM_END dec"
  shows "\<exists>r bs x'. lzma_read dec prd x a n = Some (r, bs, x') \<and> pinv (xz_parent x') \<and> length bs \<le> n \<and>
    (r = -1 \<or> r = int (length bs)) \<and>
    (r = 0 \<and> 0 < n \<and> xz_err x = ERR_OK \<longrightarrow> xz_err x' = ERR_ERROR \<or> xz_err x' = ERR_EOF)"
proof (cases "xz_err x")
  case ERR_OK
  from assms(2) have uint: "c_uint (int n) = n" by (intro c_uint_id) simp
  have "\<exists>res. c_loop (unpack_pass xz_err (lzma_fill prd) (lzma_decode dec) n) (n, [], x) = Some res \<and>
    lzma_answer pinv n res"
  proof (rule unpack_loop [where M = "lzma_any pinv n"
        and N = "\<lambda>(avail, out, x). xz_in x \<noteq> [] \<and> xz_err x = ERR_OK \<and> lzma_any pinv n (avail, out, x)"
        and left = "\<lambda>x. length (lzma_left ppend x)"], goal_cases)
    case 1
    show ?case using assms(1) ERR_OK by (simp add: lzma_any_def)
  next
    case (2 avail out x)
    from lzma_fill_any [OF assms(2) 2(1,3,2)] show ?case by simp
  next
    case (3 avail out x a o2 x2)
    from 3(1) have "xz_in x \<noteq> [] \<and> xz_err x = ERR_OK \<and> lzma_any pinv n (avail, out, x)" by simp
    from lzma_decode_any [OF assms(3) this 3(2,3)] show ?case .
  next
    case (4 avail out x)
    then show ?case by (cases "xz_err x") (auto simp: lzma_any_def lzma_answer_def)
  qed
  with ERR_OK uint show ?thesis by (auto simp: lzma_read_def lzma_answer_def)
qed (use assms(1) in \<open>auto simp: lzma_read_def\<close>)

end

end
