(* ===== verification/Codec_Readers.thy ===== *)
theory Codec_Readers
  imports Zlib_Reader Bzip_Reader Lzma_Reader Thread_Reader
begin

text \<open>
  The three decompressing readers over the library's own parents, and what they promise: the
  reader contract on well-formed files, a result on every input, and how each of them meets the
  end of a file that has been cut short.
\<close>

section \<open>Parents\<close>

text \<open>\<open>create_io_reader\<close> puts a decompressing reader on a peeking reader over a file.\<close>

interpretation feed_stdio: feeding stdio_read stdio_inv stdio_pending any_size
  by unfold_locales simp

interpretation feed_peek_stdio: feeding "peek_read stdio_read alloc_ok" "peek_inv stdio_inv"
    "peek_pending stdio_pending" any_size
  by unfold_locales simp

lemma feedingI: "reader prd pinv ppend served \<Longrightarrow> served WANDIO_BUFFER_SIZE \<Longrightarrow> feeding prd pinv ppend served"
  by (intro feeding.intro feeding_axioms.intro)

abbreviation spell_z :: "(zlib_ret, spell_state) decoder" where
  "spell_z \<equiv> spell_decoder Z_OK Z_STREAM_END Z_DATA_ERROR"

abbreviation spell_b :: "(bz_ret, spell_state) decoder" where
  "spell_b \<equiv> spell_decoder BZ_OK BZ_STREAM_END BZ_ERROR"

abbreviation spell_x :: "(lzma_ret, spell_state) decoder" where
  "spell_x \<equiv> spell_decoder LZMA_OK LZMA_STREAM_END LZMA_DATA_ERROR"

lemma spell_sane [simp]: "decoder_sane Z_OK Z_STREAM_END spell_z"
  "decoder_sane BZ_OK BZ_STREAM_END spell_b" "decoder_sane LZMA_OK LZMA_STREAM_END spell_x"
  by (simp_all add: spell_decoder_sane)

definition demo_file :: "byte list \<Rightarrow> stdio_t" where
  "demo_file bs = \<lparr>fd = demo_fd bs []\<rparr>"

lemma demo_file_facts [simp]: "stdio_inv (demo_file bs)" "stdio_pending (demo_file bs) = bs"
  by (simp_all add: demo_file_def demo_fd_def stdio_inv_def stdio_pending_def fd_rest_def)

lemma zlib_open_inv:
  assumes "zlib_open dec at (Some p) = Some z" "pinv p" "plain (dec_init dec) (ppend p) = Some t"
    "never_empty plain"
  shows "zlib_inv plain pinv ppend z \<and> zlib_pending plain ppend z = t"
  using assms by (auto simp: zlib_open_def zlib_state_defs)

text \<open>A gzip file read through a peeking reader: with no failing \<^verbatim>\<open>read(2)\<close> to come nothing in
  the chain fails, so the whole text is delivered.\<close>

abbreviation calm_file :: "stdio_t peek_t \<Rightarrow> bool" where
  "calm_file p \<equiv> peek_inv stdio_calm p \<and> peek_ready p"

abbreviation calm_gzip ::
  "('d \<Rightarrow> byte list \<Rightarrow> byte list option) \<Rightarrow> (stdio_t peek_t, 'd) zlib_t \<Rightarrow> bool" where
  "calm_gzip plain z \<equiv> zlib_inv plain calm_file (peek_pending stdio_pending) z \<and> z_err z \<noteq> ERR_ERROR"

interpretation calm_peek: calm_reader "peek_read stdio_read alloc_ok" calm_file "peek_pending stdio_pending" any_size
  by (rule peek_calm_reader) (rule calm_stdio.calm_reader_axioms)

lemma gzip_calm_reader:
  assumes "decoder_sane Z_OK Z_STREAM_END dec"
    and "decoder_reads Z_OK Z_STREAM_END dec plain (next_member dec plain)"
  shows "calm_reader (zlib_read dec (peek_read stdio_read alloc_ok)) (calm_gzip plain)
    (zlib_pending plain (peek_pending stdio_pending)) below_2G"
  by (rule feeding.zlib_calm [OF feedingI [OF calm_peek.reader_axioms TrueI] assms calm_peek.never])

lemma gzip_calm_open:
  assumes "Fail \<notin> set events" "never_empty plain" "plain (dec_init dec) bytes = Some text1"
    and "peek_open (Some \<lparr>fd = demo_fd bytes events\<rparr>) = Some p" "zlib_open dec at (Some p) = Some y"
  shows "calm_gzip plain y" "zlib_pending plain (peek_pending stdio_pending) y = text1"
proof -
  have p: "calm_file p" "peek_pending stdio_pending p = bytes"
    using assms(1,4) demo_peek_pending [of bytes events]
    by (auto simp: peek_open_def demo_peek_def peek_inv_def peek_shape_def peek_ready_def stdio_calm_def demo_fd_def)
  from zlib_open_inv [where pinv = calm_file and ppend = "peek_pending stdio_pending", OF assms(5) p(1) _ assms(2),
      of text1] p(2) assms(3,5)
  show "calm_gzip plain y" "zlib_pending plain (peek_pending stdio_pending) y = text1"
    by (auto simp: zlib_open_def)
qed

lemma gzip_file_read:
  assumes "decoder_sane Z_OK Z_STREAM_END dec"
    and "decoder_reads Z_OK Z_STREAM_END dec plain (next_member dec plain)"
    and "plain (dec_init dec) bytes = Some text1"
    and "peek_open (Some \<lparr>fd = demo_fd bytes events\<rparr>) = Some p" "zlib_open dec at (Some p) = Some y"
    and "0 < n" "n < 2 ^ 31"
  shows "\<exists>r got y'. read_all (zlib_read dec (peek_read stdio_read alloc_ok)) a n y [] = Some (r, got, y') \<and>
    r \<le> 0 \<and> prefix got text1 \<and> (r = 0 \<longrightarrow> got = text1) \<and> (Fail \<notin> set events \<longrightarrow> r = 0)"
proof -
  have none: "never_empty plain" using assms(2) by (simp add: decoder_reads_def)
  show ?thesis
  proof (cases "Fail \<in> set events")
    case False
    note calm = gzip_calm_open [OF False none assms(3-5)]
    from calm_reader.read_all_whole [OF gzip_calm_reader [OF assms(1,2)] calm(1) assms(7,6), of a "[]"] calm(2)
    show ?thesis by auto
  next
    case True
    have p: "peek_inv stdio_inv p" "peek_pending stdio_pending p = bytes"
      using assms(4) demo_peek_inv(1) [of bytes events] demo_peek_pending [of bytes events]
      by (auto simp: peek_open_def demo_peek_def)
    from zlib_open_inv [where pinv = "peek_inv stdio_inv" and ppend = "peek_pending stdio_pending",
        OF assms(5) p(1) _ none, of text1] p(2) assms(3)
    have y: "zlib_inv plain (peek_inv stdio_inv) (peek_pending stdio_pending) y"
      "zlib_pending plain (peek_pending stdio_pending) y = text1" by simp_all
    from reader.read_all_result [OF feed_peek_stdio.zlib_contract [OF assms(1,2)] y(1) assms(7,6), of a "[]"]
      y(2) True
    show ?thesis by (auto simp: prefix_def)
  qed
qed

section \<open>Properties\<close>

text \<open>C11: over any parent that keeps the reader contract, and any decoder that does what its
  manual says, \<open>zlib_read\<close>, \<open>bz_read\<close> and \<open>lzma_read\<close> keep the reader contract for requests below
  2 GiB with what they owe being the decompressed text: gzip and bzip2 files of any number of
  concatenated streams, and the first stream of an xz file.\<close>

theorem codec_read_contract:
  assumes "reader prd pinv ppend served" "served WANDIO_BUFFER_SIZE"
    and "decoder_sane Z_OK Z_STREAM_END zdec"
    and "decoder_reads Z_OK Z_STREAM_END zdec zplain (next_member zdec zplain)"
    and "decoder_sane BZ_OK BZ_STREAM_END bdec"
    and "decoder_reads BZ_OK BZ_STREAM_END bdec bplain (next_member bdec bplain)"
    and "decoder_sane LZMA_OK LZMA_STREAM_END xdec"
    and "decoder_reads LZMA_OK LZMA_STREAM_END xdec xplain ignore_rest"
  shows "reader (zlib_read zdec prd) (zlib_inv zplain pinv ppend) (zlib_pending zplain ppend) below_2G \<and>
    reader (bz_read bdec prd) (bz_inv bplain pinv ppend) (bz_pending bplain ppend) below_2G \<and>
    reader (lzma_read xdec prd) (lzma_inv xplain pinv ppend) (lzma_pending xplain ppend) below_2G"
proof -
  note feed = feedingI [OF assms(1,2)]
  from feeding.zlib_contract [OF feed assms(3,4)] feeding.bz_contract [OF feed assms(5,6)]
    feeding.lzma_contract [OF feed assms(7,8)]
  show ?thesis by blast
qed

theorem codec_read_contract_witness:
  "reader (zlib_read spell_z stdio_read) (zlib_inv (spell_plain True) stdio_inv stdio_pending)
     (zlib_pending (spell_plain True) stdio_pending) below_2G"
  using codec_read_contract [OF stdio.reader_axioms TrueI spell_sane(1) spell_decoder_many
      spell_sane(2) spell_decoder_many spell_sane(3) spell_decoder_one] by blast

text \<open>C24: whatever bytes the file holds, a call of any of the three readers comes back, within the
  caller's buffer, with \<open>-1\<close> or the number of bytes it stored; and \<open>0\<close> for a non-empty request
  means that the input is used up or that the reader has latched an error or the end of the file.\<close>

theorem codec_read_any_input:
  assumes "reader prd pinv ppend served" "served WANDIO_BUFFER_SIZE" "n < 2 ^ 31"
    and "decoder_sane Z_OK Z_STREAM_END zdec" "pinv (z_parent z)"
    and "decoder_sane BZ_OK BZ_STREAM_END bdec" "pinv (bz_parent b)"
    and "decoder_sane LZMA_OK LZMA_STREAM_END xdec" "pinv (xz_parent x)"
  shows "(\<exists>r bs z'. zlib_read zdec prd z a n = Some (r, bs, z') \<and> pinv (z_parent z') \<and> length bs \<le> n \<and>
      (r = -1 \<or> r = int (length bs)) \<and>
      (r = 0 \<and> 0 < n \<and> z_err z = ERR_OK \<longrightarrow>
        z_err z' = ERR_ERROR \<or> z_err z' = ERR_EOF \<and> z_since z' = 0)) \<and>
    (\<exists>r bs b'. bz_read bdec prd b a n = Some (r, bs, b') \<and> pinv (bz_parent b') \<and> length bs \<le> n \<and>
      (r = -1 \<or> r = int (length bs)) \<and>
      (r = 0 \<and> 0 < n \<and> bz_err b = ERR_OK \<longrightarrow> bz_err b' = ERR_ERROR \<or> bz_left ppend b' = [])) \<and>
    (\<exists>r bs x'. lzma_read xdec prd x a n = Some (r, bs, x') \<and> pinv (xz_parent x') \<and> length bs \<le> n \<and>
      (r = -1 \<or> r = int (length bs)) \<and>
      (r = 0 \<and> 0 < n \<and> xz_err x = ERR_OK \<longrightarrow> xz_err x' = ERR_ERROR \<or> xz_err x' = ERR_EOF))"
proof -
  note feed = feedingI [OF assms(1,2)]
  from feeding.zlib_read_answers [OF feed assms(5,3,4)] feeding.bz_read_answers [OF feed assms(7,3,6)]
    feeding.lzma_read_answers [OF feed assms(9,3,8)]
  show ?thesis by blast
qed

definition demo_z :: "byte list \<Rightarrow> (stdio_t, spell_state) zlib_t" where
  "demo_z bs = \<lparr>z_at = 0, z_in = [], z_strm = At, z_parent = demo_file bs, z_err = ERR_OK, z_since = 1\<rparr>"

definition demo_b :: "byte list \<Rightarrow> (stdio_t, spell_state) bz_t" where
  "demo_b bs = \<lparr>bz_at = 0, bz_in = [], bz_strm = At, bz_parent = demo_file bs, bz_err = ERR_OK,
     streamopen = True\<rparr>"

definition demo_x :: "byte list \<Rightarrow> (stdio_t, spell_state) lzma_t" where
  "demo_x bs = \<lparr>xz_at = 0, xz_in = [], xz_strm = At, xz_parent = demo_file bs, xz_err = ERR_OK\<rparr>"

lemma demo_parents [simp]: "z_parent (demo_z bs) = demo_file bs" "bz_parent (demo_b bs) = demo_file bs"
  "xz_parent (demo_x bs) = demo_file bs"
  by (simp_all add: demo_z_def demo_b_def demo_x_def)

theorem codec_read_any_input_witness:
  "(\<exists>r bs z'. zlib_read spell_z stdio_read (demo_z [7, 7]) 0 5 = Some (r, bs, z') \<and> length bs \<le> 5) \<and>
   (\<exists>r bs b'. bz_read spell_b stdio_read (demo_b [7, 7]) 0 5 = Some (r, bs, b') \<and> length bs \<le> 5) \<and>
   (\<exists>r bs x'. lzma_read spell_x stdio_read (demo_x [7, 7]) 0 5 = Some (r, bs, x') \<and> length bs \<le> 5)"
proof -
  have "(5::nat) < 2 ^ 31" "stdio_inv (z_parent (demo_z [7, 7]))" "stdio_inv (bz_parent (demo_b [7, 7]))"
    "stdio_inv (xz_parent (demo_x [7, 7]))" by simp_all
  from codec_read_any_input [OF stdio.reader_axioms TrueI this(1) spell_sane(1) this(2) spell_sane(2)
      this(3) spell_sane(3) this(4), of 0]
  show ?thesis by blast
qed

text \<open>C12: a gzip file of a single stream, cut short anywhere, is reported: when the parent delivers
  only the beginning of the stream, reading to the end gives a beginning of the text and then \<open>-1\<close>,
  never a clean end of file. (The law \<open>nothing_after\<close> says that the uncut file is one stream. A cut
  file of several streams can look complete: \<open>truncation_unnoticed\<close> below.)\<close>

theorem zlib_detects_truncation:
  assumes "reader prd pinv ppend served" "served WANDIO_BUFFER_SIZE"
    and "decoder_sane Z_OK Z_STREAM_END dec"
    and "decoder_reads Z_OK Z_STREAM_END dec plain nothing_after"
    and "zlib_open dec at (Some p) = Some z" "pinv p"
    and "plain (dec_init dec) (ppend p @ missing) = Some t" "missing \<noteq> []"
    and "0 < n" "n < 2 ^ 31"
  shows "\<exists>got z'. read_all (zlib_read dec prd) a n z [] = Some (-1, got, z') \<and> prefix got t"
proof -
  have "zlib_cut plain pinv ppend missing t z"
    using assms(5-7) by (auto simp: zlib_open_def zlib_cut_def zlib_left_def)
  from feeding.zlib_truncation [OF feedingI [OF assms(1,2)] assms(3,4) this assms(9,10,8), of a "[]"]
  show ?thesis by simp
qed

lemma demo_z_open: "zlib_open spell_z 0 (Some (demo_file bs)) = Some (demo_z bs)"
  by (simp add: zlib_open_def demo_z_def spell_decoder_def)

theorem zlib_detects_truncation_witness:
  "\<exists>got z'. read_all (zlib_read spell_z stdio_read) 0 4 (demo_z [1, 65, 1]) [] = Some (-1, got, z') \<and>
     prefix got [65, 66]"
  by (rule zlib_detects_truncation [where missing = "[66, 0]" and p = "demo_file [1, 65, 1]",
        OF stdio.reader_axioms TrueI spell_sane(1) spell_decoder_exact demo_z_open])
    (simp_all add: spell_decoder_def)

text \<open>The end of the parent's data in the middle of a stream: \<open>bz_read\<close> returns \<open>0\<close>, as for a
  complete file, and does not even latch it; \<open>lzma_read\<close> returns \<open>0\<close> and latches the end of the
  file; and \<open>zlib_read\<close>, which counts the bytes read since the last end of a stream to tell the
  two apart, is deceived when a stream ended in the last chunk and the cut one began in it. Each
  for any state of the decoder.\<close>

theorem truncation_unnoticed:
  assumes "0 < n" "n < 2 ^ 31"
    and "prd (bz_parent b) (bz_at b) WANDIO_BUFFER_SIZE = Some (0, [], p1)" "bz_in b = []" "bz_err b = ERR_OK"
    and "prd (xz_parent x) (xz_at x) WANDIO_BUFFER_SIZE = Some (0, [], p2)" "xz_in x = []" "xz_err x = ERR_OK"
    and "prd (z_parent z) (z_at z) WANDIO_BUFFER_SIZE = Some (0, [], p3)" "z_in z = []" "z_err z = ERR_OK"
      "z_since z = 0"
  shows "bz_read bdec prd b a n = Some (0, [], b\<lparr>bz_parent := p1\<rparr>) \<and>
    lzma_read xdec prd x a n = Some (0, [], x\<lparr>xz_parent := p2, xz_err := ERR_EOF\<rparr>) \<and>
    zlib_read zdec prd z a n = Some (0, [], z\<lparr>z_parent := p3, z_err := ERR_EOF\<rparr>)"
proof -
  from assms(2) have uint: "c_uint (int n) = n" by (intro c_uint_id) simp
  have zero: "c_int 0 = 0" by (simp add: c_int_def)
  have "bz_read bdec prd b a n = Some (0, [], b\<lparr>bz_parent := p1\<rparr>)"
    using assms(1,3-5) uint zero
    by (simp add: bz_read_def c_loop_stop unpack_pass_def bz_fill_def Let_def)
  moreover have "lzma_read xdec prd x a n = Some (0, [], x\<lparr>xz_parent := p2, xz_err := ERR_EOF\<rparr>)"
    using assms(1,6-8) uint zero
    by (simp add: lzma_read_def c_loop_stop unpack_pass_def lzma_fill_def Let_def)
  moreover have "zlib_read zdec prd z a n = Some (0, [], z\<lparr>z_parent := p3, z_err := ERR_EOF\<rparr>)"
    using assms(1,9-12) uint zero
    by (simp add: zlib_read_def c_loop_stop unpack_pass_def zlib_fill_def Let_def)
  ultimately show ?thesis by blast
qed

text \<open>Cut after the first byte of a pair, with the decoder waiting for the second.\<close>

theorem truncation_unnoticed_witness:
  "bz_read spell_b stdio_read (demo_b []\<lparr>bz_strm := Lit\<rparr>) 0 4 = Some (0, [], demo_b []\<lparr>bz_strm := Lit\<rparr>) \<and>
   lzma_read spell_x stdio_read (demo_x []\<lparr>xz_strm := Lit\<rparr>) 0 4 =
     Some (0, [], demo_x []\<lparr>xz_strm := Lit, xz_err := ERR_EOF\<rparr>) \<and>
   zlib_read spell_z stdio_read (demo_z []\<lparr>z_strm := Lit, z_since := 0\<rparr>) 0 4 =
     Some (0, [], demo_z []\<lparr>z_strm := Lit, z_since := 0, z_err := ERR_EOF\<rparr>)"
proof -
  have "stdio_read (demo_file []) a n = Some (0, [], demo_file [])" for a n
    by (simp add: stdio_read_def posix_read_def demo_file_def demo_fd_def fd_rest_def)
  with truncation_unnoticed [of 4 stdio_read "demo_b []\<lparr>bz_strm := Lit\<rparr>" "demo_file []"
      "demo_x []\<lparr>xz_strm := Lit\<rparr>" "demo_file []" "demo_z []\<lparr>z_strm := Lit, z_since := 0\<rparr>" "demo_file []"
      spell_b 0 spell_x spell_z]
  show ?thesis by (simp add: demo_b_def demo_x_def demo_z_def)
qed

text \<open>A file that is corrupt from its start: all three readers return \<open>0\<close>, the end of the file,
  from the call in which the decoder rejects the data, and \<open>-1\<close> only from the call after it.\<close>

theorem corrupt_looks_like_eof:
  assumes "0 < n" "n < 2 ^ 31"
    and "prd p at WANDIO_BUFFER_SIZE = Some (int (length bs), bs, p')" "bs \<noteq> []"
      "length bs \<le> WANDIO_BUFFER_SIZE"
    and "zlib_open zdec at (Some p) = Some z" "dec_run zdec (dec_init zdec) bs n = (Z_DATA_ERROR, kz, [], dz)"
    and "bz_open bdec at (Some p) = Some b" "dec_run bdec (dec_init bdec) bs n = (BZ_ERROR, kb, [], db)"
    and "lzma_open xdec LZMA_OK at (Some p) = Some x"
      "dec_run xdec (dec_init xdec) bs n = (LZMA_DATA_ERROR, kx, [], dx)"
  shows "\<exists>z' b' x'. zlib_read zdec prd z a n = Some (0, [], z') \<and> zlib_read zdec prd z' a n = Some (-1, [], z') \<and>
    bz_read bdec prd b a n = Some (0, [], b') \<and> bz_read bdec prd b' a n = Some (-1, [], b') \<and>
    lzma_read xdec prd x a n = Some (0, [], x') \<and> lzma_read xdec prd x' a n = Some (-1, [], x')"
proof -
  from assms(2) have uint: "c_uint (int n) = n" by (intro c_uint_id) simp
  have len: "c_int (int (length bs)) = int (length bs)"
    using assms(5) by (intro c_int_id_nat) (simp add: WANDIO_BUFFER_SIZE_def)
  define z2 where "z2 = z\<lparr>z_parent := p', z_in := drop kz bs, z_since := 1 + length bs, z_strm := dz,
    z_err := ERR_ERROR\<rparr>"
  define b2 where "b2 = b\<lparr>bz_parent := p', bz_in := drop kb bs, bz_strm := db, bz_err := ERR_ERROR\<rparr>"
  define x2 where "x2 = x\<lparr>xz_parent := p', xz_in := drop kx bs, xz_strm := dx, xz_err := ERR_ERROR\<rparr>"
  have z: "z = \<lparr>z_at = at, z_in = [], z_strm = dec_init zdec, z_parent = p, z_err = ERR_OK, z_since = 1\<rparr>"
    and b: "b = \<lparr>bz_at = at, bz_in = [], bz_strm = dec_init bdec, bz_parent = p, bz_err = ERR_OK,
      streamopen = True\<rparr>"
    and x: "x = \<lparr>xz_at = at, xz_in = [], xz_strm = dec_init xdec, xz_parent = p, xz_err = ERR_OK\<rparr>"
    using assms(6,8,10) by (simp_all add: zlib_open_def bz_open_def lzma_open_def)
  have "zlib_read zdec prd z a n = Some (int n - int n, [], z2)"
    unfolding zlib_read_def uint
    using assms(1,3,4,7) uint len
    by (simp add: z z2_def unpack_rejected zlib_fill_def zlib_inflate_def Let_def)
  moreover have "bz_read bdec prd b a n = Some (int n - int n, [], b2)"
    unfolding bz_read_def uint
    using assms(1,3,4,9) uint len
    by (simp add: b b2_def unpack_rejected bz_fill_def bz_decompress_def Let_def)
  moreover have "lzma_read xdec prd x a n = Some (int n - int n, [], x2)"
    unfolding lzma_read_def uint
    using assms(1,3,4,11) uint len
    by (simp add: x x2_def unpack_rejected lzma_fill_def lzma_decode_def Let_def)
  moreover have "z_err z2 = ERR_ERROR" "bz_err b2 = ERR_ERROR" "xz_err x2 = ERR_ERROR"
    by (simp_all add: z2_def b2_def x2_def)
  ultimately show ?thesis by (auto simp: zlib_read_def bz_read_def lzma_read_def)
qed

lemma demo_file_read: "bs \<noteq> [] \<Longrightarrow> length bs \<le> n \<Longrightarrow> \<exists>p'. stdio_read (demo_file bs) a n = Some (int (length bs), bs, p')"
  by (simp add: stdio_read_def posix_read_def demo_file_def demo_fd_def fd_rest_def)

theorem corrupt_looks_like_eof_witness:
  "\<exists>z' b' x'. zlib_read spell_z stdio_read (demo_z [7, 7]) 0 4 = Some (0, [], z') \<and>
     bz_read spell_b stdio_read (demo_b [7, 7]) 0 4 = Some (0, [], b') \<and>
     lzma_read spell_x stdio_read (demo_x [7, 7]) 0 4 = Some (0, [], x')"
proof -
  obtain p' where rd: "stdio_read (demo_file [7, 7]) 0 WANDIO_BUFFER_SIZE = Some (int (length [7::byte, 7]), [7, 7], p')"
    using demo_file_read [of "[7, 7]" WANDIO_BUFFER_SIZE 0] by (auto simp: WANDIO_BUFFER_SIZE_def)
  have opens: "zlib_open spell_z 0 (Some (demo_file [7, 7])) = Some (demo_z [7, 7])"
    "bz_open spell_b 0 (Some (demo_file [7, 7])) = Some (demo_b [7, 7])"
    "lzma_open spell_x LZMA_OK 0 (Some (demo_file [7, 7])) = Some (demo_x [7, 7])"
    by (simp_all add: zlib_open_def demo_z_def bz_open_def demo_b_def lzma_open_def demo_x_def spell_decoder_def)
  have rej: "dec_run spell_z (dec_init spell_z) [7, 7] 4 = (Z_DATA_ERROR, 0, [], At)"
    "dec_run spell_b (dec_init spell_b) [7, 7] 4 = (BZ_ERROR, 0, [], At)"
    "dec_run spell_x (dec_init spell_x) [7, 7] 4 = (LZMA_DATA_ERROR, 0, [], At)"
    by (simp_all add: spell_decoder_def)
  have "(0::nat) < 4" "(4::nat) < 2 ^ 31" "[7::byte, 7] \<noteq> []" "length [7::byte, 7] \<le> WANDIO_BUFFER_SIZE"
    by (simp_all add: WANDIO_BUFFER_SIZE_def)
  from corrupt_looks_like_eof [where prd = stdio_read and p = "demo_file [7, 7]" and zdec = spell_z
        and bdec = spell_b and xdec = spell_x, OF this(1,2) rd this(3,4) opens(1) rej(1) opens(2) rej(2) opens(3) rej(3), of 0]
  show ?thesis by blast
qed

end
