(* ===== verification/Codec_Writer.thy ===== *)
theory Codec_Writer
  imports Codec
begin

text \<open>
  What \<^verbatim>\<open>lib/iow-zlib.c\<close>, \<^verbatim>\<open>lib/iow-bzip.c\<close> and \<^verbatim>\<open>lib/iow-lzma.c\<close> have in common: the same
  struct in three orders of its fields, the same write loop but for the codes that count as
  success, and the same loop on closing but for the codes that keep it going. Those codes are the
  parameters \<open>oks\<close> and \<open>go\<close> here; the encoder is a parameter of the model.
\<close>

section \<open>State and operations\<close>

text \<open>\<open>pw_in\<close> is \<open>next_in\<close> with \<open>avail_in\<close> bytes, \<open>pw_out\<close> the part of \<open>outbuff\<close> before
  \<open>next_out\<close>; \<open>avail_out\<close> is the rest of its \<open>WANDIO_BUFFER_SIZE\<close> bytes.\<close>

record ('w, 'e) packw_t =
  pw_strm :: 'e
  pw_in :: "byte list"
  pw_out :: "byte list"
  pw_child :: 'w
  pw_err :: err_t

definition pw_room :: "('w, 'e) packw_t \<Rightarrow> nat" where
  "pw_room w = WANDIO_BUFFER_SIZE - length (pw_out w)"

definition pack_wopen :: "('c, 'e) encoder \<Rightarrow> 'w option \<Rightarrow> int \<Rightarrow> ('w, 'e) packw_t option" where
  "pack_wopen enc child compress_level =
     (case child of None \<Rightarrow> None
      | Some c \<Rightarrow> Some \<lparr>pw_strm = enc_init enc compress_level, pw_in = [], pw_out = [],
          pw_child = c, pw_err = ERR_OK\<rparr>)"

text \<open>
  The inner loop, while \<open>avail_out <= 0\<close>: the whole buffer goes to the child. A write that is
  not refused empties it, so the loop goes round at most once. \<open>Inl\<close> is a return from the call.
\<close>

definition pack_drain ::
  "'w iow_source_t \<Rightarrow> nat \<Rightarrow> ('w, 'e) packw_t \<Rightarrow> ((int \<times> ('w, 'e) packw_t) + ('w, 'e) packw_t) option" where
  "pack_drain csrc len w =
     (if 0 < pw_room w then Some (Inr w)
      else do {
        (r, c) \<leftarrow> wandio_wwrite csrc (pw_child w) (pw_out w);
        let bytes_written = c_int r;
        let w = w\<lparr>pw_child := c\<rparr>;
        Some
         (if bytes_written \<le> 0 then
            (if length (pw_in w) \<noteq> c_uint (int len)
             then Inl (int len - int (length (pw_in w)), w\<lparr>pw_err := ERR_ERROR\<rparr>)
             else Inl (-1, w\<lparr>pw_err := ERR_ERROR\<rparr>))
          else Inr (w\<lparr>pw_out := []\<rparr>)) })"

definition pack_encode :: "'c set \<Rightarrow> ('c, 'e) encoder \<Rightarrow> ('w, 'e) packw_t \<Rightarrow> ('w, 'e) packw_t" where
  "pack_encode oks enc w =
     (case enc_run enc (pw_strm w) NO_FLUSH (pw_in w) (pw_room w) of (code, k, out, e) \<Rightarrow>
        w\<lparr>pw_strm := e, pw_in := drop k (pw_in w), pw_out := pw_out w @ out,
          pw_err := (if code \<in> oks then ERR_OK else ERR_ERROR)\<rparr>)"

definition pack_pass ::
  "'w iow_source_t \<Rightarrow> 'c set \<Rightarrow> ('c, 'e) encoder \<Rightarrow> nat \<Rightarrow> ('w, 'e) packw_t \<Rightarrow>
    ((int \<times> ('w, 'e) packw_t) + ('w, 'e) packw_t) option" where
  "pack_pass csrc oks enc len w =
     (if pw_err w = ERR_OK \<and> pw_in w \<noteq> [] then
        do { x \<leftarrow> pack_drain csrc len w;
             case x of Inl res \<Rightarrow> Some (Inl res) | Inr w' \<Rightarrow> Some (Inr (pack_encode oks enc w')) }
      else Some (Inl (int len - int (length (pw_in w)), w)))"

text \<open>\<open>strm.avail_in = len\<close> is an \<^verbatim>\<open>unsigned int\<close>.\<close>

definition pack_wwrite :: "'w iow_source_t \<Rightarrow> 'c set \<Rightarrow> ('c, 'e) encoder \<Rightarrow> ('w, 'e) packw_t write_fn" where
  "pack_wwrite csrc oks enc w buffer =
     (case pw_err w of
        ERR_EOF \<Rightarrow> Some (0, w)
      | ERR_ERROR \<Rightarrow> Some (-1, w)
      | ERR_OK \<Rightarrow> c_loop (pack_pass csrc oks enc (length buffer))
          (w\<lparr>pw_in := take (c_uint (int (length buffer))) buffer\<rparr>))"

text \<open>Closing: finish the stream, emptying the buffer as long as the code says \<open>go\<close>; what the
  child makes of the writes is not looked at.\<close>

definition pack_finish_pass ::
  "'w iow_source_t \<Rightarrow> ('c \<Rightarrow> bool) \<Rightarrow> ('c, 'e) encoder \<Rightarrow> ('w, 'e) packw_t \<Rightarrow>
    (('w, 'e) packw_t + ('w, 'e) packw_t) option" where
  "pack_finish_pass csrc go enc w =
     (case enc_run enc (pw_strm w) FINISH (pw_in w) (pw_room w) of (code, k, out, e) \<Rightarrow>
        let w1 = w\<lparr>pw_strm := e, pw_in := drop k (pw_in w), pw_out := pw_out w @ out\<rparr>
        in if go code
           then do { (_, c) \<leftarrow> wandio_wwrite csrc (pw_child w1) (pw_out w1);
                     Some (Inr (w1\<lparr>pw_child := c, pw_out := []\<rparr>)) }
           else Some (Inl w1))"

definition pack_wclose ::
  "'w iow_source_t \<Rightarrow> ('c \<Rightarrow> bool) \<Rightarrow> ('c, 'e) encoder \<Rightarrow> ('w, 'e) packw_t \<Rightarrow> ('w, 'e) packw_t option" where
  "pack_wclose csrc go enc w =
     do { w1 \<leftarrow> c_loop (pack_finish_pass csrc go enc) w;
          (_, c1) \<leftarrow> wandio_wwrite csrc (pw_child w1) (pw_out w1);
          c2 \<leftarrow> wandio_wdestroy csrc c1;
          Some (w1\<lparr>pw_child := c2\<rparr>) }"

section \<open>Invariant\<close>

text \<open>What the encoder has produced is in the child, after what was there (\<open>base\<close>), and in the
  buffer.\<close>

definition pack_core ::
  "('w \<Rightarrow> bool) \<Rightarrow> ('w \<Rightarrow> byte list) \<Rightarrow> 'e enc_view \<Rightarrow> byte list \<Rightarrow> ('w, 'e) packw_t \<Rightarrow> bool" where
  "pack_core cwinv csunk v base w \<longleftrightarrow> cwinv (pw_child w) \<and> length (pw_out w) \<le> WANDIO_BUFFER_SIZE \<and>
     csunk (pw_child w) @ pw_out w = base @ made v (pw_strm w)"

definition pack_inv ::
  "('w \<Rightarrow> bool) \<Rightarrow> ('w \<Rightarrow> byte list) \<Rightarrow> 'e enc_view \<Rightarrow> byte list \<Rightarrow> ('w, 'e) packw_t \<Rightarrow> bool" where
  "pack_inv cwinv csunk v base w \<longleftrightarrow> pack_core cwinv csunk v base w \<and> pw_err w = ERR_OK \<and>
     live v (pw_strm w) \<and> pw_in w = []"

definition pack_sunk :: "'e enc_view \<Rightarrow> ('w, 'e) packw_t \<Rightarrow> byte list" where
  "pack_sunk v w = given v (pw_strm w)"

text \<open>In the middle of a write: of \<open>whole\<close>, what is not in \<open>pw_in\<close> any more has been given to
  the encoder.\<close>

definition pack_mid ::
  "('w \<Rightarrow> bool) \<Rightarrow> ('w \<Rightarrow> byte list) \<Rightarrow> 'e enc_view \<Rightarrow> byte list \<Rightarrow> byte list \<Rightarrow> ('w, 'e) packw_t \<Rightarrow> bool" where
  "pack_mid cwinv csunk v base whole w \<longleftrightarrow> pack_core cwinv csunk v base w \<and> pw_err w = ERR_OK \<and>
     live v (pw_strm w) \<and> given v (pw_strm w) @ pw_in w = whole"

locale packing = child: writer "wsrc_write csrc" cwinv csunk
  for csrc :: "'w iow_source_t" and cwinv csunk +
  fixes oks :: "'c set" and enc :: "('c, 'e) encoder" and v :: "'e enc_view"
  assumes runs: "encoder_runs oks enc v"
begin

lemma child_takes_buffer:
  assumes "cwinv c" "length bs \<le> WANDIO_BUFFER_SIZE"
  obtains c' where "wandio_wwrite csrc c bs = Some (int (length bs), c')" "cwinv c'"
    "csunk c' = csunk c @ bs" "c_int (int (length bs)) = int (length bs)"
proof -
  from assms(2) have "length bs < 2 ^ 30" by (simp add: WANDIO_BUFFER_SIZE_def)
  from child.wr_ok [OF assms(1) this] that c_int_id_nat [of "length bs"] \<open>length bs < 2 ^ 30\<close>
  show thesis by (auto simp: wandio_wwrite_def)
qed

lemma pack_drain_good:
  assumes "pack_mid cwinv csunk v base whole w"
  obtains w' where "pack_drain csrc len w = Some (Inr w')" "pack_mid cwinv csunk v base whole w'"
    "0 < pw_room w'" "pw_in w' = pw_in w" "pw_strm w' = pw_strm w"
proof (cases "0 < pw_room w")
  case True
  with assms that show thesis by (simp add: pack_drain_def)
next
  case False
  from assms have core: "cwinv (pw_child w)" "length (pw_out w) \<le> WANDIO_BUFFER_SIZE"
    "csunk (pw_child w) @ pw_out w = base @ made v (pw_strm w)"
    by (simp_all add: pack_mid_def pack_core_def)
  then have full: "length (pw_out w) = WANDIO_BUFFER_SIZE" using False by (simp add: pw_room_def)
  obtain c' where c': "wandio_wwrite csrc (pw_child w) (pw_out w) = Some (int (length (pw_out w)), c')"
    "cwinv c'" "csunk c' = csunk (pw_child w) @ pw_out w" "c_int (int (length (pw_out w))) = int (length (pw_out w))"
    using child_takes_buffer [OF core(1,2)] .
  show thesis
    by (rule that [of "w\<lparr>pw_child := c', pw_out := []\<rparr>"])
      (use c' core full False assms in \<open>auto simp: pack_drain_def pack_mid_def pack_core_def pw_room_def\<close>)
qed

lemma pack_encode_good:
  assumes "pack_mid cwinv csunk v base whole w" "pw_in w \<noteq> []" "0 < pw_room w"
  shows "pack_mid cwinv csunk v base whole (pack_encode oks enc w)"
    "(pack_encode oks enc w, w) \<in> measures [\<lambda>w. length (pw_in w), \<lambda>w. backlog v (pw_strm w)]"
proof -
  obtain c k out e where run: "enc_run enc (pw_strm w) NO_FLUSH (pw_in w) (pw_room w) = (c, k, out, e)"
    by (metis prod_cases4)
  from assms(1) have "live v (pw_strm w)" by (simp add: pack_mid_def)
  note law = encoder_runsD [OF runs run assms(2,3) this]
  show "pack_mid cwinv csunk v base whole (pack_encode oks enc w)"
    using assms(1) law run by (auto simp: pack_encode_def pack_mid_def pack_core_def pw_room_def)
  show "(pack_encode oks enc w, w) \<in> measures [\<lambda>w. length (pw_in w), \<lambda>w. backlog v (pw_strm w)]"
    using assms(2) law(2,7) run by (auto simp: pack_encode_def)
qed

lemma pack_wwrite_ok:
  assumes "pack_inv cwinv csunk v base w" "length bs < 2 ^ 31"
  shows "\<exists>w'. pack_wwrite csrc oks enc w bs = Some (int (length bs), w') \<and>
    pack_inv cwinv csunk v base w' \<and> pack_sunk v w' = pack_sunk v w @ bs"
proof -
  from assms(2) have uint: "c_uint (int (length bs)) = length bs" by (intro c_uint_id) simp
  let ?whole = "pack_sunk v w @ bs"
  let ?R = "measures [\<lambda>w. length (pw_in w), \<lambda>w. backlog v (pw_strm w)]"
  have start: "pack_mid cwinv csunk v base ?whole (w\<lparr>pw_in := bs\<rparr>)"
    using assms(1) by (simp add: pack_inv_def pack_mid_def pack_core_def pack_sunk_def)
  have "\<exists>r. c_loop (pack_pass csrc oks enc (length bs)) (w\<lparr>pw_in := bs\<rparr>) = Some r \<and>
    fst r = int (length bs) \<and> pack_mid cwinv csunk v base ?whole (snd r) \<and> pw_in (snd r) = []"
  proof (rule c_loop_wf [where I = "pack_mid cwinv csunk v base ?whole", OF wf_measures start])
    fix w assume mid: "pack_mid cwinv csunk v base ?whole w"
    show "(\<exists>r. pack_pass csrc oks enc (length bs) w = Some (Inl r) \<and> fst r = int (length bs) \<and>
        pack_mid cwinv csunk v base ?whole (snd r) \<and> pw_in (snd r) = []) \<or>
      (\<exists>w'. pack_pass csrc oks enc (length bs) w = Some (Inr w') \<and>
        pack_mid cwinv csunk v base ?whole w' \<and> (w', w) \<in> ?R)"
    proof (cases "pw_in w = []")
      case True
      with mid show ?thesis by (simp add: pack_pass_def)
    next
      case False
      obtain w' where w': "pack_drain csrc (length bs) w = Some (Inr w')"
        "pack_mid cwinv csunk v base ?whole w'" "0 < pw_room w'" "pw_in w' = pw_in w" "pw_strm w' = pw_strm w"
        using pack_drain_good [OF mid] .
      note pack_encode_good [OF w'(2) _ w'(3)]
      with w' False mid show ?thesis by (auto simp: pack_pass_def pack_mid_def)
    qed
  qed
  then obtain w' where "c_loop (pack_pass csrc oks enc (length bs)) (w\<lparr>pw_in := bs\<rparr>) = Some (int (length bs), w')"
    "pack_mid cwinv csunk v base ?whole w'" "pw_in w' = []" by auto
  with assms(1) uint show ?thesis
    by (auto simp: pack_wwrite_def pack_inv_def pack_mid_def pack_sunk_def)
qed

end

sublocale packing \<subseteq> pw: writer "pack_wwrite csrc oks enc" "pack_inv cwinv csunk v base" "pack_sunk v"
  by unfold_locales (rule pack_wwrite_ok, simp_all)

text \<open>Closing, when \<open>go\<close> holds of just the codes that ask for more room.\<close>

context packing
begin

lemma pack_finish_pass_good:
  assumes fin: "encoder_finishes fin again enc v stream" and go: "\<not> go fin" "\<forall>c\<in>again. go c"
    and core: "pack_core cwinv csunk v base w" "pw_in w = []"
    and life: "live v (pw_strm w) \<or> ending v (pw_strm w) \<and> 0 < pw_room w"
  shows "(\<exists>w1. pack_finish_pass csrc go enc w = Some (Inl w1) \<and> pack_core cwinv csunk v base w1 \<and>
      stream (made v (pw_strm w1)) (pack_sunk v w)) \<or>
    (\<exists>w1. pack_finish_pass csrc go enc w = Some (Inr w1) \<and> pack_core cwinv csunk v base w1 \<and>
      pw_in w1 = [] \<and> (ending v (pw_strm w1) \<and> 0 < pw_room w1) \<and> pack_sunk v w1 = pack_sunk v w \<and>
      (w1, w) \<in> measures [\<lambda>w. backlog v (pw_strm w), \<lambda>w. length (pw_out w)])"
proof -
  obtain c k out e where run: "enc_run enc (pw_strm w) FINISH [] (pw_room w) = (c, k, out, e)"
    by (metis prod_cases4)
  note law = encoder_finishesD [OF fin run life]
  let ?w = "w\<lparr>pw_strm := e, pw_in := [], pw_out := pw_out w @ out\<rparr>"
  have core1: "pack_core cwinv csunk v base ?w"
    using core law(1,2) by (auto simp: pack_core_def pw_room_def)
  from law(4) show ?thesis
  proof (elim disjE conjE)
    assume "c = fin" "stream (made v e) (given v (pw_strm w))"
    with run core core1 go(1) show ?thesis by (auto simp: pack_finish_pass_def pack_sunk_def)
  next
    assume more: "c \<in> again" "ending v e" "0 < pw_room w \<longrightarrow> backlog v e < backlog v (pw_strm w)"
      "backlog v e \<le> backlog v (pw_strm w)"
    obtain c' where c': "wandio_wwrite csrc (pw_child ?w) (pw_out ?w) = Some (int (length (pw_out ?w)), c')"
      "cwinv c'" "csunk c' = csunk (pw_child ?w) @ pw_out ?w"
      using core1 child_takes_buffer [of "pw_child ?w" "pw_out ?w"] unfolding pack_core_def by blast
    let ?w1 = "?w\<lparr>pw_child := c', pw_out := []\<rparr>"
    have "pack_finish_pass csrc go enc w = Some (Inr ?w1)"
      using run core(2) more(1) go(2) c'(1) by (simp add: pack_finish_pass_def)
    moreover have "pack_core cwinv csunk v base ?w1"
      using core1 c'(2,3) by (simp add: pack_core_def)
    moreover have "(?w1, w) \<in> measures [\<lambda>w. backlog v (pw_strm w), \<lambda>w. length (pw_out w)]"
      using more(3,4) by (cases "pw_room w = 0") (auto simp: pw_room_def le_less)
    moreover have "0 < pw_room ?w1" by (simp add: pw_room_def WANDIO_BUFFER_SIZE_def)
    ultimately show ?thesis using more(2) law(3) by (simp add: pack_sunk_def)
  qed
qed

lemma pack_wclose_ok:
  assumes fin: "encoder_finishes fin again enc v stream" and go: "\<not> go fin" "\<forall>c\<in>again. go c"
    and inv: "pack_inv cwinv csunk v base w"
  shows "\<exists>c1 m w1. cwinv c1 \<and> csunk c1 = base @ m \<and> stream m (pack_sunk v w) \<and>
    pack_wclose csrc go enc w = map_option (\<lambda>c2. w1\<lparr>pw_child := c2\<rparr>) (wsrc_close csrc c1)"
proof -
  have "\<exists>w1. c_loop (pack_finish_pass csrc go enc) w = Some w1 \<and> pack_core cwinv csunk v base w1 \<and>
    stream (made v (pw_strm w1)) (pack_sunk v w)"
  proof (rule c_loop_wf [where I = "\<lambda>u. pack_core cwinv csunk v base u \<and> pw_in u = [] \<and>
        (live v (pw_strm u) \<or> ending v (pw_strm u) \<and> 0 < pw_room u) \<and> pack_sunk v u = pack_sunk v w", OF wf_measures])
    show "pack_core cwinv csunk v base w \<and> pw_in w = [] \<and> (live v (pw_strm w) \<or> ending v (pw_strm w) \<and> 0 < pw_room w) \<and>
      pack_sunk v w = pack_sunk v w"
      using inv by (simp add: pack_inv_def)
  next
    fix u assume u: "pack_core cwinv csunk v base u \<and> pw_in u = [] \<and>
      (live v (pw_strm u) \<or> ending v (pw_strm u) \<and> 0 < pw_room u) \<and> pack_sunk v u = pack_sunk v w"
    from u have "pack_core cwinv csunk v base u" "pw_in u = []" "live v (pw_strm u) \<or> ending v (pw_strm u) \<and> 0 < pw_room u"
      by blast+
    from pack_finish_pass_good [OF fin go this] u
    show "(\<exists>w1. pack_finish_pass csrc go enc u = Some (Inl w1) \<and> pack_core cwinv csunk v base w1 \<and>
        stream (made v (pw_strm w1)) (pack_sunk v w)) \<or>
      (\<exists>u'. pack_finish_pass csrc go enc u = Some (Inr u') \<and> (pack_core cwinv csunk v base u' \<and>
        pw_in u' = [] \<and> (live v (pw_strm u') \<or> ending v (pw_strm u') \<and> 0 < pw_room u') \<and> pack_sunk v u' = pack_sunk v w) \<and>
        (u', u) \<in> measures [\<lambda>w. backlog v (pw_strm w), \<lambda>w. length (pw_out w)])"
      by (elim disjE exE conjE) (simp_all only:, blast+)
  qed
  then obtain w1 where loop: "c_loop (pack_finish_pass csrc go enc) w = Some w1"
    and core: "pack_core cwinv csunk v base w1" and str: "stream (made v (pw_strm w1)) (pack_sunk v w)"
    by blast
  obtain c1 where c1: "wandio_wwrite csrc (pw_child w1) (pw_out w1) = Some (int (length (pw_out w1)), c1)"
    "cwinv c1" "csunk c1 = csunk (pw_child w1) @ pw_out w1"
    using core child_takes_buffer [of "pw_child w1" "pw_out w1"] unfolding pack_core_def by blast
  have "csunk c1 = base @ made v (pw_strm w1)" using c1(3) core by (simp add: pack_core_def)
  moreover have "pack_wclose csrc go enc w = map_option (\<lambda>c2. w1\<lparr>pw_child := c2\<rparr>) (wsrc_close csrc c1)"
    using loop c1(1) by (cases "wsrc_close csrc c1") (simp_all add: pack_wclose_def wandio_wdestroy_def)
  ultimately show ?thesis using c1(2) str by blast
qed

end

lemma pack_wopen_inv:
  assumes "encoder_runs oks enc v" "pack_wopen enc (Some c) level = Some w" "cwinv c"
  shows "pack_inv cwinv csunk v (csunk c) w" "pack_sunk v w = []"
  using assms encoder_runs_init [OF assms(1), of level]
  by (auto simp: pack_wopen_def pack_inv_def pack_core_def pack_sunk_def)

end
