(* ===== verification/Codec_Writers.thy ===== *)
theory Codec_Writers
  imports Codec_Writer Codec_Readers Thread_Writer
begin

text \<open>
  The compressing writers: \<^verbatim>\<open>lib/iow-zlib.c\<close>, \<^verbatim>\<open>lib/iow-bzip.c\<close> and \<^verbatim>\<open>lib/iow-lzma.c\<close>. Each
  instantiates the shared loops with the codes its source tests for, and adds its flush
  operation. The properties follow the data from \<open>wwrite\<close> to the file and back through the
  matching reader.
\<close>

section \<open>zlib\<close>

type_synonym ('w, 'e) zlibw_t = "('w, 'e) packw_t"

definition zlib_wopen :: "(zlib_ret, 'e) encoder \<Rightarrow> 'w option \<Rightarrow> int \<Rightarrow> ('w, 'e) zlibw_t option" where
  "zlib_wopen = pack_wopen"

definition zlib_wwrite :: "'w iow_source_t \<Rightarrow> (zlib_ret, 'e) encoder \<Rightarrow> ('w, 'e) zlibw_t write_fn" where
  "zlib_wwrite csrc enc = pack_wwrite csrc {Z_OK} enc"

text \<open>A single call of \<open>deflate\<close> with \<open>Z_SYNC_FLUSH\<close>; a failure of the child leaves the buffer as
  it is.\<close>

definition zlib_wflush :: "'w iow_source_t \<Rightarrow> (zlib_ret, 'e) encoder \<Rightarrow> ('w, 'e) zlibw_t flush_fn" where
  "zlib_wflush csrc enc w =
     (case enc_run enc (pw_strm w) SYNC_FLUSH (pw_in w) (pw_room w) of (code, k, out, e) \<Rightarrow>
        let w1 = w\<lparr>pw_strm := e, pw_in := drop k (pw_in w), pw_out := pw_out w @ out\<rparr>
        in if code = Z_STREAM_ERROR then Some (-1, w1\<lparr>pw_err := ERR_ERROR\<rparr>)
           else do {
             (r, c) \<leftarrow> wandio_wwrite csrc (pw_child w1) (pw_out w1);
             if c_int r < 0 then Some (c_int r, w1\<lparr>pw_child := c, pw_err := ERR_ERROR\<rparr>)
             else do {
               (res, c1) \<leftarrow> wandio_wflush csrc (Some c);
               c2 \<leftarrow> c1;
               if res < 0 then Some (res, w1\<lparr>pw_child := c2, pw_err := ERR_ERROR\<rparr>)
               else Some (res, w1\<lparr>pw_child := c2, pw_out := []\<rparr>) } })"

text \<open>The loop goes on unless the stream is complete or \<open>deflate\<close> reports \<open>Z_STREAM_ERROR\<close>.\<close>

definition zlib_wclose :: "'w iow_source_t \<Rightarrow> (zlib_ret, 'e) encoder \<Rightarrow> ('w, 'e) zlibw_t \<Rightarrow> ('w, 'e) zlibw_t option" where
  "zlib_wclose csrc enc = pack_wclose csrc (\<lambda>code. code \<noteq> Z_STREAM_END \<and> code \<noteq> Z_STREAM_ERROR) enc"

definition zlib_wsource :: "'w iow_source_t \<Rightarrow> (zlib_ret, 'e) encoder \<Rightarrow> ('w, 'e) zlibw_t iow_source_t" where
  "zlib_wsource csrc enc = \<lparr>wsrc_name = ''zlibw'', wsrc_write = zlib_wwrite csrc enc,
     wsrc_flush = zlib_wflush csrc enc, wsrc_close = zlib_wclose csrc enc\<rparr>"

section \<open>bzip2\<close>

type_synonym ('w, 'e) bzw_t = "('w, 'e) packw_t"

definition bz_wopen :: "(bz_ret, 'e) encoder \<Rightarrow> 'w option \<Rightarrow> int \<Rightarrow> ('w, 'e) bzw_t option" where
  "bz_wopen = pack_wopen"

definition bz_wwrite :: "'w iow_source_t \<Rightarrow> (bz_ret, 'e) encoder \<Rightarrow> ('w, 'e) bzw_t write_fn" where
  "bz_wwrite csrc enc = pack_wwrite csrc {BZ_RUN_OK, BZ_OK} enc"

definition bz_wflush :: "('w, 'e) bzw_t flush_fn" where
  "bz_wflush w = Some (-1, w)"

definition bz_wclose :: "'w iow_source_t \<Rightarrow> (bz_ret, 'e) encoder \<Rightarrow> ('w, 'e) bzw_t \<Rightarrow> ('w, 'e) bzw_t option" where
  "bz_wclose csrc enc = pack_wclose csrc (\<lambda>code. code = BZ_OK) enc"

definition bz_wsource :: "'w iow_source_t \<Rightarrow> (bz_ret, 'e) encoder \<Rightarrow> ('w, 'e) bzw_t iow_source_t" where
  "bz_wsource csrc enc = \<lparr>wsrc_name = ''bzw'', wsrc_write = bz_wwrite csrc enc,
     wsrc_flush = bz_wflush, wsrc_close = bz_wclose csrc enc\<rparr>"

section \<open>lzma\<close>

type_synonym ('w, 'e) lzmaw_t = "('w, 'e) packw_t"

text \<open>\<open>easy_encoder\<close> is the result of \<^verbatim>\<open>lzma_easy_encoder\<close>.\<close>

definition lzma_wopen ::
  "(lzma_ret, 'e) encoder \<Rightarrow> lzma_ret \<Rightarrow> 'w option \<Rightarrow> int \<Rightarrow> ('w, 'e) lzmaw_t option" where
  "lzma_wopen enc easy_encoder iow compress_level =
     (if iow \<noteq> None \<and> easy_encoder \<noteq> LZMA_OK then None else pack_wopen enc iow compress_level)"

definition lzma_wwrite :: "'w iow_source_t \<Rightarrow> (lzma_ret, 'e) encoder \<Rightarrow> ('w, 'e) lzmaw_t write_fn" where
  "lzma_wwrite csrc enc = pack_wwrite csrc {LZMA_OK} enc"

definition lzma_wflush :: "('w, 'e) lzmaw_t flush_fn" where
  "lzma_wflush w = Some (0, w)"

definition lzma_wclose :: "'w iow_source_t \<Rightarrow> (lzma_ret, 'e) encoder \<Rightarrow> ('w, 'e) lzmaw_t \<Rightarrow> ('w, 'e) lzmaw_t option" where
  "lzma_wclose csrc enc = pack_wclose csrc (\<lambda>code. code = LZMA_OK) enc"

definition lzma_wsource :: "'w iow_source_t \<Rightarrow> (lzma_ret, 'e) encoder \<Rightarrow> ('w, 'e) lzmaw_t iow_source_t" where
  "lzma_wsource csrc enc = \<lparr>wsrc_name = ''xz'', wsrc_write = lzma_wwrite csrc enc,
     wsrc_flush = lzma_wflush, wsrc_close = lzma_wclose csrc enc\<rparr>"

section \<open>On the model's own writers\<close>

abbreviation spell_zw :: "(zlib_ret, byte list \<times> byte list) encoder" where
  "spell_zw \<equiv> spell_encoder Z_OK Z_BUF_ERROR Z_STREAM_END"

abbreviation spell_bw :: "(bz_ret, byte list \<times> byte list) encoder" where
  "spell_bw \<equiv> spell_encoder BZ_RUN_OK BZ_FINISH_OK BZ_STREAM_END"

abbreviation spell_xw :: "(lzma_ret, byte list \<times> byte list) encoder" where
  "spell_xw \<equiv> spell_encoder LZMA_OK LZMA_OK LZMA_STREAM_END"

lemma stdio_wsrc [simp]: "wsrc_write stdio_wsource = stdio_wwrite" "wsrc_flush stdio_wsource = stdio_wflush"
  by (simp_all add: stdio_wsource_def)

interpretation zlib_stdio: packing stdio_wsource stdio_winv stdio_sunk "{Z_OK}" spell_zw spell_view
  by unfold_locales (simp_all add: stdiow.wr_ok spell_encoder_runs)

lemma packingI:
  "writer (wsrc_write csrc) cwinv csunk \<Longrightarrow> encoder_runs oks enc v \<Longrightarrow> packing csrc cwinv csunk oks enc v"
  by (intro packing.intro packing_axioms.intro)

lemma encoder_runs_mono: "encoder_runs oks enc v \<Longrightarrow> oks \<subseteq> oks' \<Longrightarrow> encoder_runs oks' enc v"
  unfolding encoder_runs_def by blast

text \<open>A list of writes and a close through a compressing writer.\<close>

lemma packw_file:
  assumes "writer (wsrc_write csrc) cwinv csunk" "encoder_runs oks enc v"
    and fin: "encoder_finishes fin again enc v stream" "\<not> go fin" "\<forall>c\<in>again. go c"
    and start: "pack_wopen enc (Some c) level = Some w" "cwinv c" "csunk c = []"
    and "\<forall>bs\<in>set bss. length bs < 2 ^ 30"
  shows "\<exists>w1 c1 w2. write_list (pack_wwrite csrc oks enc) w bss = Some w1 \<and> cwinv c1 \<and>
    stream (csunk c1) (concat bss) \<and>
    pack_wclose csrc go enc w1 = map_option (\<lambda>c2. w2\<lparr>pw_child := c2\<rparr>) (wsrc_close csrc c1)"
proof -
  note pk = packingI [OF assms(1,2)]
  note w0 = pack_wopen_inv(1) [where csunk = csunk and cwinv = cwinv, OF assms(2) start(1,2)]
    pack_wopen_inv(2) [where cwinv = cwinv, OF assms(2) start(1,2)]
  have wr: "writer (pack_wwrite csrc oks enc) (pack_inv cwinv csunk v []) (pack_sunk v)"
    using packing.pack_wwrite_ok [OF pk] by unfold_locales force
  from writer.write_list_ok [OF wr _ assms(9), of w] w0 start(3) obtain w1 where
    w1: "write_list (pack_wwrite csrc oks enc) w bss = Some w1" "pack_inv cwinv csunk v [] w1"
      "pack_sunk v w1 = concat bss" by auto
  from packing.pack_wclose_ok [OF pk fin w1(2)] w1 show ?thesis by fastforce
qed

lemma zlib_flusher:
  assumes "flusher (wsrc_write csrc) cwinv csunk (wsrc_flush csrc)"
    and runs: "encoder_runs {Z_OK} enc v" and flush: "encoder_flushes Z_STREAM_ERROR enc v"
  shows "flusher (zlib_wwrite csrc enc) (pack_inv cwinv csunk v base) (pack_sunk v) (zlib_wflush csrc enc)"
proof -
  note wr = flusher.axioms(1) [OF assms(1)]
  note pk = packingI [OF wr runs]
  show ?thesis
  proof (intro flusher.intro flusher_axioms.intro)
    show "writer (zlib_wwrite csrc enc) (pack_inv cwinv csunk v base) (pack_sunk v)"
      unfolding zlib_wwrite_def using packing.pack_wwrite_ok [OF pk] by unfold_locales force
  next
    fix w assume inv: "pack_inv cwinv csunk v base w"
    obtain c k out e where run: "enc_run enc (pw_strm w) SYNC_FLUSH [] (pw_room w) = (c, k, out, e)"
      by (metis prod_cases4)
    from inv have live: "live v (pw_strm w)" "pw_in w = []" "cwinv (pw_child w)"
      "length (pw_out w) \<le> WANDIO_BUFFER_SIZE" "csunk (pw_child w) @ pw_out w = base @ made v (pw_strm w)"
      "pw_err w = ERR_OK"
      by (simp_all add: pack_inv_def pack_core_def)
    note law = encoder_flushesD [OF flush run live(1)]
    have "length (pw_out w @ out) \<le> WANDIO_BUFFER_SIZE" using law(1) live(4) by (simp add: pw_room_def)
    from packing.child_takes_buffer [OF pk live(3) this] obtain c1 where
      c1: "wandio_wwrite csrc (pw_child w) (pw_out w @ out) = Some (int (length (pw_out w @ out)), c1)"
      "cwinv c1" "csunk c1 = csunk (pw_child w) @ pw_out w @ out"
      "c_int (int (length (pw_out w @ out))) = int (length (pw_out w @ out))" .
    from flusher.fl_ok [OF assms(1) c1(2)] obtain r c2 where
      c2: "wsrc_flush csrc c1 = Some (r, c2)" "0 \<le> r" "cwinv c2" "csunk c2 = csunk c1" by blast
    let ?w = "w\<lparr>pw_strm := e, pw_in := [], pw_out := [], pw_child := c2\<rparr>"
    have "zlib_wflush csrc enc w = Some (r, ?w)"
      using run live(2) law(2) c1(1,4) c2(1,2) by (simp add: zlib_wflush_def wandio_wflush_def)
    moreover have "pack_inv cwinv csunk v base ?w"
      using live c1(3) c2(3,4) law(3,4) by (simp add: pack_inv_def pack_core_def)
    ultimately show "\<exists>r w'. zlib_wflush csrc enc w = Some (r, w') \<and> 0 \<le> r \<and>
        pack_inv cwinv csunk v base w' \<and> pack_sunk v w' = pack_sunk v w"
      using c2(2) law(5) by (auto simp: pack_sunk_def)
  qed
qed

section \<open>Properties\<close>

text \<open>C13: whatever is written through the gzip or the xz writer, in whatever pieces, closing it leaves
  the child, just before it is closed itself, having accepted one complete stream for exactly
  those bytes: no call aborts or blocks, every call returns its length, and the closing loops end.
  The encoders are promised to return a good code only while they have room for output or still get
  on; liblzma may answer a repeated call without room by \<^verbatim>\<open>LZMA_BUF_ERROR\<close>, a call the loops never
  make.\<close>

theorem codec_write_then_close:
  assumes "writer (wsrc_write csrc) cwinv csunk" "cwinv c" "csunk c = []"
    and "\<forall>bs\<in>set bss. length bs < 2 ^ 30"
    and "encoder_runs {Z_OK} zenc zv" "encoder_finishes Z_STREAM_END {Z_OK, Z_BUF_ERROR} zenc zv zstream"
    and "zlib_wopen zenc (Some c) level = Some z"
    and "encoder_runs {LZMA_OK} xenc xv" "encoder_finishes LZMA_STREAM_END {LZMA_OK} xenc xv xstream"
    and "lzma_wopen xenc LZMA_OK (Some c) level = Some x"
  shows "(\<exists>z1 c1 z2. write_list (zlib_wwrite csrc zenc) z bss = Some z1 \<and> cwinv c1 \<and>
      zstream (csunk c1) (concat bss) \<and>
      zlib_wclose csrc zenc z1 = map_option (\<lambda>c2. z2\<lparr>pw_child := c2\<rparr>) (wsrc_close csrc c1)) \<and>
    (\<exists>x1 c1 x2. write_list (lzma_wwrite csrc xenc) x bss = Some x1 \<and> cwinv c1 \<and>
      xstream (csunk c1) (concat bss) \<and>
      lzma_wclose csrc xenc x1 = map_option (\<lambda>c2. x2\<lparr>pw_child := c2\<rparr>) (wsrc_close csrc c1))"
proof
  show "\<exists>z1 c1 z2. write_list (zlib_wwrite csrc zenc) z bss = Some z1 \<and> cwinv c1 \<and>
      zstream (csunk c1) (concat bss) \<and>
      zlib_wclose csrc zenc z1 = map_option (\<lambda>c2. z2\<lparr>pw_child := c2\<rparr>) (wsrc_close csrc c1)"
    unfolding zlib_wwrite_def zlib_wclose_def
    by (rule packw_file [OF assms(1,5,6) _ _ _ assms(2,3,4)]) (use assms(7) in \<open>auto simp: zlib_wopen_def\<close>)
  show "\<exists>x1 c1 x2. write_list (lzma_wwrite csrc xenc) x bss = Some x1 \<and> cwinv c1 \<and>
      xstream (csunk c1) (concat bss) \<and>
      lzma_wclose csrc xenc x1 = map_option (\<lambda>c2. x2\<lparr>pw_child := c2\<rparr>) (wsrc_close csrc c1)"
    unfolding lzma_wwrite_def lzma_wclose_def
    by (rule packw_file [OF assms(1,8,9) _ _ _ assms(2,3,4)]) (use assms(10) in \<open>auto simp: lzma_wopen_def\<close>)
qed

lemma demo_child: "stdio_winv (demo_iow []\<lparr>wbuffer := []\<rparr>)" "stdio_sunk (demo_iow []\<lparr>wbuffer := []\<rparr>) = []"
  by (simp_all add: demo_iow_def demo_ofd_def stdio_winv_def stdio_sunk_def MIN_WRITE_SIZE_def)

lemma spell_x_finishes: "encoder_finishes LZMA_STREAM_END {LZMA_OK} spell_xw spell_view spell_stream"
  by (rule spell_encoder_finishes) simp

lemma encoder_finishes_mono:
  "encoder_finishes fin again enc v stream \<Longrightarrow> again \<subseteq> again' \<Longrightarrow> encoder_finishes fin again' enc v stream"
  unfolding encoder_finishes_def by blast

lemma spell_z_finishes: "encoder_finishes Z_STREAM_END {Z_OK, Z_BUF_ERROR} spell_zw spell_view spell_stream"
  by (rule encoder_finishes_mono [OF spell_encoder_finishes]) auto

text \<open>Two writes over an empty file: the child has accepted \<open>1, 7, 1, 8, 0\<close>.\<close>

theorem codec_write_then_close_witness:
  "\<exists>z z1 c1 z2. zlib_wopen spell_zw (Some (demo_iow []\<lparr>wbuffer := []\<rparr>)) 6 = Some z \<and>
     write_list (zlib_wwrite stdio_wsource spell_zw) z [[7], [8]] = Some z1 \<and>
     stdio_sunk c1 = [1, 7, 1, 8, 0] \<and>
     zlib_wclose stdio_wsource spell_zw z1 = map_option (\<lambda>c2. z2\<lparr>pw_child := c2\<rparr>) (stdio_wclose c1)"
proof -
  obtain z where z: "zlib_wopen spell_zw (Some (demo_iow []\<lparr>wbuffer := []\<rparr>)) 6 = Some z"
    by (simp add: zlib_wopen_def pack_wopen_def)
  obtain x where x: "lzma_wopen spell_xw LZMA_OK (Some (demo_iow []\<lparr>wbuffer := []\<rparr>)) 6 = Some x"
    by (simp add: lzma_wopen_def pack_wopen_def)
  have wr: "writer (wsrc_write stdio_wsource) stdio_winv stdio_sunk" by (simp add: stdiow.writer_axioms)
  from codec_write_then_close [OF wr demo_child _ spell_encoder_runs spell_z_finishes z
      spell_encoder_runs spell_x_finishes x, of "[[7], [8]]"]
  show ?thesis using z by (fastforce simp: spell_stream_def stdio_wsource_def)
qed

text \<open>C14: a gzip stream written through the library reads back: the pieces written to \<open>zlib_wwrite\<close> over
  a stdio writer, closed, give a file; reading that file to the end through \<open>zlib_read\<close> over a
  peeking reader over a stdio reader gives exactly the bytes written and then \<open>0\<close>, whatever short
  reads the kernel produces. Only when a \<^verbatim>\<open>read(2)\<close> fails can the result be negative, and then
  what was read is a beginning of the bytes written.\<close>

theorem gzip_file_roundtrip:
  assumes "encoder_runs {Z_OK} enc v" "encoder_finishes Z_STREAM_END {Z_OK, Z_BUF_ERROR} enc v stream"
    and "decoder_sane Z_OK Z_STREAM_END dec"
    and "decoder_reads Z_OK Z_STREAM_END dec plain (next_member dec plain)"
    and "\<forall>m t. stream m t \<longrightarrow> plain (dec_init dec) m = Some t"
    and "stdio_winv iow" "stdio_sunk iow = []" "zlib_wopen enc (Some iow) level = Some z"
    and "\<forall>bs\<in>set bss. length bs < 2 ^ 30" "0 < n" "n < 2 ^ 31"
  shows "\<exists>z1 z2. write_list (zlib_wwrite stdio_wsource enc) z bss = Some z1 \<and>
    zlib_wclose stdio_wsource enc z1 = Some z2 \<and>
    (\<forall>plan p y. peek_open (Some \<lparr>fd = demo_fd (ofd_out (wfd (pw_child z2))) plan\<rparr>) = Some p \<and>
        zlib_open dec at (Some p) = Some y \<longrightarrow>
      (\<exists>r got y'. read_all (zlib_read dec (peek_read stdio_read alloc_ok)) a n y [] = Some (r, got, y') \<and>
        r \<le> 0 \<and> prefix got (concat bss) \<and> (r = 0 \<longrightarrow> got = concat bss) \<and> (Fail \<notin> set plan \<longrightarrow> r = 0)))"
proof -
  have wr: "writer (wsrc_write stdio_wsource) stdio_winv stdio_sunk" by (simp add: stdiow.writer_axioms)
  obtain z1 c1 w2 where z1: "write_list (zlib_wwrite stdio_wsource enc) z bss = Some z1" "stdio_winv c1"
    "stream (stdio_sunk c1) (concat bss)"
    "zlib_wclose stdio_wsource enc z1 = map_option (\<lambda>c2. w2\<lparr>pw_child := c2\<rparr>) (wsrc_close stdio_wsource c1)"
    using packw_file [OF wr assms(1,2) _ _ _ assms(6,7,9), of "\<lambda>code. code \<noteq> Z_STREAM_END \<and> code \<noteq> Z_STREAM_ERROR" level z]
      assms(8) unfolding zlib_wopen_def zlib_wwrite_def zlib_wclose_def by auto
  from stdio_wclose_clean [OF z1(2)] obtain c2 where
    c2: "stdio_wclose c1 = Some c2" "ofd_out (wfd c2) = stdio_sunk c1" by blast
  let ?z2 = "w2\<lparr>pw_child := c2\<rparr>"
  have close: "zlib_wclose stdio_wsource enc z1 = Some ?z2" using z1(4) c2(1) by (simp add: stdio_wsource_def)
  have "\<exists>r got y'. read_all (zlib_read dec (peek_read stdio_read alloc_ok)) a n y [] = Some (r, got, y') \<and>
        r \<le> 0 \<and> prefix got (concat bss) \<and> (r = 0 \<longrightarrow> got = concat bss) \<and> (Fail \<notin> set plan \<longrightarrow> r = 0)"
    if "peek_open (Some \<lparr>fd = demo_fd (ofd_out (wfd (pw_child ?z2))) plan\<rparr>) = Some p"
      "zlib_open dec at (Some p) = Some y" for plan p y
  proof (rule gzip_file_read [OF assms(3,4) _ _ _ assms(10,11)])
    show "plain (dec_init dec) (stdio_sunk c1) = Some (concat bss)" using assms(5) z1(3) by blast
    show "peek_open (Some \<lparr>fd = demo_fd (stdio_sunk c1) plan\<rparr>) = Some p" using that(1) c2(2) by simp
    show "zlib_open dec at (Some p) = Some y" by (rule that(2))
  qed
  with z1(1) close show ?thesis by blast
qed

lemma spell_reads_back: "\<forall>m t. spell_stream m t \<longrightarrow> spell_plain True (dec_init spell_z) m = Some t"
  using spell_plain_stream [of True] by (simp add: spell_stream_def spell_decoder_def)

text \<open>Two pieces written, and read back with a short read on the way.\<close>

theorem gzip_file_roundtrip_witness:
  "\<exists>z1 z2 p y y'. write_list (zlib_wwrite stdio_wsource spell_zw)
       \<lparr>pw_strm = ([], []), pw_in = [], pw_out = [], pw_child = demo_iow []\<lparr>wbuffer := []\<rparr>, pw_err = ERR_OK\<rparr>
       [[7], [8]] = Some z1 \<and> zlib_wclose stdio_wsource spell_zw z1 = Some z2 \<and>
     peek_open (Some \<lparr>fd = demo_fd (ofd_out (wfd (pw_child z2))) [Short 2]\<rparr>) = Some p \<and>
     zlib_open spell_z 0 (Some p) = Some y \<and>
     read_all (zlib_read spell_z (peek_read stdio_read alloc_ok)) 0 5 y [] = Some (0, [7, 8], y')"
proof -
  have z: "zlib_wopen spell_zw (Some (demo_iow []\<lparr>wbuffer := []\<rparr>)) 6 = Some
      \<lparr>pw_strm = ([], []), pw_in = [], pw_out = [], pw_child = demo_iow []\<lparr>wbuffer := []\<rparr>, pw_err = ERR_OK\<rparr>"
    by (simp add: zlib_wopen_def pack_wopen_def spell_encoder_def)
  have "\<forall>bs\<in>set [[7::byte], [8]]. length bs < 2 ^ 30" "(0::nat) < 5" "(5::nat) < 2 ^ 31" by simp_all
  from gzip_file_roundtrip [OF spell_encoder_runs spell_z_finishes spell_sane(1) spell_decoder_many
      spell_reads_back demo_child z this, of 0 0]
  obtain z1 z2 where written: "write_list (zlib_wwrite stdio_wsource spell_zw)
       \<lparr>pw_strm = ([], []), pw_in = [], pw_out = [], pw_child = demo_iow []\<lparr>wbuffer := []\<rparr>, pw_err = ERR_OK\<rparr>
       [[7], [8]] = Some z1" "zlib_wclose stdio_wsource spell_zw z1 = Some z2"
    and readback: "\<forall>plan p y. peek_open (Some \<lparr>fd = demo_fd (ofd_out (wfd (pw_child z2))) plan\<rparr>) = Some p \<and>
        zlib_open spell_z 0 (Some p) = Some y \<longrightarrow>
      (\<exists>r got y'. read_all (zlib_read spell_z (peek_read stdio_read alloc_ok)) 0 5 y [] = Some (r, got, y') \<and>
        r \<le> 0 \<and> prefix got (concat [[7], [8]]) \<and> (r = 0 \<longrightarrow> got = concat [[7], [8]]) \<and> (Fail \<notin> set plan \<longrightarrow> r = 0))"
    by blast
  obtain p where p: "peek_open (Some \<lparr>fd = demo_fd (ofd_out (wfd (pw_child z2))) [Short 2]\<rparr>) = Some p"
    by (simp add: peek_open_def)
  obtain y where y: "zlib_open spell_z 0 (Some p) = Some y" by (simp add: zlib_open_def)
  from readback [rule_format, OF conjI [OF p y]] written p y show ?thesis by auto
qed

text \<open>\<open>zlib_wflush\<close> over a child that keeps the writer contract: it succeeds, what was accepted
  stays accepted, all that \<open>deflate\<close> produced has gone to the child, and the stream can go on.\<close>

theorem zlib_wflush_keeps_stream:
  assumes "flusher (wsrc_write csrc) cwinv csunk (wsrc_flush csrc)"
    and "encoder_runs {Z_OK} enc v" "encoder_flushes Z_STREAM_ERROR enc v"
    and "pack_inv cwinv csunk v base w"
  shows "\<exists>r w'. zlib_wflush csrc enc w = Some (r, w') \<and> 0 \<le> r \<and> pack_inv cwinv csunk v base w' \<and>
    pack_sunk v w' = pack_sunk v w"
  using flusher.fl_ok [OF zlib_flusher [OF assms(1-3)] assms(4)] by blast

theorem zlib_wflush_keeps_stream_witness:
  "\<exists>r w'. zlib_wflush stdio_wsource spell_zw
       \<lparr>pw_strm = ([7], []), pw_in = [], pw_out = [], pw_child = demo_iow []\<lparr>wbuffer := []\<rparr>, pw_err = ERR_OK\<rparr>
     = Some (r, w') \<and> 0 \<le> r \<and> pack_sunk spell_view w' = [7]"
proof -
  have "encoder_flushes Z_STREAM_ERROR spell_zw spell_view" by (rule spell_encoder_flushes) simp
  moreover have "pack_inv stdio_winv stdio_sunk spell_view [] \<lparr>pw_strm = ([7], []), pw_in = [], pw_out = [],
      pw_child = demo_iow []\<lparr>wbuffer := []\<rparr>, pw_err = ERR_OK\<rparr>"
    using demo_child by (simp add: pack_inv_def pack_core_def spell_view_def spell_live_def)
  ultimately show ?thesis
    using zlib_wflush_keeps_stream [OF stdio_flusher spell_encoder_runs]
    by (fastforce simp: pack_sunk_def spell_view_def)
qed

text \<open>\<open>bz_wclose\<close> calls \<open>BZ2_bzCompress\<close> with \<open>BZ_FINISH\<close> just once, since it loops on
  \<open>BZ_OK\<close> and the library asks for more room with \<open>BZ_FINISH_OK\<close>: when the rest of the stream does
  not fit in the buffer the child is closed with the stream unfinished.\<close>

theorem bz_wclose_drops_tail:
  assumes "writer (wsrc_write csrc) cwinv csunk" "encoder_runs {BZ_RUN_OK} enc v"
    and "encoder_finishes BZ_STREAM_END {BZ_FINISH_OK} enc v stream"
    and "pack_inv cwinv csunk v base w"
    and "enc_run enc (pw_strm w) FINISH [] (pw_room w) = (BZ_FINISH_OK, k, out, e)"
  shows "\<exists>c1 w1. bz_wclose csrc enc w = map_option (\<lambda>c2. w1\<lparr>pw_child := c2\<rparr>) (wsrc_close csrc c1) \<and>
    csunk c1 = base @ made v e \<and> pw_strm w1 = e \<and> ending v e"
proof -
  note pk = packingI [OF assms(1,2)]
  from assms(4) have inv: "live v (pw_strm w)" "pw_in w = []" "cwinv (pw_child w)"
    "length (pw_out w) \<le> WANDIO_BUFFER_SIZE" "csunk (pw_child w) @ pw_out w = base @ made v (pw_strm w)"
    by (simp_all add: pack_inv_def pack_core_def)
  from encoder_finishesD [OF assms(3,5)] inv(1) have law: "length out \<le> pw_room w"
    "made v e = made v (pw_strm w) @ out" "ending v e" by auto
  let ?w = "w\<lparr>pw_strm := e, pw_in := [], pw_out := pw_out w @ out\<rparr>"
  have loop: "c_loop (pack_finish_pass csrc (\<lambda>code. code = BZ_OK) enc) w = Some ?w"
    using assms(5) inv(2) by (intro c_loop_stop) (simp add: pack_finish_pass_def)
  have "length (pw_out w @ out) \<le> WANDIO_BUFFER_SIZE" using law(1) inv(4) by (simp add: pw_room_def)
  from packing.child_takes_buffer [OF pk inv(3) this] obtain c1 where
    "wandio_wwrite csrc (pw_child w) (pw_out w @ out) = Some (int (length (pw_out w @ out)), c1)"
    "csunk c1 = csunk (pw_child w) @ pw_out w @ out" by blast
  with loop law inv(5) show ?thesis
    by (intro exI [of _ c1] exI [of _ ?w], cases "wsrc_close csrc c1")
      (simp_all add: bz_wclose_def pack_wclose_def wandio_wdestroy_def)
qed

text \<open>One byte of room, two bytes and the end mark to go: the file ends after the first of them.\<close>

theorem bz_wclose_drops_tail_witness:
  "\<exists>c1 w1. bz_wclose stdio_wsource spell_bw
       \<lparr>pw_strm = ([65], []), pw_in = [], pw_out = replicate (WANDIO_BUFFER_SIZE - 1) 0,
         pw_child = demo_iow []\<lparr>wbuffer := []\<rparr>, pw_err = ERR_OK\<rparr> =
       map_option (\<lambda>c2. w1\<lparr>pw_child := c2\<rparr>) (wsrc_close stdio_wsource c1) \<and>
     stdio_sunk c1 = replicate (WANDIO_BUFFER_SIZE - 1) 0 @ [1]"
proof -
  let ?w = "\<lparr>pw_strm = ([65], []), pw_in = [], pw_out = replicate (WANDIO_BUFFER_SIZE - 1) (0::byte),
    pw_child = demo_iow []\<lparr>wbuffer := []\<rparr>, pw_err = ERR_OK\<rparr>"
  have wr: "writer (wsrc_write stdio_wsource) stdio_winv stdio_sunk" by (simp add: stdiow.writer_axioms)
  have fin: "encoder_finishes BZ_STREAM_END {BZ_FINISH_OK} spell_bw spell_view spell_stream"
    by (rule spell_encoder_finishes) simp
  have inv: "pack_inv stdio_winv stdio_sunk spell_view (replicate (WANDIO_BUFFER_SIZE - 1) 0) ?w"
    using demo_child by (simp add: pack_inv_def pack_core_def spell_view_def spell_live_def)
  have room: "pw_room ?w = 1" by (simp add: pw_room_def WANDIO_BUFFER_SIZE_def)
  have run: "enc_run spell_bw (pw_strm ?w) FINISH [] (pw_room ?w) = (BZ_FINISH_OK, 0, [1], ([65], [1]))"
    unfolding room by (simp add: spell_encoder_def spell_emit_def spell_due_def)
  from bz_wclose_drops_tail [OF wr spell_encoder_runs fin inv run] show ?thesis
    by (auto simp: spell_view_def)
qed

end
