(* ===== verification/Lzo_Format.thy ===== *)
theory Lzo_Format
  imports Wandio_Io
begin

unbundle bit_operations_syntax

text \<open>
  The byte-level half of \<^verbatim>\<open>lib/iow-lzo.c\<close>: the growing output buffer, big-endian words, the
  lzop file header and the compressed block. liblzo (\<open>lzo1x_1_compress\<close>, \<open>lzo_adler32\<close>,
  \<open>lzo_version\<close>) and the clock are parameters. A reference reader of the block format gives the
  round trip.
\<close>

section \<open>Constants and parameters\<close>

definition MAX_BLOCK_SIZE :: nat where
  "MAX_BLOCK_SIZE = 128 * 1024"

definition MAX_BUFFER_SIZE :: nat where
  "MAX_BUFFER_SIZE = MAX_BLOCK_SIZE + MAX_BLOCK_SIZE div 16 + 64 + 3"

definition F_OS_UNIX :: "32 word" where "F_OS_UNIX = 0x03000000"
definition F_OS_MASK :: "32 word" where "F_OS_MASK = 0xff000000"
definition F_CS_NATIVE :: "32 word" where "F_CS_NATIVE = 0"
definition F_CS_MASK :: "32 word" where "F_CS_MASK = 0x00f00000"
definition F_H_CRC32 :: "32 word" where "F_H_CRC32 = 0x00001000"
definition F_ADLER32_D :: "32 word" where "F_ADLER32_D = 1"
definition M_LZO1X_1 :: byte where "M_LZO1X_1 = 1"

definition lzop_magic :: "byte list" where
  "lzop_magic = [0x89, 0x4c, 0x5a, 0x4f, 0x00, 0x0d, 0x0a, 0x1a, 0x0a]"

datatype lzo_ret = LZO_E_OK | LZO_E_ERROR | LZO_E_OUT_OF_MEMORY | LZO_E_NOT_COMPRESSIBLE
  | LZO_E_INPUT_OVERRUN | LZO_E_OUTPUT_OVERRUN | LZO_E_LOOKBEHIND_OVERRUN | LZO_E_EOF_NOT_FOUND
  | LZO_E_INPUT_NOT_CONSUMED | LZO_E_NOT_YET_IMPLEMENTED | LZO_E_UNKNOWN int

record lzo_env =
  lzo_init_result :: lzo_ret
  lzo1x_1_compress :: "byte list \<Rightarrow> lzo_ret \<times> byte list"
  lzo_adler32 :: "byte list \<Rightarrow> 32 word"
  lzo_crc32 :: "byte list \<Rightarrow> 32 word"
  lzo_version :: "32 word"
  lzo_time :: "32 word"

definition EINVAL :: int where "EINVAL = 22"
definition ENOMEM :: int where "ENOMEM = 12"
definition ENOENT :: int where "ENOENT = 2"
definition ENOSYS :: int where "ENOSYS = 38"

section \<open>The output buffer\<close>

text \<open>A \<open>struct buffer_t\<close> is what it holds below \<open>offset\<close>.\<close>

type_synonym buffer_t = "byte list"

definition write_buf :: "buffer_t \<Rightarrow> byte list \<Rightarrow> buffer_t option" where
  "write_buf buffer data =
     do { c_assert (length buffer + length data < MAX_BUFFER_SIZE); Some (buffer @ data) }"

definition be32 :: "32 word \<Rightarrow> byte list" where
  "be32 v = [ucast (drop_bit 24 v), ucast (drop_bit 16 v), ucast (drop_bit 8 v), ucast v]"

definition be16 :: "16 word \<Rightarrow> byte list" where
  "be16 v = [ucast (drop_bit 8 v), ucast v]"

definition write32 :: "buffer_t \<Rightarrow> 32 word \<Rightarrow> buffer_t option" where
  "write32 buffer value = write_buf buffer (be32 value)"

definition write16 :: "buffer_t \<Rightarrow> 16 word \<Rightarrow> buffer_t option" where
  "write16 buffer value = write_buf buffer (be16 value)"

definition write8 :: "buffer_t \<Rightarrow> byte \<Rightarrow> buffer_t option" where
  "write8 buffer value = write_buf buffer [value]"

section \<open>A block\<close>

text \<open>
  \<open>b2\<close> is what the compressor stored, \<open>dst_len\<close> bytes. The result is the return value and
  \<open>outbuf\<close>, which a failure leaves empty.
\<close>

definition lzo_wwrite_block :: "lzo_env \<Rightarrow> byte list \<Rightarrow> (int \<times> buffer_t) option" where
  "lzo_wwrite_block env buffer =
     (let (err, b2) = lzo1x_1_compress env buffer; len = length buffer; dst_len = length b2
      in case err of
           LZO_E_OK \<Rightarrow> do {
             o1 \<leftarrow> write32 [] (word_of_nat len);
             c_assert (0 < len);
             o2 \<leftarrow> write32 o1 (if dst_len < len then word_of_nat dst_len else word_of_nat len);
             o3 \<leftarrow> write32 o2 (lzo_adler32 env buffer);
             o4 \<leftarrow> write_buf o3 (if dst_len < len then b2 else buffer);
             Some (int len, o4) }
         | LZO_E_ERROR \<Rightarrow> Some (- EINVAL, [])
         | LZO_E_OUT_OF_MEMORY \<Rightarrow> Some (- ENOMEM, [])
         | LZO_E_NOT_COMPRESSIBLE \<Rightarrow> Some (- EINVAL, [])
         | LZO_E_INPUT_OVERRUN \<Rightarrow> Some (- EINVAL, [])
         | LZO_E_OUTPUT_OVERRUN \<Rightarrow> Some (- ENOMEM, [])
         | LZO_E_LOOKBEHIND_OVERRUN \<Rightarrow> Some (- EINVAL, [])
         | LZO_E_EOF_NOT_FOUND \<Rightarrow> Some (- ENOENT, [])
         | LZO_E_INPUT_NOT_CONSUMED \<Rightarrow> Some (- EINVAL, [])
         | LZO_E_NOT_YET_IMPLEMENTED \<Rightarrow> Some (- ENOSYS, [])
         | LZO_E_UNKNOWN _ \<Rightarrow> Some (- EINVAL, []))"

section \<open>The file header\<close>

definition compresseddata :: "byte list" where
  "compresseddata = map of_char ''compresseddata''"

definition lzo_flags :: "32 word" where
  "lzo_flags = (F_OS_UNIX AND F_OS_MASK) OR (F_CS_NATIVE AND F_CS_MASK) OR F_ADLER32_D"

definition lzo_header :: "lzo_env \<Rightarrow> buffer_t option" where
  "lzo_header env =
     do { b \<leftarrow> write_buf [] lzop_magic;
          b \<leftarrow> write16 b (0x1010 AND 0xFFFF);
          b \<leftarrow> write16 b (ucast (lzo_version env AND 0xFFFF));
          b \<leftarrow> write16 b 0x0940;
          b \<leftarrow> write8 b M_LZO1X_1;
          b \<leftarrow> write8 b 5;
          b \<leftarrow> write32 b lzo_flags;
          b \<leftarrow> write32 b 0x600;
          b \<leftarrow> write32 b (lzo_time env);
          b \<leftarrow> write32 b 0;
          b \<leftarrow> write8 b (word_of_nat (length compresseddata));
          b \<leftarrow> write_buf b compresseddata;
          if lzo_flags AND F_H_CRC32 \<noteq> 0
          then write32 b (lzo_crc32 env (drop (length lzop_magic) b))
          else write32 b (lzo_adler32 env (drop (length lzop_magic) b)) }"

section \<open>What the writer produces\<close>

lemma MAX_BLOCK_SIZE_pos [simp]: "0 < MAX_BLOCK_SIZE" "MAX_BLOCK_SIZE \<noteq> 0"
  by (simp_all add: MAX_BLOCK_SIZE_def)

lemma block_fits: "MAX_BLOCK_SIZE + 12 < MAX_BUFFER_SIZE"
  by (simp add: MAX_BUFFER_SIZE_def MAX_BLOCK_SIZE_def)

lemma be32_length [simp]: "length (be32 v) = 4"
  by (simp add: be32_def)

definition lzo_payload :: "lzo_env \<Rightarrow> byte list \<Rightarrow> byte list" where
  "lzo_payload env b =
     (let c = snd (lzo1x_1_compress env b) in if length c < length b then c else b)"

definition lzo_block :: "lzo_env \<Rightarrow> byte list \<Rightarrow> byte list" where
  "lzo_block env b = be32 (word_of_nat (length b)) @ be32 (word_of_nat (length (lzo_payload env b))) @
     be32 (lzo_adler32 env b) @ lzo_payload env b"

text \<open>The parameter's promise: compression succeeds.\<close>

definition lzo_compresses :: "lzo_env \<Rightarrow> bool" where
  "lzo_compresses env \<longleftrightarrow> (\<forall>b. fst (lzo1x_1_compress env b) = LZO_E_OK)"

lemma lzo_payload_length: "length (lzo_payload env b) \<le> length b"
  by (simp add: lzo_payload_def Let_def)

lemma lzo_block_length: "length (lzo_block env b) \<le> length b + 12"
  using lzo_payload_length [of env b] by (simp add: lzo_block_def)

lemma lzo_wwrite_block_ok:
  assumes "lzo_compresses env" "b \<noteq> []" "length b \<le> MAX_BLOCK_SIZE"
  shows "lzo_wwrite_block env b = Some (int (length b), lzo_block env b)"
proof -
  obtain c where c: "lzo1x_1_compress env b = (LZO_E_OK, c)"
    using assms(1) by (metis lzo_compresses_def prod.collapse)
  have "12 + length b < MAX_BUFFER_SIZE" using assms(3) block_fits by simp
  with c assms(2) show ?thesis
    by (simp add: lzo_wwrite_block_def Let_def write32_def write_buf_def lzo_block_def lzo_payload_def)
qed

section \<open>A reference reader of the format\<close>

definition get32 :: "byte list \<Rightarrow> 32 word" where
  "get32 ys = push_bit 24 (ucast (ys ! 0)) OR push_bit 16 (ucast (ys ! 1)) OR
     push_bit 8 (ucast (ys ! 2)) OR ucast (ys ! 3)"

lemma get32_be32: "get32 (be32 v @ ys) = v"
proof (rule bit_word_eqI)
  fix n assume n: "n < LENGTH(32)"
  consider "n < 8" | "8 \<le> n" "n < 16" | "16 \<le> n" "n < 24" | "24 \<le> n" by linarith
  then show "bit (get32 (be32 v @ ys)) n = bit v n"
    using n by cases (auto simp: get32_def be32_def bit_simps)
qed

text \<open>\<open>expand c n\<close> is what \<^verbatim>\<open>lzo1x_decompress\<close> makes of \<open>c\<close> when told to expect \<open>n\<close> bytes;
  \<open>cksum\<close> the Adler-32 checksum of the text of a block.\<close>

partial_function (option) lzop_text ::
  "(byte list \<Rightarrow> nat \<Rightarrow> byte list option) \<Rightarrow> (byte list \<Rightarrow> 32 word) \<Rightarrow> byte list \<Rightarrow> byte list option" where
  "lzop_text expand cksum ys =
     (if length ys < 4 then None
      else if get32 ys = 0 then (if length ys = 4 then Some [] else None)
      else if length ys < 12 then None
      else do {
        let n = unat (get32 ys);
        let c = unat (get32 (drop 4 ys));
        let body = take c (drop 12 ys);
        c_assert (length body = c);
        b \<leftarrow> (if c < n then expand body n else Some body);
        c_assert (cksum b = get32 (drop 8 ys) \<and> length b = n);
        rest \<leftarrow> lzop_text expand cksum (drop (12 + c) ys);
        Some (b @ rest) })"

definition lzo_expands :: "lzo_env \<Rightarrow> (byte list \<Rightarrow> nat \<Rightarrow> byte list option) \<Rightarrow> bool" where
  "lzo_expands env expand \<longleftrightarrow>
     (\<forall>b c. lzo1x_1_compress env b = (LZO_E_OK, c) \<longrightarrow> expand c (length b) = Some b)"

lemma lzop_text_block:
  assumes "lzo_compresses env" "lzo_expands env expand" "b \<noteq> []" "length b \<le> MAX_BLOCK_SIZE"
  shows "lzop_text expand (lzo_adler32 env) (lzo_block env b @ ys) =
    map_option ((@) b) (lzop_text expand (lzo_adler32 env) ys)"
proof -
  let ?p = "lzo_payload env b"
  have small: "length b < 2 ^ 32" "length ?p < 2 ^ 32"
    using assms(4) lzo_payload_length [of env b] by (simp_all add: MAX_BLOCK_SIZE_def)
  then have n: "unat (word_of_nat (length b) :: 32 word) = length b"
    "unat (word_of_nat (length ?p) :: 32 word) = length ?p"
    by (simp_all add: unsigned_of_nat take_bit_nat_eq_self)
  have nz: "(word_of_nat (length b) :: 32 word) \<noteq> 0"
    using n(1) assms(3) by (metis length_0_conv unat_0)
  have body: "(if length ?p < length b then expand ?p (length b) else Some ?p) = Some b"
    using assms(1,2) lzo_payload_length [of env b]
    by (auto simp: lzo_payload_def Let_def lzo_compresses_def lzo_expands_def)
      (metis prod.collapse)+
  define Y where "Y = lzo_block env b @ ys"
  have Y: "Y = be32 (word_of_nat (length b)) @ be32 (word_of_nat (length ?p)) @
      be32 (lzo_adler32 env b) @ ?p @ ys" by (simp add: Y_def lzo_block_def)
  have parts: "get32 Y = word_of_nat (length b)" "get32 (drop 4 Y) = word_of_nat (length ?p)"
    "get32 (drop 8 Y) = lzo_adler32 env b" "drop 12 Y = ?p @ ys" "drop (12 + length ?p) Y = ys"
    unfolding Y by (simp_all add: get32_be32)
  have len: "\<not> length Y < 12" "\<not> length Y < 4" by (simp_all add: Y)
  have "lzop_text expand (lzo_adler32 env) Y = map_option ((@) b) (lzop_text expand (lzo_adler32 env) ys)"
    using len nz body
    by (subst lzop_text.simps) (simp add: parts n Let_def map_conv_bind_option comp_def cong: if_cong)
  then show ?thesis by (simp add: Y_def)
qed

lemma lzop_text_blocks:
  assumes "lzo_compresses env" "lzo_expands env expand" "\<forall>b\<in>set bs. b \<noteq> [] \<and> length b \<le> MAX_BLOCK_SIZE"
  shows "lzop_text expand (lzo_adler32 env) (concat (map (lzo_block env) bs) @ be32 0) = Some (concat bs)"
  using assms(3)
proof (induction bs)
  case Nil
  show ?case using get32_be32 [of 0 "[]"] by (subst lzop_text.simps) simp
next
  case (Cons b bs)
  then show ?case using lzop_text_block [OF assms(1,2), of b] by simp
qed

lemma lzo_header_layout:
  "\<exists>fields. lzo_header env = Some (lzop_magic @ fields @ be32 (lzo_adler32 env fields)) \<and> length fields = 39"
  by (simp add: lzo_header_def write_buf_def write8_def write16_def write32_def be16_def be32_def
      lzop_magic_def compresseddata_def lzo_flags_def F_OS_UNIX_def F_OS_MASK_def F_CS_NATIVE_def
      F_CS_MASK_def F_H_CRC32_def F_ADLER32_D_def M_LZO1X_1_def MAX_BUFFER_SIZE_def MAX_BLOCK_SIZE_def)

end
