(* ===== verification/Lzo_Writer.thy ===== *)
theory Lzo_Writer
  imports Lzo_Format Stdio_Writer
begin

text \<open>
  The lzo writer of \<^verbatim>\<open>lib/iow-lzo.c\<close>: blocks of 128 KiB are handed round a pool of worker
  threads that compress them, and the calling thread writes the results to the child in order.

  A worker holds its own mutex from the moment it wakes up until it waits again or leaves, so all
  it does in between is one step; so is everything the calling thread does between taking and
  releasing that mutex, and a wait on \<open>out_ready\<close> in the middle is a state of its own. The caller is
  the only one to touch the child.
\<close>

section \<open>State\<close>

datatype lzo_state = EMPTY | WAITING | FULL

text \<open>A worker is about to look at its state, waits for \<open>in_ready\<close>, or has left.\<close>

datatype lzo_worker_pc = W_Ready | W_Wait | W_Done

record lzothread_t =
  lt_closing :: bool
  lt_state :: lzo_state
  lt_in :: buffer_t
  lt_out :: buffer_t
  lt_pc :: lzo_worker_pc

text \<open>The caller: outside the module; in the loop of \<open>lzo_wwrite\<close> with the bytes still to take, or
  waiting there for \<open>out_ready\<close>; in \<open>lzo_wclose\<close>, about to shut down the threads of a list, waiting
  for the first of them, or joining it.\<close>

datatype lzo_pc =
  L_Idle
| L_Loop (l_rest: "byte list")
| L_Wait (l_rest: "byte list")
| L_Ret int
| L_Shut (l_todo: "nat list")
| L_ShutWait (l_todo: "nat list")
| L_Join nat (l_todo: "nat list")
| L_Closed

record 'w lzow_t =
  lz_child :: 'w
  lz_next :: nat
  lz_thread :: "lzothread_t list"
  lz_pc :: lzo_pc

abbreviation lz_threads :: "'w lzow_t \<Rightarrow> nat" where
  "lz_threads s \<equiv> length (lz_thread s)"

definition get_next_thread :: "'w lzow_t \<Rightarrow> lzothread_t" where
  "get_next_thread s = lz_thread s ! lz_next s"

definition set_thread :: "nat \<Rightarrow> lzothread_t \<Rightarrow> 'w lzow_t \<Rightarrow> 'w lzow_t" where
  "set_thread i t s = s\<lparr>lz_thread := (lz_thread s)[i := t]\<rparr>"

section \<open>A worker\<close>

text \<open>\<open>pthread_cond_signal\<close> on \<open>in_ready\<close> of a worker, and on its \<open>out_ready\<close>.\<close>

definition wake_worker :: "lzothread_t \<Rightarrow> lzothread_t" where
  "wake_worker t = (if lt_pc t = W_Wait then t\<lparr>lt_pc := W_Ready\<rparr> else t)"

definition wake_caller :: "nat \<Rightarrow> 'w lzow_t \<Rightarrow> 'w lzow_t" where
  "wake_caller i s =
     (case lz_pc s of
        L_Wait rest \<Rightarrow> if lz_next s = i then s\<lparr>lz_pc := L_Loop rest\<rparr> else s
      | L_ShutWait todo \<Rightarrow> if hd todo = i then s\<lparr>lz_pc := L_Shut todo\<rparr> else s
      | _ \<Rightarrow> s)"

text \<open>A block that does not compress ends the thread and leaves the state \<open>WAITING\<close>.\<close>

definition lzo_compress_thread :: "lzo_env \<Rightarrow> nat \<Rightarrow> 'w lzow_t \<Rightarrow> 'w lzow_t option" where
  "lzo_compress_thread env i s =
     (let me = lz_thread s ! i in
      case lt_pc me of
        W_Ready \<Rightarrow>
          if lt_closing me then Some (set_thread i (me\<lparr>lt_pc := W_Done\<rparr>) s)
          else if lt_state me \<noteq> WAITING then Some (set_thread i (me\<lparr>lt_pc := W_Wait\<rparr>) s)
          else do {
            (err, out) \<leftarrow> lzo_wwrite_block env (lt_in me);
            if err < 0 then Some (set_thread i (me\<lparr>lt_out := out, lt_pc := W_Done\<rparr>) s)
            else Some (wake_caller i (set_thread i (me\<lparr>lt_out := out, lt_state := FULL, lt_pc := W_Wait\<rparr>) s)) }
      | _ \<Rightarrow> None)"

section \<open>The caller\<close>

text \<open>The FULL branch of \<open>lzo_wwrite\<close> and of \<open>shutdown_thread\<close>: write the block out.\<close>

definition lzo_flush_thread :: "'w iow_source_t \<Rightarrow> lzothread_t \<Rightarrow> 'w \<Rightarrow> (lzothread_t \<times> 'w) option" where
  "lzo_flush_thread csrc t child =
     (if lt_state t = FULL then do {
        (_, c) \<leftarrow> wandio_wwrite csrc child (lt_out t);
        Some (t\<lparr>lt_state := EMPTY, lt_in := []\<rparr>, c) }
      else Some (t, child))"

text \<open>One round of the threaded loop of \<open>lzo_wwrite\<close>, from taking the mutex to releasing it.\<close>

definition lzo_wwrite_step :: "'w iow_source_t \<Rightarrow> byte list \<Rightarrow> 'w lzow_t \<Rightarrow> 'w lzow_t option" where
  "lzo_wwrite_step csrc rest s =
     (if rest = [] then Some (s\<lparr>lz_pc := L_Ret 0\<rparr>)
      else if lt_state (get_next_thread s) = WAITING then Some (s\<lparr>lz_pc := L_Wait rest\<rparr>)
      else do {
        c_assert (lt_state (get_next_thread s) = FULL \<longrightarrow> length (lt_out (get_next_thread s)) < MAX_BUFFER_SIZE);
        (t, c) \<leftarrow> lzo_flush_thread csrc (get_next_thread s) (lz_child s);
        c_assert (lt_state t = EMPTY);
        let size = min (int MAX_BLOCK_SIZE - int (length (lt_in t))) (int (length rest));
        c_assert (0 < size);
        c_assert (size \<le> int MAX_BLOCK_SIZE);
        c_assert (int (length (lt_in t)) + size \<le> int MAX_BLOCK_SIZE);
        let t = t\<lparr>lt_in := lt_in t @ take (nat size) rest\<rparr>;
        let s = s\<lparr>lz_child := c, lz_pc := L_Loop (drop (nat size) rest)\<rparr>;
        Some
         (if MAX_BUFFER_SIZE \<le> length (lt_in t) \<or> MAX_BLOCK_SIZE \<le> length (lt_in t)
          then (set_thread (lz_next s) (wake_worker (t\<lparr>lt_state := WAITING\<rparr>)) s)
                 \<lparr>lz_next := (lz_next s + 1) mod lz_threads s\<rparr>
          else set_thread (lz_next s) t s) })"

text \<open>\<open>shutdown_thread\<close> up to \<open>pthread_join\<close>.\<close>

definition shutdown_thread :: "'w iow_source_t \<Rightarrow> nat \<Rightarrow> nat list \<Rightarrow> 'w lzow_t \<Rightarrow> 'w lzow_t option" where
  "shutdown_thread csrc i todo s =
     (let t = lz_thread s ! i in do {
        c_assert (lt_state t \<noteq> EMPTY \<or> lt_in t = []);
        if lt_state t = WAITING then Some (s\<lparr>lz_pc := L_ShutWait (i # todo)\<rparr>)
        else do {
          (t, c) \<leftarrow> lzo_flush_thread csrc t (lz_child s);
          c_assert (lt_state t = EMPTY \<and> lt_in t = []);
          Some (set_thread i (wake_worker (t\<lparr>lt_closing := True\<rparr>)) (s\<lparr>lz_child := c, lz_pc := L_Join i todo\<rparr>)) } })"

text \<open>After the last thread: the end-of-file marker, and the child is closed.\<close>

definition lzo_finish :: "'w iow_source_t \<Rightarrow> 'w lzow_t \<Rightarrow> 'w lzow_t option" where
  "lzo_finish csrc s =
     do { (_, c) \<leftarrow> wandio_wwrite csrc (lz_child s) [0, 0, 0, 0];
          c2 \<leftarrow> wandio_wdestroy csrc c;
          Some (s\<lparr>lz_child := c2, lz_pc := L_Closed\<rparr>) }"

definition caller_step :: "'w iow_source_t \<Rightarrow> 'w lzow_t \<Rightarrow> 'w lzow_t option" where
  "caller_step csrc s =
     (case lz_pc s of
        L_Loop rest \<Rightarrow> lzo_wwrite_step csrc rest s
      | L_Shut [] \<Rightarrow> lzo_finish csrc s
      | L_Shut (i # todo) \<Rightarrow> shutdown_thread csrc i todo s
      | L_Join i todo \<Rightarrow> if lt_pc (lz_thread s ! i) = W_Done then Some (s\<lparr>lz_pc := L_Shut todo\<rparr>) else None
      | _ \<Rightarrow> None)"

text \<open>The first critical section of \<open>lzo_wclose\<close>, and the order in which it shuts the threads
  down.\<close>

definition lzo_wclose_call :: "'w lzow_t \<Rightarrow> 'w lzow_t" where
  "lzo_wclose_call s =
     (if lz_thread s = [] then s\<lparr>lz_pc := L_Shut []\<rparr>
      else let t = get_next_thread s;
             s1 = (if lt_state t = EMPTY \<and> lt_in t \<noteq> []
                   then set_thread (lz_next s) (wake_worker (t\<lparr>lt_state := WAITING\<rparr>)) s else s);
             n = (lz_next s + 1) mod lz_threads s
           in s1\<lparr>lz_next := n, lz_pc := L_Shut ([n..<lz_threads s] @ [0..<n])\<rparr>)"

section \<open>Runs\<close>

inductive lzo_step :: "lzo_env \<Rightarrow> 'w iow_source_t \<Rightarrow> 'w lzow_t \<Rightarrow> 'w lzow_t \<Rightarrow> bool" for env csrc where
  worker: "i < lz_threads s \<Longrightarrow> lzo_compress_thread env i s = Some t \<Longrightarrow> lzo_step env csrc s t"
| caller: "caller_step csrc s = Some t \<Longrightarrow> lzo_step env csrc s t"

inductive_cases lzo_step_cases: "lzo_step env csrc s t"

text \<open>A scheduler: the head of the schedule names a worker, or the caller when there is no worker of
  that number; one that cannot go on gives way to the caller and then to the first worker that can.\<close>

definition lzo_actor :: "lzo_env \<Rightarrow> 'w iow_source_t \<Rightarrow> 'w lzow_t \<Rightarrow> nat \<Rightarrow> 'w lzow_t option" where
  "lzo_actor env csrc s i = (if i < lz_threads s then lzo_compress_thread env i s else caller_step csrc s)"

definition lzo_sched ::
  "lzo_env \<Rightarrow> 'w iow_source_t \<Rightarrow> nat list \<Rightarrow> 'w lzow_t \<Rightarrow> (nat list \<times> 'w lzow_t) option" where
  "lzo_sched env csrc sched s =
     (let first = (if sched = [] then lz_threads s else hd sched);
          order = first # lz_threads s # [0..<lz_threads s]
      in case List.find (\<lambda>i. lzo_actor env csrc s i \<noteq> None) order of
           None \<Rightarrow> None
         | Some i \<Rightarrow> map_option (\<lambda>t. (tl sched, t)) (lzo_actor env csrc s i))"

partial_function (option) run_lzo ::
  "lzo_env \<Rightarrow> 'w iow_source_t \<Rightarrow> nat list \<Rightarrow> 'w lzow_t \<Rightarrow> (int \<times> nat list \<times> 'w lzow_t) option" where
  "run_lzo env csrc sched s =
     (case lz_pc s of
        L_Ret r \<Rightarrow> Some (r, sched, s\<lparr>lz_pc := L_Idle\<rparr>)
      | L_Closed \<Rightarrow> Some (0, sched, s)
      | _ \<Rightarrow> do { (sched', t) \<leftarrow> lzo_sched env csrc sched s; run_lzo env csrc sched' t })"

section \<open>The operations\<close>

text \<open>Without threads every piece of a buffer is compressed and written on the spot. The value
  returned at the end is \<open>len\<close>, counted down to 0; \<open>ret\<close> stays 0.\<close>

definition lzo_plain_pass ::
  "lzo_env \<Rightarrow> 'w iow_source_t \<Rightarrow> byte list \<times> 'w lzow_t \<Rightarrow>
    ((int \<times> 'w lzow_t) + (byte list \<times> 'w lzow_t)) option" where
  "lzo_plain_pass env csrc = (\<lambda>(rest, s).
     if rest = [] then Some (Inl (0, s))
     else let size = min (length rest) MAX_BLOCK_SIZE in do {
       (err, out) \<leftarrow> lzo_wwrite_block env (take size rest);
       (_, c) \<leftarrow> wandio_wwrite csrc (lz_child s) out;
       let s = s\<lparr>lz_child := c\<rparr>;
       if err < 0 then Some (Inl (err, s))
       else do { c_assert (err = int size); Some (Inr (drop size rest, s)) } })"

definition lzo_wwrite :: "lzo_env \<Rightarrow> 'w iow_source_t \<Rightarrow> (nat list \<times> 'w lzow_t) write_fn" where
  "lzo_wwrite env csrc iow buffer =
     (let (sched, s) = iow in
      if lz_threads s = 0
      then map_option (\<lambda>(r, s'). (r, (sched, s'))) (c_loop (lzo_plain_pass env csrc) (buffer, s))
      else do { (r, sched', s') \<leftarrow> run_lzo env csrc sched (s\<lparr>lz_pc := L_Loop buffer\<rparr>);
                Some (r, (sched', s')) })"

definition lzo_wflush :: "(nat list \<times> 'w lzow_t) flush_fn" where
  "lzo_wflush iow = Some (0, iow)"

definition lzo_wclose ::
  "lzo_env \<Rightarrow> 'w iow_source_t \<Rightarrow> (nat list \<times> 'w lzow_t) \<Rightarrow> (nat list \<times> 'w lzow_t) option" where
  "lzo_wclose env csrc iow =
     (let (sched, s) = iow in map_option snd (run_lzo env csrc sched (lzo_wclose_call s)))"

definition lzo_wsource :: "lzo_env \<Rightarrow> 'w iow_source_t \<Rightarrow> (nat list \<times> 'w lzow_t) iow_source_t" where
  "lzo_wsource env csrc = \<lparr>wsrc_name = ''lzo'', wsrc_write = lzo_wwrite env csrc,
     wsrc_flush = lzo_wflush, wsrc_close = lzo_wclose env csrc\<rparr>"

text \<open>\<open>nprocs\<close> is the number of processors, \<open>use_threads\<close> the global option.\<close>

definition lzo_wopen ::
  "lzo_env \<Rightarrow> 'w iow_source_t \<Rightarrow> nat \<Rightarrow> nat \<Rightarrow> 'w option \<Rightarrow> int \<Rightarrow> 'w lzow_t option option" where
  "lzo_wopen env csrc nprocs use_threads child compress_level =
     (case child of
        None \<Rightarrow> Some None
      | Some w \<Rightarrow>
         if lzo_init_result env \<noteq> LZO_E_OK \<or> compress_level < 0 then Some None
         else do {
           h \<leftarrow> lzo_header env;
           (_, c) \<leftarrow> wandio_wwrite csrc w h;
           Some (Some (if 0 < use_threads
             then \<lparr>lz_child = c, lz_next = 0,
                 lz_thread = replicate (min nprocs use_threads)
                   \<lparr>lt_closing = False, lt_state = EMPTY, lt_in = [], lt_out = [], lt_pc = W_Ready\<rparr>,
                 lz_pc = L_Idle\<rparr>
             else \<lparr>lz_child = c, lz_next = 9, lz_thread = [], lz_pc = L_Idle\<rparr>)) })"

end
