(* ===== verification/Lzo_Proofs.thy ===== *)
theory Lzo_Proofs
  imports Lzo_Writer
begin

text \<open>
  The lzo writer is a queue: the ring of threads, read from the one to be used next, holds the
  blocks on their way to the child. The invariants of writing and of closing, their preservation
  by every step, freedom from deadlock and a measure; then the operations under any schedule.
\<close>

section \<open>The ring as a queue\<close>

text \<open>Of a thread only two things matter for the data: whether it is EMPTY, and its input.\<close>

definition lt_key :: "lzothread_t \<Rightarrow> bool \<times> byte list" where
  "lt_key t = (lt_state t = EMPTY, lt_in t)"

definition lz_keys :: "'w lzow_t \<Rightarrow> (bool \<times> byte list) list" where
  "lz_keys s = rotate (lz_next s) (map lt_key (lz_thread s))"

definition key_text :: "(bool \<times> byte list) list \<Rightarrow> byte list" where
  "key_text ks = concat (map snd ks)"

text \<open>The thread to be used next holds the newest data when it is EMPTY, else the oldest.\<close>

definition flight :: "(bool \<times> byte list) list \<Rightarrow> byte list" where
  "flight ks = (case ks of [] \<Rightarrow> []
     | (e, d) # r \<Rightarrow> if e then key_text r @ d else d @ key_text r)"

definition spent :: "(bool \<times> byte list) list \<Rightarrow> bool" where
  "spent ks \<longleftrightarrow> (\<forall>(e, d)\<in>set ks. e \<longrightarrow> d = [])"

lemma key_text_simps [simp]: "key_text [] = []" "key_text (k # ks) = snd k @ key_text ks"
  "key_text (xs @ ys) = key_text xs @ key_text ys"
  by (simp_all add: key_text_def)

lemma rotate_update: "n < length xs \<Longrightarrow> rotate n (xs[n := x]) = x # tl (rotate n xs)"
  by (simp add: rotate_drop_take upd_conv_take_nth_drop Cons_nth_drop_Suc [symmetric])

lemma rotate_next: "rotate ((n + 1) mod length xs) xs = rotate1 (rotate n xs)"
  by (simp add: rotate_conv_mod [symmetric])

lemma lz_keys_hd:
  assumes "lz_next s < lz_threads s"
  shows "lz_keys s = lt_key (get_next_thread s) # tl (lz_keys s)"
proof -
  have "lz_thread s \<noteq> []" using assms by auto
  then have "lz_keys s \<noteq> []" "hd (lz_keys s) = lt_key (get_next_thread s)"
    using assms hd_rotate_conv_nth [of "map lt_key (lz_thread s)" "lz_next s"]
    by (auto simp: lz_keys_def get_next_thread_def)
  then show ?thesis by (cases "lz_keys s") auto
qed

lemma lz_keys_set_next:
  "lz_next s < lz_threads s \<Longrightarrow> lz_keys (set_thread (lz_next s) t s) = lt_key t # tl (lz_keys s)"
  by (simp add: lz_keys_def set_thread_def map_update rotate_update)

lemma lz_keys_same:
  assumes "i < lz_threads s" "lt_key t = lt_key (lz_thread s ! i)"
  shows "lz_keys (set_thread i t s) = lz_keys s"
proof -
  have "(map lt_key (lz_thread s))[i := lt_key t] = map lt_key (lz_thread s)"
    using assms by (metis length_map list_update_id nth_map)
  then show ?thesis by (simp add: lz_keys_def set_thread_def map_update)
qed

lemma lz_keys_advance:
  "lz_keys (s\<lparr>lz_next := (lz_next s + 1) mod lz_threads s\<rparr>) = rotate1 (lz_keys s)"
  using rotate_next [of "lz_next s" "map lt_key (lz_thread s)"] by (simp add: lz_keys_def)

lemma flight_flushed: "flight ((False, d) # ks) = d @ flight ((True, []) # ks)"
  by (simp add: flight_def)

lemma flight_filled: "flight ((True, d @ p) # ks) = flight ((True, d) # ks) @ p"
  by (simp add: flight_def)

lemma flight_passed: "spent ks \<Longrightarrow> flight (ks @ [(False, d)]) = flight ((True, d) # ks)"
  by (cases ks) (auto simp: flight_def spent_def)

lemma wake_worker_simps [simp]:
  "lt_key (wake_worker t) = lt_key t" "lt_state (wake_worker t) = lt_state t"
  "lt_in (wake_worker t) = lt_in t" "lt_out (wake_worker t) = lt_out t"
  "lt_closing (wake_worker t) = lt_closing t"
  by (simp_all add: wake_worker_def lt_key_def)

section \<open>Writing\<close>

definition lt_ok :: "lzo_env \<Rightarrow> lzothread_t \<Rightarrow> bool" where
  "lt_ok env t \<longleftrightarrow> \<not> lt_closing t \<and> lt_pc t \<noteq> W_Done \<and>
     (case lt_state t of
        EMPTY \<Rightarrow> length (lt_in t) < MAX_BLOCK_SIZE
      | WAITING \<Rightarrow> lt_pc t = W_Ready \<and> lt_in t \<noteq> [] \<and> length (lt_in t) \<le> MAX_BLOCK_SIZE
      | FULL \<Rightarrow> lt_in t \<noteq> [] \<and> length (lt_in t) \<le> MAX_BLOCK_SIZE \<and> lt_out t = lzo_block env (lt_in t))"

text \<open>The child holds \<open>base\<close> and then blocks that stand for \<open>sent\<close>.\<close>

definition lz_sent ::
  "lzo_env \<Rightarrow> ('w \<Rightarrow> bool) \<Rightarrow> ('w \<Rightarrow> byte list) \<Rightarrow> byte list \<Rightarrow> byte list \<Rightarrow> 'w \<Rightarrow> bool" where
  "lz_sent env cwinv csunk base sent c \<longleftrightarrow> cwinv c \<and>
     (\<exists>bs. csunk c = base @ concat (map (lzo_block env) bs) \<and> concat bs = sent \<and>
        (\<forall>b\<in>set bs. b \<noteq> [] \<and> length b \<le> MAX_BLOCK_SIZE))"

definition lz_ring_ok :: "lzo_env \<Rightarrow> 'w lzow_t \<Rightarrow> bool" where
  "lz_ring_ok env s \<longleftrightarrow> lz_next s < lz_threads s \<and> (\<forall>t\<in>set (lz_thread s). lt_ok env t) \<and> spent (tl (lz_keys s))"

text \<open>The blocks handed on are whole; EMPTY threads come before occupied ones; and a thread without
  data has never been used, so nothing has been written yet.\<close>

definition lz_shape :: "byte list \<Rightarrow> (bool \<times> byte list) list \<Rightarrow> bool" where
  "lz_shape sent ks \<longleftrightarrow> MAX_BLOCK_SIZE dvd length sent \<and>
     (\<forall>k\<in>set ks. \<not> fst k \<longrightarrow> length (snd k) = MAX_BLOCK_SIZE) \<and>
     sorted_wrt (\<lambda>k k'. fst k' \<longrightarrow> fst k) ks \<and> ((True, []) \<in> set ks \<longrightarrow> sent = [])"

lemma shape_fill:
  assumes "lz_shape sent (lt_key t # ks)" "spent ks" "p \<noteq> []"
    and "lt_state t = FULL \<Longrightarrow> d = [] \<and> sent' = sent @ lt_in t"
    and "lt_state t \<noteq> FULL \<Longrightarrow> d = lt_in t \<and> sent' = sent" "lt_state t \<noteq> WAITING"
  shows "lz_shape sent' ((True, d @ p) # ks)"
  using assms by (cases "lt_state t") (auto simp: lz_shape_def lt_key_def)

lemma shape_pass:
  "lz_shape sent ((True, d) # ks) \<Longrightarrow> length d = MAX_BLOCK_SIZE \<Longrightarrow> lz_shape sent (ks @ [(False, d)])"
  by (auto simp: lz_shape_def sorted_wrt_append)

definition lz_winv ::
  "lzo_env \<Rightarrow> ('w \<Rightarrow> bool) \<Rightarrow> ('w \<Rightarrow> byte list) \<Rightarrow> byte list \<Rightarrow> byte list \<Rightarrow> 'w lzow_t \<Rightarrow> bool" where
  "lz_winv env cwinv csunk base whole s \<longleftrightarrow> lz_ring_ok env s \<and>
     (\<exists>sent. lz_sent env cwinv csunk base sent (lz_child s) \<and> lz_shape sent (lz_keys s) \<and>
       (case lz_pc s of
          L_Idle \<Rightarrow> sent @ flight (lz_keys s) = whole
        | L_Loop rest \<Rightarrow> sent @ flight (lz_keys s) @ rest = whole
        | L_Wait rest \<Rightarrow> sent @ flight (lz_keys s) @ rest = whole \<and> lt_state (get_next_thread s) = WAITING
        | L_Ret r \<Rightarrow> sent @ flight (lz_keys s) = whole \<and> r = 0
        | _ \<Rightarrow> False))"

text \<open>The block a worker turns FULL keeps its key.\<close>

definition lz_ready :: "'w lzow_t \<Rightarrow> nat" where
  "lz_ready s = length (filter (\<lambda>t. lt_pc t = W_Ready) (lz_thread s))"

definition lz_wmeasure :: "'w lzow_t \<Rightarrow> nat" where
  "lz_wmeasure s = 2 * lz_ready s +
     (case lz_pc s of L_Loop rest \<Rightarrow> 4 * length rest + 2 | L_Wait rest \<Rightarrow> 4 * length rest + 1 | _ \<Rightarrow> 0)"

lemma filter_update:
  "i < length xs \<Longrightarrow> length (filter P (xs[i := x])) + (if P (xs ! i) then 1 else 0) =
    length (filter P xs) + (if P x then 1 else 0)"
proof -
  assume i: "i < length xs"
  have "filter P xs = filter P (take i xs) @ filter P (xs ! i # drop (Suc i) xs)"
    using id_take_nth_drop [OF i] by (metis filter_append)
  then show ?thesis using i by (simp add: upd_conv_take_nth_drop)
qed

lemma lz_ready_update:
  "i < lz_threads s \<Longrightarrow> lz_ready (set_thread i t s) + (if lt_pc (lz_thread s ! i) = W_Ready then 1 else 0) =
    lz_ready s + (if lt_pc t = W_Ready then 1 else 0)"
  using filter_update [of i "lz_thread s" "\<lambda>t. lt_pc t = W_Ready" t] by (simp add: lz_ready_def set_thread_def)

lemma set_thread_simps [simp]:
  "lz_child (set_thread i t s) = lz_child s" "lz_next (set_thread i t s) = lz_next s"
  "lz_pc (set_thread i t s) = lz_pc s" "lz_threads (set_thread i t s) = lz_threads s"
  by (simp_all add: set_thread_def)

lemma ring_ok_update:
  assumes "lz_ring_ok env s" "i < lz_threads s" "lt_ok env t" "lt_key t = lt_key (lz_thread s ! i)"
  shows "lz_ring_ok env (set_thread i t s)"
  using assms lz_keys_same [OF assms(2,4)] set_update_subset_insert [of "lz_thread s" i t]
  by (auto simp: lz_ring_ok_def set_thread_def)

locale lzo_writing = child: writer "wsrc_write csrc" cwinv csunk
  for csrc :: "'w iow_source_t" and cwinv csunk +
  fixes env :: lzo_env and base :: "byte list"
  assumes compresses: "lzo_compresses env"
begin

abbreviation winv where
  "winv \<equiv> lz_winv env cwinv csunk base"

lemma child_writes_block:
  assumes "lz_sent env cwinv csunk base sent c" "b \<noteq> []" "length b \<le> MAX_BLOCK_SIZE"
  obtains c' where "wandio_wwrite csrc c (lzo_block env b) = Some (int (length (lzo_block env b)), c')"
    "lz_sent env cwinv csunk base (sent @ b) c'"
proof -
  have "length (lzo_block env b) < 2 ^ 30"
    using lzo_block_length [of env b] assms(3) by (simp add: MAX_BLOCK_SIZE_def)
  moreover from assms(1) obtain bs where bs: "cwinv c" "csunk c = base @ concat (map (lzo_block env) bs)"
    "concat bs = sent" "\<forall>b\<in>set bs. b \<noteq> [] \<and> length b \<le> MAX_BLOCK_SIZE"
    by (auto simp: lz_sent_def)
  ultimately obtain c' where c': "wsrc_write csrc c (lzo_block env b) = Some (int (length (lzo_block env b)), c')"
    "cwinv c'" "csunk c' = csunk c @ lzo_block env b"
    using child.wr_ok by blast
  have "csunk c' = base @ concat (map (lzo_block env) (bs @ [b]))" "concat (bs @ [b]) = sent @ b"
    "\<forall>x\<in>set (bs @ [b]). x \<noteq> [] \<and> length x \<le> MAX_BLOCK_SIZE"
    using bs c'(3) assms(2,3) by auto
  with c' have "lz_sent env cwinv csunk base (sent @ b) c'" unfolding lz_sent_def by blast
  with c'(1) that show thesis by (simp add: wandio_wwrite_def)
qed

text \<open>What a worker does, whatever the caller is doing.\<close>

lemma worker_cases:
  assumes "lt_ok env (lz_thread s ! i)" "lzo_compress_thread env i s = Some t"
  obtains (idle) "lt_state (lz_thread s ! i) \<noteq> WAITING"
      "t = set_thread i ((lz_thread s ! i)\<lparr>lt_pc := W_Wait\<rparr>) s"
      "lt_ok env ((lz_thread s ! i)\<lparr>lt_pc := W_Wait\<rparr>)" "lt_pc (lz_thread s ! i) = W_Ready"
    | (block) u where "lt_state (lz_thread s ! i) = WAITING" "t = wake_caller i (set_thread i u s)"
      "lt_ok env u" "lt_key u = lt_key (lz_thread s ! i)" "lt_pc u = W_Wait" "lt_state u = FULL"
      "lt_pc (lz_thread s ! i) = W_Ready"
proof -
  let ?me = "lz_thread s ! i"
  from assms have ready: "lt_pc ?me = W_Ready" "\<not> lt_closing ?me"
    by (auto simp: lzo_compress_thread_def lt_ok_def Let_def split: lzo_worker_pc.splits)
  show thesis
  proof (cases "lt_state ?me = WAITING")
    case False
    with assms ready idle show thesis
      by (auto simp: lzo_compress_thread_def lt_ok_def split: lzo_state.splits)
  next
    case True
    with assms(1) have "lt_in ?me \<noteq> []" "length (lt_in ?me) \<le> MAX_BLOCK_SIZE" by (auto simp: lt_ok_def)
    note blk = lzo_wwrite_block_ok [OF compresses this]
    show thesis
      by (rule block [of "?me\<lparr>lt_out := lzo_block env (lt_in ?me), lt_state := FULL, lt_pc := W_Wait\<rparr>"])
        (use assms True ready blk in \<open>auto simp: lzo_compress_thread_def Let_def lt_ok_def lt_key_def\<close>)
  qed
qed

lemma worker_winv:
  assumes "winv whole s" "i < lz_threads s" "lzo_compress_thread env i s = Some t"
  shows "winv whole t \<and> lz_wmeasure t < lz_wmeasure s"
proof -
  from assms(1) obtain sent where ring: "lz_ring_ok env s" and sent: "lz_sent env cwinv csunk base sent (lz_child s)"
    by (auto simp: lz_winv_def)
  have me: "lt_ok env (lz_thread s ! i)" using ring assms(2) by (auto simp: lz_ring_ok_def)
  from me assms(3) show ?thesis
  proof (cases rule: worker_cases)
    case idle
    let ?u = "(lz_thread s ! i)\<lparr>lt_pc := W_Wait\<rparr>"
    have key: "lt_key ?u = lt_key (lz_thread s ! i)" by (simp add: lt_key_def)
    have "lt_state (get_next_thread (set_thread i ?u s)) = lt_state (get_next_thread s)"
      using assms(2) by (simp add: get_next_thread_def set_thread_def nth_list_update)
    with assms(1) idle ring_ok_update [OF ring assms(2) idle(3) key] lz_keys_same [OF assms(2) key]
      lz_ready_update [OF assms(2), of ?u]
    show ?thesis by (cases "lz_pc s") (auto simp: lz_winv_def lz_wmeasure_def)
  next
    case (block u)
    have ring': "lz_ring_ok env (set_thread i u s)" by (rule ring_ok_update [OF ring assms(2) block(3,4)])
    have keys: "lz_keys (set_thread i u s) = lz_keys s" by (rule lz_keys_same [OF assms(2) block(4)])
    have next_thread: "lz_next s \<noteq> i \<Longrightarrow> get_next_thread (set_thread i u s) = get_next_thread s"
      by (simp add: get_next_thread_def set_thread_def)
    have pc: "lz_ring_ok env (x\<lparr>lz_pc := pc\<rparr>) = lz_ring_ok env x" "lz_keys (x\<lparr>lz_pc := pc\<rparr>) = lz_keys x"
      "lz_ready (x\<lparr>lz_pc := pc\<rparr>) = lz_ready x" for x :: "'w lzow_t" and pc
      by (simp_all add: lz_ring_ok_def lz_keys_def lz_ready_def)
    show ?thesis
      using assms(1) block ring' keys next_thread lz_ready_update [OF assms(2), of u]
      by (cases "lz_pc s") (auto simp: lz_winv_def lz_wmeasure_def wake_caller_def pc)
  qed
qed

text \<open>The caller frees the thread to be used next.\<close>

lemma flush_thread_ok:
  assumes "lt_ok env t" "lt_state t \<noteq> WAITING" "lz_sent env cwinv csunk base sent c"
  obtains u c' sent' where "lzo_flush_thread csrc t c = Some (u, c')" "lt_state u = EMPTY" "lt_ok env u"
    "lz_sent env cwinv csunk base sent' c'" "lt_state t = FULL \<longrightarrow> length (lt_out t) < MAX_BUFFER_SIZE"
    "\<And>ks. sent' @ flight (lt_key u # ks) = sent @ flight (lt_key t # ks)"
    "lt_state t = FULL \<Longrightarrow> lt_in u = []" "lt_state t \<noteq> FULL \<Longrightarrow> u = t"
    "lt_state t = FULL \<Longrightarrow> sent' = sent @ lt_in t" "lt_state t \<noteq> FULL \<Longrightarrow> sent' = sent"
    "lt_pc u = lt_pc t"
proof (cases "lt_state t = FULL")
  case False
  with assms that [of t c sent] show thesis by (cases "lt_state t") (auto simp: lzo_flush_thread_def)
next
  case True
  with assms(1) have b: "lt_in t \<noteq> []" "length (lt_in t) \<le> MAX_BLOCK_SIZE" "lt_out t = lzo_block env (lt_in t)"
    by (simp_all add: lt_ok_def)
  obtain c' where c': "wandio_wwrite csrc c (lzo_block env (lt_in t)) = Some (int (length (lzo_block env (lt_in t))), c')"
    "lz_sent env cwinv csunk base (sent @ lt_in t) c'"
    using child_writes_block [OF assms(3) b(1,2)] .
  have "length (lt_out t) < MAX_BUFFER_SIZE"
    using lzo_block_length [of env "lt_in t"] b block_fits by simp
  with True b c' assms(1) that [of "t\<lparr>lt_state := EMPTY, lt_in := []\<rparr>" c' "sent @ lt_in t"]
  show thesis by (auto simp: lzo_flush_thread_def lt_ok_def lt_key_def flight_flushed)
qed

lemma lz_ring_thread:
  assumes "lz_ring_ok env s"
  shows "lz_next s < lz_threads s" "lt_ok env (get_next_thread s)" "spent (tl (lz_keys s))"
    "lz_keys s = lt_key (get_next_thread s) # tl (lz_keys s)"
  using assms lz_keys_hd [of s] by (auto simp: lz_ring_ok_def get_next_thread_def)

lemma caller_winv:
  assumes "winv whole s" "lz_pc s = L_Loop rest"
  shows "\<exists>t. caller_step csrc s = Some t \<and> winv whole t \<and> lz_wmeasure t < lz_wmeasure s"
proof -
  from assms obtain sent where ring: "lz_ring_ok env s" and sent: "lz_sent env cwinv csunk base sent (lz_child s)"
    and whole: "sent @ flight (lz_keys s) @ rest = whole" and shape: "lz_shape sent (lz_keys s)"
    by (auto simp: lz_winv_def)
  note next_ok = lz_ring_thread [OF ring]
  let ?n = "lz_next s" and ?t = "get_next_thread s" and ?ks = "tl (lz_keys s)"
  have step: "caller_step csrc s = lzo_wwrite_step csrc rest s" using assms(2) by (simp add: caller_step_def)
  have pc: "lz_ring_ok env (s\<lparr>lz_pc := q\<rparr>) = lz_ring_ok env s" "lz_keys (s\<lparr>lz_pc := q\<rparr>) = lz_keys s"
    "lz_ready (s\<lparr>lz_pc := q\<rparr>) = lz_ready s" for q
    by (simp_all add: lz_ring_ok_def lz_keys_def lz_ready_def)
  consider "rest = []" | "rest \<noteq> []" "lt_state ?t = WAITING" | "rest \<noteq> []" "lt_state ?t \<noteq> WAITING" by blast
  then show ?thesis
  proof cases
    case 1
    with step assms(2) ring sent whole shape show ?thesis
      by (auto simp: lzo_wwrite_step_def lz_winv_def lz_wmeasure_def pc)
  next
    case 2
    with step assms(2) ring sent whole shape show ?thesis
      by (auto simp: lzo_wwrite_step_def lz_winv_def lz_wmeasure_def pc get_next_thread_def)
  next
    case 3
    obtain u c' sent' where u: "lzo_flush_thread csrc ?t (lz_child s) = Some (u, c')" "lt_state u = EMPTY"
      "lt_ok env u" "lz_sent env cwinv csunk base sent' c'"
      "lt_state ?t = FULL \<longrightarrow> length (lt_out ?t) < MAX_BUFFER_SIZE"
      "\<And>ks. sent' @ flight (lt_key u # ks) = sent @ flight (lt_key ?t # ks)" "lt_pc u = lt_pc ?t"
      "lt_state ?t = FULL \<longrightarrow> lt_in u = [] \<and> sent' = sent @ lt_in ?t"
      "lt_state ?t \<noteq> FULL \<longrightarrow> u = ?t \<and> sent' = sent"
      using flush_thread_ok [OF next_ok(2) 3(2) sent] by metis
    define size where "size = min (MAX_BLOCK_SIZE - length (lt_in u)) (length rest)"
    have small: "length (lt_in u) < MAX_BLOCK_SIZE" using u(2,3) by (simp add: lt_ok_def)
    have size: "0 < size" "length (lt_in u) + size \<le> MAX_BLOCK_SIZE" "size \<le> length rest"
      "min (int MAX_BLOCK_SIZE - int (length (lt_in u))) (int (length rest)) = int size"
      using small 3(1) by (auto simp: size_def)
    define p where "p = take size rest"
    have p: "rest = p @ drop size rest" "length p = size" using size by (simp_all add: p_def)
    let ?u = "u\<lparr>lt_in := lt_in u @ p\<rparr>"
    let ?s = "s\<lparr>lz_child := c', lz_pc := L_Loop (drop size rest)\<rparr>"
    have no_overrun: "MAX_BUFFER_SIZE \<le> k \<Longrightarrow> MAX_BLOCK_SIZE \<le> k" for k using block_fits by simp
    have key_u: "lt_key u = (True, lt_in u)" "lt_key ?t = lt_key (lz_thread s ! ?n)"
      using u(2) by (simp_all add: lt_key_def get_next_thread_def)
    have data: "sent' @ flight ((True, lt_in u @ p) # ?ks) @ drop size rest = whole"
    proof -
      have "sent' @ flight ((True, lt_in u) # ?ks) = sent @ flight (lz_keys s)"
        using u(6) [of ?ks] next_ok(4) key_u(1) by simp
      then have "sent' @ flight ((True, lt_in u) # ?ks) @ p @ drop size rest = whole"
        using whole p(1) by (metis append.assoc)
      then show ?thesis by (simp add: flight_filled)
    qed
    have "p \<noteq> []" using p(2) size(1) by auto
    with shape next_ok(3,4) u(8,9) 3(2) have shape_u: "lz_shape sent' ((True, lt_in u @ p) # ?ks)"
      by (intro shape_fill [of sent ?t]) auto
    have upd: "lz_ready (set_thread ?n x ?s) \<le> lz_ready s + 1" for x
      using lz_ready_update [of ?n ?s x] next_ok(1) pc(3)
      by (auto simp: lz_ready_def set_thread_def split: if_splits)
    have shorter: "lz_ready x \<le> lz_ready s + 1 \<Longrightarrow> lz_pc x = L_Loop (drop size rest) \<Longrightarrow>
        lz_wmeasure x < lz_wmeasure s" for x :: "'w lzow_t"
      using size(1,3) assms(2) by (simp add: lz_wmeasure_def)
    show ?thesis
    proof (cases "MAX_BLOCK_SIZE \<le> length (lt_in u @ p)")
      case False
      let ?v = "set_thread ?n ?u ?s"
      have "caller_step csrc s = Some ?v"
        using step 3 u(1,2,5) size False no_overrun [of "length (lt_in u @ p)"]
        by (auto simp: lzo_wwrite_step_def Let_def p_def)
      moreover have keys: "lz_keys ?v = (True, lt_in u @ p) # ?ks"
        using lz_keys_set_next [of ?s ?u] next_ok(1) u(2) by (simp add: lt_key_def lz_keys_def)
      moreover have "lz_ring_ok env ?v"
        using ring next_ok(3) keys u(2,3,7) False set_update_subset_insert [of "lz_thread s" ?n ?u]
        by (auto simp: lz_ring_ok_def set_thread_def lt_ok_def)
      ultimately show ?thesis
        using data u(4) shape_u upd [of ?u] by (auto simp: lz_winv_def intro!: shorter)
    next
      case True
      let ?w = "wake_worker (?u\<lparr>lt_state := WAITING\<rparr>)"
      let ?v = "(set_thread ?n ?w ?s)\<lparr>lz_next := (?n + 1) mod lz_threads s\<rparr>"
      have step_v: "caller_step csrc s = Some ?v"
        using step 3 u(1,2,5) size True by (auto simp: lzo_wwrite_step_def Let_def p_def)
      have keys: "lz_keys ?v = ?ks @ [(False, lt_in u @ p)]"
        using lz_keys_set_next [of ?s ?w] lz_keys_advance [of "set_thread ?n ?w ?s"] next_ok(1)
        by (simp add: lt_key_def lz_keys_def)
      have "lt_ok env ?w"
        using u(2,3,7) True size(1,2) p(2) by (cases "lt_pc u") (auto simp: lt_ok_def wake_worker_def)
      then have all: "\<forall>t\<in>set (lz_thread ?v). lt_ok env t"
        using ring set_update_subset_insert [of "lz_thread s" ?n ?w]
        by (auto simp: lz_ring_ok_def set_thread_def)
      have spent_v: "spent (tl (?ks @ [(False, lt_in u @ p)]))"
        using next_ok(3) by (cases ?ks) (simp_all add: spent_def)
      have "(?n + 1) mod lz_threads s < lz_threads s" using next_ok(1) by (intro mod_less_divisor le_less_trans [OF le0])
      then have ring_v: "lz_ring_ok env ?v"
        unfolding lz_ring_ok_def keys using all spent_v by (simp add: set_thread_def)
      have ready_v: "lz_ready ?v = lz_ready (set_thread ?n ?w ?s)" by (simp add: lz_ready_def set_thread_def)
      have "winv whole ?v"
        using ring_v u(4) data shape_pass [OF shape_u] True size(2) p(2) flight_passed [OF next_ok(3), of "lt_in u @ p"]
        unfolding lz_winv_def keys by auto
      moreover have "lz_wmeasure ?v < lz_wmeasure s"
        using ready_v upd [of ?w] by (intro shorter) simp_all
      ultimately show ?thesis using step_v by blast
    qed
  qed
qed

end

end
