(* ===== verification/Lzo_Close.thy ===== *)
theory Lzo_Close
  imports Lzo_Proofs
begin

text \<open>
  The calls of the lzo writer under any schedule: a call can always go on and comes back, a write
  takes everything, and closing leaves the blocks, the end-of-file marker and a closed child. The
  close hands the threads' blocks over in the order of \<open>lzo_wclose\<close>, which is the order in which
  they were filled only when the thread to be used next is EMPTY.
\<close>

section \<open>Schedules\<close>

lemma lzo_sched_step:
  assumes "lzo_step env csrc s u"
  shows "\<exists>t. lzo_sched env csrc sched s = Some (tl sched, t) \<and> lzo_step env csrc s t"
proof -
  define order where
    "order = (if sched = [] then lz_threads s else hd sched) # lz_threads s # [0..<lz_threads s]"
  have "\<exists>i\<in>set order. lzo_actor env csrc s i \<noteq> None"
    using assms by cases (auto simp: order_def lzo_actor_def)
  then obtain i where i: "List.find (\<lambda>i. lzo_actor env csrc s i \<noteq> None) order = Some i"
    by (metis (mono_tags, lifting) find_None_iff option.exhaust)
  then obtain t where t: "lzo_actor env csrc s i = Some t" by (auto simp: find_Some_iff)
  then have "lzo_step env csrc s t"
    by (auto simp: lzo_actor_def split: if_splits intro: lzo_step.intros)
  with i t show ?thesis by (auto simp: lzo_sched_def order_def Let_def)
qed

text \<open>A call comes back when an invariant lets it go on and every step brings a measure down.\<close>

lemma run_lzo_returns:
  fixes m :: "'w lzow_t \<Rightarrow> nat"
  assumes "I s"
    and "\<And>s. I s \<Longrightarrow> lz_pc s \<noteq> L_Closed \<Longrightarrow> \<forall>r. lz_pc s \<noteq> L_Ret r \<Longrightarrow> \<exists>u. lzo_step env csrc s u"
    and "\<And>s t. I s \<Longrightarrow> lzo_step env csrc s t \<Longrightarrow> I t \<and> m t < m s"
  shows "\<exists>r sched' t. I t \<and>
    (lz_pc t = L_Ret r \<and> run_lzo env csrc sched s = Some (r, sched', t\<lparr>lz_pc := L_Idle\<rparr>) \<or>
     lz_pc t = L_Closed \<and> run_lzo env csrc sched s = Some (0, sched', t))"
  using assms(1)
proof (induction "m s" arbitrary: s sched rule: less_induct)
  case less
  show ?case
  proof (cases "lz_pc s = L_Closed \<or> (\<exists>r. lz_pc s = L_Ret r)")
    case True
    then have "lz_pc s = L_Closed \<and> run_lzo env csrc sched s = Some (0, sched, s) \<or>
        (\<exists>r. lz_pc s = L_Ret r \<and> run_lzo env csrc sched s = Some (r, sched, s\<lparr>lz_pc := L_Idle\<rparr>))"
      by (auto simp: run_lzo.simps)
    with less.prems show ?thesis by blast
  next
    case False
    then obtain u where "lzo_step env csrc s u" using assms(2) less.prems by blast
    then obtain t where t: "lzo_sched env csrc sched s = Some (tl sched, t)" "lzo_step env csrc s t"
      using lzo_sched_step by blast
    have "run_lzo env csrc sched s = run_lzo env csrc (tl sched) t"
      using False t(1) by (subst run_lzo.simps) (auto split: lzo_pc.splits)
    with less.hyps [of t "tl sched"] assms(3) [OF less.prems t(2)] show ?thesis by simp
  qed
qed

section \<open>A write\<close>

lemma worker_keeps_idle:
  "lzo_compress_thread env i s = Some t \<Longrightarrow> lz_pc t = L_Idle \<longleftrightarrow> lz_pc s = L_Idle"
  by (auto simp: lzo_compress_thread_def wake_caller_def Let_def
      split: lzo_worker_pc.splits if_splits bind_splits lzo_pc.splits)

lemma worker_can_go:
  "lt_pc (lz_thread s ! i) = W_Ready \<Longrightarrow> lt_ok env (lz_thread s ! i) \<Longrightarrow> lzo_compresses env \<Longrightarrow>
    \<exists>t. lzo_compress_thread env i s = Some t"
  using lzo_wwrite_block_ok [of env "lt_in (lz_thread s ! i)"]
  by (auto simp: lzo_compress_thread_def Let_def lt_ok_def)

lemma lzo_step_threads: "lzo_step env csrc s t \<Longrightarrow> lz_threads t = lz_threads s"
proof (erule lzo_step_cases)
  fix i assume "lzo_compress_thread env i s = Some t"
  then show "lz_threads t = lz_threads s"
    by (auto simp: lzo_compress_thread_def wake_caller_def Let_def
        split: lzo_worker_pc.splits if_splits bind_splits lzo_pc.splits)
next
  assume "caller_step csrc s = Some t"
  then show "lz_threads t = lz_threads s"
    by (auto simp: caller_step_def lzo_wwrite_step_def shutdown_thread_def lzo_finish_def Let_def
        split: lzo_pc.splits list.splits if_splits bind_splits)
qed

context lzo_writing
begin

lemma write_progress:
  assumes "winv whole s" "lz_pc s \<noteq> L_Idle" "\<forall>r. lz_pc s \<noteq> L_Ret r"
  shows "\<exists>u. lzo_step env csrc s u"
proof (cases "lz_pc s")
  case (L_Loop rest)
  with caller_winv [OF assms(1)] show ?thesis by (blast intro: lzo_step.caller)
next
  case (L_Wait rest)
  with assms(1) have wait: "lz_ring_ok env s" "lt_state (get_next_thread s) = WAITING"
    by (auto simp: lz_winv_def)
  note next_ok = lz_ring_thread [OF wait(1)]
  have "lt_pc (get_next_thread s) = W_Ready" using next_ok(2) wait(2) by (simp add: lt_ok_def)
  with next_ok worker_can_go [OF _ _ compresses, of s "lz_next s"] show ?thesis
    by (auto simp: get_next_thread_def intro: lzo_step.worker)
qed (use assms in \<open>auto simp: lz_winv_def\<close>)

lemma write_step:
  assumes "winv whole s \<and> lz_pc s \<noteq> L_Idle" "lzo_step env csrc s t"
  shows "(winv whole t \<and> lz_pc t \<noteq> L_Idle) \<and> lz_wmeasure t < lz_wmeasure s"
  using assms(2)
proof cases
  case (worker i)
  with assms(1) worker_winv worker_keeps_idle show ?thesis by blast
next
  case caller
  with assms(1) obtain rest where rest: "lz_pc s = L_Loop rest"
    by (cases "lz_pc s") (auto simp: caller_step_def lz_winv_def)
  with caller caller_winv [of whole s] assms(1) have "winv whole t \<and> lz_wmeasure t < lz_wmeasure s" by fastforce
  moreover from this caller rest have "lz_pc t \<noteq> L_Idle"
    by (auto simp: caller_step_def lzo_wwrite_step_def Let_def split: if_splits bind_splits)
  ultimately show ?thesis by blast
qed

lemma wwrite_ok:
  assumes "winv whole s" "lz_pc s = L_Idle"
  shows "\<exists>sched' t. lzo_wwrite env csrc (sched, s) bs = Some (0, (sched', t)) \<and>
    winv (whole @ bs) t \<and> lz_pc t = L_Idle \<and> lz_threads t = lz_threads s"
proof -
  let ?s = "s\<lparr>lz_pc := L_Loop bs\<rparr>"
  define I where "I s' \<longleftrightarrow> (winv (whole @ bs) s' \<and> lz_pc s' \<noteq> L_Idle) \<and> lz_threads s' = lz_threads s" for s'
  have pc: "lz_ring_ok env (x\<lparr>lz_pc := q\<rparr>) = lz_ring_ok env x" "lz_keys (x\<lparr>lz_pc := q\<rparr>) = lz_keys x"
    for x :: "'w lzow_t" and q by (simp_all add: lz_ring_ok_def lz_keys_def)
  have "\<exists>r sched' t. I t \<and>
    (lz_pc t = L_Ret r \<and> run_lzo env csrc sched ?s = Some (r, sched', t\<lparr>lz_pc := L_Idle\<rparr>) \<or>
     lz_pc t = L_Closed \<and> run_lzo env csrc sched ?s = Some (0, sched', t))"
  proof (rule run_lzo_returns [where I = I and m = lz_wmeasure], goal_cases)
    case 1 show ?case using assms by (auto simp: I_def lz_winv_def pc)
  next
    case (2 s) then show ?case using write_progress by (auto simp: I_def)
  next
    case (3 s t) then show ?case using write_step [of "whole @ bs" s t] lzo_step_threads [of env csrc s t]
      by (simp add: I_def)
  qed
  then obtain r sched' t where t: "winv (whole @ bs) t" "lz_threads t = lz_threads s" and ret:
    "lz_pc t = L_Ret r \<and> run_lzo env csrc sched ?s = Some (r, sched', t\<lparr>lz_pc := L_Idle\<rparr>) \<or>
     lz_pc t = L_Closed" unfolding I_def by blast
  from t ret have run: "run_lzo env csrc sched ?s = Some (0, sched', t\<lparr>lz_pc := L_Idle\<rparr>)"
    and idle: "winv (whole @ bs) (t\<lparr>lz_pc := L_Idle\<rparr>)" by (auto simp: lz_winv_def pc)
  have "lz_thread s \<noteq> []" using assms(1) by (auto simp: lz_winv_def lz_ring_ok_def)
  with run idle t(2) show ?thesis by (auto simp: lzo_wwrite_def)
qed

end

section \<open>Closing\<close>

definition lz_todo :: "'w lzow_t \<Rightarrow> nat list" where
  "lz_todo s = (case lz_pc s of L_Shut xs \<Rightarrow> xs | L_ShutWait xs \<Rightarrow> xs | L_Join _ xs \<Rightarrow> xs | _ \<Rightarrow> [])"

definition lz_joining :: "'w lzow_t \<Rightarrow> nat set" where
  "lz_joining s = (case lz_pc s of L_Join i _ \<Rightarrow> {i} | _ \<Rightarrow> {})"

definition todo_text :: "'w lzow_t \<Rightarrow> byte list" where
  "todo_text s = concat (map (\<lambda>i. lt_in (lz_thread s ! i)) (lz_todo s))"

text \<open>A thread is still to be shut down, is being joined, or has left.\<close>

definition lz_shut_thread :: "lzo_env \<Rightarrow> 'w lzow_t \<Rightarrow> nat \<Rightarrow> bool" where
  "lz_shut_thread env s i \<longleftrightarrow>
     (if i \<in> set (lz_todo s)
      then lt_ok env (lz_thread s ! i) \<and> (lt_state (lz_thread s ! i) = EMPTY \<longrightarrow> lt_in (lz_thread s ! i) = [])
      else if i \<in> lz_joining s then lt_closing (lz_thread s ! i) \<and> lt_pc (lz_thread s ! i) \<noteq> W_Wait
      else lt_pc (lz_thread s ! i) = W_Done)"

definition lz_shut_ok :: "lzo_env \<Rightarrow> 'w lzow_t \<Rightarrow> bool" where
  "lz_shut_ok env s \<longleftrightarrow> distinct (lz_todo s) \<and> (\<forall>i\<in>set (lz_todo s) \<union> lz_joining s. i < lz_threads s) \<and>
     (\<forall>i<lz_threads s. lz_shut_thread env s i) \<and> lz_joining s \<inter> set (lz_todo s) = {}"

text \<open>What the child was given before it was closed: \<open>base\<close>, blocks for \<open>final\<close>, the marker.\<close>

definition lz_closed ::
  "lzo_env \<Rightarrow> 'w iow_source_t \<Rightarrow> ('w \<Rightarrow> bool) \<Rightarrow> ('w \<Rightarrow> byte list) \<Rightarrow> byte list \<Rightarrow> byte list \<Rightarrow> 'w \<Rightarrow> bool" where
  "lz_closed env csrc cwinv csunk base final c2 \<longleftrightarrow>
     (\<exists>c bs. wsrc_close csrc c = Some c2 \<and> cwinv c \<and>
        csunk c = base @ concat (map (lzo_block env) bs) @ be32 0 \<and> concat bs = final \<and>
        (\<forall>b\<in>set bs. b \<noteq> [] \<and> length b \<le> MAX_BLOCK_SIZE))"

definition lz_cinv ::
  "lzo_env \<Rightarrow> 'w iow_source_t \<Rightarrow> ('w \<Rightarrow> bool) \<Rightarrow> ('w \<Rightarrow> byte list) \<Rightarrow> byte list \<Rightarrow> byte list \<Rightarrow> 'w lzow_t \<Rightarrow> bool" where
  "lz_cinv env csrc cwinv csunk base final s \<longleftrightarrow> lz_shut_ok env s \<and>
     (if lz_pc s = L_Closed then lz_closed env csrc cwinv csunk base final (lz_child s)
      else (\<exists>sent. lz_sent env cwinv csunk base sent (lz_child s) \<and> sent @ todo_text s = final) \<and>
        (case lz_pc s of L_Shut _ \<Rightarrow> True | L_Join _ _ \<Rightarrow> True
         | L_ShutWait xs \<Rightarrow> xs \<noteq> [] \<and> lt_state (lz_thread s ! hd xs) = WAITING
         | _ \<Rightarrow> False))"

definition lz_cmeasure :: "'w lzow_t \<Rightarrow> nat" where
  "lz_cmeasure s = 2 * lz_ready s +
     (case lz_pc s of L_Shut xs \<Rightarrow> 6 * length xs + 2 | L_ShutWait xs \<Rightarrow> 6 * length xs + 1
      | L_Join _ xs \<Rightarrow> 6 * length xs + 3 | _ \<Rightarrow> 0)"

lemma set_thread_nth: "i < lz_threads s \<Longrightarrow>
    lz_thread (set_thread i t s) ! j = (if j = i then t else lz_thread s ! j)"
  by (simp add: set_thread_def nth_list_update)

lemma lz_todo_cong: "lz_pc s = lz_pc s' \<Longrightarrow> lz_todo s = lz_todo s'"
  "lz_pc s = lz_pc s' \<Longrightarrow> lz_joining s = lz_joining s'"
  by (simp_all add: lz_todo_def lz_joining_def)

lemma wake_caller_simps [simp]:
  "lz_thread (wake_caller i s) = lz_thread s" "lz_child (wake_caller i s) = lz_child s"
  "lz_todo (wake_caller i s) = lz_todo s" "lz_joining (wake_caller i s) = lz_joining s"
  "lz_ready (wake_caller i s) = lz_ready s"
  by (auto simp: wake_caller_def lz_todo_def lz_joining_def lz_ready_def split: lzo_pc.split)

lemma set_thread_todo [simp]:
  "lz_todo (set_thread i t s) = lz_todo s" "lz_joining (set_thread i t s) = lz_joining s"
  by (simp_all add: lz_todo_def lz_joining_def)

lemma shut_ok_update:
  assumes "lz_shut_ok env s" "i < lz_threads s" "lz_shut_thread env (set_thread i u s) i"
  shows "lz_shut_ok env (set_thread i u s)"
  using assms by (auto simp: lz_shut_ok_def lz_shut_thread_def set_thread_nth)

lemma todo_text_update:
  "i < lz_threads s \<Longrightarrow> lt_in u = lt_in (lz_thread s ! i) \<or> i \<notin> set (lz_todo s) \<Longrightarrow>
    todo_text (set_thread i u s) = todo_text s"
  unfolding todo_text_def by (intro arg_cong [where f = concat]) (auto simp: set_thread_nth)

lemma shut_ok_wake: "lz_shut_ok env (wake_caller i s) = lz_shut_ok env s"
  "todo_text (wake_caller i s) = todo_text s"
  by (simp_all add: lz_shut_ok_def lz_shut_thread_def todo_text_def)

locale lzo_closing = lzo_writing +
  assumes closes: "cwinv w \<Longrightarrow> \<exists>w'. wsrc_close csrc w = Some w'"
begin

abbreviation cinv where
  "cinv \<equiv> lz_cinv env csrc cwinv csunk base"

lemma worker_cinv:
  assumes "cinv final s" "i < lz_threads s" "lzo_compress_thread env i s = Some t"
  shows "cinv final t \<and> lz_cmeasure t < lz_cmeasure s"
proof -
  let ?me = "lz_thread s ! i"
  from assms(1) have ok: "lz_shut_ok env s" by (simp add: lz_cinv_def)
  with assms(2) have me: "lz_shut_thread env s i" by (simp add: lz_shut_ok_def)
  show ?thesis
  proof (cases "i \<in> set (lz_todo s)")
    case False
    with me assms(3) have u: "t = set_thread i (?me\<lparr>lt_pc := W_Done\<rparr>) s" "lt_pc ?me = W_Ready"
      "i \<in> lz_joining s" "lt_closing ?me"
      by (auto simp: lz_shut_thread_def lzo_compress_thread_def Let_def split: lzo_worker_pc.splits if_splits)
    have "lz_shut_ok env t"
      using shut_ok_update [OF ok assms(2), of "?me\<lparr>lt_pc := W_Done\<rparr>"] False u assms(2)
      by (simp add: lz_shut_thread_def set_thread_nth)
    moreover have "todo_text t = todo_text s"
      using todo_text_update [OF assms(2)] False u(1) by simp
    moreover have "lz_todo s = xs \<Longrightarrow> xs \<noteq> [] \<Longrightarrow> hd xs \<noteq> i" for xs using False by auto
    ultimately show ?thesis
      using assms(1,2) u lz_ready_update [OF assms(2), of "?me\<lparr>lt_pc := W_Done\<rparr>"] False
      by (auto simp: lz_cinv_def lz_cmeasure_def set_thread_nth lz_joining_def split: lzo_pc.splits)
  next
    case True
    with me have "lt_ok env ?me" and empty_in: "lt_state ?me = EMPTY \<longrightarrow> lt_in ?me = []"
      by (auto simp: lz_shut_thread_def)
    from this(1) assms(3) show ?thesis
    proof (cases rule: worker_cases)
      case idle
      let ?u = "?me\<lparr>lt_pc := W_Wait\<rparr>"
      have "lz_shut_ok env t" "todo_text t = todo_text s"
        using shut_ok_update [OF ok assms(2), of ?u] todo_text_update [OF assms(2), of ?u] True idle assms(2) empty_in
        by (simp_all add: lz_shut_thread_def set_thread_nth)
      moreover have "lz_pc t = lz_pc s" "lz_child t = lz_child s" "lt_state (lz_thread t ! j) = lt_state (lz_thread s ! j)" for j
        using idle(2) assms(2) by (simp_all add: set_thread_nth)
      ultimately show ?thesis
        using assms(1) idle(4) lz_ready_update [OF assms(2), of ?u] idle(2)
        by (cases "lz_pc s") (auto simp: lz_cinv_def lz_cmeasure_def)
    next
      case (block u)
      have "lt_in u = lt_in ?me" using block(4) by (simp add: lt_key_def)
      then have "lz_shut_ok env t" "todo_text t = todo_text s"
        using shut_ok_update [OF ok assms(2), of u] todo_text_update [OF assms(2), of u] True block assms(2)
        by (simp_all add: lz_shut_thread_def set_thread_nth shut_ok_wake)
      moreover have "lz_ready t < lz_ready s"
        using block(2,5,7) lz_ready_update [OF assms(2), of u] by simp
      moreover have "lz_child t = lz_child s" using block(2) by simp
      ultimately show ?thesis
        using assms(1,2) block(2)
        by (cases "lz_pc s") (auto simp: lz_cinv_def lz_cmeasure_def wake_caller_def set_thread_nth)
    qed
  qed
qed

lemma shutdown_cinv:
  assumes "cinv final s" "lz_pc s = L_Shut (i # todo)"
  shows "\<exists>t. shutdown_thread csrc i todo s = Some t \<and> cinv final t \<and> lz_cmeasure t < lz_cmeasure s"
proof -
  let ?t = "lz_thread s ! i"
  from assms obtain sent where ok: "lz_shut_ok env s" and sent: "lz_sent env cwinv csunk base sent (lz_child s)"
    and final: "sent @ todo_text s = final" by (auto simp: lz_cinv_def)
  have todo: "lz_todo s = i # todo" "lz_joining s = {}" using assms(2) by (simp_all add: lz_todo_def lz_joining_def)
  from ok todo have i: "i < lz_threads s" "distinct (i # todo)" "lt_ok env ?t" "lt_state ?t = EMPTY \<longrightarrow> lt_in ?t = []"
    by (auto simp: lz_shut_ok_def lz_shut_thread_def split: if_splits)
  show ?thesis
  proof (cases "lt_state ?t = WAITING")
    case True
    have "lz_shut_ok env (s\<lparr>lz_pc := L_ShutWait (i # todo)\<rparr>)"
      using ok todo by (simp add: lz_shut_ok_def lz_shut_thread_def lz_todo_def lz_joining_def)
    with True sent final assms(2) show ?thesis
      by (auto simp: shutdown_thread_def lz_cinv_def lz_cmeasure_def lz_ready_def todo_text_def lz_todo_def)
  next
    case False
    obtain u c' sent' where u: "lzo_flush_thread csrc ?t (lz_child s) = Some (u, c')" "lt_state u = EMPTY"
      "lz_sent env cwinv csunk base sent' c'" "lt_in u = []" "sent' = sent @ lt_in ?t" "lt_pc u = lt_pc ?t"
    proof (rule flush_thread_ok [OF i(3) False sent], goal_cases)
      case (1 u c' sent')
      show ?case by (rule 1(1) [of u c' sent']) (use 1 i(4) in \<open>cases "lt_state ?t = FULL"; simp\<close>)+
    qed
    let ?w = "wake_worker (u\<lparr>lt_closing := True\<rparr>)"
    let ?s = "set_thread i ?w (s\<lparr>lz_child := c', lz_pc := L_Join i todo\<rparr>)"
    have step: "shutdown_thread csrc i todo s = Some ?s"
      using False i(4) u(1,2,4) by (auto simp: shutdown_thread_def Let_def)
    have nth: "lz_thread ?s ! j = (if j = i then ?w else lz_thread s ! j)" for j
      using i(1) by (simp add: set_thread_def nth_list_update)
    have now: "lz_todo ?s = todo" "lz_joining ?s = {i}" by (simp_all add: lz_todo_def lz_joining_def)
    have "lz_shut_ok env ?s"
      unfolding lz_shut_ok_def lz_shut_thread_def now nth
      using ok todo i(1,2) by (auto simp: lz_shut_ok_def lz_shut_thread_def wake_worker_def)
    moreover have "lt_in ?t @ todo_text ?s = todo_text s"
      using i(2) unfolding todo_text_def now todo nth by (auto intro!: arg_cong [where f = concat])
    moreover have "lz_ready ?s \<le> lz_ready s + 1"
      using lz_ready_update [of i "s\<lparr>lz_child := c', lz_pc := L_Join i todo\<rparr>" ?w] i(1)
      by (auto simp: lz_ready_def split: if_splits)
    ultimately show ?thesis
      using step u(3,5) final assms(2) by (auto simp: lz_cinv_def lz_cmeasure_def)
  qed
qed

lemma finish_cinv:
  assumes "cinv final s" "lz_pc s = L_Shut []"
  shows "\<exists>t. lzo_finish csrc s = Some t \<and> cinv final t \<and> lz_cmeasure t < lz_cmeasure s"
proof -
  from assms obtain sent where ok: "lz_shut_ok env s" and sent: "lz_sent env cwinv csunk base sent (lz_child s)"
    and final: "sent @ todo_text s = final" by (auto simp: lz_cinv_def)
  have none: "lz_todo s = []" "lz_joining s = {}" "todo_text s = []"
    using assms(2) by (simp_all add: lz_todo_def lz_joining_def todo_text_def)
  from sent obtain bs where bs: "cwinv (lz_child s)" "csunk (lz_child s) = base @ concat (map (lzo_block env) bs)"
    "concat bs = sent" "\<forall>b\<in>set bs. b \<noteq> [] \<and> length b \<le> MAX_BLOCK_SIZE"
    by (auto simp: lz_sent_def)
  obtain c where c: "wsrc_write csrc (lz_child s) [0, 0, 0, 0] = Some (int 4, c)" "cwinv c"
    "csunk c = csunk (lz_child s) @ [0, 0, 0, 0]"
    using child.wr_ok [OF bs(1), of "[0, 0, 0, 0]"] by auto
  obtain c2 where c2: "wsrc_close csrc c = Some c2" using closes [OF c(2)] by blast
  have "be32 0 = [0, 0, 0, 0]" by (simp add: be32_def)
  with c bs final none c2 have "lz_closed env csrc cwinv csunk base final c2"
    unfolding lz_closed_def by (intro exI [of _ c] exI [of _ bs]) auto
  moreover have "lz_shut_ok env (s\<lparr>lz_child := c2, lz_pc := L_Closed\<rparr>)"
    using ok none by (simp add: lz_shut_ok_def lz_shut_thread_def lz_todo_def lz_joining_def)
  ultimately show ?thesis
    using c(1) c2 assms(2)
    by (auto simp: lzo_finish_def wandio_wwrite_def wandio_wdestroy_def lz_cinv_def lz_cmeasure_def lz_ready_def)
qed

lemma join_cinv:
  assumes "cinv final s" "lz_pc s = L_Join i todo" "lt_pc (lz_thread s ! i) = W_Done"
  shows "cinv final (s\<lparr>lz_pc := L_Shut todo\<rparr>) \<and> lz_cmeasure (s\<lparr>lz_pc := L_Shut todo\<rparr>) < lz_cmeasure s"
proof -
  have same: "lz_todo (s\<lparr>lz_pc := L_Shut todo\<rparr>) = lz_todo s" "lz_joining (s\<lparr>lz_pc := L_Shut todo\<rparr>) = {}"
    "lz_joining s = {i}" using assms(2) by (simp_all add: lz_todo_def lz_joining_def)
  have "lz_shut_ok env (s\<lparr>lz_pc := L_Shut todo\<rparr>)"
    using assms unfolding lz_cinv_def lz_shut_ok_def lz_shut_thread_def same by (auto split: if_splits)
  with assms(1,2) same show ?thesis
    by (auto simp: lz_cinv_def lz_cmeasure_def lz_ready_def todo_text_def)
qed

lemma caller_cinv:
  assumes "cinv final s" "caller_step csrc s = Some t"
  shows "cinv final t \<and> lz_cmeasure t < lz_cmeasure s"
proof (cases "lz_pc s")
  case (L_Shut xs)
  with assms finish_cinv [of final s] shutdown_cinv [of final s] show ?thesis
    by (cases xs) (fastforce simp: caller_step_def)+
next
  case (L_Join i xs)
  with assms join_cinv [of final s] show ?thesis by (auto simp: caller_step_def split: if_splits)
qed (use assms in \<open>auto simp: caller_step_def lz_cinv_def\<close>)

lemma close_step:
  "cinv final s \<Longrightarrow> lzo_step env csrc s t \<Longrightarrow> cinv final t \<and> lz_cmeasure t < lz_cmeasure s"
  by (erule lzo_step_cases) (use worker_cinv caller_cinv in blast)+

lemma close_progress:
  assumes "cinv final s" "lz_pc s \<noteq> L_Closed"
  shows "\<exists>u. lzo_step env csrc s u"
proof (cases "lz_pc s")
  case (L_Shut xs)
  with finish_cinv [OF assms(1)] shutdown_cinv [OF assms(1)] show ?thesis
    by (cases xs) (fastforce simp: caller_step_def intro: lzo_step.caller)+
next
  case (L_ShutWait xs)
  with assms have "xs \<noteq> []" "lt_state (lz_thread s ! hd xs) = WAITING" "lz_shut_ok env s" "lz_todo s = xs"
    by (auto simp: lz_cinv_def lz_todo_def)
  then have "hd xs < lz_threads s \<and> lz_shut_thread env s (hd xs)" "hd xs \<in> set (lz_todo s)"
    using hd_in_set [of xs] by (auto simp: lz_shut_ok_def)
  with \<open>lt_state (lz_thread s ! hd xs) = WAITING\<close>
  have i: "hd xs < lz_threads s" "lt_ok env (lz_thread s ! hd xs)" "lt_pc (lz_thread s ! hd xs) = W_Ready"
    by (auto simp: lz_shut_thread_def lt_ok_def)
  show ?thesis using worker_can_go [OF i(3,2) compresses] i(1) by (blast intro: lzo_step.worker)
next
  case (L_Join i xs)
  with assms(1) have i: "i < lz_threads s" "lt_closing (lz_thread s ! i)" "lt_pc (lz_thread s ! i) \<noteq> W_Wait"
    by (auto simp: lz_cinv_def lz_shut_ok_def lz_shut_thread_def lz_todo_def lz_joining_def)
  show ?thesis
  proof (cases "lt_pc (lz_thread s ! i) = W_Done")
    case True
    with L_Join have "caller_step csrc s = Some (s\<lparr>lz_pc := L_Shut xs\<rparr>)" by (simp add: caller_step_def)
    then show ?thesis by (blast intro: lzo_step.caller)
  next
    case False
    with i have "\<exists>t. lzo_compress_thread env i s = Some t"
      by (cases "lt_pc (lz_thread s ! i)") (auto simp: lzo_compress_thread_def)
    with i(1) show ?thesis by (blast intro: lzo_step.worker)
  qed
qed (use assms in \<open>auto simp: lz_cinv_def\<close>)

lemma close_returns:
  assumes "cinv final s"
  shows "\<exists>sched' t. run_lzo env csrc sched s = Some (0, sched', t) \<and> cinv final t \<and> lz_pc t = L_Closed"
proof -
  have "\<exists>r sched' t. cinv final t \<and>
    (lz_pc t = L_Ret r \<and> run_lzo env csrc sched s = Some (r, sched', t\<lparr>lz_pc := L_Idle\<rparr>) \<or>
     lz_pc t = L_Closed \<and> run_lzo env csrc sched s = Some (0, sched', t))"
  proof (rule run_lzo_returns [where I = "cinv final" and m = lz_cmeasure], goal_cases)
    case 1 show ?case by (rule assms)
  next
    case (2 s) then show ?case using close_progress by blast
  next
    case (3 s t) then show ?case by (rule close_step)
  qed
  then obtain r sched' t where t: "cinv final t" "lz_pc t = L_Ret r \<or>
     lz_pc t = L_Closed \<and> run_lzo env csrc sched s = Some (0, sched', t)" by blast
  then have "lz_pc t \<noteq> L_Ret r" by (auto simp: lz_cinv_def)
  with t show ?thesis by blast
qed

end

section \<open>The order of the close\<close>

text \<open>What the blocks stand for after a close: the text, unless it fills at least as many whole
  blocks as there are threads and nothing more; then the first of the last \<open>threads\<close> blocks comes
  last.\<close>

definition lzo_close_text :: "nat \<Rightarrow> byte list \<Rightarrow> byte list" where
  "lzo_close_text threads text =
     (let k = length text - threads * MAX_BLOCK_SIZE
      in if MAX_BLOCK_SIZE dvd length text \<and> threads * MAX_BLOCK_SIZE \<le> length text
         then take k text @ drop (k + MAX_BLOCK_SIZE) text @ take MAX_BLOCK_SIZE (drop k text)
         else text)"

lemma key_text_occupied:
  "\<forall>k\<in>set ks. \<not> fst k \<longrightarrow> length (snd k) = B \<Longrightarrow> spent ks \<Longrightarrow>
    length (key_text ks) = length (filter (\<lambda>k. \<not> fst k) ks) * B"
  by (induction ks) (auto simp: spent_def split: prod.splits)

lemma close_text_keys:
  assumes "lz_shape sent (k # ks)" "spent ks" "fst k \<Longrightarrow> length (snd k) < MAX_BLOCK_SIZE"
  shows "lzo_close_text (length (k # ks)) (sent @ flight (k # ks)) = sent @ key_text ks @ snd k"
proof (cases "fst k")
  case False
  then have occ: "filter (\<lambda>k. \<not> fst k) ks = ks" and k: "length (snd k) = MAX_BLOCK_SIZE"
    using assms(1) by (auto simp: lz_shape_def filter_id_conv)
  have len: "length (key_text ks) = length ks * MAX_BLOCK_SIZE"
    using key_text_occupied [of ks MAX_BLOCK_SIZE] assms(1,2) occ by (simp add: lz_shape_def)
  have text_eq: "sent @ flight (k # ks) = sent @ snd k @ key_text ks" using False by (cases k) (simp add: flight_def)
  have n: "length (sent @ snd k @ key_text ks) = length sent + length (k # ks) * MAX_BLOCK_SIZE"
    using len k by simp
  have "MAX_BLOCK_SIZE dvd length sent" using assms(1) by (simp add: lz_shape_def)
  then have "MAX_BLOCK_SIZE dvd length (sent @ snd k @ key_text ks)" unfolding n by simp
  with n k show ?thesis unfolding text_eq lzo_close_text_def by (simp add: Let_def)
next
  case True
  have text_eq: "sent @ flight (k # ks) = sent @ key_text ks @ snd k" using True by (cases k) (simp add: flight_def)
  have len: "length (key_text ks) = length (filter (\<lambda>k. \<not> fst k) ks) * MAX_BLOCK_SIZE"
    using key_text_occupied [of ks MAX_BLOCK_SIZE] assms(1,2) by (simp add: lz_shape_def)
  have "\<not> (MAX_BLOCK_SIZE dvd length (sent @ key_text ks @ snd k) \<and>
      length (k # ks) * MAX_BLOCK_SIZE \<le> length (sent @ key_text ks @ snd k))"
  proof
    assume *: "MAX_BLOCK_SIZE dvd length (sent @ key_text ks @ snd k) \<and>
      length (k # ks) * MAX_BLOCK_SIZE \<le> length (sent @ key_text ks @ snd k)"
    have "MAX_BLOCK_SIZE dvd length sent" using assms(1) by (simp add: lz_shape_def)
    with * have "MAX_BLOCK_SIZE dvd length (snd k)" by (simp add: len dvd_add_right_iff)
    then have "snd k = []" using assms(3) [OF True] dvd_imp_le by fastforce
    then have "sent = []" using assms(1) True by (cases k) (auto simp: lz_shape_def)
    with * \<open>snd k = []\<close> len have "length (k # ks) * MAX_BLOCK_SIZE \<le> length (filter (\<lambda>k. \<not> fst k) ks) * MAX_BLOCK_SIZE"
      by simp
    then have "Suc (length ks) \<le> length (filter (\<lambda>k. \<not> fst k) ks)" by (simp only: mult_le_cancel2) simp
    with length_filter_le [of "\<lambda>k. \<not> fst k" ks] show False by linarith
  qed
  then show ?thesis unfolding text_eq lzo_close_text_def Let_def by (simp only: if_False)
qed

lemma close_text_same:
  assumes "threads \<le> 1 \<or> \<not> (MAX_BLOCK_SIZE dvd length text \<and> threads * MAX_BLOCK_SIZE \<le> length text)"
  shows "lzo_close_text threads text = text"
proof (cases "threads \<le> 1")
  case True
  then have "threads = 0 \<or> threads = 1" by linarith
  then show ?thesis by (auto simp: lzo_close_text_def Let_def)
next
  case False
  with assms have "\<not> (MAX_BLOCK_SIZE dvd length text \<and> threads * MAX_BLOCK_SIZE \<le> length text)" by blast
  then show ?thesis unfolding lzo_close_text_def Let_def by (simp only: if_False)
qed

lemma map_nth_rotate:
  "n \<le> length xs \<Longrightarrow> map ((!) xs) ([n..<length xs] @ [0..<n]) = drop n xs @ take n xs"
proof -
  assume n: "n \<le> length xs"
  have "drop n (map ((!) xs) [0..<length xs]) = map ((!) xs) [n..<length xs]"
    "take n (map ((!) xs) [0..<length xs]) = map ((!) xs) [0..<n]"
    using n by (simp_all add: drop_map take_map)
  then show ?thesis by (simp add: map_nth)
qed

lemma wclose_call_pc:
  "lz_thread s \<noteq> [] \<Longrightarrow> lz_pc (lzo_wclose_call s) =
    (let n = (lz_next s + 1) mod lz_threads s in L_Shut ([n..<lz_threads s] @ [0..<n]))"
  by (simp add: lzo_wclose_call_def Let_def)

context lzo_closing
begin

lemma wclose_call_cinv:
  assumes "winv whole s" "lz_pc s = L_Idle"
  shows "cinv (lzo_close_text (lz_threads s) whole) (lzo_wclose_call s)"
proof -
  from assms obtain sent where ring: "lz_ring_ok env s" and sent: "lz_sent env cwinv csunk base sent (lz_child s)"
    and whole: "sent @ flight (lz_keys s) = whole" and shape: "lz_shape sent (lz_keys s)"
    by (auto simp: lz_winv_def)
  note next_ok = lz_ring_thread [OF ring]
  let ?th = "lz_thread s" and ?m = "lz_next s" and ?T = "lz_threads s"
  define n where "n = (?m + 1) mod ?T"
  define w where "w = (let t = get_next_thread s in if lt_state t = EMPTY \<and> lt_in t \<noteq> []
      then wake_worker (t\<lparr>lt_state := WAITING\<rparr>) else t)"
  let ?s = "lzo_wclose_call s"
  have T: "0 < ?T" using next_ok(1) by (rule le_less_trans [OF le0])
  then have "n < ?T" unfolding n_def by (rule mod_less_divisor)
  note T = T this
  have s: "lz_thread ?s = ?th[?m := w]" "lz_child ?s = lz_child s" "lz_pc ?s = L_Shut ([n..<?T] @ [0..<n])"
    using T(1) by (auto simp: lzo_wclose_call_def Let_def n_def w_def set_thread_def get_next_thread_def)
  have todo: "lz_todo ?s = [n..<?T] @ [0..<n]" "lz_joining ?s = {}" by (simp_all add: lz_todo_def lz_joining_def s)
  have nth: "j < ?T \<Longrightarrow> lz_thread ?s ! j = (if j = ?m then w else ?th ! j)" for j by (simp add: s)
  have all: "j < ?T \<Longrightarrow> lt_ok env (?th ! j)" for j using ring by (auto simp: lz_ring_ok_def)
  have tl_keys: "tl (lz_keys s) = map lt_key (drop (Suc ?m) ?th @ take ?m ?th)"
    using next_ok(1) by (simp add: lz_keys_def rotate_drop_take drop_map take_map Cons_nth_drop_Suc [symmetric])
  have others: "lt_state (?th ! j) = EMPTY \<longrightarrow> lt_in (?th ! j) = []" if "j < ?T" "j \<noteq> ?m" for j
  proof -
    have "?th ! j \<in> set (drop (Suc ?m) ?th @ take ?m ?th)"
    proof (cases "j < ?m")
      case True
      with that show ?thesis by (auto simp: in_set_conv_nth intro!: exI [of _ j])
    next
      case False
      with that have "drop (Suc ?m) ?th ! (j - Suc ?m) = ?th ! j" "j - Suc ?m < length (drop (Suc ?m) ?th)" by auto
      then show ?thesis by (metis UnCI nth_mem set_append)
    qed
    then have "lt_key (?th ! j) \<in> set (tl (lz_keys s))" unfolding tl_keys by auto
    with next_ok(3) show ?thesis by (auto simp: spent_def lt_key_def)
  qed
  have w: "lt_ok env w" "lt_state w = EMPTY \<longrightarrow> lt_in w = []" "lt_in w = lt_in (?th ! ?m)"
    using next_ok(2) by (cases "lt_pc (get_next_thread s)";
      auto simp: w_def Let_def lt_ok_def wake_worker_def get_next_thread_def)+
  have "lz_shut_thread env ?s j" if "j < ?T" for j
    using that w all others T(2) unfolding lz_shut_thread_def todo nth [OF that] by auto
  then have shut: "lz_shut_ok env ?s"
    using T(2) unfolding lz_shut_ok_def todo by (auto simp: s)
  have ins: "map lt_in (lz_thread ?s) = map lt_in ?th"
    using w(3) next_ok(1) unfolding s by (metis list_update_id map_update)
  have "todo_text ?s = concat (map ((!) (map lt_in (lz_thread ?s))) ([n..<?T] @ [0..<n]))"
    using T(2) unfolding todo_text_def todo by (auto simp: s intro!: arg_cong2 [where f = append] arg_cong [where f = concat])
  also have "\<dots> = concat (rotate n (map lt_in ?th))"
    using map_nth_rotate [of n "map lt_in ?th"] T(2) unfolding ins by (simp add: rotate_drop_take)
  also have "rotate n (map lt_in ?th) = map snd (rotate1 (lz_keys s))"
    using rotate_next [of ?m "map lt_in ?th"]
    by (simp add: n_def lz_keys_def rotate_map rotate1_map [symmetric] lt_key_def comp_def del: rotate1_map)
  finally have "todo_text ?s = key_text (tl (lz_keys s)) @ snd (lt_key (get_next_thread s))"
    using next_ok(4) by (simp add: key_text_def) (metis concat.simps(1) concat.simps(2) concat_append list.simps(8,9) map_append rotate1.simps(2) self_append_conv)
  moreover have "length (lz_keys s) = ?T" by (simp add: lz_keys_def)
  moreover have "fst (lt_key (get_next_thread s)) \<Longrightarrow> length (snd (lt_key (get_next_thread s))) < MAX_BLOCK_SIZE"
    using next_ok(2) by (simp add: lt_key_def lt_ok_def)
  ultimately have "sent @ todo_text ?s = lzo_close_text ?T whole"
    using close_text_keys [of sent "lt_key (get_next_thread s)" "tl (lz_keys s)"] shape next_ok(3,4) whole by metis
  with shut sent show ?thesis by (auto simp: lz_cinv_def s)
qed

lemma wclose_ok:
  assumes "winv whole s" "lz_pc s = L_Idle"
  shows "\<exists>sched' t. lzo_wclose env csrc (sched, s) = Some (sched', t) \<and> lz_pc t = L_Closed \<and>
    (\<forall>th\<in>set (lz_thread t). lt_pc th = W_Done) \<and>
    lz_closed env csrc cwinv csunk base (lzo_close_text (lz_threads s) whole) (lz_child t)"
proof -
  from close_returns [OF wclose_call_cinv [OF assms], of sched] obtain sched' t where
    t: "run_lzo env csrc sched (lzo_wclose_call s) = Some (0, sched', t)"
    "cinv (lzo_close_text (lz_threads s) whole) t" "lz_pc t = L_Closed" by blast
  then have "\<forall>i<lz_threads t. lt_pc (lz_thread t ! i) = W_Done"
    by (auto simp: lz_cinv_def lz_shut_ok_def lz_shut_thread_def lz_todo_def lz_joining_def)
  then have "\<forall>th\<in>set (lz_thread t). lt_pc th = W_Done" by (auto simp: in_set_conv_nth)
  with t show ?thesis by (auto simp: lzo_wclose_def lz_cinv_def)
qed

end

end
