(* ===== verification/Lzo_Files.thy ===== *)
theory Lzo_Files
  imports Lzo_Close
begin

text \<open>
  Files made by the lzo writer: what opening leaves in the child, writing with and without threads,
  closing, and reading the result back with the reference reader of \<open>Lzo_Format\<close>; then what goes
  wrong in \<^verbatim>\<open>lib/iow-lzo.c\<close>.
\<close>

section \<open>Writing with and without threads\<close>

text \<open>Between calls, with \<open>whole\<close> accepted so far.\<close>

definition lz_holds ::
  "lzo_env \<Rightarrow> ('w \<Rightarrow> bool) \<Rightarrow> ('w \<Rightarrow> byte list) \<Rightarrow> byte list \<Rightarrow> byte list \<Rightarrow> 'w lzow_t \<Rightarrow> bool" where
  "lz_holds env cwinv csunk base whole s \<longleftrightarrow> lz_pc s = L_Idle \<and>
     (if lz_thread s = [] then lz_sent env cwinv csunk base whole (lz_child s)
      else lz_winv env cwinv csunk base whole s)"

context lzo_writing
begin

abbreviation holds where "holds \<equiv> lz_holds env cwinv csunk base"

lemma plain_wwrite:
  assumes "lz_sent env cwinv csunk base whole (lz_child s)"
  shows "\<exists>c'. c_loop (lzo_plain_pass env csrc) (bs, s) = Some (0, s\<lparr>lz_child := c'\<rparr>) \<and>
    lz_sent env cwinv csunk base (whole @ bs) c'"
proof -
  define I where "I = (\<lambda>(rest, s'). \<exists>c sent. s' = s\<lparr>lz_child := c\<rparr> \<and>
      lz_sent env cwinv csunk base sent c \<and> sent @ rest = whole @ bs)"
  have I: "I (rest, s\<lparr>lz_child := c\<rparr>)" if "lz_sent env cwinv csunk base sent c" "sent @ rest = whole @ bs"
    for rest c sent using that by (auto simp: I_def intro!: exI [of _ c] exI [of _ sent])
  have "\<exists>r. c_loop (lzo_plain_pass env csrc) (bs, s) = Some r \<and>
    (\<exists>c'. r = (0, s\<lparr>lz_child := c'\<rparr>) \<and> lz_sent env cwinv csunk base (whole @ bs) c')"
  proof (rule c_loop_returns [where m = "\<lambda>(rest, _). length rest" and I = I])
    show "I (bs, s)" using I [of whole "lz_child s" bs] assms by simp
  next
    fix st assume "I st"
    then obtain rest c sent where st: "st = (rest, s\<lparr>lz_child := c\<rparr>)"
      and sent: "lz_sent env cwinv csunk base sent c" "sent @ rest = whole @ bs" by (auto simp: I_def)
    show "(\<exists>r. lzo_plain_pass env csrc st = Some (Inl r) \<and>
          (\<exists>c'. r = (0, s\<lparr>lz_child := c'\<rparr>) \<and> lz_sent env cwinv csunk base (whole @ bs) c')) \<or>
        (\<exists>s'. lzo_plain_pass env csrc st = Some (Inr s') \<and> I s' \<and>
          (case s' of (rest, _) \<Rightarrow> length rest) < (case st of (rest, _) \<Rightarrow> length rest))"
    proof (cases "rest = []")
      case True
      with st sent show ?thesis by (auto simp: lzo_plain_pass_def)
    next
      case False
      define b where "b = take (min (length rest) MAX_BLOCK_SIZE) rest"
      have b: "b \<noteq> []" "length b \<le> MAX_BLOCK_SIZE" "length b = min (length rest) MAX_BLOCK_SIZE"
        "rest = b @ drop (length b) rest" using False by (auto simp: b_def)
      obtain c' where c': "wandio_wwrite csrc c (lzo_block env b) = Some (int (length (lzo_block env b)), c')"
        "lz_sent env cwinv csunk base (sent @ b) c'" using child_writes_block [OF sent(1) b(1,2)] .
      have "lzo_plain_pass env csrc st = Some (Inr (drop (length b) rest, s\<lparr>lz_child := c'\<rparr>))"
        using False lzo_wwrite_block_ok [OF compresses b(1,2)] c'(1) b(3)
        by (simp add: st lzo_plain_pass_def Let_def b_def [symmetric])
      moreover have "I (drop (length b) rest, s\<lparr>lz_child := c'\<rparr>)"
        using c'(2) sent(2) b(4) by (intro I [of "sent @ b"]) (metis append.assoc)+
      moreover have "length (drop (length b) rest) < length rest" using b(1) False by simp
      ultimately show ?thesis using st by auto
    qed
  qed
  then show ?thesis by blast
qed

lemma holds_write:
  assumes "holds whole s"
  shows "\<exists>sched' t. lzo_wwrite env csrc (sched, s) bs = Some (0, (sched', t)) \<and>
    holds (whole @ bs) t \<and> lz_threads t = lz_threads s"
proof (cases "lz_thread s = []")
  case True
  with assms plain_wwrite [of whole s bs] show ?thesis by (auto simp: lz_holds_def lzo_wwrite_def)
next
  case False
  with assms wwrite_ok [of whole s sched bs] obtain sched' t where
    t: "lzo_wwrite env csrc (sched, s) bs = Some (0, (sched', t))" "winv (whole @ bs) t" "lz_pc t = L_Idle"
    "lz_threads t = lz_threads s" by (auto simp: lz_holds_def)
  from t(2) have "lz_thread t \<noteq> []" by (auto simp: lz_winv_def lz_ring_ok_def)
  with t show ?thesis by (auto simp: lz_holds_def)
qed

lemma holds_write_list:
  assumes "holds whole s"
  shows "\<exists>sched' t. write_list (lzo_wwrite env csrc) (sched, s) bss = Some (sched', t) \<and>
    holds (whole @ concat bss) t \<and> lz_threads t = lz_threads s"
  using assms
proof (induction bss arbitrary: whole s sched)
  case (Cons bs bss)
  from holds_write [OF Cons.prems, of sched bs] obtain sched1 t1 where
    one: "lzo_wwrite env csrc (sched, s) bs = Some (0, (sched1, t1))" "holds (whole @ bs) t1"
      "lz_threads t1 = lz_threads s" by blast
  from Cons.IH [OF one(2), of sched1] one(1,3) show ?case by auto
qed auto

end

context lzo_closing
begin

lemma holds_close:
  assumes "lz_holds env cwinv csunk base whole s"
  shows "\<exists>sched' t. lzo_wclose env csrc (sched, s) = Some (sched', t) \<and>
    (\<forall>th\<in>set (lz_thread t). lt_pc th = W_Done) \<and>
    lz_closed env csrc cwinv csunk base (lzo_close_text (lz_threads s) whole) (lz_child t)"
proof (cases "lz_thread s = []")
  case False
  with assms wclose_ok [of whole s sched] show ?thesis by (auto simp: lz_holds_def)
next
  case True
  have text_eq: "lzo_close_text 0 whole = whole" by (simp add: close_text_same)
  have "cinv whole (lzo_wclose_call s)"
    using assms True by (auto simp: lz_holds_def lzo_wclose_call_def lz_cinv_def lz_shut_ok_def
        lz_todo_def lz_joining_def todo_text_def)
  from close_returns [OF this, of sched] text_eq obtain sched' t where t: "run_lzo env csrc sched (lzo_wclose_call s) = Some (0, sched', t)"
    "cinv whole t" "lz_pc t = L_Closed" "lzo_close_text (lz_threads s) whole = whole" using True by auto
  then have "\<forall>i<lz_threads t. lt_pc (lz_thread t ! i) = W_Done"
    by (auto simp: lz_cinv_def lz_shut_ok_def lz_shut_thread_def lz_todo_def lz_joining_def)
  then have "\<forall>th\<in>set (lz_thread t). lt_pc th = W_Done" by (auto simp: in_set_conv_nth)
  with t show ?thesis by (auto simp: lzo_wclose_def lz_cinv_def)
qed

end

section \<open>Opening\<close>

lemma lzo_wopen_holds:
  assumes "writer (wsrc_write csrc) cwinv csunk" "cwinv w"
    and "lzo_wopen env csrc nprocs use_threads (Some w) level = Some (Some s)"
  shows "\<exists>h. lzo_header env = Some h \<and> lz_holds env cwinv csunk (csunk w @ h) [] s \<and>
    lz_threads s = (if 0 < use_threads then min nprocs use_threads else 0)"
proof -
  obtain h where h: "lzo_header env = Some h" "length h < 2 ^ 30"
    using lzo_header_layout [of env] by (auto simp: lzop_magic_def)
  obtain c where c: "wsrc_write csrc w h = Some (int (length h), c)" "cwinv c" "csunk c = csunk w @ h"
    using writer.wr_ok [OF assms(1,2) h(2)] by blast
  have sent: "lz_sent env cwinv csunk (csunk w @ h) [] c"
    using c by (auto simp: lz_sent_def intro!: exI [of _ "[]"])
  let ?t = "\<lparr>lt_closing = False, lt_state = EMPTY, lt_in = [], lt_out = [], lt_pc = W_Ready\<rparr>"
  define n where "n = (if 0 < use_threads then min nprocs use_threads else 0)"
  have s: "s = (if 0 < use_threads
      then \<lparr>lz_child = c, lz_next = 0, lz_thread = replicate n ?t, lz_pc = L_Idle\<rparr>
      else \<lparr>lz_child = c, lz_next = 9, lz_thread = [], lz_pc = L_Idle\<rparr>)"
    using assms(3) h(1) c(1)
    by (auto simp: lzo_wopen_def wandio_wwrite_def n_def split: if_splits)
  have keys: "rotate 0 (map lt_key (replicate n ?t)) = replicate n (True, [])" by (simp add: lt_key_def)
  have ok: "lt_ok env ?t" by (simp add: lt_ok_def)
  have "lz_winv env cwinv csunk (csunk w @ h) [] s" if "0 < n"
  proof -
    from that have s': "s = \<lparr>lz_child = c, lz_next = 0, lz_thread = replicate n ?t, lz_pc = L_Idle\<rparr>"
      unfolding s by (simp add: n_def split: if_splits)
    have lz_keys: "lz_keys s = replicate n (True, [])" using keys by (simp add: lz_keys_def s')
    have "spent (tl (replicate n (True, [])))" by (auto simp: spent_def)
    then have "lz_ring_ok env s" using that ok unfolding lz_ring_ok_def lz_keys by (simp add: s')
    moreover have "lz_shape [] (replicate n (True, []))"
      by (simp add: lz_shape_def sorted_wrt_iff_nth_less)
    moreover have "flight (replicate n (True, [])) = []"
      using that by (cases n) (auto simp: flight_def key_text_def)
    ultimately show ?thesis using sent unfolding lz_winv_def lz_keys by (auto simp: s')
  qed
  then have "lz_holds env cwinv csunk (csunk w @ h) [] s"
    using sent by (cases "n = 0") (auto simp: lz_holds_def s n_def)
  with h(1) show ?thesis by (auto simp: s n_def)
qed

text \<open>A whole life of the writer.\<close>

lemma lzo_closingI:
  "writer (wsrc_write csrc) cwinv csunk \<Longrightarrow> \<forall>w. cwinv w \<longrightarrow> (\<exists>w'. wsrc_close csrc w = Some w') \<Longrightarrow>
    lzo_compresses env \<Longrightarrow> lzo_closing csrc cwinv csunk env"
  by (intro lzo_closing.intro lzo_writing.intro lzo_writing_axioms.intro lzo_closing_axioms.intro) auto

lemma lzo_file:
  assumes "writer (wsrc_write csrc) cwinv csunk" "\<forall>w. cwinv w \<longrightarrow> (\<exists>w'. wsrc_close csrc w = Some w')"
    and "lzo_compresses env" "lzo_expands env expand" "cwinv w"
    and "lzo_wopen env csrc nprocs use_threads (Some w) level = Some (Some s)"
  shows "\<exists>h io sched' t c z. lzo_header env = Some h \<and>
    write_list (lzo_wwrite env csrc) (sched, s) bss = Some io \<and>
    lzo_wclose env csrc io = Some (sched', t) \<and> (\<forall>th\<in>set (lz_thread t). lt_pc th = W_Done) \<and>
    wsrc_close csrc c = Some (lz_child t) \<and> cwinv c \<and> csunk c = csunk w @ h @ z \<and>
    lzop_text expand (lzo_adler32 env) z = Some (lzo_close_text (lz_threads s) (concat bss))"
proof -
  obtain h where h: "lzo_header env = Some h" "lz_holds env cwinv csunk (csunk w @ h) [] s"
    using lzo_wopen_holds [OF assms(1,5,6)] by blast
  note lz = lzo_closingI [OF assms(1-3)]
  obtain sched1 s1 where s1: "write_list (lzo_wwrite env csrc) (sched, s) bss = Some (sched1, s1)"
    "lz_holds env cwinv csunk (csunk w @ h) (concat bss) s1" "lz_threads s1 = lz_threads s"
    using lzo_writing.holds_write_list [OF lzo_closing.axioms(1) [OF lz] h(2), of sched bss] by auto
  obtain sched' t where t: "lzo_wclose env csrc (sched1, s1) = Some (sched', t)"
    "\<forall>th\<in>set (lz_thread t). lt_pc th = W_Done"
    "lz_closed env csrc cwinv csunk (csunk w @ h) (lzo_close_text (lz_threads s) (concat bss)) (lz_child t)"
    using lzo_closing.holds_close [OF lz s1(2), of sched1] s1(3) by auto
  then obtain c bs where c: "wsrc_close csrc c = Some (lz_child t)" "cwinv c"
    "csunk c = (csunk w @ h) @ concat (map (lzo_block env) bs) @ be32 0"
    "concat bs = lzo_close_text (lz_threads s) (concat bss)" "\<forall>b\<in>set bs. b \<noteq> [] \<and> length b \<le> MAX_BLOCK_SIZE"
    unfolding lz_closed_def by blast
  have "lzop_text expand (lzo_adler32 env) (concat (map (lzo_block env) bs) @ be32 0) = Some (concat bs)"
    by (rule lzop_text_blocks [OF assms(3,4) c(5)])
  with h(1) s1(1) t(1,2) c show ?thesis by fastforce
qed

section \<open>Demonstration values\<close>

text \<open>A compressor that stores a byte repeated throughout once, and marks anything else.\<close>

definition run_lzo_env :: lzo_env where
  "run_lzo_env = \<lparr>lzo_init_result = LZO_E_OK,
     lzo1x_1_compress = (\<lambda>b. (LZO_E_OK, if 2 \<le> length b \<and> b = replicate (length b) (hd b) then [hd b] else 0 # b)),
     lzo_adler32 = (\<lambda>b. sum_list (map ucast b)), lzo_crc32 = (\<lambda>b. 0), lzo_version = 0x20a0, lzo_time = 0\<rparr>"

definition run_expand :: "byte list \<Rightarrow> nat \<Rightarrow> byte list option" where
  "run_expand c n = (if length c = 1 \<and> 2 \<le> n then Some (replicate n (hd c)) else Some (tl c))"

lemma run_lzo_ok: "lzo_compresses run_lzo_env" "lzo_expands run_lzo_env run_expand"
  by (auto simp: lzo_compresses_def lzo_expands_def run_lzo_env_def run_expand_def)

interpretation lzo_stdio: lzo_closing stdio_wsource stdio_winv stdio_sunk run_lzo_env "[]"
  by unfold_locales
    (use stdiow.wr_ok run_lzo_ok stdio_wclose_clean in \<open>fastforce simp: stdio_wsource_def\<close>)+

definition empty_file :: stdiow_t where
  "empty_file = (demo_iow [])\<lparr>wbuffer := []\<rparr>"

lemma empty_file_ok: "stdio_winv empty_file" "stdio_sunk empty_file = []"
  by (simp_all add: empty_file_def demo_iow_def demo_ofd_def stdio_winv_def stdio_sunk_def MIN_WRITE_SIZE_def)

lemma stdio_child: "writer (wsrc_write stdio_wsource) stdio_winv stdio_sunk"
  "\<forall>w. stdio_winv w \<longrightarrow> (\<exists>w'. wsrc_close stdio_wsource w = Some w')"
  using stdiow.writer_axioms stdio_wclose_clean by (fastforce simp: stdio_wsource_def)+

lemma lzo_wopen_stdio:
  "\<exists>s. lzo_wopen run_lzo_env stdio_wsource nprocs use_threads (Some empty_file) 6 = Some (Some s) \<and>
    lz_threads s = (if 0 < use_threads then min nprocs use_threads else 0)"
proof -
  obtain h where h: "lzo_header run_lzo_env = Some h" "length h < 2 ^ 30"
    using lzo_header_layout [of run_lzo_env] by (auto simp: lzop_magic_def)
  then obtain c where "wsrc_write stdio_wsource empty_file h = Some (int (length h), c)"
    using writer.wr_ok [OF stdio_child(1) empty_file_ok(1), of h] by blast
  with h(1) show ?thesis by (auto simp: lzo_wopen_def wandio_wwrite_def run_lzo_env_def)
qed

section \<open>Properties\<close>

text \<open>C9: a file written through the lzo writer expands to what was written: over any child that keeps
  its contract, with any number of worker threads and under any schedule of them, every write and
  the close come back, all workers have left, and the child, just before it is closed, has the
  lzop header and blocks that the reader of the format turns into exactly the bytes written in
  order, provided there is at most one worker, or the bytes fill fewer blocks of 128 KiB than
  there are workers, or the last block is not full.\<close>

theorem lzo_write_then_close:
  assumes "writer (wsrc_write csrc) cwinv csunk" "\<forall>w. cwinv w \<longrightarrow> (\<exists>w'. wsrc_close csrc w = Some w')"
    and "lzo_compresses env" "lzo_expands env expand" "cwinv w"
    and "lzo_wopen env csrc nprocs use_threads (Some w) level = Some (Some s)"
    and "lz_threads s \<le> 1 \<or> length (concat bss) < lz_threads s * MAX_BLOCK_SIZE \<or>
      \<not> MAX_BLOCK_SIZE dvd length (concat bss)"
  shows "\<exists>h io sched' t c z. lzo_header env = Some h \<and>
    write_list (lzo_wwrite env csrc) (sched, s) bss = Some io \<and>
    lzo_wclose env csrc io = Some (sched', t) \<and> (\<forall>th\<in>set (lz_thread t). lt_pc th = W_Done) \<and>
    wsrc_close csrc c = Some (lz_child t) \<and> cwinv c \<and> csunk c = csunk w @ h @ z \<and>
    lzop_text expand (lzo_adler32 env) z = Some (concat bss)"
proof -
  have "lzo_close_text (lz_threads s) (concat bss) = concat bss"
    using assms(7) by (intro close_text_same) auto
  with lzo_file [OF assms(1-6), of sched bss] show ?thesis by simp
qed

text \<open>Two workers, which are sent to and fro by the schedule, and a write of two blocks and a half.\<close>

theorem lzo_write_then_close_witness:
  "\<exists>s io sched' t c z.
     lzo_wopen run_lzo_env stdio_wsource 4 2 (Some empty_file) 6 = Some (Some s) \<and>
     write_list (lzo_wwrite run_lzo_env stdio_wsource) ([0, 1, 1, 7], s) [replicate (MAX_BLOCK_SIZE div 2) 5, replicate (2 * MAX_BLOCK_SIZE) 9] = Some io \<and>
     lzo_wclose run_lzo_env stdio_wsource io = Some (sched', t) \<and> stdio_sunk c = z \<and>
     lzop_text run_expand (lzo_adler32 run_lzo_env) (drop 52 z) =
       Some (replicate (MAX_BLOCK_SIZE div 2) 5 @ replicate (2 * MAX_BLOCK_SIZE) 9)"
proof -
  obtain s where s: "lzo_wopen run_lzo_env stdio_wsource 4 2 (Some empty_file) 6 = Some (Some s)" "lz_threads s = 2"
    using lzo_wopen_stdio [of 4 2] by auto
  let ?bss = "[replicate (MAX_BLOCK_SIZE div 2) 5, replicate (2 * MAX_BLOCK_SIZE) 9] :: byte list list"
  have "length (concat ?bss) = MAX_BLOCK_SIZE div 2 + 2 * MAX_BLOCK_SIZE" by simp
  moreover have "\<not> MAX_BLOCK_SIZE dvd MAX_BLOCK_SIZE div 2 + 2 * MAX_BLOCK_SIZE"
    by (simp add: MAX_BLOCK_SIZE_def)
  ultimately have partial: "lz_threads s \<le> 1 \<or> length (concat ?bss) < lz_threads s * MAX_BLOCK_SIZE \<or>
      \<not> MAX_BLOCK_SIZE dvd length (concat ?bss)" by metis
  obtain fields where fields: "lzo_header run_lzo_env = Some (lzop_magic @ fields @ be32 (lzo_adler32 run_lzo_env fields))"
    "length fields = 39" using lzo_header_layout [of run_lzo_env] by auto
  have "length (lzop_magic @ fields @ be32 (lzo_adler32 run_lzo_env fields)) = 52"
    using fields(2) by (simp add: lzop_magic_def)
  then have tail: "drop 52 (stdio_sunk empty_file @ (lzop_magic @ fields @ be32 (lzo_adler32 run_lzo_env fields)) @ z) = z" for z
    by (simp add: empty_file_ok(2))
  have text_eq: "concat ?bss = replicate (MAX_BLOCK_SIZE div 2) 5 @ replicate (2 * MAX_BLOCK_SIZE) 9" by simp
  from lzo_write_then_close [OF stdio_child run_lzo_ok empty_file_ok(1) s(1) partial, of "[0, 1, 1, 7]", folded text_eq]
  obtain io sched' t c z where
    "write_list (lzo_wwrite run_lzo_env stdio_wsource) ([0, 1, 1, 7], s) ?bss = Some io"
    "lzo_wclose run_lzo_env stdio_wsource io = Some (sched', t)"
    "stdio_sunk c = stdio_sunk empty_file @ (lzop_magic @ fields @ be32 (lzo_adler32 run_lzo_env fields)) @ z"
    "lzop_text run_expand (lzo_adler32 run_lzo_env) z = Some (concat ?bss)"
    unfolding fields(1) by blast
  with s(1) tail show ?thesis unfolding text_eq by metis
qed

text \<open>C31: when the bytes fill exactly as many blocks as there are workers, two or more, closing writes
  the first block last: \<open>lzo_wclose\<close> goes on to the thread after the one to be used next, although
  that one still holds the oldest block.\<close>

theorem lzo_close_moves_block:
  assumes "writer (wsrc_write csrc) cwinv csunk" "\<forall>w. cwinv w \<longrightarrow> (\<exists>w'. wsrc_close csrc w = Some w')"
    and "lzo_compresses env" "lzo_expands env expand" "cwinv w"
    and "lzo_wopen env csrc nprocs use_threads (Some w) level = Some (Some s)"
    and "0 < lz_threads s" "length b = MAX_BLOCK_SIZE" "length r = (lz_threads s - 1) * MAX_BLOCK_SIZE"
    and "concat bss = b @ r"
  shows "\<exists>h io sched' t c z. lzo_header env = Some h \<and>
    write_list (lzo_wwrite env csrc) (sched, s) bss = Some io \<and>
    lzo_wclose env csrc io = Some (sched', t) \<and>
    wsrc_close csrc c = Some (lz_child t) \<and> csunk c = csunk w @ h @ z \<and>
    lzop_text expand (lzo_adler32 env) z = Some (r @ b)"
proof -
  have len: "length (b @ r) = lz_threads s * MAX_BLOCK_SIZE"
    using assms(7-9) by (cases "lz_threads s") simp_all
  then have "lzo_close_text (lz_threads s) (b @ r) = r @ b"
    using assms(8) unfolding lzo_close_text_def Let_def len by simp
  with lzo_file [OF assms(1-6), of sched bss] assms(10) show ?thesis by fastforce
qed

text \<open>Two workers: a block of zeros and then a block of ones come back as ones and then zeros.\<close>

theorem lzo_close_moves_block_witness:
  "\<exists>s io sched' t c h z.
     lzo_wopen run_lzo_env stdio_wsource 4 2 (Some empty_file) 6 = Some (Some s) \<and>
     write_list (lzo_wwrite run_lzo_env stdio_wsource) ([], s) [replicate MAX_BLOCK_SIZE 0 @ replicate MAX_BLOCK_SIZE 1] = Some io \<and>
     lzo_wclose run_lzo_env stdio_wsource io = Some (sched', t) \<and> stdio_sunk c = h @ z \<and>
     lzop_text run_expand (lzo_adler32 run_lzo_env) z = Some (replicate MAX_BLOCK_SIZE 1 @ replicate MAX_BLOCK_SIZE 0)"
proof -
  obtain s where s: "lzo_wopen run_lzo_env stdio_wsource 4 2 (Some empty_file) 6 = Some (Some s)" "lz_threads s = 2"
    using lzo_wopen_stdio [of 4 2] by auto
  have "concat [replicate MAX_BLOCK_SIZE 0 @ replicate MAX_BLOCK_SIZE 1] =
      replicate MAX_BLOCK_SIZE (0 :: byte) @ replicate MAX_BLOCK_SIZE 1" by simp
  from lzo_close_moves_block [OF stdio_child run_lzo_ok empty_file_ok(1) s(1) _ _ _ this, of "[]"]
    s empty_file_ok(2) show ?thesis by fastforce
qed

text \<open>\<open>lzo_wwrite\<close> returns \<open>0\<close> whatever it is given, although it takes all the bytes: it returns the
  counter it has brought down to \<open>0\<close>, not what it has written.\<close>

theorem lzo_wwrite_returns_zero:
  assumes "writer (wsrc_write csrc) cwinv csunk" "lzo_compresses env" "cwinv w"
    and "lzo_wopen env csrc nprocs use_threads (Some w) level = Some (Some s)"
    and "write_list (lzo_wwrite env csrc) (sched, s) bss = Some io"
  shows "\<exists>io'. lzo_wwrite env csrc io bs = Some (0, io')"
proof -
  obtain h where h: "lz_holds env cwinv csunk (csunk w @ h) [] s"
    using lzo_wopen_holds [OF assms(1,3,4)] by blast
  have lz: "lzo_writing csrc cwinv csunk env"
    using assms(1,2) by (intro lzo_writing.intro lzo_writing_axioms.intro)
  from lzo_writing.holds_write_list [OF lz h, of sched bss] assms(5)
  have "lz_holds env cwinv csunk (csunk w @ h) (concat bss) (snd io)" by auto
  from lzo_writing.holds_write [OF lz this, of "fst io" bs] show ?thesis by auto
qed

theorem lzo_wwrite_returns_zero_witness:
  "\<exists>s io'. lzo_wopen run_lzo_env stdio_wsource 4 2 (Some empty_file) 6 = Some (Some s) \<and>
     lzo_wwrite run_lzo_env stdio_wsource ([1, 0], s) [7, 7, 7] = Some (0, io')"
proof -
  obtain s where s: "lzo_wopen run_lzo_env stdio_wsource 4 2 (Some empty_file) 6 = Some (Some s)"
    using lzo_wopen_stdio [of 4 2] by auto
  have "write_list (lzo_wwrite run_lzo_env stdio_wsource) ([1, 0], s) [] = Some ([1, 0], s)" by simp
  from lzo_wwrite_returns_zero [OF stdio_child(1) run_lzo_ok(1) empty_file_ok(1) s this, of "[7, 7, 7]"] s
  show ?thesis by auto
qed

text \<open>C10: in every interleaving of \<open>lzo_wwrite\<close> with the worker threads nothing is lost or reordered and
  nothing stops: what the child's blocks stand for, then what the threads hold in the order of
  their use, then what is still to be taken, is always what was accepted and is being written; the
  call has returned or some thread can go on; and every step brings a measure down.\<close>

theorem lzo_write_interleavings:
  assumes "writer (wsrc_write csrc) cwinv csunk" "lzo_compresses env"
    and "lz_winv env cwinv csunk base whole s" "lz_pc s = L_Idle"
    and "(lzo_step env csrc)\<^sup>*\<^sup>* (s\<lparr>lz_pc := L_Loop bs\<rparr>) t"
  shows "(\<exists>sent. lz_sent env cwinv csunk base sent (lz_child t) \<and>
      sent @ flight (lz_keys t) @ (case lz_pc t of L_Loop rest \<Rightarrow> rest | L_Wait rest \<Rightarrow> rest | _ \<Rightarrow> []) = whole @ bs) \<and>
    (lz_pc t = L_Ret 0 \<or> (\<exists>u. lzo_step env csrc t u)) \<and>
    (\<forall>u. lzo_step env csrc t u \<longrightarrow> lz_wmeasure u < lz_wmeasure t)"
proof -
  have lz: "lzo_writing csrc cwinv csunk env"
    using assms(1,2) by (intro lzo_writing.intro lzo_writing_axioms.intro)
  have start: "lz_winv env cwinv csunk base (whole @ bs) (s\<lparr>lz_pc := L_Loop bs\<rparr>) \<and> lz_pc (s\<lparr>lz_pc := L_Loop bs\<rparr>) \<noteq> L_Idle"
    using assms(3,4) by (auto simp: lz_winv_def lz_ring_ok_def lz_keys_def)
  from assms(5) have t: "lz_winv env cwinv csunk base (whole @ bs) t \<and> lz_pc t \<noteq> L_Idle"
    by (induction rule: rtranclp_induct) (use start lzo_writing.write_step [OF lz] in blast)+
  then have "lz_pc t = L_Ret 0 \<or> (\<exists>u. lzo_step env csrc t u)"
    using lzo_writing.write_progress [OF lz, of base "whole @ bs" t] by (cases "lz_pc t") (auto simp: lz_winv_def)
  moreover have "\<exists>sent. lz_sent env cwinv csunk base sent (lz_child t) \<and>
      sent @ flight (lz_keys t) @ (case lz_pc t of L_Loop rest \<Rightarrow> rest | L_Wait rest \<Rightarrow> rest | _ \<Rightarrow> []) = whole @ bs"
    using t by (cases "lz_pc t") (auto simp: lz_winv_def)
  ultimately show ?thesis using lzo_writing.write_step [OF lz t] by blast
qed

text \<open>The state after opening with two threads, one step into a write of two bytes.\<close>

theorem lzo_write_interleavings_witness:
  "\<exists>s t. lzo_wopen run_lzo_env stdio_wsource 4 2 (Some empty_file) 6 = Some (Some s) \<and>
     lzo_step run_lzo_env stdio_wsource (s\<lparr>lz_pc := L_Loop [3, 4]\<rparr>) t \<and>
     (\<exists>u. lzo_step run_lzo_env stdio_wsource t u \<or> lz_pc t = L_Ret 0)"
proof -
  obtain s where s: "lzo_wopen run_lzo_env stdio_wsource 4 2 (Some empty_file) 6 = Some (Some s)" "lz_threads s = 2"
    using lzo_wopen_stdio [of 4 2] by auto
  obtain h where "lz_holds run_lzo_env stdio_winv stdio_sunk (stdio_sunk empty_file @ h) [] s"
    using lzo_wopen_holds [OF stdio_child(1) empty_file_ok(1) s(1)] by blast
  with s(2) have w: "lz_winv run_lzo_env stdio_winv stdio_sunk (stdio_sunk empty_file @ h) [] s" "lz_pc s = L_Idle"
    by (auto simp: lz_holds_def split: if_splits)
  note run = lzo_write_interleavings [OF stdio_child(1) run_lzo_ok(1) w, of "[3, 4]"]
  obtain t where t: "lzo_step run_lzo_env stdio_wsource (s\<lparr>lz_pc := L_Loop [3, 4]\<rparr>) t"
    using run [of "s\<lparr>lz_pc := L_Loop [3, 4]\<rparr>"] by auto
  from run [OF r_into_rtranclp [where r = "lzo_step run_lzo_env stdio_wsource", OF t]] t s(1) show ?thesis by blast
qed

text \<open>The thread to be used next has left with its state \<open>WAITING\<close>.\<close>

definition lz_stuck :: "'w lzow_t \<Rightarrow> bool" where
  "lz_stuck s \<longleftrightarrow> lz_next s < lz_threads s \<and> lt_state (get_next_thread s) = WAITING \<and>
     lt_pc (get_next_thread s) = W_Done \<and>
     (case lz_pc s of L_Loop rest \<Rightarrow> rest \<noteq> [] | L_Wait rest \<Rightarrow> rest \<noteq> [] | _ \<Rightarrow> False)"

lemma stuck_step: "lzo_step env csrc s t \<Longrightarrow> lz_stuck s \<Longrightarrow> lz_stuck t"
proof (erule lzo_step_cases)
  fix i assume s: "i < lz_threads s" "lzo_compress_thread env i s = Some t" "lz_stuck s"
  then have "i \<noteq> lz_next s" by (auto simp: lz_stuck_def lzo_compress_thread_def get_next_thread_def)
  with s show "lz_stuck t"
    by (auto simp: lz_stuck_def lzo_compress_thread_def wake_caller_def Let_def get_next_thread_def set_thread_nth
        split: lzo_worker_pc.splits if_splits bind_splits lzo_pc.splits)
next
  assume "caller_step csrc s = Some t" "lz_stuck s"
  then show "lz_stuck t"
    by (auto simp: lz_stuck_def caller_step_def lzo_wwrite_step_def get_next_thread_def split: lzo_pc.splits if_splits)
qed

text \<open>A block that does not compress stops the writer for ever: the worker leaves with its state still
  \<open>WAITING\<close>, and when the ring comes round to it a write neither returns nor fails, whatever the
  schedule.\<close>

theorem lzo_failed_block_hangs:
  assumes "lz_next s < lz_threads s" "get_next_thread s = me" "lt_pc me = W_Ready" "\<not> lt_closing me"
    and "lt_state me = WAITING" "fst (lzo1x_1_compress env (lt_in me)) = LZO_E_OUT_OF_MEMORY"
    and "rest \<noteq> []" "lz_pc s = L_Loop rest"
  shows "\<exists>s'. lzo_compress_thread env (lz_next s) s = Some s' \<and>
    (\<forall>t. (lzo_step env csrc)\<^sup>*\<^sup>* s' t \<longrightarrow> lz_pc t = L_Loop rest \<or> lz_pc t = L_Wait rest)"
proof -
  have blk: "lzo_wwrite_block env (lt_in me) = Some (- ENOMEM, [])"
    using assms(6) by (cases "lzo1x_1_compress env (lt_in me)") (simp add: lzo_wwrite_block_def)
  let ?s = "set_thread (lz_next s) (me\<lparr>lt_out := [], lt_pc := W_Done\<rparr>) s"
  have run: "lzo_compress_thread env (lz_next s) s = Some ?s"
    using assms(2-5) blk by (simp add: lzo_compress_thread_def get_next_thread_def Let_def ENOMEM_def)
  have start: "lz_stuck ?s \<and> lz_pc ?s = L_Loop rest"
    using assms by (simp add: lz_stuck_def get_next_thread_def set_thread_nth)
  have step: "lz_pc u = L_Loop rest \<or> lz_pc u = L_Wait rest"
    if "lzo_step env csrc t u" "lz_stuck t" "lz_pc t = L_Loop rest \<or> lz_pc t = L_Wait rest" for t u
    using that
    by (elim lzo_step_cases) (auto simp: lz_stuck_def lzo_compress_thread_def wake_caller_def Let_def caller_step_def
        lzo_wwrite_step_def split: lzo_worker_pc.splits if_splits bind_splits lzo_pc.splits)
  have "lz_stuck t \<and> (lz_pc t = L_Loop rest \<or> lz_pc t = L_Wait rest)" if "(lzo_step env csrc)\<^sup>*\<^sup>* ?s t" for t
    using that by (induction rule: rtranclp_induct) (use start stuck_step step in blast)+
  with run show ?thesis by blast
qed

definition full_thread :: lzothread_t where
  "full_thread = \<lparr>lt_closing = False, lt_state = WAITING, lt_in = [1, 2], lt_out = [], lt_pc = W_Ready\<rparr>"

text \<open>One worker whose compressor runs out of memory.\<close>

theorem lzo_failed_block_hangs_witness:
  "\<exists>s'. lzo_compress_thread (run_lzo_env\<lparr>lzo1x_1_compress := \<lambda>b. (LZO_E_OUT_OF_MEMORY, [])\<rparr>) 0
       \<lparr>lz_child = empty_file, lz_next = 0, lz_thread = [full_thread], lz_pc = L_Loop [9]\<rparr> = Some s' \<and>
     (\<forall>t. (lzo_step (run_lzo_env\<lparr>lzo1x_1_compress := \<lambda>b. (LZO_E_OUT_OF_MEMORY, [])\<rparr>) stdio_wsource)\<^sup>*\<^sup>* s' t \<longrightarrow>
       lz_pc t = L_Loop [9] \<or> lz_pc t = L_Wait [9])"
  using lzo_failed_block_hangs [where csrc = stdio_wsource and me = full_thread and rest = "[9]" and
      env = "run_lzo_env\<lparr>lzo1x_1_compress := \<lambda>b. (LZO_E_OUT_OF_MEMORY, [])\<rparr>" and
      s = "\<lparr>lz_child = empty_file, lz_next = 0, lz_thread = [full_thread], lz_pc = L_Loop [9]\<rparr>"]
  by (simp add: full_thread_def get_next_thread_def)

end
