(* ===== verification/Zstd_Writer.thy ===== *)
theory Zstd_Writer
  imports Codec_Writers
begin

text \<open>
  \<^verbatim>\<open>lib/iow-zstd.c\<close>: writing zstd streams, with \<open>ZSTD_compressStream\<close> and \<open>ZSTD_endStream\<close> as the
  encoder. Every call of the encoder has the whole of \<open>outbuff\<close> as room and is followed by a write
  to the child. A write of nothing, which is what an encoder that buffers gives, counts as an
  error of the child: the call fails although nothing went wrong, and later ones fail too.
\<close>

section \<open>State and operations\<close>

text \<open>A \<^verbatim>\<open>size_t\<close> that is an error code, or what is left to be flushed.\<close>

datatype zstd_ret = ZSTD_failed | ZSTD_left nat

text \<open>\<open>zs_dst\<close> is the size of \<open>output_buffer\<close>, which nothing has set before the first write.\<close>

record ('w, 'e) zstdw_t =
  zs_child :: 'w
  zs_err :: err_t
  zs_stream :: 'e
  zs_dst :: "nat option"

definition zstd_wopen :: "(zstd_ret, 'e) encoder \<Rightarrow> 'w option \<Rightarrow> int \<Rightarrow> ('w, 'e) zstdw_t option" where
  "zstd_wopen enc below compress_level =
     (case below of None \<Rightarrow> None
      | Some c \<Rightarrow> Some \<lparr>zs_child = c, zs_err = ERR_OK, zs_stream = enc_init enc compress_level, zs_dst = None\<rparr>)"

definition zstd_pass ::
  "'w iow_source_t \<Rightarrow> (zstd_ret, 'e) encoder \<Rightarrow> nat \<Rightarrow> byte list \<times> ('w, 'e) zstdw_t \<Rightarrow>
    ((int \<times> ('w, 'e) zstdw_t) + (byte list \<times> ('w, 'e) zstdw_t)) option" where
  "zstd_pass csrc enc len = (\<lambda>(rest, w).
     if rest = [] then Some (Inl (int len, w))
     else case enc_run enc (zs_stream w) NO_FLUSH rest WANDIO_BUFFER_SIZE of (code, k, out, e) \<Rightarrow>
       let w1 = w\<lparr>zs_stream := e, zs_dst := Some WANDIO_BUFFER_SIZE\<rparr>
       in if code = ZSTD_failed then Some (Inl (-1, w1\<lparr>zs_err := ERR_ERROR\<rparr>))
          else do {
            (r, c) \<leftarrow> wandio_wwrite csrc (zs_child w1) out;
            let w2 = w1\<lparr>zs_child := c\<rparr>;
            Some (if c_int r \<le> 0 then Inl (-1, w2\<lparr>zs_err := ERR_ERROR\<rparr>) else Inr (drop k rest, w2)) })"

definition zstd_wwrite :: "'w iow_source_t \<Rightarrow> (zstd_ret, 'e) encoder \<Rightarrow> ('w, 'e) zstdw_t write_fn" where
  "zstd_wwrite csrc enc w buffer =
     (case zs_err w of
        ERR_EOF \<Rightarrow> Some (0, w)
      | ERR_ERROR \<Rightarrow> Some (-1, w)
      | ERR_OK \<Rightarrow> if buffer = [] then Some (0, w)
                  else c_loop (zstd_pass csrc enc (length buffer)) (buffer, w))"

definition zstd_wflush :: "('w, 'e) zstdw_t flush_fn" where
  "zstd_wflush w = Some (0, w)"

text \<open>\<open>True\<close>: the stream is complete. An error returns at once. Without a write before it,
  \<open>output_buffer\<close> is not initialised.\<close>

definition zstd_close_pass ::
  "'w iow_source_t \<Rightarrow> (zstd_ret, 'e) encoder \<Rightarrow> ('w, 'e) zstdw_t \<Rightarrow>
    ((bool \<times> ('w, 'e) zstdw_t) + ('w, 'e) zstdw_t) option" where
  "zstd_close_pass csrc enc w =
     do { room \<leftarrow> zs_dst w;
          case enc_run enc (zs_stream w) FINISH [] room of (code, k, out, e) \<Rightarrow>
            let w1 = w\<lparr>zs_stream := e\<rparr>
            in if code = ZSTD_failed then Some (Inl (False, w1))
               else do {
                 (_, c) \<leftarrow> wandio_wwrite csrc (zs_child w1) out;
                 let w2 = w1\<lparr>zs_child := c\<rparr>;
                 Some (if code = ZSTD_left 0 then Inl (True, w2) else Inr w2) } }"

definition zstd_wclose ::
  "'w iow_source_t \<Rightarrow> (zstd_ret, 'e) encoder \<Rightarrow> ('w, 'e) zstdw_t \<Rightarrow> ('w, 'e) zstdw_t option" where
  "zstd_wclose csrc enc w =
     do { (complete, w1) \<leftarrow> c_loop (zstd_close_pass csrc enc) w;
          if complete then do { c \<leftarrow> wandio_wdestroy csrc (zs_child w1); Some (w1\<lparr>zs_child := c\<rparr>) }
          else Some w1 }"

definition zstd_wsource :: "'w iow_source_t \<Rightarrow> (zstd_ret, 'e) encoder \<Rightarrow> ('w, 'e) zstdw_t iow_source_t" where
  "zstd_wsource csrc enc = \<lparr>wsrc_name = ''zstdw'', wsrc_write = zstd_wwrite csrc enc,
     wsrc_flush = zstd_wflush, wsrc_close = zstd_wclose csrc enc\<rparr>"

section \<open>Invariant\<close>

text \<open>The child holds what the encoder has produced, which stands for \<open>text\<close>.\<close>

definition zs_inv ::
  "('w \<Rightarrow> bool) \<Rightarrow> ('w \<Rightarrow> byte list) \<Rightarrow> 'e enc_view \<Rightarrow> byte list \<Rightarrow> byte list \<Rightarrow> ('w, 'e) zstdw_t \<Rightarrow> bool" where
  "zs_inv cwinv csunk v base txt w \<longleftrightarrow> cwinv (zs_child w) \<and> live v (zs_stream w) \<and>
     csunk (zs_child w) = base @ made v (zs_stream w) \<and> given v (zs_stream w) = txt"

definition zs_oks :: "zstd_ret set" where
  "zs_oks = range ZSTD_left"

text \<open>An encoder that stores something in every call that has input and room.\<close>

definition always_stores :: "('c, 'e) encoder \<Rightarrow> 'e enc_view \<Rightarrow> bool" where
  "always_stores enc v \<longleftrightarrow>
     (\<forall>e inp room c k out e'.
        enc_run enc e NO_FLUSH inp room = (c, k, out, e') \<and> inp \<noteq> [] \<and> 0 < room \<and> live v e \<longrightarrow> out \<noteq> [])"

text \<open>What a write leaves behind: all of it taken, or part of it and the latch set, which an \<open>eager\<close>
  encoder spares it.\<close>

definition zs_wrote ::
  "bool \<Rightarrow> ('w \<Rightarrow> bool) \<Rightarrow> ('w \<Rightarrow> byte list) \<Rightarrow> 'e enc_view \<Rightarrow> byte list \<Rightarrow> byte list \<Rightarrow> byte list \<Rightarrow>
    int \<times> ('w, 'e) zstdw_t \<Rightarrow> bool" where
  "zs_wrote eager cwinv csunk v base before bs = (\<lambda>(r, w).
     zs_dst w = Some WANDIO_BUFFER_SIZE \<and>
     (r = int (length bs) \<and> zs_err w = ERR_OK \<and> zs_inv cwinv csunk v base (before @ bs) w \<or>
      r = -1 \<and> \<not> eager \<and> zs_err w = ERR_ERROR \<and> (\<exists>k\<le>length bs. zs_inv cwinv csunk v base (before @ take k bs) w)))"

lemma zs_inv_simps [simp]:
  "zs_inv cwinv csunk v base txt (w\<lparr>zs_err := e\<rparr>) = zs_inv cwinv csunk v base txt w"
  "zs_inv cwinv csunk v base txt (w\<lparr>zs_dst := d\<rparr>) = zs_inv cwinv csunk v base txt w"
  by (simp_all add: zs_inv_def)

lemma zstd_pass_ok:
  assumes "writer (wsrc_write csrc) cwinv csunk" "encoder_runs zs_oks enc v"
    and "zs_inv cwinv csunk v base txt w" "rest \<noteq> []"
  obtains k w1 where "k \<le> length rest" "zs_inv cwinv csunk v base (txt @ take k rest) w1"
    "zs_dst w1 = Some WANDIO_BUFFER_SIZE" "zs_err w1 = zs_err w"
    "zstd_pass csrc enc len (rest, w) = Some (Inr (drop k rest, w1)) \<and>
       (0 < k \<or> backlog v (zs_stream w1) < backlog v (zs_stream w)) \<or>
     zstd_pass csrc enc len (rest, w) = Some (Inl (-1, w1\<lparr>zs_err := ERR_ERROR\<rparr>)) \<and>
       \<not> always_stores enc v"
proof -
  obtain code k out e where run: "enc_run enc (zs_stream w) NO_FLUSH rest WANDIO_BUFFER_SIZE = (code, k, out, e)"
    by (metis prod_cases4)
  have room: "0 < WANDIO_BUFFER_SIZE" by (simp add: WANDIO_BUFFER_SIZE_def)
  from assms(3) have w: "cwinv (zs_child w)" "live v (zs_stream w)"
    "csunk (zs_child w) = base @ made v (zs_stream w)" "given v (zs_stream w) = txt" by (simp_all add: zs_inv_def)
  note law = encoder_runsD [OF assms(2) run assms(4) room w(2)]
  have "length out < 2 ^ 30" using law(3) by (simp add: WANDIO_BUFFER_SIZE_def)
  with writer.wr_ok [OF assms(1) w(1)] obtain c where
    c: "wandio_wwrite csrc (zs_child w) out = Some (int (length out), c)" "cwinv c" "csunk c = csunk (zs_child w) @ out"
    by (auto simp: wandio_wwrite_def)
  have int: "c_int (int (length out)) = int (length out)"
    using \<open>length out < 2 ^ 30\<close> by (intro c_int_id_nat) simp
  have code: "code \<noteq> ZSTD_failed" using law(1) by (auto simp: zs_oks_def)
  let ?w = "w\<lparr>zs_stream := e, zs_dst := Some WANDIO_BUFFER_SIZE, zs_child := c\<rparr>"
  show thesis
  proof (rule that [of k ?w])
    show "zs_inv cwinv csunk v base (txt @ take k rest) ?w"
      using c(2,3) law(4,5,6) w(3,4) by (simp add: zs_inv_def)
    show "zstd_pass csrc enc len (rest, w) = Some (Inr (drop k rest, ?w)) \<and>
        (0 < k \<or> backlog v (zs_stream ?w) < backlog v (zs_stream w)) \<or>
      zstd_pass csrc enc len (rest, w) = Some (Inl (-1, ?w\<lparr>zs_err := ERR_ERROR\<rparr>)) \<and>
        \<not> always_stores enc v"
    proof (cases "out = []")
      case True
      with run assms(4) room w(2) have "\<not> always_stores enc v" unfolding always_stores_def by blast
      with True run code c(1) int assms(4) show ?thesis by (simp add: zstd_pass_def)
    next
      case False
      with run code c(1) int assms(4) law(7) show ?thesis by (simp add: zstd_pass_def)
    qed
  qed (use law(2) in simp_all)
qed

lemma zstd_wwrite_ok:
  assumes "writer (wsrc_write csrc) cwinv csunk" "encoder_runs zs_oks enc v"
    and "zs_inv cwinv csunk v base before w" "zs_err w = ERR_OK" "bs \<noteq> []"
  shows "\<exists>res. zstd_wwrite csrc enc w bs = Some res \<and> zs_wrote (always_stores enc v) cwinv csunk v base before bs res"
proof -
  define I where "I = (\<lambda>(rest, u). zs_err u = ERR_OK \<and> (\<exists>k\<le>length bs. rest = drop k bs \<and>
     zs_inv cwinv csunk v base (before @ take k bs) u) \<and> (rest = bs \<or> zs_dst u = Some WANDIO_BUFFER_SIZE))"
  have "\<exists>res. c_loop (zstd_pass csrc enc (length bs)) (bs, w) = Some res \<and>
      zs_wrote (always_stores enc v) cwinv csunk v base before bs res"
  proof (rule c_loop_wf [where I = I, OF wf_measures
        [of "[\<lambda>(rest, u). length rest, \<lambda>(rest, u). backlog v (zs_stream u)]"]])
    show "I (bs, w)" using assms(3,4) by (auto simp: I_def intro!: exI [of _ 0])
  next
    fix st assume "I st"
    then obtain rest u k where st: "st = (rest, u)" and u: "zs_err u = ERR_OK" "k \<le> length bs" "rest = drop k bs"
      "zs_inv cwinv csunk v base (before @ take k bs) u" "rest = bs \<or> zs_dst u = Some WANDIO_BUFFER_SIZE"
      by (auto simp: I_def)
    show "(\<exists>r. zstd_pass csrc enc (length bs) st = Some (Inl r) \<and> zs_wrote (always_stores enc v) cwinv csunk v base before bs r) \<or>
        (\<exists>s'. zstd_pass csrc enc (length bs) st = Some (Inr s') \<and> I s' \<and>
          (s', st) \<in> measures [\<lambda>(rest, u). length rest, \<lambda>(rest, u). backlog v (zs_stream u)])"
    proof (cases "rest = []")
      case True
      with u assms(5) st show ?thesis by (auto simp: zstd_pass_def zs_wrote_def)
    next
      case False
      from zstd_pass_ok [OF assms(1,2) u(4) False] obtain j u1 where j: "j \<le> length rest"
        "zs_inv cwinv csunk v base ((before @ take k bs) @ take j rest) u1"
        "zs_dst u1 = Some WANDIO_BUFFER_SIZE" "zs_err u1 = zs_err u"
        and out: "zstd_pass csrc enc (length bs) (rest, u) = Some (Inr (drop j rest, u1)) \<and>
            (0 < j \<or> backlog v (zs_stream u1) < backlog v (zs_stream u)) \<or>
          zstd_pass csrc enc (length bs) (rest, u) = Some (Inl (-1, u1\<lparr>zs_err := ERR_ERROR\<rparr>)) \<and>
            \<not> always_stores enc v" by metis
      have "drop j rest = drop (k + j) bs" using u(3) by (simp add: add.commute)
      moreover have "take k bs @ take j rest = take (k + j) bs" "k + j \<le> length bs"
        using u(2,3) j(1) by (simp_all add: take_add)
      ultimately have kj: "take k bs @ take j rest = take (k + j) bs" "drop j rest = drop (k + j) bs"
        "k + j \<le> length bs" by blast+
      from out show ?thesis
      proof (elim disjE)
        assume "zstd_pass csrc enc (length bs) (rest, u) = Some (Inr (drop j rest, u1)) \<and>
          (0 < j \<or> backlog v (zs_stream u1) < backlog v (zs_stream u))"
        moreover have "I (drop j rest, u1)" using j(2-4) kj u(1) by (auto simp: I_def intro!: exI [of _ "k + j"])
        ultimately show ?thesis using st False j(1) by auto
      next
        assume bad: "zstd_pass csrc enc (length bs) (rest, u) = Some (Inl (-1, u1\<lparr>zs_err := ERR_ERROR\<rparr>)) \<and>
          \<not> always_stores enc v"
        then have "zs_wrote (always_stores enc v) cwinv csunk v base before bs (-1, u1\<lparr>zs_err := ERR_ERROR\<rparr>)"
          using j(2,3) kj by (auto simp: zs_wrote_def intro!: exI [of _ "k + j"])
        with bad show ?thesis using st by blast
      qed
    qed
  qed
  with assms(4,5) show ?thesis by (simp add: zstd_wwrite_def)
qed

lemma zstd_after_error: "zs_err w = ERR_ERROR \<Longrightarrow> write_list (zstd_wwrite csrc enc) w bss = Some w"
  by (induction bss) (simp_all add: zstd_wwrite_def)

lemma zstd_write_list:
  assumes "writer (wsrc_write csrc) cwinv csunk" "encoder_runs zs_oks enc v"
    and "zs_inv cwinv csunk v base before w" "zs_err w = ERR_OK"
  shows "\<exists>w1 k. write_list (zstd_wwrite csrc enc) w bss = Some w1 \<and> k \<le> length (concat bss) \<and>
    zs_inv cwinv csunk v base (before @ take k (concat bss)) w1 \<and>
    (zs_err w1 = ERR_OK \<and> k = length (concat bss) \<or> zs_err w1 = ERR_ERROR \<and> \<not> always_stores enc v) \<and>
    (concat bss \<noteq> [] \<or> zs_dst w = Some WANDIO_BUFFER_SIZE \<longrightarrow> zs_dst w1 = Some WANDIO_BUFFER_SIZE)"
  using assms(3,4)
proof (induction bss arbitrary: before w)
  case Nil
  then show ?case by simp
next
  case (Cons bs bss)
  show ?case
  proof (cases "bs = []")
    case True
    with Cons.IH [OF Cons.prems] Cons.prems(2) show ?thesis by (simp add: zstd_wwrite_def)
  next
    case False
    from zstd_wwrite_ok [OF assms(1,2) Cons.prems False] obtain r w1 where
      one: "zstd_wwrite csrc enc w bs = Some (r, w1)" "zs_wrote (always_stores enc v) cwinv csunk v base before bs (r, w1)" by auto
    from one(2) have dst: "zs_dst w1 = Some WANDIO_BUFFER_SIZE" by (simp add: zs_wrote_def)
    from one(2) consider
        "zs_err w1 = ERR_OK" "zs_inv cwinv csunk v base (before @ bs) w1"
      | k where "zs_err w1 = ERR_ERROR" "k \<le> length bs" "zs_inv cwinv csunk v base (before @ take k bs) w1"
          "\<not> always_stores enc v"
      by (auto simp: zs_wrote_def)
    then show ?thesis
    proof cases
      case 1
      from Cons.IH [OF 1(2,1)] obtain w2 k where
        "write_list (zstd_wwrite csrc enc) w1 bss = Some w2" "k \<le> length (concat bss)"
        "zs_inv cwinv csunk v base ((before @ bs) @ take k (concat bss)) w2"
        "zs_err w2 = ERR_OK \<and> k = length (concat bss) \<or> zs_err w2 = ERR_ERROR \<and> \<not> always_stores enc v"
        "zs_dst w2 = Some WANDIO_BUFFER_SIZE" using dst by auto
      with one(1) show ?thesis by (intro exI [of _ w2] exI [of _ "length bs + k"]) auto
    next
      case 2
      with one(1) dst zstd_after_error [OF 2(1)] show ?thesis
        by (intro exI [of _ w1] exI [of _ k]) auto
    qed
  qed
qed

lemma zstd_wclose_ok:
  fixes w :: "('w, 'e) zstdw_t"
  assumes "writer (wsrc_write csrc) cwinv csunk"
    and "encoder_finishes (ZSTD_left 0) (range (\<lambda>n. ZSTD_left (Suc n))) enc v stream"
    and "zs_inv cwinv csunk v base txt w" "zs_dst w = Some WANDIO_BUFFER_SIZE"
  shows "\<exists>c1 m w1. cwinv c1 \<and> csunk c1 = base @ m \<and> stream m txt \<and>
    zstd_wclose csrc enc w = map_option (\<lambda>c2. w1\<lparr>zs_child := c2\<rparr>) (wsrc_close csrc c1)"
proof -
  define I where "I u \<longleftrightarrow> cwinv (zs_child u) \<and> csunk (zs_child u) = base @ made v (zs_stream u) \<and>
    given v (zs_stream u) = txt \<and> (live v (zs_stream u) \<or> ending v (zs_stream u) \<and> 0 < WANDIO_BUFFER_SIZE) \<and>
    zs_dst u = Some WANDIO_BUFFER_SIZE" for u :: "('w, 'e) zstdw_t"
  have "\<exists>res. c_loop (zstd_close_pass csrc enc) w = Some res \<and>
    (\<exists>w1. res = (True, w1) \<and> cwinv (zs_child w1) \<and> csunk (zs_child w1) = base @ made v (zs_stream w1) \<and>
      stream (made v (zs_stream w1)) txt)"
  proof (rule c_loop_returns [where I = I and m = "\<lambda>u. backlog v (zs_stream u)"])
    show "I w" using assms(3,4) by (simp add: I_def zs_inv_def)
  next
    fix u assume "I u"
    then have u: "cwinv (zs_child u)" "csunk (zs_child u) = base @ made v (zs_stream u)"
      "given v (zs_stream u) = txt" "live v (zs_stream u) \<or> ending v (zs_stream u) \<and> 0 < WANDIO_BUFFER_SIZE"
      "zs_dst u = Some WANDIO_BUFFER_SIZE" by (simp_all add: I_def)
    obtain code k out e where run: "enc_run enc (zs_stream u) FINISH [] WANDIO_BUFFER_SIZE = (code, k, out, e)"
      by (metis prod_cases4)
    note law = encoder_finishesD [OF assms(2) run u(4)]
    have "length out < 2 ^ 30" using law(1) by (simp add: WANDIO_BUFFER_SIZE_def)
    with writer.wr_ok [OF assms(1) u(1)] obtain c where
      c: "wandio_wwrite csrc (zs_child u) out = Some (int (length out), c)" "cwinv c" "csunk c = csunk (zs_child u) @ out"
      by (auto simp: wandio_wwrite_def)
    let ?u = "u\<lparr>zs_stream := e, zs_child := c\<rparr>"
    have room: "0 < WANDIO_BUFFER_SIZE" by (simp add: WANDIO_BUFFER_SIZE_def)
    have keep: "csunk c = base @ made v e" using c(3) u(2) law(2) by simp
    show "(\<exists>r. zstd_close_pass csrc enc u = Some (Inl r) \<and>
        (\<exists>w1. r = (True, w1) \<and> cwinv (zs_child w1) \<and> csunk (zs_child w1) = base @ made v (zs_stream w1) \<and>
          stream (made v (zs_stream w1)) txt)) \<or>
      (\<exists>u'. zstd_close_pass csrc enc u = Some (Inr u') \<and> I u' \<and> backlog v (zs_stream u') < backlog v (zs_stream u))"
      using law(4)
    proof (elim disjE conjE)
      assume "code = ZSTD_left 0" "stream (made v e) (given v (zs_stream u))"
      with run u(3,5) c(1,2) keep show ?thesis by (simp add: zstd_close_pass_def)
    next
      assume more: "code \<in> range (\<lambda>n. ZSTD_left (Suc n))" "ending v e"
        "0 < WANDIO_BUFFER_SIZE \<longrightarrow> backlog v e < backlog v (zs_stream u)"
      then have "zstd_close_pass csrc enc u = Some (Inr ?u)"
        using run u(5) c(1) by (auto simp: zstd_close_pass_def)
      moreover have "I ?u" using c(2) keep law(3) u(3,5) more(2) room by (simp add: I_def)
      ultimately show ?thesis using more(3) room by auto
    qed
  qed
  then obtain w1 where w1: "c_loop (zstd_close_pass csrc enc) w = Some (True, w1)" "cwinv (zs_child w1)"
    "csunk (zs_child w1) = base @ made v (zs_stream w1)" "stream (made v (zs_stream w1)) txt" by blast
  then have "zstd_wclose csrc enc w = map_option (\<lambda>c2. w1\<lparr>zs_child := c2\<rparr>) (wsrc_close csrc (zs_child w1))"
    by (cases "wsrc_close csrc (zs_child w1)") (simp_all add: zstd_wclose_def wandio_wdestroy_def)
  with w1 show ?thesis by blast
qed

lemma zstd_wopen_inv:
  assumes "encoder_runs zs_oks enc v" "zstd_wopen enc (Some c) level = Some w" "cwinv c"
  shows "zs_inv cwinv csunk v (csunk c) [] w" "zs_err w = ERR_OK"
  using assms encoder_runs_init [OF assms(1), of level] by (auto simp: zstd_wopen_def zs_inv_def)

section \<open>An encoder that hands over what it takes\<close>

text \<open>The codec of \<open>Codec\<close> with an encoder whose every call stores something.\<close>

definition eager_encoder :: "(zstd_ret, byte list \<times> byte list) encoder" where
  "eager_encoder = \<lparr>enc_init = (\<lambda>level. ([], [])), enc_run = (\<lambda>e mode inp room.
     case mode of
       FINISH \<Rightarrow> enc_run (spell_encoder (ZSTD_left 0) (ZSTD_left 1) (ZSTD_left 0)) e FINISH inp room
     | _ \<Rightarrow> if spell_due e = [] then (ZSTD_left 0, 1, spell_emit (fst e @ [hd inp], snd e) room)
            else (ZSTD_left 0, 0, spell_emit e room))\<rparr>"

lemma eager_runs: "encoder_runs zs_oks eager_encoder spell_view"
  unfolding encoder_runs_def
proof ((rule conjI; intro allI impI), goal_cases)
  case (2 e inp room c k out e')
  then have live: "spell_live e" by (simp add: spell_view_def)
  show ?case
  proof (cases "spell_due e = []")
    case True
    with 2 spell_emit_live [OF spell_live_more [OF live, of "[hd inp]"], of room] show ?thesis
      by (cases inp) (auto simp: eager_encoder_def spell_view_def spell_emit_def zs_oks_def)
  next
    case False
    with 2 live spell_emit_live [OF live, of room] show ?thesis
      by (auto simp: eager_encoder_def spell_view_def spell_emit_def zs_oks_def)
  qed
qed (simp_all add: eager_encoder_def spell_view_def spell_live_def)

lemma eager_finishes:
  "encoder_finishes (ZSTD_left 0) (range (\<lambda>n. ZSTD_left (Suc n))) eager_encoder spell_view spell_stream"
proof -
  have same: "enc_run eager_encoder e FINISH inp room =
      enc_run (spell_encoder (ZSTD_left 0) (ZSTD_left 1) (ZSTD_left 0)) e FINISH inp room" for e inp room
    by (simp add: eager_encoder_def)
  have "ZSTD_left 1 \<noteq> ZSTD_left 0" by simp
  from spell_encoder_finishes [OF this, of "ZSTD_left 0"]
  have "encoder_finishes (ZSTD_left 0) {ZSTD_left 1} eager_encoder spell_view spell_stream"
    unfolding encoder_finishes_def same .
  then show ?thesis by (rule encoder_finishes_mono) (auto intro: range_eqI [of _ _ 0])
qed

section \<open>Properties\<close>

text \<open>C15: the zstd writer, when at least one byte has been written through it (a writer that is closed
  without that hands \<^verbatim>\<open>ZSTD_endStream\<close> an output buffer nothing has set): the file is never corrupt.
  Closing leaves the child, just before it is closed itself, with one complete stream for a
  beginning of the bytes written, and for all of them if no write has reported an error; and no
  write reports one if every call of the encoder stores something.\<close>

theorem zstd_write_then_close:
  assumes "writer (wsrc_write csrc) cwinv csunk" "cwinv c"
    and "encoder_runs zs_oks enc v"
    and "encoder_finishes (ZSTD_left 0) (range (\<lambda>n. ZSTD_left (Suc n))) enc v stream"
    and "zstd_wopen enc (Some c) level = Some z" "concat bss \<noteq> []"
  shows "\<exists>z1 k c1 m z2. write_list (zstd_wwrite csrc enc) z bss = Some z1 \<and> k \<le> length (concat bss) \<and>
    (zs_err z1 = ERR_OK \<and> k = length (concat bss) \<or> zs_err z1 = ERR_ERROR \<and> \<not> always_stores enc v) \<and>
    cwinv c1 \<and> csunk c1 = csunk c @ m \<and> stream m (take k (concat bss)) \<and>
    zstd_wclose csrc enc z1 = map_option (\<lambda>c2. z2\<lparr>zs_child := c2\<rparr>) (wsrc_close csrc c1)"
proof -
  note z = zstd_wopen_inv(1) [where csunk = csunk and cwinv = cwinv, OF assms(3,5,2)]
    zstd_wopen_inv(2) [where cwinv = cwinv, OF assms(3,5,2)]
  from zstd_write_list [OF assms(1,3) z, of bss] assms(6) obtain z1 k where
    z1: "write_list (zstd_wwrite csrc enc) z bss = Some z1" "k \<le> length (concat bss)"
    "zs_inv cwinv csunk v (csunk c) (take k (concat bss)) z1"
    "zs_err z1 = ERR_OK \<and> k = length (concat bss) \<or> zs_err z1 = ERR_ERROR \<and> \<not> always_stores enc v"
    "zs_dst z1 = Some WANDIO_BUFFER_SIZE" by auto
  from zstd_wclose_ok [OF assms(1,4) z1(3,5)] z1 show ?thesis by metis
qed

lemma eager_stores: "always_stores eager_encoder spell_view"
  unfolding always_stores_def
proof (intro allI impI, goal_cases)
  case (1 e inp room c k out e')
  then have run: "enc_run eager_encoder e NO_FLUSH inp room = (c, k, out, e')" and live: "spell_live e"
    and room: "0 < room" by (simp_all add: spell_view_def)
  show ?case
  proof (cases "spell_due e = []")
    case True
    with spell_due_live [OF live] have "snd e = spell (fst e)" by simp
    then have "spell_due (fst e @ [hd inp], snd e) = [1, hd inp]" by (simp add: spell_due_def)
    with True run room show ?thesis by (auto simp: eager_encoder_def spell_emit_def)
  next
    case False
    with run room show ?thesis by (auto simp: eager_encoder_def spell_emit_def)
  qed
qed

theorem zstd_write_then_close_witness:
  "\<exists>z z1 c1 z2. zstd_wopen eager_encoder (Some (demo_iow []\<lparr>wbuffer := []\<rparr>)) 6 = Some z \<and>
     write_list (zstd_wwrite stdio_wsource eager_encoder) z [[7], [8, 9]] = Some z1 \<and>
     stdio_sunk c1 = [1, 7, 1, 8, 1, 9, 0] \<and>
     zstd_wclose stdio_wsource eager_encoder z1 = map_option (\<lambda>c2. z2\<lparr>zs_child := c2\<rparr>) (stdio_wclose c1)"
proof -
  obtain z where z: "zstd_wopen eager_encoder (Some (demo_iow []\<lparr>wbuffer := []\<rparr>)) 6 = Some z"
    by (simp add: zstd_wopen_def)
  have wr: "writer (wsrc_write stdio_wsource) stdio_winv stdio_sunk" by (simp add: stdiow.writer_axioms)
  have "concat [[7], [8, 9]] \<noteq> ([] :: byte list)" by simp
  from zstd_write_then_close [OF wr demo_child(1) eager_runs eager_finishes z this] demo_child(2) eager_stores
  show ?thesis using z by (simp add: spell_stream_def stdio_wsource_def) metis
qed

text \<open>An encoder that keeps the first data to itself, as zstd does with anything short of a block,
  makes \<open>zstd_wwrite\<close> fail: it writes nothing to the child, takes the \<open>0\<close> for an error, returns
  \<open>-1\<close>, and refuses everything that comes later.\<close>

theorem zstd_wwrite_rejects_buffered:
  assumes "writer (wsrc_write csrc) cwinv csunk" "cwinv c" "zstd_wopen enc (Some c) level = Some z"
    and "bs \<noteq> []" "enc_run enc (enc_init enc level) NO_FLUSH bs WANDIO_BUFFER_SIZE = (ZSTD_left hint, k, [], e)"
  shows "\<exists>z1. zstd_wwrite csrc enc z bs = Some (-1, z1) \<and> (\<forall>bs'. zstd_wwrite csrc enc z1 bs' = Some (-1, z1))"
proof -
  from writer.wr_ok [OF assms(1,2), of "[]"] obtain c' where "wandio_wwrite csrc c [] = Some (0, c')"
    by (auto simp: wandio_wwrite_def)
  with assms(3-5) have "zstd_pass csrc enc (length bs) (bs, z) = Some (Inl (-1,
      z\<lparr>zs_stream := e, zs_dst := Some WANDIO_BUFFER_SIZE, zs_child := c', zs_err := ERR_ERROR\<rparr>))"
    by (auto simp: zstd_pass_def zstd_wopen_def c_int_def)
  with c_loop_stop [where body = "zstd_pass csrc enc (length bs)", OF this] assms(3,4) show ?thesis by (auto simp: zstd_wwrite_def zstd_wopen_def)
qed

theorem zstd_wwrite_rejects_buffered_witness:
  "\<exists>z z1. zstd_wopen (spell_encoder (ZSTD_left 0) (ZSTD_left 1) (ZSTD_left 0)) (Some (demo_iow []\<lparr>wbuffer := []\<rparr>)) 3 = Some z \<and>
     zstd_wwrite stdio_wsource (spell_encoder (ZSTD_left 0) (ZSTD_left 1) (ZSTD_left 0)) z [5, 6] = Some (-1, z1) \<and>
     zstd_wwrite stdio_wsource (spell_encoder (ZSTD_left 0) (ZSTD_left 1) (ZSTD_left 0)) z1 [7] = Some (-1, z1)"
proof -
  let ?enc = "spell_encoder (ZSTD_left 0) (ZSTD_left 1) (ZSTD_left 0)"
  obtain z where z: "zstd_wopen ?enc (Some (demo_iow []\<lparr>wbuffer := []\<rparr>)) 3 = Some z" by (simp add: zstd_wopen_def)
  have wr: "writer (wsrc_write stdio_wsource) stdio_winv stdio_sunk" by (simp add: stdiow.writer_axioms)
  have run: "enc_run ?enc (enc_init ?enc 3) NO_FLUSH [5, 6] WANDIO_BUFFER_SIZE = (ZSTD_left 0, 1, [], ([5], []))"
    by (simp add: spell_encoder_def spell_due_def)
  from zstd_wwrite_rejects_buffered [OF wr demo_child(1) z _ run] z show ?thesis by blast
qed

end
