(* ===== verification/Lz4_Writer.thy ===== *)
theory Lz4_Writer
  imports Codec_Writers
begin

unbundle bit_operations_syntax

text \<open>
  \<^verbatim>\<open>lib/iow-lz4.c\<close>: writing lz4 frames. liblz4's frame calls are a parameter. The writer cuts what
  it is given into pieces of at most 1 MiB, makes room in its 2 MiB buffer for the bound that the
  library gives for a piece, and compresses the piece into it.
\<close>

section \<open>The library\<close>

text \<open>Every call gets the room it has, and fails with \<open>None\<close> or stores some bytes.\<close>

record 'e lz4f =
  lz4_create :: bool
  lz4_begin :: "int \<Rightarrow> nat \<Rightarrow> (byte list \<times> 'e) option"
  lz4_bound :: "nat \<Rightarrow> nat"
  lz4_update :: "'e \<Rightarrow> nat \<Rightarrow> byte list \<Rightarrow> (byte list \<times> 'e) option"
  lz4_flush :: "'e \<Rightarrow> nat \<Rightarrow> (byte list \<times> 'e) option"
  lz4_end :: "'e \<Rightarrow> nat \<Rightarrow> (byte list \<times> 'e) option"

text \<open>\<open>sizeof outbuf\<close>, and \<open>outbuf_size_max\<close>.\<close>

definition LZ4_OUTBUF :: nat where
  "LZ4_OUTBUF = 1024 * 1024 * 2"

definition LZ4_PIECE :: nat where
  "LZ4_PIECE = LZ4_OUTBUF div 2"

text \<open>The promises of \<^verbatim>\<open>lz4frame.h\<close>: a call with the room its bound asks for succeeds and stays within
  it; bounds are far below the buffer's size.\<close>

definition lz4_ok :: "'e lz4f \<Rightarrow> 'e enc_view \<Rightarrow> (byte list \<Rightarrow> byte list \<Rightarrow> bool) \<Rightarrow> bool" where
  "lz4_ok f v stream \<longleftrightarrow> lz4_create f \<and>
     (\<forall>n\<le>LZ4_PIECE. lz4_bound f n \<le> LZ4_OUTBUF) \<and>
     (\<forall>level. \<exists>out e. lz4_begin f level LZ4_OUTBUF = Some (out, e) \<and> length out \<le> LZ4_OUTBUF \<and>
        live v e \<and> made v e = out \<and> given v e = []) \<and>
     (\<forall>e room bs. live v e \<and> lz4_bound f (length bs) \<le> room \<longrightarrow>
        (\<exists>out e'. lz4_update f e room bs = Some (out, e') \<and> length out \<le> lz4_bound f (length bs) \<and>
           live v e' \<and> made v e' = made v e @ out \<and> given v e' = given v e @ bs)) \<and>
     (\<forall>e. live v e \<longrightarrow>
        (\<exists>out e'. lz4_flush f e LZ4_OUTBUF = Some (out, e') \<and> length out \<le> LZ4_OUTBUF \<and>
           live v e' \<and> made v e' = made v e @ out \<and> given v e' = given v e)) \<and>
     (\<forall>e. live v e \<longrightarrow>
        (\<exists>out e'. lz4_end f e LZ4_OUTBUF = Some (out, e') \<and> length out \<le> LZ4_OUTBUF \<and>
           stream (made v e @ out) (given v e)))"

section \<open>State and operations\<close>

text \<open>\<open>lw_out\<close> is \<open>outbuf\<close> below \<open>outbuf_index\<close>.\<close>

record ('w, 'e) lz4w_t =
  lw_child :: 'w
  lw_err :: err_t
  lw_ctx :: 'e
  lw_out :: "byte list"

definition lz4_wopen :: "'e lz4f \<Rightarrow> 'w option \<Rightarrow> int \<Rightarrow> ('w, 'e) lz4w_t option" where
  "lz4_wopen f below compress_level =
     do { c \<leftarrow> below;
          if \<not> lz4_create f then None
          else do {
            (out, e) \<leftarrow> lz4_begin f compress_level LZ4_OUTBUF;
            Some \<lparr>lw_child = c, lw_err = ERR_OK, lw_ctx = e, lw_out = out\<rparr> } }"

text \<open>Make room for \<open>upper_bound\<close> bytes. \<open>Inl\<close> is a return from \<open>lz4_wwrite\<close>.\<close>

definition lz4_make_room ::
  "'w iow_source_t \<Rightarrow> nat \<Rightarrow> ('w, 'e) lz4w_t \<Rightarrow> ((int \<times> ('w, 'e) lz4w_t) + ('w, 'e) lz4w_t) option" where
  "lz4_make_room csrc upper_bound w =
     (if LZ4_OUTBUF - length (lw_out w) < upper_bound then do {
        (r, c) \<leftarrow> wandio_wwrite csrc (lw_child w) (lw_out w);
        let w = w\<lparr>lw_child := c\<rparr>;
        if c_int r \<le> 0 then Some (Inl (-1, w\<lparr>lw_err := ERR_ERROR\<rparr>))
        else do { c_assert (c_int r = int (length (lw_out w))); Some (Inr (w\<lparr>lw_out := []\<rparr>)) } }
      else Some (Inr w))"

text \<open>One piece. \<open>inbuf_index\<close> is \<open>len\<close> less what remains, an \<^verbatim>\<open>int\<close> that must not overflow; the
  value returned after the last piece is the length of that piece.\<close>

definition lz4_pass ::
  "'w iow_source_t \<Rightarrow> 'e lz4f \<Rightarrow> nat \<Rightarrow> byte list \<times> ('w, 'e) lz4w_t \<Rightarrow>
    ((int \<times> ('w, 'e) lz4w_t) + (byte list \<times> ('w, 'e) lz4w_t)) option" where
  "lz4_pass csrc f len = (\<lambda>(rest, w).
     let inbuf_len = (if LZ4_PIECE \<le> length rest then LZ4_PIECE else length rest);
         upper_bound = lz4_bound f inbuf_len
     in do {
       x \<leftarrow> lz4_make_room csrc upper_bound w;
       case x of
         Inl res \<Rightarrow> Some (Inl res)
       | Inr w \<Rightarrow>
           if LZ4_OUTBUF < upper_bound then Some (Inl (-1, w))
           else
             (case lz4_update f (lw_ctx w) (LZ4_OUTBUF - length (lw_out w)) (take inbuf_len rest) of
                None \<Rightarrow> Some (Inl (-1, w))
              | Some (out, e) \<Rightarrow> do {
                  let w = w\<lparr>lw_ctx := e, lw_out := lw_out w @ out\<rparr>;
                  let rest' = drop inbuf_len rest;
                  c_assert (len - length rest' < 2 ^ 31);
                  Some (if rest' = [] then Inl (int inbuf_len, w) else Inr (rest', w)) }) })"

definition lz4_wwrite :: "'w iow_source_t \<Rightarrow> 'e lz4f \<Rightarrow> ('w, 'e) lz4w_t write_fn" where
  "lz4_wwrite csrc f w buffer =
     (case lw_err w of
        ERR_EOF \<Rightarrow> Some (0, w)
      | ERR_ERROR \<Rightarrow> Some (-1, w)
      | ERR_OK \<Rightarrow> if buffer = [] then Some (0, w)
                  else c_loop (lz4_pass csrc f (length buffer)) (buffer, w))"

definition lz4_wflush :: "'w iow_source_t \<Rightarrow> 'e lz4f \<Rightarrow> ('w, 'e) lz4w_t flush_fn" where
  "lz4_wflush csrc f w =
     do { (bytes_written, c) \<leftarrow> wandio_wwrite csrc (lw_child w) (lw_out w);
          let w = w\<lparr>lw_child := c\<rparr>;
          if bytes_written < 0 then Some (-1, w\<lparr>lw_err := ERR_ERROR\<rparr>)
          else do {
            c_assert (bytes_written = int (length (lw_out w)));
            let w = w\<lparr>lw_out := []\<rparr>;
            case lz4_flush f (lw_ctx w) LZ4_OUTBUF of
              None \<Rightarrow> Some (-1, w)
            | Some (out, e) \<Rightarrow> do {
                (bytes_written, c) \<leftarrow> (if out \<noteq> [] then wandio_wwrite csrc (lw_child w) out else Some (0, lw_child w));
                let w = w\<lparr>lw_ctx := e, lw_child := c\<rparr>;
                if out \<noteq> [] \<and> bytes_written \<le> 0 then Some (-1, w\<lparr>lw_err := ERR_ERROR\<rparr>)
                else do {
                  c_assert (bytes_written = int (length out));
                  (res, c1) \<leftarrow> wandio_wflush csrc (Some (lw_child w));
                  c2 \<leftarrow> c1;
                  let w = w\<lparr>lw_child := c2\<rparr>;
                  Some (if res < 0 then (res, w\<lparr>lw_err := ERR_ERROR\<rparr>) else (0, w)) } } } }"

text \<open>The result of the flush is dropped. When \<open>LZ4F_compressEnd\<close> fails its error code goes on to be
  used as a length.\<close>

definition lz4_wclose :: "'w iow_source_t \<Rightarrow> 'e lz4f \<Rightarrow> ('w, 'e) lz4w_t \<Rightarrow> ('w, 'e) lz4w_t option" where
  "lz4_wclose csrc f w =
     do { (_, w) \<leftarrow> lz4_wflush csrc f w;
          (out, e) \<leftarrow> lz4_end f (lw_ctx w) LZ4_OUTBUF;
          (_, c) \<leftarrow> wandio_wwrite csrc (lw_child w) out;
          c2 \<leftarrow> wandio_wdestroy csrc c;
          Some (w\<lparr>lw_ctx := e, lw_child := c2\<rparr>) }"

definition lz4_wsource :: "'w iow_source_t \<Rightarrow> 'e lz4f \<Rightarrow> ('w, 'e) lz4w_t iow_source_t" where
  "lz4_wsource csrc f = \<lparr>wsrc_name = ''lz4w'', wsrc_write = lz4_wwrite csrc f,
     wsrc_flush = lz4_wflush csrc f, wsrc_close = lz4_wclose csrc f\<rparr>"

section \<open>Invariant\<close>

definition lw_inv ::
  "('w \<Rightarrow> bool) \<Rightarrow> ('w \<Rightarrow> byte list) \<Rightarrow> 'e enc_view \<Rightarrow> byte list \<Rightarrow> ('w, 'e) lz4w_t \<Rightarrow> bool" where
  "lw_inv cwinv csunk v base w \<longleftrightarrow> cwinv (lw_child w) \<and> lw_err w = ERR_OK \<and> live v (lw_ctx w) \<and>
     length (lw_out w) \<le> LZ4_OUTBUF \<and> csunk (lw_child w) @ lw_out w = base @ made v (lw_ctx w)"

definition lw_sunk :: "'e enc_view \<Rightarrow> ('w, 'e) lz4w_t \<Rightarrow> byte list" where
  "lw_sunk v w = given v (lw_ctx w)"

text \<open>The length of the last of the pieces of a write of \<open>n\<close> bytes.\<close>

definition lz4_last_piece :: "nat \<Rightarrow> nat" where
  "lz4_last_piece n = (if n mod LZ4_PIECE = 0 then LZ4_PIECE else n mod LZ4_PIECE)"

lemma LZ4_PIECE_pos: "0 < LZ4_PIECE" by (simp add: LZ4_PIECE_def LZ4_OUTBUF_def)

lemma lz4_last_piece_step: "LZ4_PIECE < n \<Longrightarrow> lz4_last_piece (n - LZ4_PIECE) = lz4_last_piece n"
  by (simp add: lz4_last_piece_def le_mod_geq)

lemma lz4_last_piece_end: "0 < n \<Longrightarrow> n \<le> LZ4_PIECE \<Longrightarrow> lz4_last_piece n = n"
  by (cases "n = LZ4_PIECE") (auto simp: lz4_last_piece_def)

locale framing = child: writer "wsrc_write csrc" cwinv csunk
  for csrc :: "'w iow_source_t" and cwinv csunk +
  fixes f :: "'e lz4f" and v :: "'e enc_view" and stream
  assumes lawful: "lz4_ok f v stream"
begin

lemma child_takes:
  assumes "cwinv c" "length bs \<le> LZ4_OUTBUF"
  obtains c' where "wandio_wwrite csrc c bs = Some (int (length bs), c')" "cwinv c'"
    "csunk c' = csunk c @ bs" "c_int (int (length bs)) = int (length bs)"
proof -
  from assms(2) have "length bs < 2 ^ 30" by (simp add: LZ4_OUTBUF_def)
  from child.wr_ok [OF assms(1) this] that c_int_id_nat [of "length bs"] \<open>length bs < 2 ^ 30\<close>
  show thesis by (auto simp: wandio_wwrite_def)
qed

lemma make_room_ok:
  assumes "lw_inv cwinv csunk v base w" "upper \<le> LZ4_OUTBUF"
  shows "(\<exists>w'. lz4_make_room csrc upper w = Some (Inr w') \<and> lw_inv cwinv csunk v base w' \<and>
      upper \<le> LZ4_OUTBUF - length (lw_out w') \<and> lw_ctx w' = lw_ctx w)"
proof (cases "LZ4_OUTBUF - length (lw_out w) < upper")
  case False
  with assms show ?thesis by (auto simp: lz4_make_room_def)
next
  case True
  from assms(1) have w: "cwinv (lw_child w)" "length (lw_out w) \<le> LZ4_OUTBUF" by (simp_all add: lw_inv_def)
  obtain c' where c': "wandio_wwrite csrc (lw_child w) (lw_out w) = Some (int (length (lw_out w)), c')"
    "cwinv c'" "csunk c' = csunk (lw_child w) @ lw_out w" "c_int (int (length (lw_out w))) = int (length (lw_out w))"
    using child_takes [OF w] .
  have "lw_out w \<noteq> []" using True assms(2) by auto
  with True c' assms show ?thesis by (auto simp: lz4_make_room_def lw_inv_def)
qed

lemma lz4_pass_ok:
  assumes "lw_inv cwinv csunk v base w" "rest \<noteq> []" "length rest \<le> len" "len < 2 ^ 31"
  shows "\<exists>w'. lz4_pass csrc f len (rest, w) =
      Some (if length rest \<le> LZ4_PIECE then Inl (int (length rest), w') else Inr (drop LZ4_PIECE rest, w')) \<and>
    lw_inv cwinv csunk v base w' \<and> lw_sunk v w' = lw_sunk v w @ take LZ4_PIECE rest"
proof -
  define n where "n = (if LZ4_PIECE \<le> length rest then LZ4_PIECE else length rest)"
  have n: "n \<le> LZ4_PIECE" "length (take n rest) = n" "take n rest = take LZ4_PIECE rest"
    "drop n rest = drop LZ4_PIECE rest" by (auto simp: n_def)
  have bound: "lz4_bound f n \<le> LZ4_OUTBUF" using lawful n(1) by (simp add: lz4_ok_def)
  from make_room_ok [OF assms(1) this] obtain w1 where w1: "lz4_make_room csrc (lz4_bound f n) w = Some (Inr w1)"
    "lw_inv cwinv csunk v base w1" "lz4_bound f n \<le> LZ4_OUTBUF - length (lw_out w1)" "lw_ctx w1 = lw_ctx w" by blast
  from w1(2) have w1': "live v (lw_ctx w1)" "length (lw_out w1) \<le> LZ4_OUTBUF" by (simp_all add: lw_inv_def)
  from lawful w1'(1) w1(3) n(2) obtain out e where
    e: "lz4_update f (lw_ctx w1) (LZ4_OUTBUF - length (lw_out w1)) (take n rest) = Some (out, e)"
    "length out \<le> lz4_bound f n" "live v e" "made v e = made v (lw_ctx w1) @ out"
    "given v e = given v (lw_ctx w1) @ take n rest"
    unfolding lz4_ok_def by metis
  let ?w = "w1\<lparr>lw_ctx := e, lw_out := lw_out w1 @ out\<rparr>"
  have "lw_inv cwinv csunk v base ?w" using w1(2,3) w1'(2) e(2-4) by (auto simp: lw_inv_def)
  moreover have "lw_sunk v ?w = lw_sunk v w @ take LZ4_PIECE rest" using e(5) w1(4) n(3) by (simp add: lw_sunk_def)
  moreover have "lz4_pass csrc f len (rest, w) =
      Some (if length rest \<le> LZ4_PIECE then Inl (int (length rest), ?w) else Inr (drop LZ4_PIECE rest, ?w))"
    using w1(1) e(1) bound n(4) assms(4) by (auto simp: lz4_pass_def Let_def n_def)
  ultimately show ?thesis by blast
qed

lemma lz4_wwrite_ok:
  assumes "lw_inv cwinv csunk v base w" "length bs < 2 ^ 31" "bs \<noteq> []"
  shows "\<exists>w'. lz4_wwrite csrc f w bs = Some (int (lz4_last_piece (length bs)), w') \<and>
    lw_inv cwinv csunk v base w' \<and> lw_sunk v w' = lw_sunk v w @ bs"
proof -
  define I where "I = (\<lambda>(rest, u). rest \<noteq> [] \<and> length rest \<le> length bs \<and> lw_inv cwinv csunk v base u \<and>
    lz4_last_piece (length rest) = lz4_last_piece (length bs) \<and> lw_sunk v u @ rest = lw_sunk v w @ bs)"
  have "\<exists>r. c_loop (lz4_pass csrc f (length bs)) (bs, w) = Some r \<and> (\<exists>w'. r = (int (lz4_last_piece (length bs)), w') \<and>
    lw_inv cwinv csunk v base w' \<and> lw_sunk v w' = lw_sunk v w @ bs)"
  proof (rule c_loop_returns [where I = I and m = "\<lambda>(rest, u). length rest"])
    show "I (bs, w)" using assms by (simp add: I_def)
  next
    fix st assume "I st"
    then obtain rest u where st: "st = (rest, u)" and u: "rest \<noteq> []" "length rest \<le> length bs"
      "lw_inv cwinv csunk v base u" "lz4_last_piece (length rest) = lz4_last_piece (length bs)"
      "lw_sunk v u @ rest = lw_sunk v w @ bs" by (auto simp: I_def)
    from lz4_pass_ok [OF u(3,1,2) assms(2)] obtain u' where
      u': "lz4_pass csrc f (length bs) (rest, u) =
        Some (if length rest \<le> LZ4_PIECE then Inl (int (length rest), u') else Inr (drop LZ4_PIECE rest, u'))"
      "lw_inv cwinv csunk v base u'" "lw_sunk v u' = lw_sunk v u @ take LZ4_PIECE rest" by blast
    show "(\<exists>r. lz4_pass csrc f (length bs) st = Some (Inl r) \<and> (\<exists>w'. r = (int (lz4_last_piece (length bs)), w') \<and>
          lw_inv cwinv csunk v base w' \<and> lw_sunk v w' = lw_sunk v w @ bs)) \<or>
        (\<exists>s'. lz4_pass csrc f (length bs) st = Some (Inr s') \<and> I s' \<and>
          (case s' of (rest, u) \<Rightarrow> length rest) < (case st of (rest, u) \<Rightarrow> length rest))"
    proof (cases "length rest \<le> LZ4_PIECE")
      case True
      with u u' lz4_last_piece_end [of "length rest"] st show ?thesis by auto
    next
      case False
      have "I (drop LZ4_PIECE rest, u')"
        using False u u' lz4_last_piece_step [of "length rest"] by (simp add: I_def)
      with u'(1) False LZ4_PIECE_pos u(1) st show ?thesis by auto
    qed
  qed
  with assms show ?thesis by (auto simp: lz4_wwrite_def lw_inv_def)
qed

lemma lz4_write_list:
  "lw_inv cwinv csunk v base w \<Longrightarrow> \<forall>bs\<in>set bss. length bs < 2 ^ 31 \<Longrightarrow>
    \<exists>w'. write_list (lz4_wwrite csrc f) w bss = Some w' \<and> lw_inv cwinv csunk v base w' \<and>
      lw_sunk v w' = lw_sunk v w @ concat bss"
proof (induction bss arbitrary: w)
  case (Cons bs bss)
  show ?case
  proof (cases "bs = []")
    case True
    with Cons show ?thesis by (auto simp: lz4_wwrite_def lw_inv_def)
  next
    case False
    with lz4_wwrite_ok [OF Cons.prems(1), of bs] Cons.prems(2) obtain w1 where
      w1: "lz4_wwrite csrc f w bs = Some (int (lz4_last_piece (length bs)), w1)" "lw_inv cwinv csunk v base w1"
      "lw_sunk v w1 = lw_sunk v w @ bs" by auto
    with Cons.IH [OF w1(2)] Cons.prems(2) show ?thesis by auto
  qed
qed simp

lemma lz4_wflush_ok:
  assumes "flusher (wsrc_write csrc) cwinv csunk (wsrc_flush csrc)" "lw_inv cwinv csunk v base w"
  shows "\<exists>w'. lz4_wflush csrc f w = Some (0, w') \<and> lw_inv cwinv csunk v base w' \<and>
    lw_out w' = [] \<and> lw_sunk v w' = lw_sunk v w"
proof -
  from assms(2) have w: "cwinv (lw_child w)" "length (lw_out w) \<le> LZ4_OUTBUF" "live v (lw_ctx w)"
    "csunk (lw_child w) @ lw_out w = base @ made v (lw_ctx w)" "lw_err w = ERR_OK" by (simp_all add: lw_inv_def)
  obtain c where c: "wandio_wwrite csrc (lw_child w) (lw_out w) = Some (int (length (lw_out w)), c)" "cwinv c"
    "csunk c = csunk (lw_child w) @ lw_out w" using child_takes [OF w(1,2)] .
  obtain out e where e: "lz4_flush f (lw_ctx w) LZ4_OUTBUF = Some (out, e)" "length out \<le> LZ4_OUTBUF"
    "live v e" "made v e = made v (lw_ctx w) @ out" "given v e = given v (lw_ctx w)"
    using lawful w(3) unfolding lz4_ok_def by blast
  obtain c1 where c1: "wandio_wwrite csrc c out = Some (int (length out), c1)" "cwinv c1" "csunk c1 = csunk c @ out"
    using child_takes [OF c(2) e(2)] .
  define c2 where "c2 = (if out = [] then c else c1)"
  have c2: "(if out \<noteq> [] then wandio_wwrite csrc c out else Some (0, c)) = Some (int (length out), c2)"
    "cwinv c2" "csunk c2 = csunk c @ out" using c1 c(2) by (auto simp: c2_def)
  from flusher.fl_ok [OF assms(1) c2(2)] obtain r c3 where
    c3: "wsrc_flush csrc c2 = Some (r, c3)" "0 \<le> r" "cwinv c3" "csunk c3 = csunk c2" by blast
  let ?w = "w\<lparr>lw_child := c3, lw_out := [], lw_ctx := e\<rparr>"
  have "lz4_wflush csrc f w = Some (0, ?w)"
    using c(1) e(1) c2(1) c3(1,2) by (auto simp: lz4_wflush_def wandio_wflush_def split: if_splits)
  moreover have "lw_inv cwinv csunk v base ?w" using w c e c2 c3 by (simp add: lw_inv_def)
  ultimately show ?thesis using e(5) by (auto simp: lw_sunk_def)
qed

lemma lz4_wclose_ok:
  assumes "flusher (wsrc_write csrc) cwinv csunk (wsrc_flush csrc)" "lw_inv cwinv csunk v base w"
  shows "\<exists>c1 m w1. cwinv c1 \<and> csunk c1 = base @ m \<and> stream m (lw_sunk v w) \<and>
    lz4_wclose csrc f w = map_option (\<lambda>c2. w1\<lparr>lw_child := c2\<rparr>) (wsrc_close csrc c1)"
proof -
  from lz4_wflush_ok [OF assms] obtain w1 where w1: "lz4_wflush csrc f w = Some (0, w1)"
    "lw_inv cwinv csunk v base w1" "lw_out w1 = []" "lw_sunk v w1 = lw_sunk v w" by blast
  from w1(2,3) have u: "cwinv (lw_child w1)" "live v (lw_ctx w1)" "csunk (lw_child w1) = base @ made v (lw_ctx w1)"
    by (simp_all add: lw_inv_def)
  obtain out e where e: "lz4_end f (lw_ctx w1) LZ4_OUTBUF = Some (out, e)" "length out \<le> LZ4_OUTBUF"
    "stream (made v (lw_ctx w1) @ out) (given v (lw_ctx w1))"
    using lawful u(2) unfolding lz4_ok_def by blast
  obtain c where c: "wandio_wwrite csrc (lw_child w1) out = Some (int (length out), c)" "cwinv c"
    "csunk c = csunk (lw_child w1) @ out" using child_takes [OF u(1) e(2)] .
  have "lz4_wclose csrc f w = map_option (\<lambda>c2. (w1\<lparr>lw_ctx := e\<rparr>)\<lparr>lw_child := c2\<rparr>) (wsrc_close csrc c)"
    using w1(1) e(1) c(1) by (cases "wsrc_close csrc c") (simp_all add: lz4_wclose_def wandio_wdestroy_def)
  moreover have "csunk c = base @ (made v (lw_ctx w1) @ out)" using c(3) u(3) by simp
  moreover have "given v (lw_ctx w1) = lw_sunk v w" using w1(4) by (simp add: lw_sunk_def)
  ultimately show ?thesis using c(2) e(3) by metis
qed

end

lemma framingI:
  "writer (wsrc_write csrc) cwinv csunk \<Longrightarrow> lz4_ok f v stream \<Longrightarrow> framing csrc cwinv csunk f v stream"
  by (intro framing.intro framing_axioms.intro)

lemma lz4_wopen_inv:
  assumes "lz4_ok f v stream" "lz4_wopen f (Some c) level = Some w" "cwinv c"
  shows "lw_inv cwinv csunk v (csunk c) w" "lw_sunk v w = []"
proof -
  from assms(1) obtain out e where e: "lz4_begin f level LZ4_OUTBUF = Some (out, e)" "length out \<le> LZ4_OUTBUF"
    "live v e" "made v e = out" "given v e = []" unfolding lz4_ok_def by blast
  with assms show "lw_inv cwinv csunk v (csunk c) w" "lw_sunk v w = []"
    by (auto simp: lz4_wopen_def lz4_ok_def lw_inv_def lw_sunk_def)
qed

section \<open>A frame format that keeps every promise\<close>

text \<open>A byte \<open>4\<close>, the bytes complemented, a byte \<open>0\<close>. The state is what was given.\<close>

definition flip_lz4 :: "byte list lz4f" where
  "flip_lz4 = \<lparr>lz4_create = True, lz4_begin = (\<lambda>level room. Some ([4], [])), lz4_bound = (\<lambda>n. n + 1),
     lz4_update = (\<lambda>e room bs. if length bs \<le> room then Some (map NOT bs, e @ bs) else None),
     lz4_flush = (\<lambda>e room. Some ([], e)), lz4_end = (\<lambda>e room. Some ([0], e))\<rparr>"

definition flip_view :: "byte list enc_view" where
  "flip_view = \<lparr>live = (\<lambda>_. True), ending = (\<lambda>_. True), given = (\<lambda>e. e), made = (\<lambda>e. 4 # map NOT e),
     backlog = (\<lambda>_. 0)\<rparr>"

definition flip_stream :: "byte list \<Rightarrow> byte list \<Rightarrow> bool" where
  "flip_stream out txt \<longleftrightarrow> out = 4 # map NOT txt @ [0]"

lemma flip_ok: "lz4_ok flip_lz4 flip_view flip_stream"
  by (simp add: lz4_ok_def flip_lz4_def flip_view_def flip_stream_def LZ4_PIECE_def LZ4_OUTBUF_def)

interpretation lz4_stdio: framing stdio_wsource stdio_winv stdio_sunk flip_lz4 flip_view flip_stream
  by unfold_locales (simp_all add: stdiow.wr_ok flip_ok)

lemma stdio_flushes: "flusher (wsrc_write stdio_wsource) stdio_winv stdio_sunk (wsrc_flush stdio_wsource)"
  using stdiow.flusher_axioms by simp

section \<open>Properties\<close>

text \<open>C16: whatever is written through the lz4 writer, in whatever pieces, closing it leaves the child,
  just before it is closed itself, with one complete frame for exactly those bytes; the 2 MiB
  buffer is never overrun and no assertion fails.\<close>

theorem lz4_write_then_close:
  assumes "flusher (wsrc_write csrc) cwinv csunk (wsrc_flush csrc)" "cwinv c" "lz4_ok f v stream"
    and "lz4_wopen f (Some c) level = Some w" "\<forall>bs\<in>set bss. length bs < 2 ^ 31"
  shows "\<exists>w1 c1 m w2. write_list (lz4_wwrite csrc f) w bss = Some w1 \<and> cwinv c1 \<and>
    csunk c1 = csunk c @ m \<and> stream m (concat bss) \<and>
    lz4_wclose csrc f w1 = map_option (\<lambda>c2. w2\<lparr>lw_child := c2\<rparr>) (wsrc_close csrc c1)"
proof -
  note fr = framingI [OF flusher.axioms(1) [OF assms(1)] assms(3)]
  note w = lz4_wopen_inv(1) [where csunk = csunk and cwinv = cwinv, OF assms(3,4,2)]
    lz4_wopen_inv(2) [where cwinv = cwinv, OF assms(3,4,2)]
  from framing.lz4_write_list [OF fr w(1) assms(5)] w(2) obtain w1 where
    w1: "write_list (lz4_wwrite csrc f) w bss = Some w1" "lw_inv cwinv csunk v (csunk c) w1"
    "lw_sunk v w1 = concat bss" by auto
  from framing.lz4_wclose_ok [OF fr assms(1) w1(2)] w1 show ?thesis by metis
qed

theorem lz4_write_then_close_witness:
  "\<exists>w w1 c1 w2. lz4_wopen flip_lz4 (Some (demo_iow []\<lparr>wbuffer := []\<rparr>)) 1 = Some w \<and>
     write_list (lz4_wwrite stdio_wsource flip_lz4) w [[1, 2], [3]] = Some w1 \<and>
     stdio_sunk c1 = [4, 254, 253, 252, 0] \<and>
     lz4_wclose stdio_wsource flip_lz4 w1 = map_option (\<lambda>c2. w2\<lparr>lw_child := c2\<rparr>) (stdio_wclose c1)"
proof -
  obtain w where w: "lz4_wopen flip_lz4 (Some (demo_iow []\<lparr>wbuffer := []\<rparr>)) 1 = Some w"
    by (simp add: lz4_wopen_def flip_lz4_def)
  have small: "\<forall>bs\<in>set [[1, 2], [3]]. length (bs :: byte list) < 2 ^ 31" by simp
  from lz4_write_then_close [OF stdio_flushes demo_child(1) flip_ok w small] obtain w1 c1 m w2 where
    "write_list (lz4_wwrite stdio_wsource flip_lz4) w [[1, 2], [3]] = Some w1" "stdio_sunk c1 = m"
    "flip_stream m [1, 2, 3]"
    "lz4_wclose stdio_wsource flip_lz4 w1 = map_option (\<lambda>c2. w2\<lparr>lw_child := c2\<rparr>) (stdio_wclose c1)"
    by (auto simp: demo_child(2) stdio_wsource_def)
  with w show ?thesis
    by (intro exI [of _ w] exI [of _ w1] exI [of _ c1] exI [of _ w2]) (simp add: flip_stream_def)
qed

text \<open>\<open>lz4_wwrite\<close> takes everything but returns the length of the last piece of 1 MiB or less, so a
  longer write looks short.\<close>

theorem lz4_wwrite_reports_last_piece:
  assumes "writer (wsrc_write csrc) cwinv csunk" "lz4_ok f v stream"
    and "lw_inv cwinv csunk v base w" "length bs < 2 ^ 31" "bs \<noteq> []"
  shows "\<exists>w'. lz4_wwrite csrc f w bs =
      Some (int (if length bs mod LZ4_PIECE = 0 then LZ4_PIECE else length bs mod LZ4_PIECE), w') \<and>
    lw_sunk v w' = lw_sunk v w @ bs"
  using framing.lz4_wwrite_ok [OF framingI [OF assms(1,2)] assms(3-5)] by (auto simp: lz4_last_piece_def)

theorem lz4_wwrite_reports_last_piece_witness:
  "\<exists>w w'. lz4_wopen flip_lz4 (Some (demo_iow []\<lparr>wbuffer := []\<rparr>)) 1 = Some w \<and>
     lz4_wwrite stdio_wsource flip_lz4 w (replicate (LZ4_PIECE + 7) 0) = Some (7, w')"
proof -
  obtain w where w: "lz4_wopen flip_lz4 (Some (demo_iow []\<lparr>wbuffer := []\<rparr>)) 1 = Some w"
    by (simp add: lz4_wopen_def flip_lz4_def)
  have wr: "writer (wsrc_write stdio_wsource) stdio_winv stdio_sunk" by (simp add: stdiow.writer_axioms)
  have len: "length (replicate (LZ4_PIECE + 7) (0 :: byte)) < 2 ^ 31" "length (replicate (LZ4_PIECE + 7) (0 :: byte)) mod LZ4_PIECE = 7"
    by (simp_all add: LZ4_PIECE_def LZ4_OUTBUF_def)
  have ne: "replicate (LZ4_PIECE + 7) (0 :: byte) \<noteq> []" by simp
  note inv = lz4_wopen_inv(1) [where csunk = stdio_sunk and cwinv = stdio_winv, OF flip_ok w demo_child(1)]
  from lz4_wwrite_reports_last_piece [OF wr flip_ok inv len(1) ne] w show ?thesis unfolding len(2) by auto
qed

end
