(* ===== verification/Zstd_Lz4_Reader.thy ===== *)
theory Zstd_Lz4_Reader
  imports Codec_Readers
begin

unbundle bit_operations_syntax

text \<open>
  \<^verbatim>\<open>lib/ior-zstd-lz4.c\<close>: reading zstd and lz4 frames, one after the other. A 1 MiB buffer is filled
  from the parent whenever less than 256 KiB of it are left; a frame is recognised by its first
  four bytes and handed to \<open>ZSTD_decompressStream\<close> or \<open>LZ4F_decompress\<close>, both parameters.
\<close>

section \<open>State\<close>

datatype decoder_t = DEC_UNDEF | DEC_SKIP_FRAME | DEC_ZSTD | DEC_LZ4

text \<open>What the decoders return: an error code, what is still wanted, or \<open>0\<close> at the end of a frame.\<close>

datatype zl_ret = ZL_error | ZL_more | ZL_done

text \<open>What \<^verbatim>\<open>config.h\<close> says of the build.\<close>

record zl_build =
  with_zstd :: bool
  with_lz4 :: bool
  lz4_movable :: bool

definition ZL_INBUF :: nat where
  "ZL_INBUF = 1024 * 1024"

definition ZL_LOW :: nat where
  "ZL_LOW = 256 * 1024"

text \<open>\<open>zl_in\<close> is \<open>inbuf\<close> below \<open>inbuf_len\<close>, \<open>zl_old\<close> whatever the rest of the array holds.\<close>

record ('p, 'z, 'l) zl_t =
  zl_at :: nat
  zl_zstd :: 'z
  zl_lz4 :: 'l
  zl_err :: err_t
  zl_dec :: decoder_t
  zl_parent :: 'p
  zl_index :: nat
  zl_in :: "byte list"
  zl_old :: "byte list"

definition zl_data :: "('p, 'z, 'l) zl_t \<Rightarrow> byte list" where
  "zl_data z = drop (zl_index z) (zl_in z)"

text \<open>\<open>context_ok\<close> is whether \<open>LZ4F_createDecompressionContext\<close> succeeds.\<close>

definition zstd_lz4_open ::
  "zl_build \<Rightarrow> (zl_ret, 'z) decoder \<Rightarrow> (zl_ret, 'l) decoder \<Rightarrow> bool \<Rightarrow> nat \<Rightarrow> 'p option \<Rightarrow>
    ('p, 'z, 'l) zl_t option" where
  "zstd_lz4_open b dz dl context_ok at parent =
     (case parent of None \<Rightarrow> None
      | Some p \<Rightarrow>
          if with_lz4 b \<and> \<not> context_ok then None
          else Some \<lparr>zl_at = at, zl_zstd = dec_init dz, zl_lz4 = dec_init dl, zl_err = ERR_OK,
            zl_dec = DEC_UNDEF, zl_parent = p, zl_index = 0, zl_in = [], zl_old = replicate ZL_INBUF 0\<rparr>)"

section \<open>Filling the buffer\<close>

text \<open>Start again at the front when all has been used; move what is left to the front when the rest
  of the array has become small, if liblz4 can stand it.\<close>

definition zl_compact :: "zl_build \<Rightarrow> ('p, 'z, 'l) zl_t \<Rightarrow> ('p, 'z, 'l) zl_t" where
  "zl_compact b z =
     (if zl_data z = [] then z\<lparr>zl_index := 0, zl_in := [], zl_old := zl_in z @ zl_old z\<rparr>
      else if length (zl_old z) < ZL_LOW \<and> lz4_movable b
      then z\<lparr>zl_index := 0, zl_in := zl_data z,
             zl_old := drop (length (zl_data z)) (zl_in z @ zl_old z)\<rparr>
      else z)"

text \<open>One read from the parent. The loop ends with a return from \<open>zstd_lz4_read\<close> (\<open>Inl\<close>), or with
  the buffer full or the parent at its end (\<open>Inr\<close>).\<close>

definition zl_fill_pass ::
  "'p read_fn \<Rightarrow> byte list \<Rightarrow> ('p, 'z, 'l) zl_t \<Rightarrow>
    (((int \<times> byte list \<times> ('p, 'z, 'l) zl_t) + ('p, 'z, 'l) zl_t) + ('p, 'z, 'l) zl_t) option" where
  "zl_fill_pass prd out z =
     do { (r, bs, p) \<leftarrow> prd (zl_parent z) (zl_at z + length (zl_in z)) (length (zl_old z));
          let bytes_read = c_int r;
          let z = z\<lparr>zl_parent := p\<rparr>;
          Some
           (if bytes_read < 0 then Inl (Inl (-1, out, z\<lparr>zl_err := ERR_ERROR\<rparr>))
            else if bytes_read = 0 \<and> length (zl_in z) = zl_index z
            then Inl (Inl (int (length out), out, z\<lparr>zl_err := ERR_EOF\<rparr>))
            else let z = z\<lparr>zl_in := zl_in z @ bs, zl_old := drop (length bs) (zl_old z)\<rparr>
                 in if bytes_read = 0 \<or> zl_old z = [] then Inl (Inr z) else Inr z) }"

section \<open>Decoding\<close>

text \<open>The first four bytes at \<open>inbuf_index\<close>, wherever the data end; beyond the array is an abort.\<close>

definition zl_sniff :: "zl_build \<Rightarrow> ('p, 'z, 'l) zl_t \<Rightarrow> decoder_t option option" where
  "zl_sniff b z =
     (let buf = drop (zl_index z) (zl_in z @ zl_old z) in do {
        c_assert (4 \<le> length buf);
        Some
         (if buf ! 0 AND 0xf0 = 0x50 \<and> buf ! 1 = 0x2a \<and> buf ! 2 = 0x4d \<and> buf ! 3 = 0x18 then Some DEC_SKIP_FRAME
          else if with_zstd b \<and> buf ! 0 = 0x28 \<and> buf ! 1 = 0xb5 \<and> buf ! 2 = 0x2f \<and> buf ! 3 = 0xfd then Some DEC_ZSTD
          else if with_lz4 b \<and> buf ! 0 = 0x04 \<and> buf ! 1 = 0x22 \<and> buf ! 2 = 0x4d \<and> buf ! 3 = 0x18 then Some DEC_LZ4
          else None) })"

text \<open>The call of the decoder that has the frame: whether it succeeds, the output, the state.\<close>

definition zl_run ::
  "zl_build \<Rightarrow> (zl_ret, 'z) decoder \<Rightarrow> (zl_ret, 'l) decoder \<Rightarrow> nat \<Rightarrow> byte list \<times> ('p, 'z, 'l) zl_t \<Rightarrow>
    bool \<times> byte list \<times> ('p, 'z, 'l) zl_t" where
  "zl_run b dz dl len = (\<lambda>(out, z).
     if with_zstd b \<and> (zl_dec z = DEC_ZSTD \<or> zl_dec z = DEC_SKIP_FRAME) then
       (case dec_run dz (zl_zstd z) (zl_data z) (len - length out) of (code, k, bs, d) \<Rightarrow>
          if code = ZL_error then (False, out, z\<lparr>zl_err := ERR_ERROR\<rparr>)
          else (True, out @ bs, z\<lparr>zl_zstd := d, zl_index := zl_index z + k,
                  zl_dec := (if code = ZL_done then DEC_UNDEF else zl_dec z)\<rparr>))
     else if with_lz4 b \<and> (zl_dec z = DEC_LZ4 \<or> zl_dec z = DEC_SKIP_FRAME) then
       (case dec_run dl (zl_lz4 z) (zl_data z) (len - length out) of (code, k, bs, d) \<Rightarrow>
          if code = ZL_error then (False, out, z\<lparr>zl_err := ERR_ERROR\<rparr>)
          else (True, out @ bs, z\<lparr>zl_lz4 := d, zl_index := zl_index z + k,
                  zl_dec := (if code = ZL_done then DEC_UNDEF else zl_dec z)\<rparr>))
     else (True, out, z))"

text \<open>Recognise a frame when none is open. \<open>Inl\<close> is a return from \<open>zstd_lz4_read\<close>; the test is on the
  length of the caller's buffer.\<close>

definition zl_begin ::
  "zl_build \<Rightarrow> nat \<Rightarrow> byte list \<times> ('p, 'z, 'l) zl_t \<Rightarrow>
    ((int \<times> byte list \<times> ('p, 'z, 'l) zl_t) + ('p, 'z, 'l) zl_t) option" where
  "zl_begin b len = (\<lambda>(out, z).
     if zl_dec z \<noteq> DEC_UNDEF then Some (Inr z)
     else if len < 4 then Some (Inl (-1, out, z))
     else do { d \<leftarrow> zl_sniff b z;
               Some (case d of None \<Rightarrow> Inl (-1, out, z) | Some d \<Rightarrow> Inr (z\<lparr>zl_dec := d\<rparr>)) })"

text \<open>One round of the decoding loop, which ends with a return (\<open>Inl\<close>) or with the data used up
  (\<open>Inr\<close>). \<open>outbuf_index\<close> is an \<^verbatim>\<open>int\<close>.\<close>

definition zl_decode_pass ::
  "zl_build \<Rightarrow> (zl_ret, 'z) decoder \<Rightarrow> (zl_ret, 'l) decoder \<Rightarrow> nat \<Rightarrow> byte list \<times> ('p, 'z, 'l) zl_t \<Rightarrow>
    (((int \<times> byte list \<times> ('p, 'z, 'l) zl_t) + byte list \<times> ('p, 'z, 'l) zl_t) +
     byte list \<times> ('p, 'z, 'l) zl_t) option" where
  "zl_decode_pass b dz dl len st =
     do { x \<leftarrow> zl_begin b len st;
          case x of Inl res \<Rightarrow> Some (Inl (Inl res))
          | Inr z0 \<Rightarrow>
              (case zl_run b dz dl len (fst st, z0) of (ok, out, z) \<Rightarrow> do {
                 c_assert (length out < 2 ^ 31);
                 Some
                  (if \<not> ok then Inl (Inl (-1, out, z))
                   else if zl_index z = zl_index z0 \<and> out = [] then Inl (Inl (-1, out, z\<lparr>zl_err := ERR_ERROR\<rparr>))
                   else if length out = len then Inl (Inl (int (length out), out, z))
                   else if length (zl_in z) \<le> zl_index z then Inl (Inr (out, z))
                   else Inr (out, z)) }) }"

section \<open>The operations\<close>

definition zl_pass ::
  "zl_build \<Rightarrow> (zl_ret, 'z) decoder \<Rightarrow> (zl_ret, 'l) decoder \<Rightarrow> 'p read_fn \<Rightarrow> nat \<Rightarrow>
    byte list \<times> ('p, 'z, 'l) zl_t \<Rightarrow>
    ((int \<times> byte list \<times> ('p, 'z, 'l) zl_t) + byte list \<times> ('p, 'z, 'l) zl_t) option" where
  "zl_pass b dz dl prd len = (\<lambda>(out, z). do {
     x \<leftarrow> (if length (zl_data z) < ZL_LOW then c_loop (zl_fill_pass prd out) (zl_compact b z) else Some (Inr z));
     case x of Inl res \<Rightarrow> Some (Inl res)
     | Inr z \<Rightarrow> c_loop (zl_decode_pass b dz dl len) (out, z) })"

definition zstd_lz4_read ::
  "zl_build \<Rightarrow> (zl_ret, 'z) decoder \<Rightarrow> (zl_ret, 'l) decoder \<Rightarrow> 'p read_fn \<Rightarrow> ('p, 'z, 'l) zl_t read_fn" where
  "zstd_lz4_read b dz dl prd z buffer len =
     (case zl_err z of
        ERR_EOF \<Rightarrow> Some (0, [], z)
      | ERR_ERROR \<Rightarrow> Some (-1, [], z)
      | ERR_OK \<Rightarrow> c_loop (zl_pass b dz dl prd len) ([], z))"

definition zstd_lz4_close :: "'p io_source_t \<Rightarrow> ('p, 'z, 'l) zl_t \<Rightarrow> ('p, 'z, 'l) zl_t" where
  "zstd_lz4_close src z = z\<lparr>zl_parent := src_close src (zl_parent z)\<rparr>"

definition zstd_lz4_source ::
  "zl_build \<Rightarrow> (zl_ret, 'z) decoder \<Rightarrow> (zl_ret, 'l) decoder \<Rightarrow> 'p io_source_t \<Rightarrow> ('p, 'z, 'l) zl_t io_source_t" where
  "zstd_lz4_source b dz dl src = \<lparr>src_name = ''zstd_lz4'', src_read = zstd_lz4_read b dz dl (src_read src),
     src_peek = None, src_tell = None, src_seek = None, src_close = zstd_lz4_close src\<rparr>"

end
