(* ===== verification/Zstd_Lz4_Proofs.thy ===== *)
theory Zstd_Lz4_Proofs
  imports Zstd_Lz4_Reader
begin

unbundle bit_operations_syntax

text \<open>
  What the zstd and lz4 reader owes its caller on a file that is one frame, and the contract of one
  call; then what it does at the end of a file cut short, and at a frame whose first bytes are at
  the end of the buffer.
\<close>

section \<open>What is still owed\<close>

definition zstd_magic :: "byte list" where "zstd_magic = [0x28, 0xb5, 0x2f, 0xfd]"
definition lz4_magic :: "byte list" where "lz4_magic = [0x04, 0x22, 0x4d, 0x18]"

lemma magic_length: "length zstd_magic = 4" "length lz4_magic = 4"
  by (simp_all add: zstd_magic_def lz4_magic_def)

definition zl_left :: "('p \<Rightarrow> byte list) \<Rightarrow> ('p, 'z, 'l) zl_t \<Rightarrow> byte list" where
  "zl_left ppend z = zl_data z @ ppend (zl_parent z)"

definition zl_text ::
  "zl_build \<Rightarrow> ('z \<Rightarrow> byte list \<Rightarrow> byte list option) \<Rightarrow> ('l \<Rightarrow> byte list \<Rightarrow> byte list option) \<Rightarrow>
    ('p \<Rightarrow> byte list) \<Rightarrow> ('p, 'z, 'l) zl_t \<Rightarrow> byte list option" where
  "zl_text b plainz plainl ppend z =
     (case zl_dec z of
        DEC_UNDEF \<Rightarrow>
          if zl_left ppend z = [] then Some []
          else if with_zstd b \<and> take 4 (zl_left ppend z) = zstd_magic then plainz (zl_zstd z) (zl_left ppend z)
          else if with_lz4 b \<and> take 4 (zl_left ppend z) = lz4_magic then plainl (zl_lz4 z) (zl_left ppend z)
          else None
      | DEC_ZSTD \<Rightarrow> if with_zstd b then plainz (zl_zstd z) (zl_left ppend z) else None
      | DEC_LZ4 \<Rightarrow> if with_lz4 b then plainl (zl_lz4 z) (zl_left ppend z) else None
      | DEC_SKIP_FRAME \<Rightarrow> None)"

text \<open>The buffer is an array of 1 MiB; a frame that is still to be recognised is at its start.\<close>

definition zl_core :: "('p \<Rightarrow> bool) \<Rightarrow> ('p \<Rightarrow> byte list) \<Rightarrow> ('p, 'z, 'l) zl_t \<Rightarrow> bool" where
  "zl_core pinv ppend z \<longleftrightarrow> pinv (zl_parent z) \<and> length (zl_in z) + length (zl_old z) = ZL_INBUF \<and>
     zl_index z \<le> length (zl_in z) \<and>
     (zl_dec z = DEC_UNDEF \<and> zl_left ppend z \<noteq> [] \<longrightarrow> zl_index z = 0)"

definition zl_inv ::
  "zl_build \<Rightarrow> ('z \<Rightarrow> byte list \<Rightarrow> byte list option) \<Rightarrow> ('l \<Rightarrow> byte list \<Rightarrow> byte list option) \<Rightarrow>
    ('p \<Rightarrow> bool) \<Rightarrow> ('p \<Rightarrow> byte list) \<Rightarrow> byte list \<Rightarrow> ('p, 'z, 'l) zl_t \<Rightarrow> bool" where
  "zl_inv b plainz plainl pinv ppend txt z \<longleftrightarrow> zl_core pinv ppend z \<and>
     zl_text b plainz plainl ppend z = Some txt \<and> zl_err z \<noteq> ERR_ERROR \<and> (zl_err z = ERR_EOF \<longrightarrow> txt = [])"

text \<open>The contract of a call: the next bytes of the text, or an error of the parent; \<open>calm\<close> says that
  the parent never fails.\<close>

definition zl_outcome ::
  "bool \<Rightarrow> zl_build \<Rightarrow> ('z \<Rightarrow> byte list \<Rightarrow> byte list option) \<Rightarrow> ('l \<Rightarrow> byte list \<Rightarrow> byte list option) \<Rightarrow>
    ('p \<Rightarrow> bool) \<Rightarrow> ('p \<Rightarrow> byte list) \<Rightarrow> nat \<Rightarrow> byte list \<Rightarrow> int \<times> byte list \<times> ('p, 'z, 'l) zl_t \<Rightarrow> bool" where
  "zl_outcome calm b plainz plainl pinv ppend len text0 = (\<lambda>(r, out, z).
     (\<exists>t. r = int (length out) \<and> length out \<le> len \<and> text0 = out @ t \<and> (out = [] \<longrightarrow> t = []) \<and>
        zl_inv b plainz plainl pinv ppend t z) \<or>
     r = -1 \<and> zl_err z = ERR_ERROR \<and> \<not> calm)"

text \<open>Between the rounds of a call.\<close>

definition zl_mid ::
  "zl_build \<Rightarrow> ('z \<Rightarrow> byte list \<Rightarrow> byte list option) \<Rightarrow> ('l \<Rightarrow> byte list \<Rightarrow> byte list option) \<Rightarrow>
    ('p \<Rightarrow> bool) \<Rightarrow> ('p \<Rightarrow> byte list) \<Rightarrow> nat \<Rightarrow> byte list \<Rightarrow> byte list \<times> ('p, 'z, 'l) zl_t \<Rightarrow> bool" where
  "zl_mid b plainz plainl pinv ppend len text0 = (\<lambda>(out, z).
     zl_core pinv ppend z \<and> zl_err z = ERR_OK \<and> length out < len \<and>
     (\<exists>t. zl_text b plainz plainl ppend z = Some t \<and> text0 = out @ t))"

lemmas zl_state_defs = zl_mid_def zl_outcome_def zl_inv_def

lemma zl_text_cong:
  "zl_left ppend z' = zl_left ppend z \<Longrightarrow> zl_dec z' = zl_dec z \<Longrightarrow> zl_zstd z' = zl_zstd z \<Longrightarrow>
    zl_lz4 z' = zl_lz4 z \<Longrightarrow> zl_text b pz pl ppend z' = zl_text b pz pl ppend z"
  by (simp only: zl_text_def)

lemma zl_err_simps [simp]:
  "zl_left ppend (z\<lparr>zl_err := e\<rparr>) = zl_left ppend z" "zl_core pinv ppend (z\<lparr>zl_err := e\<rparr>) = zl_core pinv ppend z"
  "zl_data (z\<lparr>zl_err := e\<rparr>) = zl_data z" "zl_text b pz pl ppend (z\<lparr>zl_err := e\<rparr>) = zl_text b pz pl ppend z"
proof -
  show "zl_text b pz pl ppend (z\<lparr>zl_err := e\<rparr>) = zl_text b pz pl ppend z"
    by (rule zl_text_cong) (simp_all add: zl_left_def zl_data_def)
qed (simp_all add: zl_left_def zl_data_def zl_core_def)

lemma zl_compact_core:
  assumes "zl_core pinv ppend z"
  shows "zl_core pinv ppend (zl_compact b z)" "zl_data (zl_compact b z) = zl_data z"
    "zl_parent (zl_compact b z) = zl_parent z" "zl_dec (zl_compact b z) = zl_dec z"
    "zl_zstd (zl_compact b z) = zl_zstd z" "zl_lz4 (zl_compact b z) = zl_lz4 z"
    "zl_err (zl_compact b z) = zl_err z" "zl_data z = [] \<Longrightarrow> zl_old (zl_compact b z) \<noteq> []"
proof -
  have pos: "0 < ZL_INBUF" by (simp add: ZL_INBUF_def)
  with assms show "zl_data z = [] \<Longrightarrow> zl_old (zl_compact b z) \<noteq> []"
    by (auto simp: zl_compact_def zl_core_def)
  show data: "zl_data (zl_compact b z) = zl_data z" by (auto simp: zl_compact_def zl_data_def)
  show par: "zl_parent (zl_compact b z) = zl_parent z" by (auto simp: zl_compact_def)
  show "zl_core pinv ppend (zl_compact b z)"
    using assms data par unfolding zl_core_def zl_left_def
    by (auto simp: zl_compact_def zl_data_def)
qed (auto simp: zl_compact_def)

lemma take_four: "4 \<le> length xs \<Longrightarrow> take 4 xs = [xs ! 0, xs ! 1, xs ! 2, xs ! 3]"
  by (auto simp: Suc_le_length_iff numeral_eq_Suc)

locale zl_reading = par: reader prd pinv ppend served
  for prd :: "'p read_fn" and pinv ppend served +
  fixes b :: zl_build and dz :: "(zl_ret, 'z) decoder" and dl :: "(zl_ret, 'l) decoder"
    and plainz :: "'z \<Rightarrow> byte list \<Rightarrow> byte list option" and plainl :: "'l \<Rightarrow> byte list \<Rightarrow> byte list option"
  assumes served_part: "n \<le> ZL_INBUF \<Longrightarrow> served n"
    and readsz: "decoder_reads ZL_more ZL_done dz plainz nothing_after"
    and readsl: "decoder_reads ZL_more ZL_done dl plainl nothing_after"
    and sanez: "decoder_sane ZL_more ZL_done dz"
    and sanel: "decoder_sane ZL_more ZL_done dl"
begin

abbreviation "txt \<equiv> zl_text b plainz plainl ppend"
abbreviation "mid \<equiv> zl_mid b plainz plainl pinv ppend"
abbreviation "calm \<equiv> never_fails prd pinv served"
abbreviation "outcome \<equiv> zl_outcome calm b plainz plainl pinv ppend"

lemma never: "plainz d [] = None" "plainl e [] = None"
  using readsz readsl by (simp_all add: decoder_reads_def never_empty_def)

lemma fill_pass:
  assumes "mid len text0 (out, z)" "zl_data z = [] \<Longrightarrow> zl_old z \<noteq> []" "len < 2 ^ 31"
  shows "(\<exists>res. zl_fill_pass prd out z = Some (Inl (Inl res)) \<and> outcome len text0 res) \<or>
    (\<exists>z'. zl_fill_pass prd out z = Some (Inl (Inr z')) \<and> mid len text0 (out, z') \<and> zl_data z' \<noteq> [] \<and>
       (zl_old z' = [] \<or> ppend (zl_parent z') = []) \<and> zl_left ppend z' = zl_left ppend z) \<or>
    (\<exists>z'. zl_fill_pass prd out z = Some (Inr z') \<and> mid len text0 (out, z') \<and> zl_data z' \<noteq> [] \<and>
       length (zl_old z') < length (zl_old z) \<and> zl_left ppend z' = zl_left ppend z)"
proof -
  from assms(1) obtain t where core: "zl_core pinv ppend z" and z: "zl_err z = ERR_OK" "length out < len"
    "txt z = Some t" "text0 = out @ t" by (auto simp: zl_mid_def)
  from core have p: "pinv (zl_parent z)" "length (zl_in z) + length (zl_old z) = ZL_INBUF"
    "zl_index z \<le> length (zl_in z)" by (simp_all add: zl_core_def)
  have served: "served (length (zl_old z))" using p(2) by (intro served_part) simp
  with p(1) show ?thesis
  proof (cases rule: par.rd_cases [where a = "zl_at z + length (zl_in z)"])
    case (data bs p')
    have "length bs < 2 ^ 31" using data(3) p(2) by (simp add: ZL_INBUF_def)
    then have r: "c_int (int (length bs)) = int (length bs)" by (intro c_int_id_nat) simp
    let ?z = "z\<lparr>zl_parent := p', zl_in := zl_in z @ bs, zl_old := drop (length bs) (zl_old z)\<rparr>"
    have left: "zl_left ppend ?z = zl_left ppend z" "zl_data ?z = zl_data z @ bs"
      using data(4) p(3) by (simp_all add: zl_left_def zl_data_def)
    have "zl_core pinv ppend ?z"
      using core data(3,5) p(2) left(1) by (auto simp: zl_core_def)
    moreover have "txt ?z = txt z" using left(1) by (intro zl_text_cong) simp_all
    ultimately have "mid len text0 (out, ?z)" using z by (auto simp: zl_mid_def)
    moreover have "length (drop (length bs) (zl_old z)) < length (zl_old z)" using data(2,3) by (cases bs) auto
    ultimately show ?thesis using data(1,2,3) r left
      by (cases "drop (length bs) (zl_old z) = []") (auto simp: zl_fill_pass_def)
  next
    case (eof p')
    have r: "c_int 0 = 0" by (simp add: c_int_def)
    let ?z = "z\<lparr>zl_parent := p'\<rparr>"
    have left: "zl_left ppend ?z = zl_left ppend z" "zl_data ?z = zl_data z"
      using eof(3) by (simp_all add: zl_left_def zl_data_def)
    have core1: "zl_core pinv ppend ?z" using core eof(4) left(1) by (auto simp: zl_core_def)
    have txt1: "txt ?z = txt z" using left(1) by (intro zl_text_cong) simp_all
    show ?thesis
    proof (cases "zl_data z = []")
      case True
      then have used: "length (zl_in z) = zl_index z" using p(3) by (simp add: zl_data_def)
      have "zl_left ppend z = []" using True assms(2) eof(2) by (auto simp: zl_left_def)
      then have "t = []" using z(3) never by (auto simp: zl_text_def split: decoder_t.splits if_splits)
      then have "outcome len text0 (int (length out), out, ?z\<lparr>zl_err := ERR_EOF\<rparr>)"
        using z core1 txt1 by (auto simp: zl_outcome_def zl_inv_def)
      with eof(1) r used show ?thesis by (auto simp: zl_fill_pass_def)
    next
      case False
      then have more: "length (zl_in z) \<noteq> zl_index z" by (auto simp: zl_data_def)
      have "mid len text0 (out, ?z)" using z core1 txt1 by (auto simp: zl_mid_def)
      moreover have "zl_fill_pass prd out z = Some (Inl (Inr ?z))" using eof(1) r more by (simp add: zl_fill_pass_def)
      moreover have "zl_old ?z = [] \<or> ppend (zl_parent ?z) = []" using eof(2,3) by auto
      ultimately show ?thesis using False left by auto
    qed
  next
    case (err r p')
    then have "c_int r < 0" using c_int_id [of r] by linarith
    moreover have "\<not> calm" using p(1) served err(1,2) unfolding never_fails_def by fastforce
    ultimately show ?thesis using err(1) by (auto simp: zl_fill_pass_def zl_outcome_def)
  qed
qed

lemma fill_loop:
  assumes "mid len text0 (out, z)" "zl_data z = [] \<Longrightarrow> zl_old z \<noteq> []" "len < 2 ^ 31"
  shows "\<exists>x. c_loop (zl_fill_pass prd out) z = Some x \<and>
    (case x of Inl res \<Rightarrow> outcome len text0 res
     | Inr z' \<Rightarrow> mid len text0 (out, z') \<and> zl_data z' \<noteq> [] \<and> (zl_old z' = [] \<or> ppend (zl_parent z') = []) \<and>
         zl_left ppend z' = zl_left ppend z)"
proof (rule c_loop_returns [where m = "\<lambda>z. length (zl_old z)" and
      I = "\<lambda>u. mid len text0 (out, u) \<and> (zl_data u = [] \<longrightarrow> zl_old u \<noteq> []) \<and> zl_left ppend u = zl_left ppend z"])
  show "mid len text0 (out, z) \<and> (zl_data z = [] \<longrightarrow> zl_old z \<noteq> []) \<and> zl_left ppend z = zl_left ppend z"
    using assms by simp
next
  fix u assume u: "mid len text0 (out, u) \<and> (zl_data u = [] \<longrightarrow> zl_old u \<noteq> []) \<and> zl_left ppend u = zl_left ppend z"
  then have "mid len text0 (out, u)" "zl_data u = [] \<Longrightarrow> zl_old u \<noteq> []" by blast+
  from fill_pass [OF this assms(3)] u
  show "(\<exists>x. zl_fill_pass prd out u = Some (Inl x) \<and>
      (case x of Inl res \<Rightarrow> outcome len text0 res
       | Inr z' \<Rightarrow> mid len text0 (out, z') \<and> zl_data z' \<noteq> [] \<and> (zl_old z' = [] \<or> ppend (zl_parent z') = []) \<and>
           zl_left ppend z' = zl_left ppend z)) \<or>
    (\<exists>z'. zl_fill_pass prd out u = Some (Inr z') \<and>
      (mid len text0 (out, z') \<and> (zl_data z' = [] \<longrightarrow> zl_old z' \<noteq> []) \<and> zl_left ppend z' = zl_left ppend z) \<and>
      length (zl_old z') < length (zl_old u))"
    by (elim disjE exE conjE) auto
qed

text \<open>A decoder at work on its frame: \<open>plain\<close> is \<open>plainz\<close> or \<open>plainl\<close>.\<close>

lemma one_frame_step:
  assumes "decoder_reads ZL_more ZL_done dec plain nothing_after" "decoder_sane ZL_more ZL_done dec"
    and "dec_run dec d (zl_data z) room = (code, k, bs, d')" "zl_data z \<noteq> []" "0 < room"
    and "plain d (zl_left ppend z) = Some t"
  obtains t' where "t = bs @ t'" "code \<noteq> ZL_error" "k \<le> length (zl_data z)" "length bs \<le> room" "0 < k \<or> bs \<noteq> []"
    "code \<noteq> ZL_done \<Longrightarrow> plain d' (drop k (zl_data z) @ ppend (zl_parent z)) = Some t'"
    "code = ZL_done \<Longrightarrow> t' = [] \<and> drop k (zl_data z) @ ppend (zl_parent z) = []"
proof -
  note sane = decoder_saneD [OF assms(2,3)]
  have "plain d (zl_data z @ ppend (zl_parent z)) = Some t" using assms(6) by (simp add: zl_left_def)
  from assms(1,3-5) this show thesis
  proof (cases rule: decoder_reads_cases)
    case (ok t')
    with sane assms(4,5) that [of t'] show thesis by auto
  next
    case (fin t')
    then have "t' = []" "drop k (zl_data z) @ ppend (zl_parent z) = []"
      by (auto simp: nothing_after_def split: if_splits)
    with fin sane assms(4,5) that [of t'] show thesis by auto
  qed
qed

definition weight :: "nat \<Rightarrow> byte list \<times> ('p, 'z, 'l) zl_t \<Rightarrow> nat" where
  "weight len = (\<lambda>(out, z). length (zl_left ppend z) + (len - length out))"

lemma run_ok:
  assumes "mid len text0 (out, z)" "zl_data z \<noteq> []" "zl_dec z \<noteq> DEC_UNDEF"
  obtains out' z' t where "zl_run b dz dl len (out, z) = (True, out', z')" "length out' \<le> len"
    "zl_core pinv ppend z'" "zl_err z' = ERR_OK" "txt z' = Some t" "text0 = out' @ t"
    "zl_index z' \<noteq> zl_index z \<or> out' \<noteq> []" "weight len (out', z') < weight len (out, z)"
    "zl_dec z' = DEC_UNDEF \<longrightarrow> zl_left ppend z' = []"
proof -
  from assms(1) obtain t where core: "zl_core pinv ppend z" and z: "zl_err z = ERR_OK" "length out < len"
    "txt z = Some t" "text0 = out @ t" by (auto simp: zl_mid_def)
  have room: "0 < len - length out" using z(2) by simp
  note result = that
  have after: thesis
    if run: "zl_run b dz dl len (out, z) = (True, out @ bs, z')"
      and k: "k \<le> length (zl_data z)" "length bs \<le> len - length out" "0 < k \<or> bs \<noteq> []"
      and z': "zl_in z' = zl_in z" "zl_old z' = zl_old z" "zl_parent z' = zl_parent z" "zl_err z' = zl_err z"
        "zl_index z' = zl_index z + k" "zl_dec z' = (if fin then DEC_UNDEF else zl_dec z)"
      and t: "t = bs @ t'" "txt z' = Some t'" and fin: "fin \<Longrightarrow> drop k (zl_data z) @ ppend (zl_parent z) = []"
    for bs z' k fin t'
  proof (rule result [OF run])
    have data: "zl_data z' = drop k (zl_data z)" using z'(1,5) by (simp add: zl_data_def add.commute)
    have left: "zl_left ppend z' = drop k (zl_data z) @ ppend (zl_parent z)" using data z'(3) by (simp add: zl_left_def)
    show "zl_core pinv ppend z'"
      using core k(1) z' fin assms(3) left by (auto simp: zl_core_def zl_data_def split: if_splits)
    show "weight len (out @ bs, z') < weight len (out, z)"
      using k room arg_cong [OF left, of length] by (auto simp: weight_def zl_left_def length_greater_0_conv [symmetric] simp del: length_greater_0_conv)
    show "zl_index z' \<noteq> zl_index z \<or> out @ bs \<noteq> []" using k(3) z'(5) by auto
    show "zl_dec z' = DEC_UNDEF \<longrightarrow> zl_left ppend z' = []" using z'(6) fin assms(3) left by (auto split: if_splits)
  qed (use z z' t k(2) in simp_all)
  show thesis
  proof (cases "zl_dec z")
    case DEC_ZSTD
    with z(3) have on: "with_zstd b" "plainz (zl_zstd z) (zl_left ppend z) = Some t"
      by (simp_all add: zl_text_def split: if_splits)
    obtain code k bs d where run: "dec_run dz (zl_zstd z) (zl_data z) (len - length out) = (code, k, bs, d)"
      by (metis prod_cases4)
    from one_frame_step [OF readsz sanez run assms(2) room on(2)] obtain t' where t': "t = bs @ t'" "code \<noteq> ZL_error"
      "k \<le> length (zl_data z)" "length bs \<le> len - length out" "0 < k \<or> bs \<noteq> []"
      "code \<noteq> ZL_done \<Longrightarrow> plainz d (drop k (zl_data z) @ ppend (zl_parent z)) = Some t'"
      "code = ZL_done \<Longrightarrow> t' = [] \<and> drop k (zl_data z) @ ppend (zl_parent z) = []" by metis
    let ?z = "z\<lparr>zl_zstd := d, zl_index := zl_index z + k, zl_dec := (if code = ZL_done then DEC_UNDEF else zl_dec z)\<rparr>"
    have left: "zl_left ppend ?z = drop k (zl_data z) @ ppend (zl_parent z)" by (simp add: zl_left_def zl_data_def add.commute)
    have "zl_run b dz dl len (out, z) = (True, out @ bs, ?z)" using DEC_ZSTD on(1) run t'(2) by (simp add: zl_run_def)
    moreover have "txt ?z = Some t'"
      using t'(6,7) DEC_ZSTD on(1) left by (cases "code = ZL_done") (simp_all add: zl_text_def)
    ultimately show thesis using t' by (intro after [of bs ?z k "code = ZL_done" t']) simp_all
  next
    case DEC_LZ4
    with z(3) have on: "with_lz4 b" "plainl (zl_lz4 z) (zl_left ppend z) = Some t"
      by (simp_all add: zl_text_def split: if_splits)
    obtain code k bs d where run: "dec_run dl (zl_lz4 z) (zl_data z) (len - length out) = (code, k, bs, d)"
      by (metis prod_cases4)
    from one_frame_step [OF readsl sanel run assms(2) room on(2)] obtain t' where t': "t = bs @ t'" "code \<noteq> ZL_error"
      "k \<le> length (zl_data z)" "length bs \<le> len - length out" "0 < k \<or> bs \<noteq> []"
      "code \<noteq> ZL_done \<Longrightarrow> plainl d (drop k (zl_data z) @ ppend (zl_parent z)) = Some t'"
      "code = ZL_done \<Longrightarrow> t' = [] \<and> drop k (zl_data z) @ ppend (zl_parent z) = []" by metis
    let ?z = "z\<lparr>zl_lz4 := d, zl_index := zl_index z + k, zl_dec := (if code = ZL_done then DEC_UNDEF else zl_dec z)\<rparr>"
    have left: "zl_left ppend ?z = drop k (zl_data z) @ ppend (zl_parent z)" by (simp add: zl_left_def zl_data_def add.commute)
    have "zl_run b dz dl len (out, z) = (True, out @ bs, ?z)" using DEC_LZ4 on(1) run t'(2) by (simp add: zl_run_def)
    moreover have "txt ?z = Some t'"
      using t'(6,7) DEC_LZ4 on(1) left by (cases "code = ZL_done") (simp_all add: zl_text_def)
    ultimately show thesis using t' by (intro after [of bs ?z k "code = ZL_done" t']) simp_all
  qed (use z(3) assms(3) in \<open>simp_all add: zl_text_def\<close>)
qed

text \<open>The sniffing of a frame whose first four bytes are there.\<close>

lemma begin_ok:
  assumes "mid len text0 (out, z)" "zl_data z \<noteq> []" "zl_dec z = DEC_UNDEF \<Longrightarrow> 4 \<le> length (zl_data z) \<and> 4 \<le> len"
  obtains z0 where "zl_begin b len (out, z) = Some (Inr z0)" "mid len text0 (out, z0)" "zl_dec z0 \<noteq> DEC_UNDEF"
    "zl_data z0 = zl_data z" "zl_index z0 = zl_index z" "zl_left ppend z0 = zl_left ppend z"
proof (cases "zl_dec z = DEC_UNDEF")
  case False
  with assms(1,2) that [of z] show thesis by (simp add: zl_begin_def)
next
  case True
  from assms(1) obtain t where core: "zl_core pinv ppend z" and z: "zl_err z = ERR_OK" "length out < len"
    "txt z = Some t" "text0 = out @ t" by (auto simp: zl_mid_def)
  have index: "zl_index z \<le> length (zl_in z)" using core by (simp add: zl_core_def)
  define buf where "buf = drop (zl_index z) (zl_in z @ zl_old z)"
  have buf: "buf = zl_data z @ zl_old z" using index by (simp add: buf_def zl_data_def)
  have four: "4 \<le> length (zl_data z)" "4 \<le> len" using assms(3) True by simp_all
  then have head: "take 4 (zl_left ppend z) = take 4 buf" by (simp add: zl_left_def buf)
  have "take 4 buf = [buf ! 0, buf ! 1, buf ! 2, buf ! 3]"
    using four(1) by (intro take_four) (simp add: buf)
  with head have nth: "take 4 (zl_left ppend z) = [buf ! 0, buf ! 1, buf ! 2, buf ! 3]" by simp
  have long: "4 \<le> length buf" using four(1) by (simp add: buf)
  have left: "zl_left ppend z \<noteq> []" using assms(2) by (simp add: zl_left_def)
  define d where "d = (if with_zstd b \<and> take 4 (zl_left ppend z) = zstd_magic then DEC_ZSTD else DEC_LZ4)"
  have t: "with_zstd b \<and> take 4 (zl_left ppend z) = zstd_magic \<and> plainz (zl_zstd z) (zl_left ppend z) = Some t \<or>
      \<not> (with_zstd b \<and> take 4 (zl_left ppend z) = zstd_magic) \<and>
      with_lz4 b \<and> take 4 (zl_left ppend z) = lz4_magic \<and> plainl (zl_lz4 z) (zl_left ppend z) = Some t"
    using z(3) True left by (auto simp: zl_text_def split: if_splits)
  have "zl_sniff b z = Some (Some d)"
    using long t unfolding nth d_def zl_sniff_def Let_def buf_def [symmetric]
    by (auto simp: zstd_magic_def lz4_magic_def)
  then have "zl_begin b len (out, z) = Some (Inr (z\<lparr>zl_dec := d\<rparr>))" using True four(2) by (simp add: zl_begin_def)
  moreover have same: "zl_data (z\<lparr>zl_dec := q\<rparr>) = zl_data z" "zl_left ppend (z\<lparr>zl_dec := q\<rparr>) = zl_left ppend z" for q
    by (simp_all add: zl_data_def zl_left_def)
  moreover have "txt (z\<lparr>zl_dec := d\<rparr>) = Some t" using t by (auto simp: zl_text_def same d_def)
  moreover have "d \<noteq> DEC_UNDEF" by (simp add: d_def)
  moreover have "zl_core pinv ppend (z\<lparr>zl_dec := d\<rparr>)" using core \<open>d \<noteq> DEC_UNDEF\<close> same by (simp add: zl_core_def)
  ultimately show thesis using z by (intro that [of "z\<lparr>zl_dec := d\<rparr>"]) (auto simp: zl_mid_def)
qed

definition ready :: "nat \<Rightarrow> byte list \<times> ('p, 'z, 'l) zl_t \<Rightarrow> bool" where
  "ready len = (\<lambda>(out, z). zl_data z \<noteq> [] \<and> (zl_dec z = DEC_UNDEF \<longrightarrow> 4 \<le> length (zl_data z) \<and> 4 \<le> len))"

lemma decode_pass:
  assumes "mid len text0 st" "ready len st" "len < 2 ^ 31"
  shows "(\<exists>x. zl_decode_pass b dz dl len st = Some (Inl x) \<and>
      (case x of Inl res \<Rightarrow> outcome len text0 res | Inr st' \<Rightarrow> mid len text0 st' \<and> weight len st' < weight len st)) \<or>
    (\<exists>st'. zl_decode_pass b dz dl len st = Some (Inr st') \<and> mid len text0 st' \<and> ready len st' \<and>
      weight len st' < weight len st)"
proof -
  obtain out z where st: "st = (out, z)" by (cases st)
  from assms(1,2) have start: "mid len text0 (out, z)" "zl_data z \<noteq> []"
    "zl_dec z = DEC_UNDEF \<Longrightarrow> 4 \<le> length (zl_data z) \<and> 4 \<le> len" by (simp_all add: st ready_def)
  from begin_ok [OF start] obtain z0 where z0: "zl_begin b len (out, z) = Some (Inr z0)" "mid len text0 (out, z0)"
    "zl_dec z0 \<noteq> DEC_UNDEF" "zl_data z0 = zl_data z" "zl_left ppend z0 = zl_left ppend z" by metis
  have "zl_data z0 \<noteq> []" using z0(4) start(2) by simp
  from run_ok [OF z0(2) this z0(3)] obtain out' z' t where
    run: "zl_run b dz dl len (out, z0) = (True, out', z')" "length out' \<le> len" "zl_core pinv ppend z'"
    "zl_err z' = ERR_OK" "txt z' = Some t" "text0 = out' @ t" "zl_index z' \<noteq> zl_index z0 \<or> out' \<noteq> []"
    "weight len (out', z') < weight len (out, z0)" "zl_dec z' = DEC_UNDEF \<longrightarrow> zl_left ppend z' = []" by metis
  have w: "weight len (out', z') < weight len st" using run(8) z0(5) by (simp add: weight_def st)
  have pass: "zl_decode_pass b dz dl len st =
      Some (if length out' = len then Inl (Inl (int (length out'), out', z'))
        else if length (zl_in z') \<le> zl_index z' then Inl (Inr (out', z')) else Inr (out', z'))"
    using z0(1) run(1,2,7) assms(3) by (auto simp: zl_decode_pass_def st)
  show ?thesis
  proof (cases "length out' = len")
    case True
    then have "out' \<noteq> []" using start(1) by (auto simp: zl_mid_def)
    with True run(3-6) have "outcome len text0 (int (length out'), out', z')" by (auto simp: zl_outcome_def zl_inv_def)
    with pass True show ?thesis by auto
  next
    case False
    then have m: "mid len text0 (out', z')" using run(2-6) by (simp add: zl_mid_def)
    show ?thesis
    proof (cases "length (zl_in z') \<le> zl_index z'")
      case True
      with pass False m w show ?thesis by auto
    next
      case more: False
      then have "ready len (out', z')" using run(9) by (auto simp: ready_def zl_data_def zl_left_def)
      with pass False more m w show ?thesis by auto
    qed
  qed
qed

lemma decode_loop:
  assumes "mid len text0 st" "ready len st" "len < 2 ^ 31"
  shows "\<exists>x. c_loop (zl_decode_pass b dz dl len) st = Some x \<and>
    (case x of Inl res \<Rightarrow> outcome len text0 res | Inr st' \<Rightarrow> mid len text0 st' \<and> weight len st' < weight len st)"
proof (rule c_loop_returns [where m = "weight len" and
      I = "\<lambda>u. mid len text0 u \<and> ready len u \<and> weight len u \<le> weight len st"])
  show "mid len text0 st \<and> ready len st \<and> weight len st \<le> weight len st" using assms by simp
next
  fix u assume u: "mid len text0 u \<and> ready len u \<and> weight len u \<le> weight len st"
  then have "mid len text0 u" "ready len u" by blast+
  from decode_pass [OF this assms(3)]
  show "(\<exists>x. zl_decode_pass b dz dl len u = Some (Inl x) \<and>
      (case x of Inl res \<Rightarrow> outcome len text0 res | Inr st' \<Rightarrow> mid len text0 st' \<and> weight len st' < weight len st)) \<or>
    (\<exists>s'. zl_decode_pass b dz dl len u = Some (Inr s') \<and>
      (mid len text0 s' \<and> ready len s' \<and> weight len s' \<le> weight len st) \<and> weight len s' < weight len u)"
  proof (elim disjE exE conjE)
    fix x assume "zl_decode_pass b dz dl len u = Some (Inl x)"
      "case x of Inl res \<Rightarrow> outcome len text0 res | Inr st' \<Rightarrow> mid len text0 st' \<and> weight len st' < weight len u"
    with u show ?thesis by (cases x) auto
  next
    fix st' assume "zl_decode_pass b dz dl len u = Some (Inr st')" "mid len text0 st'" "ready len st'"
      "weight len st' < weight len u"
    with u show ?thesis by auto
  qed
qed

lemma pass_ok:
  assumes "mid len text0 st" "4 \<le> len" "len < 2 ^ 31"
  shows "(\<exists>res. zl_pass b dz dl prd len st = Some (Inl res) \<and> outcome len text0 res) \<or>
    (\<exists>st'. zl_pass b dz dl prd len st = Some (Inr st') \<and> mid len text0 st' \<and> weight len st' < weight len st)"
proof -
  obtain out z where st: "st = (out, z)" by (cases st)
  from assms(1) have core: "zl_core pinv ppend z" by (simp add: st zl_mid_def)
  note cmp = zl_compact_core [OF core, of b]
  have "zl_left ppend (zl_compact b z) = zl_left ppend z" using cmp(2,3) by (simp add: zl_left_def)
  moreover from this have "txt (zl_compact b z) = txt z" using cmp(4-6) by (rule zl_text_cong)
  ultimately have mid1: "mid len text0 (out, zl_compact b z)" "zl_left ppend (zl_compact b z) = zl_left ppend z"
    using assms(1) cmp(1,7) by (auto simp: st zl_mid_def)
  have four: "ready len (out, z1)"
    if h: "mid len text0 (out, z1)" "zl_data z1 \<noteq> []" "zl_old z1 = [] \<or> ppend (zl_parent z1) = []" for z1
  proof -
    have "4 \<le> length (zl_data z1)" if undef: "zl_dec z1 = DEC_UNDEF"
    proof (cases "zl_old z1 = []")
      case True
      have "zl_index z1 = 0" "length (zl_in z1) = ZL_INBUF"
        using h(1,2) undef True
        by (auto simp: zl_mid_def zl_core_def zl_left_def)
      then show ?thesis by (simp add: zl_data_def ZL_INBUF_def)
    next
      case False
      then have "zl_left ppend z1 = zl_data z1" using h(3) by (simp add: zl_left_def)
      then have "take 4 (zl_data z1) = zstd_magic \<or> take 4 (zl_data z1) = lz4_magic"
        using h(1,2) undef
        by (auto simp: zl_mid_def zl_text_def split: if_splits)
      then have "length (take 4 (zl_data z1)) = 4"
        by (elim disjE) (simp_all only: magic_length)
      then show ?thesis by simp
    qed
    with h(2) assms(2) show ?thesis by (simp add: ready_def)
  qed
  obtain x where x: "(if length (zl_data z) < ZL_LOW then c_loop (zl_fill_pass prd out) (zl_compact b z) else Some (Inr z)) = Some x"
    "case x of Inl res \<Rightarrow> outcome len text0 res
     | Inr z' \<Rightarrow> mid len text0 (out, z') \<and> ready len (out, z') \<and> zl_left ppend z' = zl_left ppend z"
  proof (cases "length (zl_data z) < ZL_LOW")
    case True
    have "zl_data (zl_compact b z) = [] \<Longrightarrow> zl_old (zl_compact b z) \<noteq> []" using cmp(2,8) by simp
    from fill_loop [OF mid1(1) this assms(3)] obtain y where "c_loop (zl_fill_pass prd out) (zl_compact b z) = Some y"
      "case y of Inl res \<Rightarrow> outcome len text0 res
       | Inr z' \<Rightarrow> mid len text0 (out, z') \<and> zl_data z' \<noteq> [] \<and> (zl_old z' = [] \<or> ppend (zl_parent z') = []) \<and>
           zl_left ppend z' = zl_left ppend (zl_compact b z)" by blast
    with True mid1(2) four that [of y] show thesis by (cases y) auto
  next
    case False
    then have "4 \<le> length (zl_data z)" by (simp add: ZL_LOW_def)
    then have "ready len (out, z)" using assms(2) by (auto simp: ready_def)
    with False assms(1) that [of "Inr z"] show thesis by (simp add: st)
  qed
  show ?thesis
  proof (cases x)
    case (Inl res)
    with x show ?thesis by (auto simp: zl_pass_def st)
  next
    case (Inr z')
    with x have z': "mid len text0 (out, z')" "ready len (out, z')" "weight len (out, z') = weight len st"
      by (auto simp: weight_def st)
    from decode_loop [OF z'(1,2) assms(3)] obtain y where y: "c_loop (zl_decode_pass b dz dl len) (out, z') = Some y"
      "case y of Inl res \<Rightarrow> outcome len text0 res | Inr st' \<Rightarrow> mid len text0 st' \<and> weight len st' < weight len (out, z')"
      by blast
    have "zl_pass b dz dl prd len st = Some y" using x(1) Inr y(1) by (simp add: zl_pass_def st)
    with y(2) z'(3) show ?thesis by (cases y) auto
  qed
qed

lemma read_ok:
  assumes "zl_inv b plainz plainl pinv ppend text0 z" "4 \<le> len" "len < 2 ^ 31"
  shows "\<exists>res. zstd_lz4_read b dz dl prd z a len = Some res \<and> outcome len text0 res"
proof (cases "zl_err z")
  case ERR_OK
  have "\<exists>res. c_loop (zl_pass b dz dl prd len) ([], z) = Some res \<and> outcome len text0 res"
  proof (rule c_loop_returns [where I = "mid len text0" and m = "weight len"])
    show "mid len text0 ([], z)" using assms ERR_OK by (simp add: zl_mid_def zl_inv_def)
  next
    fix st assume "mid len text0 st"
    from pass_ok [OF this assms(2,3)]
    show "(\<exists>res. zl_pass b dz dl prd len st = Some (Inl res) \<and> outcome len text0 res) \<or>
      (\<exists>st'. zl_pass b dz dl prd len st = Some (Inr st') \<and> mid len text0 st' \<and> weight len st' < weight len st)" .
  qed
  with ERR_OK show ?thesis by (simp add: zstd_lz4_read_def)
next
  case ERR_EOF
  with assms show ?thesis by (auto simp: zstd_lz4_read_def zl_outcome_def zl_inv_def)
qed (use assms in \<open>simp add: zl_inv_def\<close>)

text \<open>Reading to the end.\<close>

lemma read_all_ok:
  assumes "zl_inv b plainz plainl pinv ppend t z" "4 \<le> len" "len < 2 ^ 31"
  shows "\<exists>r got z'. read_all (zstd_lz4_read b dz dl prd) a len z acc = Some (r, acc @ got, z') \<and>
    prefix got t \<and> (r = 0 \<and> got = t \<or> r = -1 \<and> zl_err z' = ERR_ERROR \<and> \<not> calm)"
  using assms(1)
proof (induction "length t" arbitrary: t z acc rule: less_induct)
  case less
  from read_ok [OF less.prems assms(2,3), of a] obtain r out z1 where
    one: "zstd_lz4_read b dz dl prd z a len = Some (r, out, z1)" "outcome len t (r, out, z1)" by auto
  show ?case
  proof (cases "r = int (length out) \<and> out \<noteq> []")
    case False
    with one show ?thesis
      by (subst read_all.simps) (auto simp: zl_outcome_def)
  next
    case True
    with one(2) obtain u where u: "t = out @ u" "zl_inv b plainz plainl pinv ppend u z1" by (auto simp: zl_outcome_def)
    then have "length u < length t" using True by simp
    from less.hyps [OF this u(2), of "acc @ out"] obtain r' got z' where
      "read_all (zstd_lz4_read b dz dl prd) a len z1 (acc @ out) = Some (r', (acc @ out) @ got, z')"
      "prefix got u" "r' = 0 \<and> got = u \<or> r' = -1 \<and> zl_err z' = ERR_ERROR \<and> \<not> calm" by blast
    with one(1) True u(1) show ?thesis
      by (subst read_all.simps) (auto intro!: exI [of _ "out @ got"])
  qed
qed

end

end
