(* ===== verification/Zstd_Lz4_Files.thy ===== *)
theory Zstd_Lz4_Files
  imports Zstd_Lz4_Proofs
begin

text \<open>
  Files read through the zstd and lz4 reader: one frame comes out whole; a file cut short ends like a
  whole one; and a second frame that begins in the last three bytes of the buffer is not found.
\<close>

section \<open>A frame format\<close>

text \<open>The codec of \<open>Codec\<close> behind four bytes of magic.\<close>

definition framed_decoder :: "(zl_ret, nat \<times> spell_state) decoder" where
  "framed_decoder = \<lparr>dec_init = (0, At), dec_run = (\<lambda>(n, s) inp room.
     if n < 4 then (if inp = [] then (ZL_error, 0, [], (n, s)) else (ZL_more, 1, [], (n + 1, s)))
     else case dec_run (spell_decoder ZL_more ZL_done ZL_error) s inp room of
       (code, k, out, s') \<Rightarrow> (code, k, out, (4, s')))\<rparr>"

definition framed_plain :: "nat \<times> spell_state \<Rightarrow> byte list \<Rightarrow> byte list option" where
  "framed_plain = (\<lambda>(n, s) ys. spell_plain_one s (drop (4 - n) ys))"

lemma framed_sane: "decoder_sane ZL_more ZL_done framed_decoder"
  unfolding decoder_sane_def
proof (intro allI impI, goal_cases)
  case (1 d inp room c k out d')
  obtain n s where d: "d = (n, s)" by (cases d)
  show ?case
  proof (cases "n < 4")
    case True
    with 1 show ?thesis by (cases inp) (auto simp: d framed_decoder_def)
  next
    case False
    then obtain s' where "dec_run (spell_decoder ZL_more ZL_done ZL_error) s inp room = (c, k, out, s')"
      using 1 by (auto simp: d framed_decoder_def split: prod.splits)
    from decoder_saneD [OF spell_decoder_sane this] show ?thesis by auto
  qed
qed

lemma framed_reads: "decoder_reads ZL_more ZL_done framed_decoder framed_plain nothing_after"
  unfolding decoder_reads_def
proof (intro conjI allI impI, goal_cases)
  case 1
  show ?case
    using spell_decoder_exact [of ZL_more ZL_done ZL_error]
    by (auto simp: never_empty_def framed_plain_def decoder_reads_def)
next
  case (2 d inp rest room t0 c k out d')
  obtain n s where d: "d = (n, s)" by (cases d)
  show ?case
  proof (cases "n < 4")
    case True
    obtain x xs where inp: "inp = x # xs" using 2 by (cases inp) auto
    have "drop (4 - n) (x # xs @ rest) = drop (4 - (n + 1)) (xs @ rest)" using True by (simp add: drop_Cons')
    with 2 True show ?thesis by (auto simp: d inp framed_decoder_def framed_plain_def)
  next
    case False
    then obtain s' where run: "dec_run (spell_decoder ZL_more ZL_done ZL_error) s inp room = (c, k, out, s')" "d' = (4, s')"
      using 2 by (auto simp: d framed_decoder_def split: prod.splits)
    have "spell_plain_one s (inp @ rest) = Some t0" using 2 False by (simp add: d framed_plain_def)
    with 2 run(1) spell_decoder_exact [of ZL_more ZL_done ZL_error] obtain t where "t0 = out @ t"
      "c = ZL_more \<and> spell_plain_one s' (drop k inp @ rest) = Some t \<or>
       c = ZL_done \<and> nothing_after (drop k inp @ rest) = Some t"
      unfolding decoder_reads_def by blast
    with run(2) show ?thesis by (auto simp: framed_plain_def)
  qed
qed

abbreviation both_codecs :: zl_build where
  "both_codecs \<equiv> \<lparr>with_zstd = True, with_lz4 = True, lz4_movable = True\<rparr>"

interpretation zl_stdio: zl_reading stdio_read stdio_inv stdio_pending any_size both_codecs
  framed_decoder framed_decoder framed_plain framed_plain
  by unfold_locales (simp_all add: framed_reads framed_sane)

interpretation zl_peek_stdio: zl_reading "peek_read stdio_read alloc_ok" "peek_inv stdio_inv"
  "peek_pending stdio_pending" any_size both_codecs framed_decoder framed_decoder framed_plain framed_plain
  by unfold_locales (simp_all add: framed_reads framed_sane)

section \<open>Properties\<close>

text \<open>C17: a file that is one zstd or lz4 frame, read with requests of at least four bytes over any
  parent that keeps the reader contract: reading to the end gives exactly the text of the frame and
  then \<open>0\<close>. Only when the parent can fail can the last result be \<open>-1\<close>, after a beginning of the
  text.\<close>

theorem zstd_lz4_reads_frame:
  assumes "reader prd pinv ppend served" "\<forall>n\<le>ZL_INBUF. served n" "pinv p"
    and "decoder_reads ZL_more ZL_done dz plainz nothing_after" "decoder_sane ZL_more ZL_done dz"
    and "decoder_reads ZL_more ZL_done dl plainl nothing_after" "decoder_sane ZL_more ZL_done dl"
    and "with_zstd b \<and> take 4 (ppend p) = zstd_magic \<and> plainz (dec_init dz) (ppend p) = Some t \<or>
      with_lz4 b \<and> take 4 (ppend p) = lz4_magic \<and> plainl (dec_init dl) (ppend p) = Some t"
    and "zstd_lz4_open b dz dl context_ok at (Some p) = Some z" "4 \<le> n" "n < 2 ^ 31"
  shows "\<exists>r got z'. read_all (zstd_lz4_read b dz dl prd) a n z [] = Some (r, got, z') \<and> prefix got t \<and>
    (r = 0 \<and> got = t \<or> r = -1 \<and> zl_err z' = ERR_ERROR \<and> \<not> never_fails prd pinv served)"
proof -
  have lc: "zl_reading prd pinv ppend served dz dl plainz plainl"
    using assms(1,2,4-7) by (intro zl_reading.intro zl_reading_axioms.intro) auto
  have z: "zl_left ppend z = ppend p" "zl_dec z = DEC_UNDEF" "zl_zstd z = dec_init dz" "zl_lz4 z = dec_init dl"
    "zl_err z = ERR_OK" "zl_core pinv ppend z"
    using assms(3,9) by (auto simp: zstd_lz4_open_def zl_left_def zl_data_def zl_core_def split: if_splits)
  have "zstd_magic \<noteq> lz4_magic" by (simp add: zstd_magic_def lz4_magic_def)
  moreover have "ppend p \<noteq> []" using assms(8) by (auto simp: zstd_magic_def lz4_magic_def)
  ultimately have "zl_text b plainz plainl ppend z = Some t"
    using assms(8) unfolding zl_text_def z by auto
  with z have "zl_inv b plainz plainl pinv ppend t z" by (simp add: zl_inv_def)
  from zl_reading.read_all_ok [OF lc this assms(10,11), of a "[]"] show ?thesis by simp
qed

definition demo_frame :: "byte list" where
  "demo_frame = zstd_magic @ spell [10, 20, 30] @ [0]"

theorem zstd_lz4_reads_frame_witness:
  "\<exists>z z'. zstd_lz4_open both_codecs framed_decoder framed_decoder True 0
       (Some \<lparr>fd = \<lparr>fd_data = demo_frame, fd_pos = 0, fd_open = True, fd_seekable = True, fd_plan = [Short 1]\<rparr>\<rparr>) = Some z \<and>
     read_all (zstd_lz4_read both_codecs framed_decoder framed_decoder stdio_read) 0 5 z [] = Some (0, [10, 20, 30], z')"
proof -
  let ?p = "\<lparr>fd = \<lparr>fd_data = demo_frame, fd_pos = 0, fd_open = True, fd_seekable = True, fd_plan = [Short 1]\<rparr>\<rparr>"
  have p: "stdio_calm ?p" "stdio_pending ?p = demo_frame" by (simp_all add: stdio_calm_def stdio_pending_def fd_rest_def)
  have frame: "with_zstd both_codecs \<and> take 4 (stdio_pending ?p) = zstd_magic \<and>
      framed_plain (dec_init framed_decoder) (stdio_pending ?p) = Some [10, 20, 30] \<or>
    with_lz4 both_codecs \<and> take 4 (stdio_pending ?p) = lz4_magic \<and>
      framed_plain (dec_init framed_decoder) (stdio_pending ?p) = Some [10, 20, 30]"
    unfolding p(2) by (simp add: demo_frame_def zstd_magic_def framed_plain_def framed_decoder_def)
  obtain z where z: "zstd_lz4_open both_codecs framed_decoder framed_decoder True 0 (Some ?p) = Some z"
    by (simp add: zstd_lz4_open_def)
  from zstd_lz4_reads_frame [OF calm_stdio.reader_axioms _ p(1) framed_reads framed_sane framed_reads framed_sane frame z,
      of 5 0] z calm_stdio.never
  show ?thesis by auto
qed

text \<open>A file that ends in the middle of a frame ends like a whole one, with \<open>0\<close>.\<close>

lemma zstd_lz4_truncation_unnoticed:
  assumes "zl_err z = ERR_OK" "zl_data z = []" "zl_dec z \<noteq> DEC_UNDEF"
    and "prd (zl_parent z) (zl_at z) (length (zl_in z) + length (zl_old z)) = Some (0, [], p)"
  shows "\<exists>z'. zstd_lz4_read b dz dl prd z a len = Some (0, [], z') \<and> zl_err z' = ERR_EOF"
proof -
  let ?z = "z\<lparr>zl_index := 0, zl_in := [], zl_old := zl_in z @ zl_old z\<rparr>"
  have "zl_compact b z = ?z" using assms(2) by (simp add: zl_compact_def)
  moreover have "zl_fill_pass prd [] ?z = Some (Inl (Inl (0, [], ?z\<lparr>zl_parent := p, zl_err := ERR_EOF\<rparr>)))"
    using assms(4) by (simp add: zl_fill_pass_def c_int_def)
  note c_loop_stop [where body = "zl_fill_pass prd []", OF this]
  ultimately have "zl_pass b dz dl prd len ([], z) = Some (Inl (0, [], ?z\<lparr>zl_parent := p, zl_err := ERR_EOF\<rparr>))"
    using assms(2) by (simp add: zl_pass_def ZL_LOW_def)
  from c_loop_stop [where body = "zl_pass b dz dl prd len", OF this] assms(1) show ?thesis
    by (simp add: zstd_lz4_read_def)
qed

text \<open>When a frame ends one to three bytes before the end of a full buffer, the magic number of the
  next one is looked for at once, before the buffer is refilled, and beyond the array: the code
  tests the length of the caller's buffer where it means the bytes that are there.\<close>

theorem zstd_lz4_magic_across_buffer:
  assumes "zl_err z = ERR_OK" "zl_old z = []" "ZL_LOW \<le> length (zl_data z)" "with_zstd b" "zl_dec z = DEC_ZSTD"
    and "dec_run dz (zl_zstd z) (zl_data z) len = (ZL_done, k, bs, d)" "0 < k" "length bs < len"
    and "k < length (zl_data z)" "length (zl_data z) < k + 4" "4 \<le> len" "len < 2 ^ 31"
  shows "zstd_lz4_read b dz dl prd z a len = None"
proof -
  let ?z = "z\<lparr>zl_zstd := d, zl_index := zl_index z + k, zl_dec := DEC_UNDEF\<rparr>"
  have "zl_decode_pass b dz dl len ([], z) = Some (Inr (bs, ?z))"
    using assms(4-9,12) by (auto simp: zl_decode_pass_def zl_begin_def zl_run_def zl_data_def)
  then have "c_loop (zl_decode_pass b dz dl len) ([], z) = c_loop (zl_decode_pass b dz dl len) (bs, ?z)"
    by (rule c_loop_next)
  also have "length (drop (zl_index ?z) (zl_in ?z @ zl_old ?z)) < 4" using assms(2,10) by (simp add: zl_data_def)
  then have "zl_sniff b ?z = None" unfolding zl_sniff_def Let_def c_assert_def by simp
  then have "zl_decode_pass b dz dl len (bs, ?z) = None"
    using assms(11) by (simp add: zl_decode_pass_def zl_begin_def)
  then have "c_loop (zl_decode_pass b dz dl len) (bs, ?z) = None" by (subst c_loop.simps) simp
  finally have "zl_pass b dz dl prd len ([], z) = None"
    using assms(3) by (simp add: zl_pass_def)
  then have "c_loop (zl_pass b dz dl prd len) ([], z) = None" by (subst c_loop.simps) simp
  with assms(1) show ?thesis by (simp add: zstd_lz4_read_def)
qed

text \<open>A decoder whose frame ends two bytes before the end of what it is given.\<close>

definition gulp_decoder :: "(zl_ret, unit) decoder" where
  "gulp_decoder = \<lparr>dec_init = (), dec_run = (\<lambda>d inp room. (ZL_done, length inp - 2, [7], d))\<rparr>"

theorem zstd_lz4_magic_across_buffer_witness:
  "\<forall>p. zstd_lz4_read both_codecs gulp_decoder gulp_decoder stdio_read
     \<lparr>zl_at = 0, zl_zstd = (), zl_lz4 = (), zl_err = ERR_OK, zl_dec = DEC_ZSTD, zl_parent = p, zl_index = 0,
       zl_in = replicate ZL_INBUF 0, zl_old = []\<rparr> 0 100 = None"
proof
  fix p :: stdio_t
  let ?z = "\<lparr>zl_at = 0, zl_zstd = (), zl_lz4 = (), zl_err = ERR_OK, zl_dec = DEC_ZSTD, zl_parent = p, zl_index = 0,
    zl_in = replicate ZL_INBUF 0, zl_old = []\<rparr>"
  have "length (zl_data ?z) = 1048576" by (simp add: zl_data_def ZL_INBUF_def)
  then show "zstd_lz4_read both_codecs gulp_decoder gulp_decoder stdio_read ?z 0 100 = None"
    by (intro zstd_lz4_magic_across_buffer [where k = "length (zl_data ?z) - 2" and bs = "[7]" and d = "()"])
      (simp_all add: gulp_decoder_def ZL_LOW_def)
qed

end
