(* ===== verification/Curl.thy ===== *)
theory Curl
  imports Wandio_Io
begin

text \<open>
  libcurl as the HTTP and Swift readers use it, and \<^verbatim>\<open>lib/curl-helper.c\<close>. The library is a parameter
  of the model: a record of its calls over a state \<open>'c\<close> that stands for the handles, the network
  and the server. A call that runs the caller's write function before it returns yields a tree: at
  each node it offers some bytes and goes on according to the answer. Such a tree has no infinite
  path, as one call of libcurl makes finitely many callbacks.
\<close>

section \<open>The library\<close>

datatype write_result = CURL_WRITEFUNC_PAUSE | Wrote nat

datatype 'c curl_event =
    CURL_returns int int 'c
  | CURL_writes "byte list" "write_result \<Rightarrow> 'c curl_event"

datatype curl_code = CURLE_OK | CURLE_PARTIAL_FILE | CURLE_RECV_ERROR | CURLE_other nat

text \<open>Results of the \<open>multi\<close> interface: \<open>CURLM_OK\<close> is 0, \<open>CURLM_CALL_MULTI_PERFORM\<close> is \<open>-1\<close>, the
  others are positive.\<close>

definition CURLM_OK :: int where "CURLM_OK = 0"

definition CURLM_CALL_MULTI_PERFORM :: int where "CURLM_CALL_MULTI_PERFORM = -1"

text \<open>
  \<open>cu_init\<close> makes a multi and an easy handle for a URL with the options of \<^verbatim>\<open>init_io\<close>, \<open>cu_cleanup\<close>
  takes them apart, \<open>cu_headers\<close> is \<open>CURLOPT_HTTPHEADER\<close>, \<open>cu_resume\<close> is \<open>CURLOPT_RESUME_FROM\<close>,
  \<open>cu_pause\<close> is \<open>curl_easy_pause\<close> with \<open>CURLPAUSE_CONT\<close>, \<open>cu_length\<close> the content length,
  \<open>cu_msg\<close> is \<open>curl_multi_info_read\<close>; \<open>cu_select\<close> is \<^verbatim>\<open>select(2)\<close> on the handles' sockets with
  a time in seconds and microseconds.
\<close>

record 'c curl =
  cu_max_write :: nat
  cu_init :: "'c \<Rightarrow> string \<Rightarrow> 'c"
  cu_cleanup :: "'c \<Rightarrow> 'c"
  cu_slist_append :: "string list \<Rightarrow> string \<Rightarrow> string list option"
  cu_headers :: "'c \<Rightarrow> string list \<Rightarrow> 'c"
  cu_remove :: "'c \<Rightarrow> 'c"
  cu_resume :: "'c \<Rightarrow> int \<Rightarrow> 'c"
  cu_add :: "'c \<Rightarrow> int \<times> 'c"
  cu_timeout :: "'c \<Rightarrow> int \<times> int \<times> 'c"
  cu_fdset :: "'c \<Rightarrow> int \<times> int \<times> 'c"
  cu_select :: "'c \<Rightarrow> int \<times> int \<Rightarrow> int \<times> 'c"
  cu_pause :: "'c \<Rightarrow> 'c curl_event"
  cu_perform :: "'c \<Rightarrow> 'c curl_event"
  cu_length :: "'c \<Rightarrow> int"
  cu_msg :: "'c \<Rightarrow> curl_code option \<times> 'c"

section \<open>curl-helper.c\<close>

text \<open>The static counter, whether the library is initialised, and its state. The mutex makes each
  of the two functions one step.\<close>

record 'c curl_global =
  cg_init_cnt :: int
  cg_ready :: bool
  cg_net :: 'c

definition curl_helper_safe_global_init :: "'c curl_global \<Rightarrow> 'c curl_global" where
  "curl_helper_safe_global_init g =
     (let g = (if cg_init_cnt g = 0 then g\<lparr>cg_ready := True\<rparr> else g)
      in g\<lparr>cg_init_cnt := cg_init_cnt g + 1\<rparr>)"

definition curl_helper_safe_global_cleanup :: "'c curl_global \<Rightarrow> 'c curl_global option" where
  "curl_helper_safe_global_cleanup g = do {
     c_assert (cg_init_cnt g \<noteq> 0);
     let g = g\<lparr>cg_init_cnt := cg_init_cnt g - 1\<rparr>;
     Some (if cg_init_cnt g = 0 then g\<lparr>cg_ready := False\<rparr> else g) }"

text \<open>Users of the library, each between its own initialisation and clean-up: the library is up as
  long as one of them is.\<close>

definition cg_ok :: "'c curl_global \<Rightarrow> bool" where
  "cg_ok g \<longleftrightarrow> 0 \<le> cg_init_cnt g \<and> (cg_ready g \<longleftrightarrow> cg_init_cnt g \<noteq> 0)"

lemma global_init_ok:
  "cg_ok g \<Longrightarrow> cg_ok (curl_helper_safe_global_init g) \<and> cg_ready (curl_helper_safe_global_init g) \<and>
    cg_init_cnt (curl_helper_safe_global_init g) = cg_init_cnt g + 1 \<and>
    cg_net (curl_helper_safe_global_init g) = cg_net g"
  by (auto simp: cg_ok_def curl_helper_safe_global_init_def Let_def)

lemma global_cleanup_ok:
  assumes "cg_ok g" "0 < cg_init_cnt g"
  shows "\<exists>g'. curl_helper_safe_global_cleanup g = Some g' \<and> cg_ok g' \<and>
    cg_init_cnt g' = cg_init_cnt g - 1 \<and> cg_net g' = cg_net g"
  using assms by (auto simp: cg_ok_def curl_helper_safe_global_cleanup_def Let_def)

lemma global_init_cleanup:
  assumes "cg_ok g" shows "curl_helper_safe_global_cleanup (curl_helper_safe_global_init g) = Some g"
  using assms by (cases g) (auto simp: cg_ok_def curl_helper_safe_global_cleanup_def
    curl_helper_safe_global_init_def Let_def)

section \<open>What a transfer promises\<close>

text \<open>
  The documented behaviour of a transfer, as a view of the state: \<open>v_at\<close> is the position in the
  remote file of a running transfer, \<open>v_from\<close> where the next one is to start, \<open>v_start\<close> where the
  last one did, \<open>v_notes\<close> the messages still to be read, \<open>v_hdrs\<close> the headers a request is made with,
  \<open>v_known\<close> whether the length of the file has been learnt, and \<open>v_budget\<close> bounds how often the
  network will yet stall or fail.
\<close>

record net_view =
  v_at :: "nat option"
  v_from :: int
  v_start :: int
  v_notes :: "curl_code list"
  v_hdrs :: "string list"
  v_known :: bool
  v_budget :: nat

text \<open>A call that delivers: from position \<open>p\<close> it offers the next bytes of the file, at most
  \<open>M\<close> at a time and perhaps none, as libcurl does for an empty file; offered bytes that were refused
  end the offers. \<open>L\<close> is what holds when it returns.\<close>

primrec delivers ::
  "(nat \<Rightarrow> bool \<Rightarrow> int \<Rightarrow> int \<Rightarrow> 'c \<Rightarrow> bool) \<Rightarrow> byte list \<Rightarrow> nat \<Rightarrow> 'c curl_event \<Rightarrow> nat \<Rightarrow> bool \<Rightarrow> bool" where
  "delivers L F M (CURL_returns rc n c) p paused \<longleftrightarrow> L p paused rc n c"
| "delivers L F M (CURL_writes bs k) p paused \<longleftrightarrow>
     \<not> paused \<and> length bs \<le> M \<and> prefix bs (drop p F) \<and>
     delivers L F M (k (Wrote (length bs))) (p + length bs) False \<and>
     delivers L F M (k CURL_WRITEFUNC_PAUSE) p True"

end
