(* ===== verification/Http_Reader.thy ===== *)
theory Http_Reader
  imports Curl
begin

text \<open>
  \<^verbatim>\<open>lib/ior-http.c\<close>: reading a file from an HTTP server through a buffer that libcurl's callback
  fills, with restarts of broken transfers and seeking.
\<close>

section \<open>State\<close>

definition FILL_FINISHED :: int where "FILL_FINISHED = 0"
definition FILL_RETRY :: int where "FILL_RETRY = -1"
definition FILL_RETRY_ERROR :: int where "FILL_RETRY_ERROR = -2"

definition HTTP_DEF_BUFLEN :: int where "HTTP_DEF_BUFLEN = 0x8000"
definition HTTP_MAX_SKIP :: int where "HTTP_MAX_SKIP = HTTP_DEF_BUFLEN * 2"

text \<open>\<open>h_buf\<close> is \<open>buf\<close> below \<open>l_buf\<close>; \<open>h_handles\<close> is whether \<open>curl\<close> and \<open>multi\<close> are set.\<close>

record 'c http_t =
  h_env :: "'c curl_global"
  h_handles :: bool
  h_buf :: "byte list"
  h_off0 :: int
  h_total :: int
  h_url :: string
  h_mbuf :: int
  h_pbuf :: nat
  h_done :: bool

abbreviation h_net :: "'c http_t \<Rightarrow> 'c" where
  "h_net io \<equiv> cg_net (h_env io)"

abbreviation h_lbuf :: "'c http_t \<Rightarrow> int" where
  "h_lbuf io \<equiv> int (length (h_buf io))"

definition set_net :: "'c \<Rightarrow> 'c http_t \<Rightarrow> 'c http_t" where
  "set_net c io = io\<lparr>h_env := (h_env io)\<lparr>cg_net := c\<rparr>\<rparr>"

section \<open>libcurl's callback\<close>

definition write_cb :: "byte list \<Rightarrow> 'c http_t \<Rightarrow> write_result \<times> 'c http_t" where
  "write_cb bs io =
     (if int (length bs) + h_lbuf io > h_mbuf io then (CURL_WRITEFUNC_PAUSE, io)
      else (Wrote (length bs), io\<lparr>h_buf := h_buf io @ bs\<rparr>))"

text \<open>A call of libcurl with its callbacks: the code it returns, the number of running transfers.\<close>

primrec curl_drive :: "'c curl_event \<Rightarrow> 'c http_t \<Rightarrow> int \<times> int \<times> 'c http_t" where
  "curl_drive (CURL_returns rc n c) io = (rc, n, set_net c io)"
| "curl_drive (CURL_writes bs k) io =
     (case write_cb bs io of (res, io') \<Rightarrow> curl_drive (k res) io')"

section \<open>Setting up\<close>

text \<open>\<^verbatim>\<open>init_io\<close>, also run again to restart a transfer; its argument is never NULL. Allocating the
  buffer is not checked in the code and succeeds here.\<close>

definition init_io :: "'c curl \<Rightarrow> 'c http_t \<Rightarrow> 'c http_t" where
  "init_io cu io =
     (let io = io\<lparr>h_env := curl_helper_safe_global_init (h_env io)\<rparr>;
          io = (if h_handles io then set_net (cu_cleanup cu (h_net io)) io else io);
          io = set_net (cu_init cu (h_net io) (h_url io)) io
      in io\<lparr>h_handles := True, h_mbuf := int (cu_max_write cu) * 2\<rparr>)"

fun append_hdrs :: "'c curl \<Rightarrow> string list \<Rightarrow> string list \<Rightarrow> string list option" where
  "append_hdrs cu c_hdrs [] = Some c_hdrs"
| "append_hdrs cu c_hdrs (h # hdrs) = do { l \<leftarrow> cu_slist_append cu c_hdrs h; append_hdrs cu l hdrs }"

definition process_hdrs :: "'c curl \<Rightarrow> string list \<Rightarrow> 'c http_t \<Rightarrow> int \<times> 'c http_t" where
  "process_hdrs cu hdrs io =
     (if hdrs = [] then (0, io)
      else case append_hdrs cu [] hdrs of
          None \<Rightarrow> (-1, io)
        | Some l \<Rightarrow> (0, set_net (cu_headers cu (h_net io) l) io))"

definition prepare :: "'c curl \<Rightarrow> 'c http_t \<Rightarrow> int \<times> 'c http_t" where
  "prepare cu io =
     (let c = cu_resume cu (cu_remove cu (h_net io)) (h_off0 io)
      in case cu_add cu c of (rc, c') \<Rightarrow> (rc, (set_net c' io)\<lparr>h_pbuf := 0, h_buf := []\<rparr>))"

section \<open>Filling the buffer\<close>

text \<open>The time to wait, from what \<open>curl_multi_timeout\<close> says in milliseconds.\<close>

definition fill_timeout :: "int \<Rightarrow> int \<times> int" where
  "fill_timeout curl_to =
     (if curl_to < 0 then (10, 0)
      else if curl_to div 1000 > 1 then (1, 0)
      else (curl_to div 1000, (curl_to mod 1000) * 1000))"

definition perform_pass :: "'c curl \<Rightarrow> 'c http_t \<Rightarrow> ((int \<times> int \<times> 'c http_t) + 'c http_t) option" where
  "perform_pass cu io =
     (case curl_drive (cu_perform cu (h_net io)) io of (rc, n, io') \<Rightarrow>
        Some (if rc = CURLM_CALL_MULTI_PERFORM then Inr io' else Inl (rc, n, io')))"

definition learn_length :: "'c curl \<Rightarrow> 'c http_t \<Rightarrow> 'c http_t" where
  "learn_length cu io = (if h_total io < 0 then io\<lparr>h_total := cu_length cu (h_net io)\<rparr> else io)"

text \<open>One round of the transfer loop: a return from \<^verbatim>\<open>fill_buffer\<close> (\<open>Inl (Inl _)\<close>), the end of the
  loop (\<open>Inl (Inr _)\<close>), or another round. Sleeping has no effect.\<close>

definition fill_round ::
  "'c curl \<Rightarrow> 'c http_t \<Rightarrow> (((int \<times> 'c http_t) + 'c http_t) + 'c http_t) option" where
  "fill_round cu io =
     (case cu_timeout cu (h_net io) of (rt, curl_to, c1) \<Rightarrow>
        let io = set_net c1 io
        in if rt \<noteq> CURLM_OK then Some (Inl (Inl (-1, io)))
        else case cu_fdset cu c1 of (rf, maxfd, c2) \<Rightarrow>
          let io = set_net c2 io
          in if rf \<noteq> CURLM_OK then Some (Inl (Inl (-1, io)))
          else case (if maxfd \<ge> 0 then cu_select cu c2 (fill_timeout curl_to) else (0, c2)) of (rs, c3) \<Rightarrow>
            let io = set_net c3 io
            in if rs < 0 then Some (Inl (Inr io))
            else case curl_drive (cu_pause cu c3) io of (_, _, io) \<Rightarrow> do {
              (rc, n_running, io) \<leftarrow> c_loop (perform_pass cu) io;
              if rc \<noteq> CURLM_OK then Some (Inl (Inl (-1, io)))
              else do {
                let io = learn_length cu io;
                Some (if n_running \<noteq> 0 \<and> h_lbuf io < h_mbuf io - int (cu_max_write cu)
                      then Inr io else Inl (Inr io)) } })"

text \<open>The messages of libcurl: whether one of them is an error. The code prints it or not, by
  \<^verbatim>\<open>loghttpservererrors\<close>, and returns \<open>-1\<close> either way.\<close>

definition msg_pass :: "'c curl \<Rightarrow> 'c http_t \<Rightarrow> ((bool \<times> 'c http_t) + 'c http_t) option" where
  "msg_pass cu io =
     (case cu_msg cu (h_net io) of (m, c) \<Rightarrow>
        let io = set_net c io
        in Some (case m of
             None \<Rightarrow> Inl (False, io)
           | Some code \<Rightarrow> if code \<noteq> CURLE_OK then Inl (True, io) else Inr io))"

text \<open>The end of \<^verbatim>\<open>fill_buffer\<close>: note that all has been read, start again a transfer that brought
  nothing, or return the length of the buffer.\<close>

definition fill_outcome :: "'c curl \<Rightarrow> 'c http_t \<Rightarrow> (int \<times> 'c http_t) + (int \<times> 'c http_t)" where
  "fill_outcome cu io =
     (let io = (if h_lbuf io < h_mbuf io - int (cu_max_write cu) \<and>
                   h_off0 io + int (h_pbuf io) \<ge> h_total io
                then io\<lparr>h_done := True\<rparr> else io)
      in if \<not> h_done io \<and> h_buf io = [] then
           (let ptr = h_off0 io + int (h_pbuf io) + h_lbuf io
            in case prepare cu (init_io cu io) of (rc, io) \<Rightarrow>
                 if rc \<noteq> 0 then Inl (FILL_RETRY_ERROR, io) else Inr (ptr, io))
         else Inl (h_lbuf io, io))"

text \<open>\<^verbatim>\<open>fill_buffer\<close> up to its call of \<^verbatim>\<open>http_seek\<close>: \<open>Inl\<close> is a return, \<open>Inr (ptr, io)\<close> a
  transfer that has been started again and is to be moved to \<open>ptr\<close>.\<close>

definition fill_transfer :: "'c curl \<Rightarrow> 'c http_t \<Rightarrow> ((int \<times> 'c http_t) + (int \<times> 'c http_t)) option" where
  "fill_transfer cu io = do {
     c_assert (h_pbuf io = length (h_buf io));
     let io = io\<lparr>h_off0 := h_off0 io + h_lbuf io, h_pbuf := 0, h_buf := []\<rparr>;
     if h_done io then Some (Inl (FILL_FINISHED, io))
     else do {
       x \<leftarrow> c_loop (fill_round cu) io;
       case x of Inl res \<Rightarrow> Some (Inl res)
       | Inr io \<Rightarrow> do {
           (failed, io) \<leftarrow> c_loop (msg_pass cu) io;
           if failed then Some (Inl (-1, io))
           else Some (fill_outcome cu io) } } }"

section \<open>The operations, which call each other\<close>

text \<open>
  \<^verbatim>\<open>fill_buffer\<close> seeks after a restart, \<^verbatim>\<open>http_seek\<close> reads or fills, \<^verbatim>\<open>http_read\<close> fills. One
  recursive function runs all three; the loop of \<^verbatim>\<open>http_read\<close> is a call of its own, with \<open>rest\<close>
  bytes still to copy behind \<open>out\<close>. The result is the C result, the bytes copied and the state.
\<close>

datatype http_call =
    Call_fill
  | Call_read_loop nat nat "byte list"
  | Call_seek int whence

partial_function (option) http_run ::
  "'c curl \<Rightarrow> http_call \<Rightarrow> 'c http_t \<Rightarrow> (int \<times> byte list \<times> 'c http_t) option" where
  "http_run cu call io =
     (case call of
        Call_fill \<Rightarrow> do {
          x \<leftarrow> fill_transfer cu io;
          case x of Inl (ret, io) \<Rightarrow> Some (ret, [], io)
          | Inr (ptr, io) \<Rightarrow> do {
              (_, _, io) \<leftarrow> http_run cu (Call_seek ptr SEEK_SET) io;
              Some (FILL_RETRY, [], io) } }
      | Call_read_loop len rest out \<Rightarrow>
          if rest = 0 then Some (int len - int rest, out, io)
          else if h_lbuf io - int (h_pbuf io) \<ge> int rest then
            Some (int len, out @ take rest (drop (h_pbuf io) (h_buf io)), io\<lparr>h_pbuf := h_pbuf io + rest\<rparr>)
          else do {
            let got = drop (h_pbuf io) (h_buf io);
            (ret, _, io1) \<leftarrow> http_run cu Call_fill (io\<lparr>h_pbuf := length (h_buf io)\<rparr>);
            let rest1 = rest - length got;
            let out1 = out @ got;
            if ret > 0 \<or> ret = FILL_RETRY then http_run cu (Call_read_loop len rest1 out1) io1
            else if ret = FILL_FINISHED then Some (int len - int rest1, out1, io1)
            else if ret = FILL_RETRY_ERROR then Some (-1, out1, io1)
            else Some (-2, out1, io1) }
      | Call_seek offset wh \<Rightarrow> do {
          let cur_off = h_off0 io + int (h_pbuf io);
          let new_off = (if wh = SEEK_SET then offset else -1 + cur_off + offset);
          if wh = SEEK_END \<or> new_off < 0 then Some (-1, [], io)
          else if new_off \<ge> cur_off \<and> new_off - cur_off + int (h_pbuf io) < h_lbuf io
          then Some (new_off, [], io\<lparr>h_pbuf := h_pbuf io + nat (new_off - cur_off)\<rparr>)
          else do {
            (failed, io) \<leftarrow>
              (if new_off < cur_off \<or> new_off - cur_off > HTTP_MAX_SKIP then do {
                 let io = io\<lparr>h_off0 := new_off, h_done := False\<rparr>;
                 case prepare cu io of (rc, io) \<Rightarrow>
                   if rc < 0 then Some (True, io)
                   else do { (ret, _, io) \<leftarrow> http_run cu Call_fill io; Some (ret \<le> 0, io) } }
               else do {
                 let n = nat (new_off - cur_off);
                 (r, _, io) \<leftarrow>
                   (if h_buf io = [] then Some (0, [], io) else http_run cu (Call_read_loop n n []) io);
                 Some (r + cur_off \<noteq> new_off, io) });
            Some (if failed then (-1, [], io\<lparr>h_buf := [], h_pbuf := 0\<rparr>) else (new_off, [], io)) } })"

definition fill_buffer :: "'c curl \<Rightarrow> 'c http_t \<Rightarrow> (int \<times> 'c http_t) option" where
  "fill_buffer cu io = do { (ret, _, io) \<leftarrow> http_run cu Call_fill io; Some (ret, io) }"

definition http_read :: "'c curl \<Rightarrow> 'c http_t read_fn" where
  "http_read cu io buffer len =
     (if h_buf io = [] then Some (0, [], io) else http_run cu (Call_read_loop len len []) io)"

definition http_tell :: "'c http_t tell_fn" where
  "http_tell io = h_off0 io + int (h_pbuf io)"

definition http_seek :: "'c curl \<Rightarrow> 'c http_t seek_fn" where
  "http_seek cu io offset wh = do { (r, _, io) \<leftarrow> http_run cu (Call_seek offset wh) io; Some (r, io) }"

definition http_close :: "'c curl \<Rightarrow> 'c http_t \<Rightarrow> 'c http_t option" where
  "http_close cu io = do {
     let io = set_net (cu_cleanup cu (cu_remove cu (h_net io))) io;
     g \<leftarrow> curl_helper_safe_global_cleanup (h_env io);
     Some (io\<lparr>h_env := g, h_handles := False, h_buf := []\<rparr>) }"

text \<open>\<open>mem\<close> is whether the two allocations succeed. \<open>Inl\<close> is NULL, with what remains of libcurl.\<close>

definition http_open_hdrs ::
  "'c curl \<Rightarrow> bool \<Rightarrow> 'c curl_global \<Rightarrow> string \<Rightarrow> string list \<Rightarrow> ('c curl_global + 'c http_t) option" where
  "http_open_hdrs cu mem g filename hdrs =
     (if \<not> mem then Some (Inl g)
      else do {
        let io = \<lparr>h_env = g, h_handles = False, h_buf = [], h_off0 = 0, h_total = -1, h_url = filename,
                  h_mbuf = 0, h_pbuf = 0, h_done = False\<rparr>;
        let io = init_io cu io;
        case process_hdrs cu hdrs io of (rh, io) \<Rightarrow>
          if rh \<noteq> 0 then do { io \<leftarrow> http_close cu io; Some (Inl (h_env io)) }
          else (case prepare cu io of (rp, io) \<Rightarrow>
            if rp < 0 then do { io \<leftarrow> http_close cu io; Some (Inl (h_env io)) }
            else do {
              (ret, io) \<leftarrow> fill_buffer cu io;
              if ret < 0 then do { io \<leftarrow> http_close cu io; Some (Inl (h_env io)) }
              else Some (Inr io) }) })"

definition http_open ::
  "'c curl \<Rightarrow> bool \<Rightarrow> 'c curl_global \<Rightarrow> string \<Rightarrow> ('c curl_global + 'c http_t) option" where
  "http_open cu mem g filename = http_open_hdrs cu mem g filename []"

text \<open>Closing fails only on the assertion of the clean-up, which a reader that was opened meets
  (\<open>http_close_ok\<close>).\<close>

definition http_source :: "'c curl \<Rightarrow> 'c http_t io_source_t" where
  "http_source cu = \<lparr>src_name = ''http'', src_read = http_read cu, src_peek = None,
     src_tell = Some http_tell, src_seek = Some (http_seek cu),
     src_close = (\<lambda>io. case http_close cu io of None \<Rightarrow> io | Some io' \<Rightarrow> io')\<rparr>"

end
