(* ===== verification/Http_Proofs.thy ===== *)
theory Http_Proofs
  imports Http_Reader
begin

text \<open>
  The contract of libcurl for one remote file, as a locale, and what \<^verbatim>\<open>ior-http.c\<close> makes of it:
  the rounds of a transfer, filling the buffer, and reading over broken transfers.
\<close>

section \<open>The contract of libcurl\<close>

text \<open>A call that delivers nothing and, unless it succeeds, uses up some of the budget.\<close>

definition calm :: "bool \<Rightarrow> net_view \<Rightarrow> net_view \<Rightarrow> bool" where
  "calm ok v v' \<longleftrightarrow> (\<exists>b. v' = v\<lparr>v_budget := b\<rparr> \<and> b \<le> v_budget v \<and> (\<not> ok \<longrightarrow> b < v_budget v))"

text \<open>What is left as it was, or has only been learnt, by a call that delivers up to position \<open>p'\<close>.\<close>

definition carried :: "net_view \<Rightarrow> nat \<Rightarrow> nat \<Rightarrow> net_view \<Rightarrow> bool" where
  "carried v p p' v' \<longleftrightarrow> v_from v' = v_from v \<and> v_start v' = v_start v \<and> v_hdrs v' = v_hdrs v \<and>
     v_budget v' \<le> v_budget v \<and> (v_known v \<or> p < p' \<longrightarrow> v_known v')"

text \<open>The return of \<open>curl_multi_perform\<close>: an error code; transfers still running, and then there has
  been some data, a refusal, or one of the finitely many stalls; or the end, which is that of the
  file or, unless the network is \<open>steady\<close>, is explained by a message.\<close>

definition performed :: "bool \<Rightarrow> net_view \<Rightarrow> nat \<Rightarrow> nat \<Rightarrow> nat \<Rightarrow> bool \<Rightarrow> int \<Rightarrow> int \<Rightarrow> net_view \<Rightarrow> bool" where
  "performed steady v len p p' paused rc n v' \<longleftrightarrow> carried v p p' v' \<and>
     (if rc \<noteq> CURLM_OK then v_budget v' < v_budget v \<and> v_at v' = Some p' \<and> v_notes v' = []
      else if n \<noteq> 0 then v_at v' = Some p' \<and> v_notes v' = [] \<and> (paused \<or> p < p' \<or> v_budget v' < v_budget v)
      else v_at v' = None \<and>
        (p' = len \<and> v_known v' \<and> v_notes v' = [CURLE_OK] \<or>
         \<not> steady \<and> v_budget v' < v_budget v \<and> (\<exists>m. v_notes v' = [m] \<and> m \<noteq> CURLE_OK)))"

lemma calm_refl: "calm True v v"
  by (auto simp: calm_def intro!: exI [of _ "v_budget v"])

text \<open>\<^verbatim>\<open>select(2)\<close> may fail at any time, for instance with \<open>EINTR\<close>. It matters when it does so while
  the length of the file is not known yet.\<close>

definition select_fails_early :: "'c curl \<Rightarrow> ('c \<Rightarrow> net_view) \<Rightarrow> bool" where
  "select_fails_early cu view \<longleftrightarrow>
     (\<exists>c tv r c'. cu_select cu c tv = (r, c') \<and> r < 0 \<and> \<not> v_known (view c))"

text \<open>
  The server holds \<open>F\<close> at \<open>url\<close> and gives it to requests with the headers it \<open>accepts\<close>; of others
  nothing is known. A \<open>steady\<close> network may stall and cut the data to pieces, but no transfer ends
  before its time and no \<^verbatim>\<open>select(2)\<close> fails. As a transfer that is started again is asked for
  without any headers, a server that does not accept that has to be on a steady network.
\<close>

locale http_server =
  fixes cu :: "'c curl" and F :: "byte list" and url :: string and view :: "'c \<Rightarrow> net_view"
    and accepts :: "string list \<Rightarrow> bool" and steady :: bool
  assumes max_pos: "0 < cu_max_write cu"
    and restartable: "steady \<or> accepts []"
    and slist: "cu_slist_append cu l h = Some l' \<Longrightarrow> l' = l @ [h]"
    and init: "view (cu_init cu c url) = (view c)\<lparr>v_at := None, v_notes := [], v_hdrs := []\<rparr>"
    and cleanup: "view (cu_cleanup cu c) = (view c)\<lparr>v_at := None, v_notes := []\<rparr>"
    and remove: "view (cu_remove cu c) = (view c)\<lparr>v_at := None, v_notes := []\<rparr>"
    and resume: "view (cu_resume cu c k) = (view c)\<lparr>v_from := k\<rparr>"
    and headers: "view (cu_headers cu c hs) = (view c)\<lparr>v_hdrs := hs\<rparr>"
    and add: "0 \<le> v_from (view c) \<Longrightarrow> v_from (view c) \<le> int (length F) \<Longrightarrow>
      \<exists>c'. cu_add cu c = (0, c') \<and>
        view c' = (view c)\<lparr>v_at := Some (nat (v_from (view c))), v_start := v_from (view c)\<rparr>"
    and timeout: "cu_timeout cu c = (r, t, c') \<Longrightarrow> calm (r = CURLM_OK) (view c) (view c')"
    and fdset: "cu_fdset cu c = (r, fd, c') \<Longrightarrow> calm (r = CURLM_OK) (view c) (view c')"
    and select: "cu_select cu c tv = (r, c') \<Longrightarrow>
      calm (0 \<le> r) (view c) (view c') \<and> (steady \<longrightarrow> 0 \<le> r)"
    and pause: "v_at (view c) = Some p \<Longrightarrow> accepts (v_hdrs (view c)) \<Longrightarrow>
      delivers (\<lambda>p' paused rc n c'. carried (view c) p p' (view c') \<and> v_at (view c') = Some p' \<and>
        v_notes (view c') = v_notes (view c)) F (cu_max_write cu) (cu_pause cu c) p False"
    and perform: "v_at (view c) = Some p \<Longrightarrow> accepts (v_hdrs (view c)) \<Longrightarrow> v_notes (view c) = [] \<Longrightarrow>
      p \<le> length F \<Longrightarrow> delivers (\<lambda>p' paused rc n c'. performed steady (view c) (length F) p p' paused rc n (view c'))
        F (cu_max_write cu) (cu_perform cu c) p False"
    and pause_idle: "v_at (view c) = None \<Longrightarrow>
      \<exists>rc n c'. cu_pause cu c = CURL_returns rc n c' \<and> view c' = view c"
    and perform_idle: "v_at (view c) = None \<Longrightarrow>
      \<exists>c'. cu_perform cu c = CURL_returns CURLM_OK 0 c' \<and> view c' = view c"
    and length_known: "v_known (view c) \<Longrightarrow> accepts (v_hdrs (view c)) \<Longrightarrow> v_start (view c) = 0 \<Longrightarrow>
      cu_length cu c = int (length F)"
    and length_unknown: "\<not> v_known (view c) \<Longrightarrow> cu_length cu c < 0"
    and no_msg: "v_notes (view c) = [] \<Longrightarrow> \<exists>c'. cu_msg cu c = (None, c') \<and> view c' = view c"
    and some_msg: "v_notes (view c) = m # ms \<Longrightarrow>
      \<exists>c'. cu_msg cu c = (Some m, c') \<and> view c' = (view c)\<lparr>v_notes := ms\<rparr>"
begin

abbreviation "vw io \<equiv> view (h_net io)"

section \<open>The state of the reader\<close>

text \<open>The buffer holds the file from \<open>off0\<close> on, up to where a running transfer is, which was asked for
  with headers that the server accepts. \<open>budget\<close> and \<open>missing\<close> bound what the transfer can still do.\<close>

definition set_up :: "'c http_t \<Rightarrow> bool" where
  "set_up io \<longleftrightarrow> h_handles io \<and> h_url io = url \<and> h_mbuf io = int (cu_max_write cu) * 2 \<and>
     cg_ok (h_env io) \<and> 0 < cg_init_cnt (h_env io)"

definition placed :: "'c http_t \<Rightarrow> bool" where
  "placed io \<longleftrightarrow> h_pbuf io \<le> length (h_buf io) \<and> 0 \<le> h_off0 io \<and> h_off0 io \<le> int (length F) \<and>
     prefix (h_buf io) (drop (nat (h_off0 io)) F) \<and>
     (h_done io \<longrightarrow> h_off0 io + h_lbuf io = int (length F) \<and> 0 \<le> h_total io)"

definition tracked :: "'c http_t \<Rightarrow> bool" where
  "tracked io \<longleftrightarrow> (\<forall>p. v_at (vw io) = Some p \<longrightarrow> int p = h_off0 io + h_lbuf io) \<and>
     (h_buf io \<noteq> [] \<longrightarrow> v_known (vw io)) \<and> accepts (v_hdrs (vw io)) \<and>
     (v_at (vw io) = None \<longrightarrow> steady \<longrightarrow> h_off0 io + h_lbuf io = int (length F)) \<and>
     (if h_total io < 0 then v_start (vw io) = 0 else h_total io = int (length F) \<and> v_known (vw io))"

definition core :: "'c http_t \<Rightarrow> bool" where
  "core io \<longleftrightarrow> set_up io \<and> placed io \<and> tracked io"

lemmas core_defs = core_def set_up_def placed_def tracked_def

definition learnt :: "'c http_t \<Rightarrow> bool" where
  "learnt io \<longleftrightarrow> (v_known (vw io) \<longrightarrow> 0 \<le> h_total io)"

definition pend :: "'c http_t \<Rightarrow> byte list" where
  "pend io = drop (nat (h_off0 io) + h_pbuf io) F"

definition budget :: "'c http_t \<Rightarrow> nat" where
  "budget io = v_budget (vw io)"

definition missing :: "'c http_t \<Rightarrow> nat" where
  "missing io = length F - (nat (h_off0 io) + length (h_buf io))"

text \<open>What the rounds of a transfer leave alone.\<close>

definition kept :: "'c http_t \<Rightarrow> 'c http_t \<Rightarrow> bool" where
  "kept io io' \<longleftrightarrow> h_off0 io' = h_off0 io \<and> h_pbuf io' = h_pbuf io \<and> h_done io' = h_done io \<and>
     budget io' \<le> budget io \<and> prefix (h_buf io) (h_buf io') \<and>
     v_hdrs (vw io') = v_hdrs (vw io) \<and> v_from (vw io') = v_from (vw io) \<and> v_start (vw io') = v_start (vw io) \<and>
     (v_known (vw io) \<longrightarrow> v_known (vw io')) \<and> (0 \<le> h_total io \<longrightarrow> 0 \<le> h_total io') \<and> cg_init_cnt (h_env io') = cg_init_cnt (h_env io)"

lemma kept_refl: "kept io io" by (simp add: kept_def)

lemma kept_trans: "kept a b \<Longrightarrow> kept b c \<Longrightarrow> kept a c"
  by (auto simp: kept_def intro: prefix_order.trans)

lemma net_simps [simp]:
  "h_net (set_net c io) = c" "h_buf (set_net c io) = h_buf io" "h_off0 (set_net c io) = h_off0 io"
  "h_total (set_net c io) = h_total io" "h_mbuf (set_net c io) = h_mbuf io" "h_pbuf (set_net c io) = h_pbuf io"
  "h_done (set_net c io) = h_done io" "h_url (set_net c io) = h_url io" "h_handles (set_net c io) = h_handles io"
  "cg_init_cnt (h_env (set_net c io)) = cg_init_cnt (h_env io)" "cg_ok (h_env (set_net c io)) = cg_ok (h_env io)"
  "set_net c (set_net c' io) = set_net c io" "set_net (h_net io) io = io"
  by (simp_all add: set_net_def cg_ok_def)

lemma net_upd [simp]:
  "(set_net c io)\<lparr>h_buf := bs\<rparr> = set_net c (io\<lparr>h_buf := bs\<rparr>)"
  "h_env (io\<lparr>h_buf := bs\<rparr>) = h_env io"
  by (simp_all add: set_net_def)

section \<open>One call of libcurl\<close>

lemma prefix_more: "prefix xs (drop k F) \<Longrightarrow> prefix ys (drop (k + length xs) F) \<Longrightarrow> prefix (xs @ ys) (drop k F)"
proof -
  assume "prefix xs (drop k F)" and ys: "prefix ys (drop (k + length xs) F)"
  then obtain zs where zs: "drop k F = xs @ zs" by (auto simp: prefix_def)
  then have "drop (k + length xs) F = zs" by (metis add.commute append_eq_drop drop_drop)
  with ys zs show ?thesis by simp
qed

lemma drive_ok:
  assumes "delivers L F (cu_max_write cu) e p paused" "int p = h_off0 io + h_lbuf io" "0 \<le> h_off0 io"
    and "prefix (h_buf io) (drop (nat (h_off0 io)) F)" "h_mbuf io = int (cu_max_write cu) * 2"
    and "paused \<longrightarrow> int (cu_max_write cu) \<le> h_lbuf io"
  shows "\<exists>rc n c bs paused'. curl_drive e io = (rc, n, set_net c (io\<lparr>h_buf := h_buf io @ bs\<rparr>)) \<and>
    L (p + length bs) paused' rc n c \<and> prefix (h_buf io @ bs) (drop (nat (h_off0 io)) F) \<and>
    (paused' \<longrightarrow> int (cu_max_write cu) \<le> h_lbuf io + int (length bs))"
  using assms
proof (induction e arbitrary: p paused io)
  case (CURL_returns rc n c)
  then have "L (p + length []) paused rc n c" by simp
  with CURL_returns.prems show ?case
    by (intro exI [of _ rc] exI [of _ n] exI [of _ c] exI [of _ "[]"] exI [of _ paused]) simp
next
  case (CURL_writes bs k)
  show ?case
  proof (cases "int (length bs) + h_lbuf io > h_mbuf io")
    case True
    with CURL_writes.prems have "int (cu_max_write cu) \<le> h_lbuf io" by simp
    with CURL_writes.prems CURL_writes.IH [OF rangeI, of CURL_WRITEFUNC_PAUSE p True io] True show ?thesis
      by (simp add: write_cb_def)
  next
    case False
    let ?io = "io\<lparr>h_buf := h_buf io @ bs\<rparr>"
    from CURL_writes.prems have "nat (h_off0 io) + length (h_buf io) = p" by simp
    with CURL_writes.prems have pre: "prefix (h_buf ?io) (drop (nat (h_off0 ?io)) F)"
      by (simp add: prefix_more)
    have at_p: "int (p + length bs) = h_off0 ?io + h_lbuf ?io" using CURL_writes.prems(2) by simp
    from CURL_writes.prems have "delivers L F (cu_max_write cu) (k (Wrote (length bs))) (p + length bs) False" by simp
    from CURL_writes.IH [OF rangeI this at_p _ pre] CURL_writes.prems
    obtain rc n c bs' paused' where more: "curl_drive (k (Wrote (length bs))) ?io =
        (rc, n, set_net c (?io\<lparr>h_buf := h_buf ?io @ bs'\<rparr>))" "L (p + length bs + length bs') paused' rc n c"
      "prefix (h_buf ?io @ bs') (drop (nat (h_off0 ?io)) F)"
      "paused' \<longrightarrow> int (cu_max_write cu) \<le> h_lbuf ?io + int (length bs')" by auto
    with False show ?thesis
      by (intro exI [of _ rc] exI [of _ n] exI [of _ c] exI [of _ "bs @ bs'"] exI [of _ paused'])
        (simp add: write_cb_def add.assoc)
  qed
qed

text \<open>Deliveries keep the state of the reader.\<close>

lemma core_off:
  assumes "core io"
  shows "0 \<le> h_off0 io" "nat (h_off0 io) + length (h_buf io) \<le> length F"
proof -
  from assms have pl: "placed io" by (simp add: core_def)
  then show "0 \<le> h_off0 io" by (simp add: placed_def)
  from pl have "prefix (h_buf io) (drop (nat (h_off0 io)) F)" "h_off0 io \<le> int (length F)"
    by (simp_all add: placed_def)
  then have "prefix (h_buf io) (drop (nat (h_off0 io)) F)" "nat (h_off0 io) \<le> length F" by simp_all
  with prefix_length_le [OF this(1)] show "nat (h_off0 io) + length (h_buf io) \<le> length F" by simp
qed

lemma core_deliver:
  assumes "core io" "v_at (vw io) = Some p" "carried (vw io) p (p + length bs) (view c)"
    and "prefix (h_buf io @ bs) (drop (nat (h_off0 io)) F)" "\<forall>q. v_at (view c) = Some q \<longrightarrow> q = p + length bs"
    and "v_at (view c) = None \<longrightarrow> steady \<longrightarrow> p + length bs = length F"
  shows "core (set_net c (io\<lparr>h_buf := h_buf io @ bs\<rparr>))"
    and "kept io (set_net c (io\<lparr>h_buf := h_buf io @ bs\<rparr>))"
    and "nat (h_off0 io) + length (h_buf io) = p" "p + length bs \<le> length F"
proof -
  from assms(1,2) have p: "int p = h_off0 io + h_lbuf io" and off: "0 \<le> h_off0 io" by (auto simp: core_defs)
  then show eq: "nat (h_off0 io) + length (h_buf io) = p" by simp
  have "length (h_buf io @ bs) \<le> length (drop (nat (h_off0 io)) F)"
    using assms(4) by (rule prefix_length_le)
  with core_off [OF assms(1)] show len: "p + length bs \<le> length F" using eq by simp
  show "kept io (set_net c (io\<lparr>h_buf := h_buf io @ bs\<rparr>))"
    using assms(3) by (auto simp: kept_def carried_def budget_def)
  let ?io = "set_net c (io\<lparr>h_buf := h_buf io @ bs\<rparr>)"
  have "h_done io \<longrightarrow> bs = []" using assms(1) p len by (auto simp: core_defs)
  then have pl: "placed ?io" using assms(1,4) by (auto simp: core_def placed_def)
  have su: "set_up ?io" using assms(1) by (simp add: core_def set_up_def)
  have "\<forall>q. v_at (view c) = Some q \<longrightarrow> int q = h_off0 io + (h_lbuf io + int (length bs))"
    using assms(5) p by auto
  moreover have "v_at (view c) = None \<longrightarrow> steady \<longrightarrow> h_off0 io + (h_lbuf io + int (length bs)) = int (length F)"
    using assms(6) p by auto
  ultimately have "tracked ?io"
    using assms(1,3) by (cases "bs = []") (simp_all add: core_def tracked_def carried_def split: if_splits)
  with pl su show "core ?io" by (simp add: core_def)
qed

lemma core_learn:
  assumes "core io"
  shows "core (learn_length cu io) \<and> learnt (learn_length cu io) \<and> kept io (learn_length cu io) \<and>
    h_net (learn_length cu io) = h_net io \<and> h_buf (learn_length cu io) = h_buf io \<and>
    h_off0 (learn_length cu io) = h_off0 io \<and> h_mbuf (learn_length cu io) = h_mbuf io"
proof (cases "h_total io < 0")
  case True
  let ?io = "io\<lparr>h_total := cu_length cu (h_net io)\<rparr>"
  have t: "if v_known (vw io) then h_total ?io = int (length F) else h_total ?io < 0"
    using True assms length_known [of "h_net io"] length_unknown [of "h_net io"]
    by (simp add: core_def tracked_def)
  have "set_up ?io" "placed ?io" using True assms by (simp_all add: core_def set_up_def placed_def)
  moreover have "tracked ?io" "learnt ?io" using t True assms
    by (auto simp: core_def tracked_def learnt_def split: if_splits)
  moreover have "kept io ?io" using True by (simp add: kept_def budget_def)
  ultimately show ?thesis using True by (simp add: learn_length_def core_def)
next
  case False
  with assms show ?thesis by (simp add: learn_length_def learnt_def kept_refl)
qed

lemma core_calm:
  assumes "core io" "calm ok (vw io) (view c)"
  shows "core (set_net c io)" "kept io (set_net c io)" "\<not> ok \<Longrightarrow> budget (set_net c io) < budget io"
    and "v_notes (view c) = v_notes (vw io)" "v_at (view c) = v_at (vw io)" "v_known (view c) = v_known (vw io)"
proof -
  from assms(2) obtain b where b: "view c = (vw io)\<lparr>v_budget := b\<rparr>" "b \<le> v_budget (vw io)"
    "\<not> ok \<longrightarrow> b < v_budget (vw io)" by (auto simp: calm_def)
  show "core (set_net c io)" using assms(1) b(1) by (simp add: core_defs)
  show "kept io (set_net c io)" "\<not> ok \<Longrightarrow> budget (set_net c io) < budget io"
    using b by (simp_all add: kept_def budget_def)
  show "v_notes (view c) = v_notes (vw io)" "v_at (view c) = v_at (vw io)" "v_known (view c) = v_known (vw io)"
    using b(1) by simp_all
qed

lemma kept_missing: "kept a b \<Longrightarrow> missing b \<le> missing a"
  by (auto simp: kept_def missing_def dest!: prefix_length_le)

section \<open>A round of the transfer\<close>

text \<open>What \<open>curl_multi_perform\<close>, called until it does not ask to be called again, leaves.\<close>

definition ran :: "'c http_t \<Rightarrow> int \<Rightarrow> int \<Rightarrow> 'c http_t \<Rightarrow> bool" where
  "ran io rc n io' \<longleftrightarrow> core io' \<and> kept io io' \<and>
     (if rc \<noteq> CURLM_OK then budget io' < budget io \<and> v_notes (vw io') = []
      else if n \<noteq> 0 then v_at (vw io') \<noteq> None \<and> v_notes (vw io') = [] \<and>
        (int (cu_max_write cu) \<le> h_lbuf io' \<or> missing io' < missing io \<or> budget io' < budget io)
      else v_at (vw io') = None \<and>
        (h_off0 io' + h_lbuf io' = int (length F) \<and> v_known (vw io') \<and> v_notes (vw io') = [CURLE_OK] \<or>
         \<not> steady \<and> budget io' < budget io \<and> (\<exists>m. v_notes (vw io') = [m] \<and> m \<noteq> CURLE_OK)))"

lemma ran_kept: "kept a b \<Longrightarrow> ran b rc n c \<Longrightarrow> ran a rc n c"
  unfolding ran_def using kept_missing [of a b] kept_trans [of a b c]
  by (auto simp: kept_def split: if_splits)

lemma perform_once:
  assumes "core io" "v_at (vw io) \<noteq> None" "v_notes (vw io) = []"
  shows "\<exists>rc n io'. curl_drive (cu_perform cu (h_net io)) io = (rc, n, io') \<and> ran io rc n io' \<and>
    (rc \<noteq> CURLM_OK \<longrightarrow> v_at (vw io') \<noteq> None)"
proof -
  from assms(2) obtain p where p: "v_at (vw io) = Some p" by auto
  from assms(1) p have io: "int p = h_off0 io + h_lbuf io" "0 \<le> h_off0 io"
    "prefix (h_buf io) (drop (nat (h_off0 io)) F)" "h_mbuf io = int (cu_max_write cu) * 2" by (auto simp: core_defs)
  have "p \<le> length F" using core_off [OF assms(1)] io(1) by linarith
  have acc: "accepts (v_hdrs (vw io))" using assms(1) by (simp add: core_def tracked_def)
  from drive_ok [OF perform [OF p acc assms(3) \<open>p \<le> length F\<close>] io] obtain rc n c bs paused where
    run: "curl_drive (cu_perform cu (h_net io)) io = (rc, n, set_net c (io\<lparr>h_buf := h_buf io @ bs\<rparr>))"
      (is "_ = (_, _, ?io)")
    and leaf: "performed steady (vw io) (length F) p (p + length bs) paused rc n (view c)"
    and pre: "prefix (h_buf io @ bs) (drop (nat (h_off0 io)) F)"
    and full: "paused \<longrightarrow> int (cu_max_write cu) \<le> h_lbuf io + int (length bs)" by auto
  have ends: "\<forall>q. v_at (view c) = Some q \<longrightarrow> q = p + length bs"
    "v_at (view c) = None \<longrightarrow> steady \<longrightarrow> p + length bs = length F"
    and car: "carried (vw io) p (p + length bs) (view c)"
    using leaf by (auto simp: performed_def split: if_splits)
  note dl = core_deliver [OF assms(1) p car pre ends]
  have "missing ?io = length F - (p + length bs)" "missing io = length F - p"
    using dl(3) by (simp_all add: missing_def add.assoc [symmetric])
  then have "missing ?io < missing io" if "p < p + length bs" using that dl(4) by arith
  with leaf dl full io(1) have "ran io rc n ?io"
    unfolding ran_def performed_def by (auto simp: budget_def split: if_splits)
  moreover have "rc \<noteq> CURLM_OK \<longrightarrow> v_at (vw ?io) \<noteq> None" using leaf by (simp add: performed_def)
  ultimately show ?thesis using run by blast
qed

lemma perform_loop:
  assumes "core io" "v_at (vw io) \<noteq> None" "v_notes (vw io) = []"
  shows "\<exists>rc n io'. c_loop (perform_pass cu) io = Some (rc, n, io') \<and> ran io rc n io'"
proof -
  define I where "I s \<longleftrightarrow> core s \<and> v_at (vw s) \<noteq> None \<and> v_notes (vw s) = [] \<and> kept io s" for s
  have "\<exists>r. c_loop (perform_pass cu) io = Some r \<and> (case r of (rc, n, io') \<Rightarrow> ran io rc n io')"
  proof (rule c_loop_returns [where I = I and m = budget])
    show "I io" using assms by (simp add: I_def kept_refl)
  next
    fix s assume "I s"
    then have s: "core s" "v_at (vw s) \<noteq> None" "v_notes (vw s) = []" "kept io s" by (auto simp: I_def)
    from perform_once [OF s(1-3)] obtain rc n s' where run: "curl_drive (cu_perform cu (h_net s)) s = (rc, n, s')"
      and r: "ran s rc n s'" and at_some: "rc \<noteq> CURLM_OK \<longrightarrow> v_at (vw s') \<noteq> None" by blast
    from ran_kept [OF s(4) r] have r0: "ran io rc n s'" .
    show "(\<exists>r. perform_pass cu s = Some (Inl r) \<and> (case r of (rc, n, io') \<Rightarrow> ran io rc n io')) \<or>
      (\<exists>s'. perform_pass cu s = Some (Inr s') \<and> I s' \<and> budget s' < budget s)"
    proof (cases "rc = CURLM_CALL_MULTI_PERFORM")
      case True
      then have "rc \<noteq> CURLM_OK" by (simp add: CURLM_CALL_MULTI_PERFORM_def CURLM_OK_def)
      with r r0 at_some have "I s'" "budget s' < budget s" by (auto simp: I_def ran_def)
      with True run show ?thesis by (simp add: perform_pass_def)
    next
      case False with run r0 show ?thesis by (simp add: perform_pass_def)
    qed
  qed
  then show ?thesis by auto
qed

lemma pause_ok:
  assumes "core io" "v_notes (vw io) = []"
  shows "\<exists>rc n io'. curl_drive (cu_pause cu (h_net io)) io = (rc, n, io') \<and> core io' \<and> kept io io' \<and>
    v_notes (vw io') = [] \<and> (v_at (vw io') = None \<longleftrightarrow> v_at (vw io) = None) \<and>
    (v_at (vw io) = None \<longrightarrow> vw io' = vw io \<and> h_buf io' = h_buf io \<and> h_total io' = h_total io)"
proof (cases "v_at (vw io)")
  case None
  with pause_idle [of "h_net io"] obtain rc n c where c: "cu_pause cu (h_net io) = CURL_returns rc n c"
    "view c = vw io" by auto
  have "calm True (vw io) (view c)" using c(2) by (simp add: calm_refl)
  from core_calm [OF assms(1) this] c None assms(2) show ?thesis by simp
next
  case (Some p)
  from assms(1) Some have io: "int p = h_off0 io + h_lbuf io" "0 \<le> h_off0 io"
    "prefix (h_buf io) (drop (nat (h_off0 io)) F)" "h_mbuf io = int (cu_max_write cu) * 2" by (auto simp: core_defs)
  have "accepts (v_hdrs (vw io))" using assms(1) by (simp add: core_def tracked_def)
  from drive_ok [OF pause [OF Some this] io] obtain rc n c bs where
    run: "curl_drive (cu_pause cu (h_net io)) io = (rc, n, set_net c (io\<lparr>h_buf := h_buf io @ bs\<rparr>))"
    and leaf: "carried (vw io) p (p + length bs) (view c)" "v_at (view c) = Some (p + length bs)"
      "v_notes (view c) = v_notes (vw io)"
    and pre: "prefix (h_buf io @ bs) (drop (nat (h_off0 io)) F)" by auto
  have "\<forall>q. v_at (view c) = Some q \<longrightarrow> q = p + length bs"
    "v_at (view c) = None \<longrightarrow> steady \<longrightarrow> p + length bs = length F" using leaf(2) by simp_all
  from core_deliver [OF assms(1) Some leaf(1) pre this] leaf assms(2) run Some show ?thesis by simp
qed

text \<open>How a round can leave the loop: the buffer is full enough; the end; a message; a wait that
  failed, late or early; or a transfer that had ended before.\<close>

definition hasty :: "'c http_t \<Rightarrow> 'c http_t \<Rightarrow> bool" where
  "hasty io io' \<longleftrightarrow> select_fails_early cu view \<and> h_total io' < 0 \<and> h_buf io' = [] \<and> v_notes (vw io') = [] \<and>
     budget io' < budget io"

definition left_loop :: "'c http_t \<Rightarrow> 'c http_t \<Rightarrow> bool" where
  "left_loop io io' \<longleftrightarrow>
     (int (cu_max_write cu) \<le> h_lbuf io' \<and> v_notes (vw io') = []) \<or>
     (0 \<le> h_total io' \<and> h_off0 io' + h_lbuf io' = int (length F) \<and> v_notes (vw io') = [CURLE_OK]) \<or>
     (budget io' < budget io \<and> (\<exists>m. v_notes (vw io') = [m] \<and> m \<noteq> CURLE_OK)) \<or>
     (0 \<le> h_total io' \<and> \<not> steady \<and> budget io' < budget io \<and> v_notes (vw io') = []) \<or>
     hasty io io' \<or>
     (v_at (vw io) = None \<and> v_at (vw io') = None \<and> h_buf io' = h_buf io \<and> v_notes (vw io') = [])"

lemma left_kept: "kept a b \<Longrightarrow> v_at (vw b) \<noteq> None \<or> v_at (vw a) = None \<and> h_buf b = h_buf a \<Longrightarrow>
    left_loop b c \<Longrightarrow> left_loop a c"
proof -
  assume "kept a b" and same: "v_at (vw b) \<noteq> None \<or> v_at (vw a) = None \<and> h_buf b = h_buf a"
    and l: "left_loop b c"
  then have bud: "budget b \<le> budget a" by (simp add: kept_def)
  from l show "left_loop a c"
    unfolding left_loop_def hasty_def using bud same by (elim disjE conjE) (simp_all add: less_le_trans)
qed

definition round_result :: "'c http_t \<Rightarrow> ((int \<times> 'c http_t) + 'c http_t) + 'c http_t \<Rightarrow> bool" where
  "round_result io res \<longleftrightarrow> (case res of
     Inl (Inl (ret, io')) \<Rightarrow> ret = -1 \<and> core io' \<and> kept io io' \<and> v_notes (vw io') = [] \<and> budget io' < budget io
   | Inl (Inr io') \<Rightarrow> core io' \<and> kept io io' \<and> learnt io' \<and> left_loop io io'
   | Inr io' \<Rightarrow> core io' \<and> kept io io' \<and> learnt io' \<and> v_notes (vw io') = [] \<and> v_at (vw io') \<noteq> None \<and>
       (missing io' < missing io \<or> budget io' < budget io))"

lemma round_later:
  assumes "kept a b" "v_at (vw b) = v_at (vw a)" "h_buf b = h_buf a" "round_result b res"
  shows "round_result a res"
proof -
  have tr: "kept b c \<Longrightarrow> kept a c" for c using assms(1) by (rule kept_trans)
  have bud: "budget b \<le> budget a" using assms(1) by (simp add: kept_def)
  have mis: "missing b \<le> missing a" using assms(1) by (rule kept_missing)
  show ?thesis
  proof (cases res)
    case (Inl x)
    show ?thesis
    proof (cases x)
      case (Inl y)
      obtain ret c where "y = (ret, c)" by fastforce
      with Inl \<open>res = Inl x\<close> assms(4) tr [of c] bud show ?thesis by (simp add: round_result_def)
    next
      case (Inr c)
      have "left_loop b c \<Longrightarrow> left_loop a c" using assms(1-3) left_kept [of a b c] by auto
      with Inr \<open>res = Inl x\<close> assms(4) tr [of c] show ?thesis by (simp add: round_result_def)
    qed
  next
    case (Inr c)
    with assms(4) tr [of c] bud mis show ?thesis by (auto simp: round_result_def)
  qed
qed

lemma learnt_calm:
  "learnt io \<Longrightarrow> v_known (view c) = v_known (vw io) \<Longrightarrow> learnt (set_net c io)"
  by (simp add: learnt_def)

text \<open>The second half of a round, after the waiting.\<close>

lemma round_tail:
  assumes "core io" "v_notes (vw io) = []"
  shows "\<exists>res. (case curl_drive (cu_pause cu (h_net io)) io of (_, _, io) \<Rightarrow> do {
              (rc, n_running, io) \<leftarrow> c_loop (perform_pass cu) io;
              if rc \<noteq> CURLM_OK then Some (Inl (Inl (-1, io)))
              else do {
                let io = learn_length cu io;
                Some (if n_running \<noteq> 0 \<and> h_lbuf io < h_mbuf io - int (cu_max_write cu)
                      then Inr io else Inl (Inr io)) } }) = Some res \<and> round_result io res"
proof -
  from pause_ok [OF assms] obtain r m io1 where p1: "curl_drive (cu_pause cu (h_net io)) io = (r, m, io1)"
    and io1: "core io1" "kept io io1" "v_notes (vw io1) = []" "v_at (vw io1) = None \<longleftrightarrow> v_at (vw io) = None"
      "v_at (vw io) = None \<longrightarrow> vw io1 = vw io \<and> h_buf io1 = h_buf io \<and> h_total io1 = h_total io" by metis
  show ?thesis
  proof (cases "v_at (vw io)")
    case None
    with io1(4) perform_idle [of "h_net io1"] obtain c where c: "cu_perform cu (h_net io1) = CURL_returns CURLM_OK 0 c"
      "view c = vw io1" by auto
    have "perform_pass cu io1 = Some (Inl (CURLM_OK, 0, set_net c io1))"
      by (simp add: perform_pass_def c CURLM_OK_def CURLM_CALL_MULTI_PERFORM_def)
    note loop = c_loop_stop [where body = "perform_pass cu", OF this]
    have "calm True (vw io1) (view c)" using c(2) by (simp add: calm_refl)
    note cc = core_calm [OF io1(1) this]
    note cl = core_learn [OF cc(1)]
    from cl have "round_result io (Inl (Inr (learn_length cu (set_net c io1))))"
      using kept_trans [OF io1(2) kept_trans [OF cc(2)]] None io1 c
      by (auto simp: round_result_def left_loop_def)
    then show ?thesis using p1 loop by simp
  next
    case (Some p)
    with io1(4) have "v_at (vw io1) \<noteq> None" by auto
    from perform_loop [OF io1(1) this io1(3)] obtain rc n io2 where
      loop: "c_loop (perform_pass cu) io1 = Some (rc, n, io2)" and "ran io1 rc n io2" by blast
    with ran_kept io1(2) have r: "ran io rc n io2" by blast
    then have core2: "core io2" "kept io io2" by (auto simp: ran_def)
    let ?io = "learn_length cu io2"
    note cl = core_learn [OF core2(1)]
    have k: "kept io ?io" using kept_trans [OF core2(2)] cl by blast
    have same: "budget ?io = budget io2" "missing ?io = missing io2" using cl by (auto simp: budget_def missing_def)
    have mb: "h_mbuf io2 = int (cu_max_write cu) * 2" using core2 by (simp add: core_defs)
    show ?thesis
    proof (cases "rc = CURLM_OK")
      case False
      with r have "round_result io (Inl (Inl (-1, io2)))" by (simp add: round_result_def ran_def)
      with False p1 loop show ?thesis by simp
    next
      case True
      have known: "v_known (vw io2) \<Longrightarrow> 0 \<le> h_total ?io" using cl by (simp add: learnt_def)
      have bs: "h_lbuf ?io < h_mbuf ?io - int (cu_max_write cu) \<longleftrightarrow> \<not> int (cu_max_write cu) \<le> h_lbuf io2"
        using cl mb by auto
      have "round_result io (if n \<noteq> 0 \<and> h_lbuf ?io < h_mbuf ?io - int (cu_max_write cu) then Inr ?io else Inl (Inr ?io))"
      proof (cases "n = 0")
        case True
        with \<open>rc = CURLM_OK\<close> r have
          "h_off0 io2 + h_lbuf io2 = int (length F) \<and> v_known (vw io2) \<and> v_notes (vw io2) = [CURLE_OK] \<or>
           budget io2 < budget io \<and> (\<exists>m. v_notes (vw io2) = [m] \<and> m \<noteq> CURLE_OK)" by (auto simp: ran_def)
        then have "left_loop io ?io" using cl known same(1) unfolding left_loop_def by auto
        with True cl k show ?thesis by (simp add: round_result_def)
      next
        case False
        with \<open>rc = CURLM_OK\<close> r have n0: "v_at (vw io2) \<noteq> None" "v_notes (vw io2) = []"
          "int (cu_max_write cu) \<le> h_lbuf io2 \<or> missing io2 < missing io \<or> budget io2 < budget io"
          by (simp_all add: ran_def)
        show ?thesis
        proof (cases "int (cu_max_write cu) \<le> h_lbuf io2")
          case True
          with n0(2) cl have "left_loop io ?io" by (simp add: left_loop_def)
          with True bs cl k show ?thesis by (simp add: round_result_def)
        next
          case False
          with bs n0 cl k same \<open>n \<noteq> 0\<close> show ?thesis by (simp add: round_result_def)
        qed
      qed
      with True p1 loop show ?thesis by (simp add: Let_def)
    qed
  qed
qed

lemma fill_round_ok:
  assumes "core io" "learnt io" "v_notes (vw io) = []"
  shows "\<exists>res. fill_round cu io = Some res \<and> round_result io res"
proof -
  obtain rt t c1 where c1: "cu_timeout cu (h_net io) = (rt, t, c1)" by (metis prod_cases3)
  note k1 = core_calm [OF assms(1) timeout [OF c1]]
  show ?thesis
  proof (cases "rt = CURLM_OK")
    case False
    with k1 assms(3) have "round_result io (Inl (Inl (-1, set_net c1 io)))" by (simp add: round_result_def)
    with False c1 show ?thesis by (simp add: fill_round_def Let_def)
  next
    case rt: True
    obtain rf fd c2 where c2: "cu_fdset cu c1 = (rf, fd, c2)" by (metis prod_cases3)
    then have "cu_fdset cu (h_net (set_net c1 io)) = (rf, fd, c2)" by simp
    note k2 = core_calm [OF k1(1) fdset [OF this]]
    note kk2 = kept_trans [OF k1(2) k2(2)]
    show ?thesis
    proof (cases "rf = CURLM_OK")
      case False
      have "budget (set_net c1 io) \<le> budget io" using k1(2) by (simp add: kept_def)
      with False k2 kk2 k1 assms(3) have "round_result io (Inl (Inl (-1, set_net c2 io)))"
        by (simp add: round_result_def)
      with False rt c1 c2 show ?thesis by (simp add: fill_round_def Let_def)
    next
      case rf: True
      obtain rs c3 where c3: "(if fd \<ge> 0 then cu_select cu c2 (fill_timeout t) else (0, c2)) = (rs, c3)"
        by (metis surj_pair)
      have "calm (0 \<le> rs) (view c2) (view c3) \<and> (steady \<longrightarrow> 0 \<le> rs)"
        using c3 select [of c2 "fill_timeout t" rs c3] by (cases "0 \<le> fd") (simp_all add: calm_refl)
      then have q: "calm (0 \<le> rs) (vw (set_net c2 io)) (view c3)" "rs < 0 \<longrightarrow> \<not> steady" by auto
      have early: "rs < 0 \<longrightarrow> \<not> v_known (view c2) \<longrightarrow> select_fails_early cu view"
        using c3 unfolding select_fails_early_def by (cases "0 \<le> fd") (cases "fill_timeout t", fastforce)+
      have "core (set_net c2 io)" using k2(1) by simp
      note k3 = core_calm [OF this q(1)]
      have "kept (set_net c2 io) (set_net c3 io)" using k3(2) by simp
      moreover have "kept io (set_net c2 io)" using kk2 by simp
      ultimately have kk3: "kept io (set_net c3 io)" by (rule kept_trans [rotated])
      show ?thesis
      proof (cases "rs < 0")
        case True
        have "budget (set_net c2 io) \<le> budget io" using kk2 by (simp add: kept_def)
        then have bud: "budget (set_net c3 io) < budget io" using True k3(3) by simp
        have same: "v_known (vw io) = v_known (view c2)" "v_known (view c3) = v_known (vw io)"
          using k1(6) k2(6) k3(6) by simp_all
        have "left_loop io (set_net c3 io)"
        proof (cases "0 \<le> h_total io")
          case True
          moreover have "\<not> steady" "v_notes (view c3) = []" using q(2) \<open>rs < 0\<close> k1(4) k2(4) k3(4) assms(3) by simp_all
          ultimately show ?thesis using bud unfolding left_loop_def by simp
        next
          case False
          with assms(2) same(1) have "\<not> v_known (vw io)" "\<not> v_known (view c2)" by (auto simp: learnt_def)
          moreover from this(1) assms(1) have "h_buf io = []" by (auto simp: core_def tracked_def)
          ultimately have "hasty io (set_net c3 io)"
            using False \<open>rs < 0\<close> early bud k1 k2 k3 assms(3) by (simp add: hasty_def)
          then show ?thesis by (simp add: left_loop_def)
        qed
        moreover have "core (set_net c3 io)" using k3(1) by simp
        moreover have "learnt (set_net c3 io)" using assms(2) same(2) by (rule learnt_calm)
        ultimately have "round_result io (Inl (Inr (set_net c3 io)))"
          using kk3 by (simp add: round_result_def)
        with True rf rt c1 c2 c3 show ?thesis by (simp add: fill_round_def Let_def)
      next
        case False
        have "core (set_net c3 io)" "v_notes (vw (set_net c3 io)) = []" "v_at (vw (set_net c3 io)) = v_at (vw io)"
          using k3 k2 k1 assms(3) by simp_all
        from round_tail [OF this(1,2)] this(3) obtain res where
          "fill_round cu io = Some res" "round_result (set_net c3 io) res"
          using False rf rt c1 c2 c3 by (auto simp: fill_round_def Let_def)
        with round_later [OF kk3 \<open>v_at (vw (set_net c3 io)) = v_at (vw io)\<close>] show ?thesis by simp
      qed
    qed
  qed
qed

end

end
