(* ===== verification/Http_Fill.thy ===== *)
theory Http_Fill
  imports Http_Proofs
begin

text \<open>
  Filling the buffer, starting a broken transfer again, and reading: \<^verbatim>\<open>fill_buffer\<close>, \<^verbatim>\<open>http_read\<close>
  and \<^verbatim>\<open>http_seek\<close> over a server that keeps the contract \<open>http_server\<close>.
\<close>

context http_server
begin

section \<open>The transfer and its messages\<close>

lemma fill_rounds:
  assumes "core io" "learnt io" "v_notes (vw io) = []"
  shows "\<exists>res. c_loop (fill_round cu) io = Some res \<and>
    (case res of Inl (ret, io') \<Rightarrow> ret = -1 \<and> core io' \<and> kept io io' \<and> v_notes (vw io') = [] \<and> budget io' < budget io
     | Inr io' \<Rightarrow> core io' \<and> kept io io' \<and> learnt io' \<and> left_loop io io')" (is "\<exists>res. _ \<and> ?Q res")
proof -
  define I where "I s \<longleftrightarrow> core s \<and> learnt s \<and> v_notes (vw s) = [] \<and> kept io s \<and> (s = io \<or> v_at (vw s) \<noteq> None)" for s
  show ?thesis
  proof (rule c_loop_wf [OF wf_measures [of "[budget, missing]"], where I = I])
    show "I io" using assms by (simp add: I_def kept_refl)
  next
    fix s assume "I s"
    then have s: "core s" "learnt s" "v_notes (vw s) = []" "kept io s" "s = io \<or> v_at (vw s) \<noteq> None"
      by (auto simp: I_def)
    from fill_round_ok [OF s(1-3)] obtain res where run: "fill_round cu s = Some res" "round_result s res" by blast
    have bud: "budget s \<le> budget io" using s(4) by (simp add: kept_def)
    show "(\<exists>r. fill_round cu s = Some (Inl r) \<and> ?Q r) \<or>
      (\<exists>s'. fill_round cu s = Some (Inr s') \<and> I s' \<and> (s', s) \<in> measures [budget, missing])"
    proof (cases res)
      case (Inl x)
      have "?Q x"
      proof (cases x)
        case (Inl y)
        obtain ret c where "y = (ret, c)" by fastforce
        with Inl \<open>res = Inl x\<close> run(2) kept_trans [OF s(4), of c] bud show ?thesis by (simp add: round_result_def)
      next
        case (Inr c)
        have "left_loop s c \<Longrightarrow> left_loop io c" using s(4,5) left_kept [of io s c] by auto
        with Inr \<open>res = Inl x\<close> run(2) kept_trans [OF s(4), of c] show ?thesis by (simp add: round_result_def)
      qed
      with run(1) Inl show ?thesis by blast
    next
      case (Inr s')
      with run(2) have s': "core s'" "kept s s'" "learnt s'" "v_notes (vw s') = []" "v_at (vw s') \<noteq> None"
        "missing s' < missing s \<or> budget s' < budget s" by (simp_all add: round_result_def)
      then have "I s'" using kept_trans [OF s(4) s'(2)] by (simp add: I_def)
      moreover have "budget s' \<le> budget s" using s'(2) by (simp add: kept_def)
      ultimately show ?thesis using run(1) Inr s'(6) by auto
    qed
  qed
qed

lemma msg_none: "v_notes (vw io) = [] \<Longrightarrow>
    \<exists>c. c_loop (msg_pass cu) io = Some (False, set_net c io) \<and> view c = vw io"
proof -
  assume "v_notes (vw io) = []"
  from no_msg [OF this] obtain c where c: "cu_msg cu (h_net io) = (None, c)" "view c = vw io" by blast
  then have "msg_pass cu io = Some (Inl (False, set_net c io))" by (simp add: msg_pass_def)
  from c_loop_stop [where body = "msg_pass cu", OF this] c(2) show ?thesis by blast
qed

lemma msg_one: "v_notes (vw io) = [m] \<Longrightarrow>
    \<exists>c. c_loop (msg_pass cu) io = Some (m \<noteq> CURLE_OK, set_net c io) \<and> view c = (vw io)\<lparr>v_notes := []\<rparr>"
proof -
  assume "v_notes (vw io) = [m]"
  from some_msg [OF this] obtain c where c: "cu_msg cu (h_net io) = (Some m, c)"
    "view c = (vw io)\<lparr>v_notes := []\<rparr>" by blast
  show ?thesis
  proof (cases "m = CURLE_OK")
    case True
    with c have "msg_pass cu io = Some (Inr (set_net c io))" by (simp add: msg_pass_def)
    note c_loop_next [where body = "msg_pass cu", OF this]
    moreover have "v_notes (vw (set_net c io)) = []" using c(2) by simp
    from msg_none [OF this] obtain c' where
      "c_loop (msg_pass cu) (set_net c io) = Some (False, set_net c' io)" "view c' = view c" by auto
    ultimately show ?thesis using True c(2) by auto
  next
    case False
    with c have "msg_pass cu io = Some (Inl (True, set_net c io))" by (simp add: msg_pass_def)
    from c_loop_stop [where body = "msg_pass cu", OF this] False c(2) show ?thesis by auto
  qed
qed

section \<open>Starting a transfer\<close>

definition base :: "'c http_t \<Rightarrow> bool" where
  "base io \<longleftrightarrow> h_handles io \<and> h_url io = url \<and> h_mbuf io = int (cu_max_write cu) * 2 \<and>
     cg_ok (h_env io) \<and> 0 < cg_init_cnt (h_env io) \<and> 0 \<le> h_off0 io \<and> h_off0 io \<le> int (length F) \<and>
     accepts (v_hdrs (vw io)) \<and>
     (if h_total io < 0 then h_off0 io = 0 else h_total io = int (length F) \<and> v_known (vw io))"

lemma prepare_ok:
  assumes "base io" "\<not> h_done io"
  shows "\<exists>c. prepare cu io = (0, (set_net c io)\<lparr>h_pbuf := 0, h_buf := []\<rparr>) \<and>
    view c = (vw io)\<lparr>v_at := Some (nat (h_off0 io)), v_notes := [], v_from := h_off0 io, v_start := h_off0 io\<rparr> \<and>
    core ((set_net c io)\<lparr>h_pbuf := 0, h_buf := []\<rparr>)"
proof -
  let ?c = "cu_resume cu (cu_remove cu (h_net io)) (h_off0 io)"
  have v: "view ?c = (vw io)\<lparr>v_at := None, v_notes := [], v_from := h_off0 io\<rparr>"
    by (simp add: resume remove)
  have "0 \<le> v_from (view ?c)" "v_from (view ?c) \<le> int (length F)" using assms(1) v by (auto simp: base_def)
  from add [OF this] v obtain c' where c': "cu_add cu ?c = (0, c')"
    "view c' = (vw io)\<lparr>v_at := Some (nat (h_off0 io)), v_notes := [], v_from := h_off0 io, v_start := h_off0 io\<rparr>"
    by auto
  have "cg_ok (h_env (set_net c' io))" "h_env ((set_net c' io)\<lparr>h_pbuf := 0, h_buf := []\<rparr>) = h_env (set_net c' io)"
    using assms(1) by (simp_all add: base_def)
  with c'(2) assms have "core ((set_net c' io)\<lparr>h_pbuf := 0, h_buf := []\<rparr>)"
    unfolding core_defs base_def by (simp split: if_splits)
  with c' show ?thesis by (auto simp: prepare_def Let_def)
qed

lemma init_base:
  assumes "core io"
  shows "\<not> h_done io \<Longrightarrow> 0 \<le> h_total io \<Longrightarrow> accepts [] \<Longrightarrow> base (init_io cu io)"
    and "vw (init_io cu io) = (vw io)\<lparr>v_at := None, v_notes := [], v_hdrs := []\<rparr>"
    and "h_off0 (init_io cu io) = h_off0 io" "h_done (init_io cu io) = h_done io"
    and "h_total (init_io cu io) = h_total io" "h_pbuf (init_io cu io) = h_pbuf io"
    and "h_buf (init_io cu io) = h_buf io"
proof -
  have h: "h_handles io" "cg_ok (h_env io)" "0 < cg_init_cnt (h_env io)" "h_url io = url"
    using assms by (auto simp: core_defs)
  define g where "g = curl_helper_safe_global_init (h_env io)"
  have g: "cg_ok g" "cg_init_cnt g = cg_init_cnt (h_env io) + 1" "cg_net g = h_net io"
    using global_init_ok [OF h(2)] by (simp_all add: g_def)
  define io1 where "io1 = set_net (cu_init cu (cu_cleanup cu (cg_net g)) (h_url io)) (io\<lparr>h_env := g\<rparr>)"
  have i: "init_io cu io = io1\<lparr>h_handles := True, h_mbuf := int (cu_max_write cu) * 2\<rparr>"
    using h(1) by (simp add: init_io_def Let_def io1_def g_def)
  have e: "h_env (init_io cu io) = h_env io1" by (simp add: i)
  have env: "cg_ok (h_env io1)" "cg_init_cnt (h_env io1) = cg_init_cnt (h_env io) + 1"
    using g by (simp_all add: io1_def)
  show v: "vw (init_io cu io) = (vw io)\<lparr>v_at := None, v_notes := [], v_hdrs := []\<rparr>"
    using g(3) h(4) by (simp add: e io1_def init cleanup)
  show rest: "h_off0 (init_io cu io) = h_off0 io" "h_done (init_io cu io) = h_done io"
    "h_total (init_io cu io) = h_total io" "h_pbuf (init_io cu io) = h_pbuf io"
    "h_buf (init_io cu io) = h_buf io" by (simp_all add: i io1_def)
  show "base (init_io cu io)" if "\<not> h_done io" "0 \<le> h_total io" "accepts []"
    using that assms v rest env h unfolding base_def core_defs by (simp add: e) (simp add: i io1_def)
qed

section \<open>Filling the buffer\<close>

text \<open>What a fill that starts with the buffer used up leaves, except for the result.\<close>

definition filled :: "'c http_t \<Rightarrow> 'c http_t \<Rightarrow> bool" where
  "filled io io' \<longleftrightarrow> core io' \<and> v_notes (vw io') = [] \<and> h_off0 io' = h_off0 io + h_lbuf io \<and> h_pbuf io' = 0 \<and>
     budget io' \<le> budget io \<and> (0 \<le> h_total io \<longrightarrow> 0 \<le> h_total io')"

lemma emptied_core:
  assumes "core io"
  shows "core (io\<lparr>h_off0 := h_off0 io + h_lbuf io, h_pbuf := 0, h_buf := []\<rparr>)"
proof -
  from core_off [OF assms] have "h_off0 io + h_lbuf io \<le> int (length F)" by linarith
  with assms show ?thesis by (auto simp: core_defs)
qed

lemma filled_keep:
  assumes "core io'" "v_notes (vw io') = []" "kept (io\<lparr>h_off0 := h_off0 io + h_lbuf io, h_pbuf := 0, h_buf := []\<rparr>) io'"
  shows "filled io io'"
  using assms by (simp add: filled_def kept_def budget_def)

lemma read_notes:
  assumes "core io1" "kept (io\<lparr>h_off0 := h_off0 io + h_lbuf io, h_pbuf := 0, h_buf := []\<rparr>) io1"
    and "view c = (vw io1)\<lparr>v_notes := []\<rparr>"
  shows "filled io (set_net c io1)"
proof (rule filled_keep)
  show "core (set_net c io1)" using assms(1,3) by (simp add: core_def set_up_def placed_def tracked_def)
  show "v_notes (vw (set_net c io1)) = []" using assms(3) by simp
  show "kept (io\<lparr>h_off0 := h_off0 io + h_lbuf io, h_pbuf := 0, h_buf := []\<rparr>) (set_net c io1)"
    using assms(2,3) by (simp add: kept_def budget_def)
qed

text \<open>The end of a fill, once the messages have been read and none was an error.\<close>

lemma fill_end:
  assumes "core io1" "v_notes (vw io1) = []" "0 \<le> h_total io1" "h_pbuf io1 = 0" "h_done io1 = False"
    and "h_off0 io1 = h_off0 io + h_lbuf io" "budget io1 \<le> budget io"
    and "h_buf io1 = [] \<longrightarrow> h_off0 io1 < int (length F) \<longrightarrow>
      accepts [] \<and> (budget io1 < budget io \<or> v_at (vw io) = None)"
  shows "case fill_outcome cu io1 of
       Inl (ret, io') \<Rightarrow> filled io io' \<and> ret = h_lbuf io' \<and>
         (h_buf io' = [] \<longrightarrow> h_off0 io' = int (length F)) \<and> 0 \<le> h_total io'
     | Inr (ptr, io') \<Rightarrow> filled io io' \<and> ptr = h_off0 io' \<and> h_buf io' = [] \<and> v_at (vw io') \<noteq> None \<and>
         v_hdrs (vw io') = [] \<and> (budget io' < budget io \<or> v_at (vw io) = None)"
proof -
  have len: "h_total io1 = int (length F)" "h_mbuf io1 = int (cu_max_write cu) * 2" using assms(1,3) by (auto simp: core_defs)
  have le: "h_off0 io1 + h_lbuf io1 \<le> int (length F)" using core_off [OF assms(1)] by linarith
  show ?thesis
  proof (cases "h_off0 io1 = int (length F)")
    case True
    with le have e: "h_buf io1 = []" by simp
    have "core (io1\<lparr>h_done := True\<rparr>)" using assms(1,3) True e by (simp add: core_defs)
    with assms have "filled io (io1\<lparr>h_done := True\<rparr>)" by (simp add: filled_def budget_def)
    with True e len max_pos assms(3-5) show ?thesis by (simp add: fill_outcome_def)
  next
    case False
    with core_off [OF assms(1)] have lt: "h_off0 io1 < int (length F)" by linarith
    show ?thesis
    proof (cases "h_buf io1 = []")
      case True
      note ib = init_base [OF assms(1)]
      have "base (init_io cu io1)" using ib(1) assms(3,5,8) True lt by simp
      from prepare_ok [OF this] assms(5) ib(4) obtain c where
        p: "prepare cu (init_io cu io1) = (0, (set_net c (init_io cu io1))\<lparr>h_pbuf := 0, h_buf := []\<rparr>)"
        and v: "view c = (vw (init_io cu io1))\<lparr>v_at := Some (nat (h_off0 (init_io cu io1))), v_notes := [],
          v_from := h_off0 (init_io cu io1), v_start := h_off0 (init_io cu io1)\<rparr>"
        and core: "core ((set_net c (init_io cu io1))\<lparr>h_pbuf := 0, h_buf := []\<rparr>)" by auto
      let ?io = "(set_net c (init_io cu io1))\<lparr>h_pbuf := 0, h_buf := []\<rparr>"
      have net: "h_net ?io = c" by simp
      have "filled io ?io" using core v ib assms by (simp add: filled_def budget_def)
      moreover have "budget ?io = budget io1" using v ib by (simp add: budget_def)
      ultimately show ?thesis using True lt len p v ib assms by (simp add: fill_outcome_def)
    next
      case False
      with lt len assms have "filled io io1" by (simp add: filled_def)
      with False lt len assms show ?thesis by (simp add: fill_outcome_def)
    qed
  qed
qed

text \<open>When the very first wait fails, the unknown length is taken for the end of the file.\<close>

definition looks_empty :: "'c http_t \<Rightarrow> int \<Rightarrow> 'c http_t \<Rightarrow> bool" where
  "looks_empty io ret io' \<longleftrightarrow> select_fails_early cu view \<and> h_total io < 0 \<and> budget io' < budget io \<and>
     ret = 0 \<and> h_buf io' = []"

lemma hasty_outcome:
  assumes "hasty (io\<lparr>h_off0 := h_off0 io + h_lbuf io, h_pbuf := 0, h_buf := []\<rparr>) io1"
    and "core io1" "kept (io\<lparr>h_off0 := h_off0 io + h_lbuf io, h_pbuf := 0, h_buf := []\<rparr>) io1"
  shows "\<exists>io'. c_loop (msg_pass cu) io1 = Some (False, set_net c io1) \<longrightarrow>
    view c = (vw io1)\<lparr>v_notes := []\<rparr> \<longrightarrow>
    fill_outcome cu (set_net c io1) = Inl (0, io') \<and> looks_empty io 0 io'"
proof -
  have h: "h_buf io1 = []" "h_total io1 < 0" using assms(1) by (simp_all add: hasty_def)
  have m: "0 \<le> h_off0 io1" "h_mbuf io1 = int (cu_max_write cu) * 2" using assms(2) by (simp_all add: core_defs)
  have "fill_outcome cu (set_net c io1) = Inl (0, (set_net c io1)\<lparr>h_done := True\<rparr>)"
    using h m max_pos by (simp add: fill_outcome_def)
  moreover have "looks_empty io 0 ((set_net c io1)\<lparr>h_done := True\<rparr>)" if "view c = (vw io1)\<lparr>v_notes := []\<rparr>"
    using assms(1,3) that by (auto simp: looks_empty_def hasty_def kept_def budget_def)
  ultimately show ?thesis by blast
qed

text \<open>What \<^verbatim>\<open>fill_transfer\<close> can do: data or the end of the file, an error, a new transfer.\<close>

lemma fill_transfer_ok:
  assumes "core io" "learnt io" "v_notes (vw io) = []" "h_pbuf io = length (h_buf io)"
    and "0 \<le> h_total io \<or> v_at (vw io) \<noteq> None"
  shows "\<exists>res. fill_transfer cu io = Some res \<and>
    (case res of
       Inl (ret, io') \<Rightarrow> filled io io' \<and>
         (ret = h_lbuf io' \<and> (h_buf io' = [] \<longrightarrow> h_off0 io' = int (length F)) \<and> 0 \<le> h_total io' \<or>
          ret = -1 \<and> budget io' < budget io) \<or> looks_empty io ret io'
     | Inr (ptr, io') \<Rightarrow> filled io io' \<and> ptr = h_off0 io' \<and> h_buf io' = [] \<and> v_at (vw io') \<noteq> None \<and>
         v_hdrs (vw io') = [] \<and> (budget io' < budget io \<or> v_at (vw io) = None))" (is "\<exists>res. _ \<and> ?Q res")
proof -
  let ?e = "io\<lparr>h_off0 := h_off0 io + h_lbuf io, h_pbuf := 0, h_buf := []\<rparr>"
  have e: "core ?e" "learnt ?e" "v_notes (vw ?e) = []"
    using emptied_core [OF assms(1)] assms(2,3) by (simp_all add: learnt_def)
  show ?thesis
  proof (cases "h_done io")
    case True
    define e0 where "e0 = ?e"
    from True assms(1) have "h_off0 e0 = int (length F)" "0 \<le> h_total e0" "h_buf e0 = []"
      by (simp_all add: core_def placed_def e0_def)
    moreover have "filled io e0" unfolding e0_def by (rule filled_keep [OF e(1,3) kept_refl])
    ultimately have "?Q (Inl (0, e0))" by simp
    moreover have "fill_transfer cu io = Some (Inl (0, e0))"
      using True assms(4) by (simp add: fill_transfer_def FILL_FINISHED_def Let_def e0_def)
    ultimately show ?thesis by blast
  next
    case False
    from fill_rounds [OF e] obtain x where loop: "c_loop (fill_round cu) ?e = Some x"
      and x: "case x of Inl (ret, io') \<Rightarrow> ret = -1 \<and> core io' \<and> kept ?e io' \<and> v_notes (vw io') = [] \<and> budget io' < budget ?e
        | Inr io' \<Rightarrow> core io' \<and> kept ?e io' \<and> learnt io' \<and> left_loop ?e io'" by blast
    have eb: "budget ?e = budget io" by (simp add: budget_def)
    show ?thesis
    proof (cases x)
      case (Inl y)
      obtain ret c where y: "y = (ret, c)" by fastforce
      with x Inl have "ret = -1" "budget c < budget io" "filled io c" using eb filled_keep [of c io] by auto
      then have "?Q (Inl (ret, c))" by simp
      with Inl y loop False assms(4) show ?thesis by (simp add: fill_transfer_def Let_def)
    next
      case (Inr io1)
      with x have io1: "core io1" "kept ?e io1" "learnt io1" "left_loop ?e io1" by simp_all
      have k: "h_off0 io1 = h_off0 io + h_lbuf io" "h_pbuf io1 = 0" "h_done io1 = False" "budget io1 \<le> budget io"
        using io1(2) eb False by (simp_all add: kept_def)
      have run: "fill_transfer cu io = do {
          (failed, io) \<leftarrow> c_loop (msg_pass cu) io1;
          if failed then Some (Inl (-1, io))
          else Some (fill_outcome cu io) }"
        using Inr loop False assms(4) by (simp add: fill_transfer_def Let_def)
      show ?thesis
      proof (cases "\<exists>m. v_notes (vw io1) = [m] \<and> m \<noteq> CURLE_OK")
        case True
        then obtain m where m: "v_notes (vw io1) = [m]" "m \<noteq> CURLE_OK" by blast
        from msg_one [OF m(1)] m(2) obtain c where c: "c_loop (msg_pass cu) io1 = Some (True, set_net c io1)"
          "view c = (vw io1)\<lparr>v_notes := []\<rparr>" by auto
        have "budget io1 < budget io" using io1(4) m eb unfolding left_loop_def hasty_def by auto
        moreover have "filled io (set_net c io1)" using read_notes [OF io1(1,2) c(2)] .
        ultimately have "?Q (Inl (-1, set_net c io1))" using c(2) by (simp add: budget_def)
        with run c(1) show ?thesis by simp
      next
        case good: False
        obtain c where c: "c_loop (msg_pass cu) io1 = Some (False, set_net c io1)" "view c = (vw io1)\<lparr>v_notes := []\<rparr>"
        proof (cases "v_notes (vw io1)")
          case Nil
          with msg_none [OF Nil] that show ?thesis by fastforce
        next
          case (Cons m ms)
          with io1(4) good have "v_notes (vw io1) = [CURLE_OK]" unfolding left_loop_def hasty_def by auto
          from msg_one [OF this] that show ?thesis by auto
        qed
        let ?io = "set_net c io1"
        show ?thesis
        proof (cases "hasty ?e io1")
          case True
          from hasty_outcome [OF True io1(1,2), of c] c obtain io' where
            "fill_outcome cu ?io = Inl (0, io')" "looks_empty io 0 io'" by blast
          with c(1) run show ?thesis by simp
        next
          case patient: False
          note f = read_notes [OF io1(1,2) c(2)]
          have total: "0 \<le> h_total io1"
            using io1 good patient assms(5) max_pos unfolding left_loop_def
            by (auto simp: core_def tracked_def learnt_def kept_def)
          have "steady \<longrightarrow> v_at (vw io1) = None \<longrightarrow> h_off0 io1 + h_lbuf io1 = int (length F)"
            using io1(1) by (simp add: core_def tracked_def)
          then have lost: "h_buf io1 = [] \<longrightarrow> h_off0 io1 < int (length F) \<longrightarrow>
              accepts [] \<and> (budget io1 < budget io \<or> v_at (vw io) = None)"
            using io1(4) good patient max_pos eb restartable unfolding left_loop_def by auto
          from f have core: "core ?io" "v_notes (vw ?io) = []" by (simp_all add: filled_def)
          have "budget ?io = budget io1" using c(2) by (simp add: budget_def)
          with fill_end [OF core, of io] total k lost have "?Q (fill_outcome cu ?io)"
            by (auto split: sum.splits)
          moreover have "fill_transfer cu io = Some (fill_outcome cu ?io)" using c(1) run by simp
          ultimately show ?thesis by blast
        qed
      qed
    qed
  qed
qed

section \<open>The operations\<close>

lemma seek_noop:
  assumes "h_buf io = []" "h_pbuf io = 0" "0 \<le> h_off0 io"
  shows "http_run cu (Call_seek (h_off0 io) SEEK_SET) io = Some (h_off0 io, [], io)"
  using assms by (subst http_run.simps) (simp add: Let_def HTTP_MAX_SKIP_def HTTP_DEF_BUFLEN_def)

text \<open>The state of a reader between its calls, and in the middle of one.\<close>

definition mid_inv :: "'c http_t \<Rightarrow> bool" where
  "mid_inv io \<longleftrightarrow> core io \<and> v_notes (vw io) = [] \<and> 0 \<le> h_total io"

definition http_inv :: "'c http_t \<Rightarrow> bool" where
  "http_inv io \<longleftrightarrow> mid_inv io \<and> (h_buf io = [] \<longrightarrow> h_off0 io = int (length F))"

lemma run_fill_core:
  assumes "core io" "learnt io" "v_notes (vw io) = []" "h_pbuf io = length (h_buf io)"
    and "0 \<le> h_total io \<or> v_at (vw io) \<noteq> None"
  shows "\<exists>ret io'. http_run cu Call_fill io = Some (ret, [], io') \<and> (filled io io' \<and>
    (ret = h_lbuf io' \<and> (h_buf io' = [] \<longrightarrow> h_off0 io' = int (length F)) \<and> 0 \<le> h_total io' \<or>
     ret = FILL_RETRY \<and> (budget io' < budget io \<or> v_at (vw io) = None \<and> v_at (vw io') \<noteq> None)) \<or>
    looks_empty io ret io')"
proof -
  from fill_transfer_ok [OF assms] obtain res where run: "fill_transfer cu io = Some res"
    and res: "case res of
       Inl (ret, io') \<Rightarrow> filled io io' \<and>
         (ret = h_lbuf io' \<and> (h_buf io' = [] \<longrightarrow> h_off0 io' = int (length F)) \<and> 0 \<le> h_total io' \<or>
          ret = -1 \<and> budget io' < budget io) \<or> looks_empty io ret io'
     | Inr (ptr, io') \<Rightarrow> filled io io' \<and> ptr = h_off0 io' \<and> h_buf io' = [] \<and> v_at (vw io') \<noteq> None \<and>
         v_hdrs (vw io') = [] \<and> (budget io' < budget io \<or> v_at (vw io) = None)" by blast
  show ?thesis
  proof (cases res)
    case (Inl y)
    obtain ret c where "y = (ret, c)" by fastforce
    with Inl run res show ?thesis by (subst http_run.simps) (auto simp: FILL_RETRY_def)
  next
    case (Inr y)
    obtain ptr c where y: "y = (ptr, c)" by fastforce
    with Inr res have c: "filled io c" "ptr = h_off0 c" "h_buf c = []" "v_at (vw c) \<noteq> None"
      "budget c < budget io \<or> v_at (vw io) = None" by simp_all
    have "h_pbuf c = 0" "core c" using c(1) by (simp_all add: filled_def)
    note this(1) core_off(1) [OF this(2)]
    from seek_noop [OF c(3) this] have "http_run cu Call_fill io = Some (FILL_RETRY, [], c)"
      using run Inr y c(2) by (subst http_run.simps) simp
    with c show ?thesis by blast
  qed
qed

lemma run_fill:
  assumes "mid_inv io" "h_pbuf io = length (h_buf io)"
  shows "\<exists>ret io'. http_run cu Call_fill io = Some (ret, [], io') \<and> filled io io' \<and>
    (ret = h_lbuf io' \<and> (h_buf io' = [] \<longrightarrow> h_off0 io' = int (length F)) \<or>
     ret = FILL_RETRY \<and> (budget io' < budget io \<or> v_at (vw io) = None \<and> v_at (vw io') \<noteq> None))"
proof -
  from assms(1) have "core io" "learnt io" "v_notes (vw io) = []" "0 \<le> h_total io \<or> v_at (vw io) \<noteq> None"
    by (simp_all add: mid_inv_def learnt_def)
  from run_fill_core [OF this(1-3) assms(2) this(4)] assms(1) show ?thesis
    by (auto simp: mid_inv_def looks_empty_def)
qed

lemma move_pbuf:
  assumes "mid_inv io" "k \<le> length (h_buf io)"
  shows "mid_inv (io\<lparr>h_pbuf := k\<rparr>)"
proof -
  from assms have io: "set_up io" "placed io" "tracked io" by (simp_all add: mid_inv_def core_def)
  then have "set_up (io\<lparr>h_pbuf := k\<rparr>)" "tracked (io\<lparr>h_pbuf := k\<rparr>)" by (simp_all add: set_up_def tracked_def)
  moreover have "placed (io\<lparr>h_pbuf := k\<rparr>)" using io(2) assms(2) by (simp add: placed_def)
  ultimately show ?thesis using assms(1) by (simp add: mid_inv_def core_def)
qed

lemma filled_mid: "mid_inv io \<Longrightarrow> filled io io' \<Longrightarrow> mid_inv io'"
  by (simp add: mid_inv_def filled_def)

lemma pend_split:
  assumes "core io"
  shows "pend io = drop (h_pbuf io) (h_buf io) @ drop (nat (h_off0 io) + length (h_buf io)) F"
proof -
  have "prefix (h_buf io) (drop (nat (h_off0 io)) F)" "h_pbuf io \<le> length (h_buf io)"
    using assms by (simp_all add: core_def placed_def)
  then obtain zs where zs: "drop (nat (h_off0 io)) F = h_buf io @ zs" by (auto simp: prefix_def)
  then have "drop (nat (h_off0 io) + length (h_buf io)) F = zs"
    by (metis add.commute append_eq_drop drop_drop)
  moreover have "pend io = drop (h_pbuf io) (drop (nat (h_off0 io)) F)" by (simp add: pend_def add.commute)
  ultimately show ?thesis using zs \<open>h_pbuf io \<le> length (h_buf io)\<close> by simp
qed

lemma filled_pend:
  assumes "core io" "filled io io'"
  shows "pend io = drop (h_pbuf io) (h_buf io) @ pend io'"
proof -
  have "nat (h_off0 io + h_lbuf io) = nat (h_off0 io) + length (h_buf io)"
    using core_off(1) [OF assms(1)] by (simp add: nat_add_distrib)
  then have "pend io' = drop (nat (h_off0 io) + length (h_buf io)) F"
    using assms(2) by (simp add: pend_def filled_def)
  with pend_split [OF assms(1)] show ?thesis by simp
qed

text \<open>How far the loop of \<^verbatim>\<open>http_read\<close> is from its end when nothing is left to copy.\<close>

definition idle_rank :: "'c http_t \<Rightarrow> nat" where
  "idle_rank io = (if h_pbuf io < length (h_buf io) then 0 else if v_at (vw io) \<noteq> None then 1 else 2)"

lemma read_loop:
  assumes "mid_inv io" "length out + rest = len" "h_buf io = [] \<longrightarrow> rest = 0 \<longrightarrow> h_off0 io = int (length F)"
  shows "\<exists>bs io'. http_run cu (Call_read_loop len rest out) io = Some (int (length out + length bs), out @ bs, io') \<and>
    http_inv io' \<and> pend io = bs @ pend io' \<and> length bs \<le> rest \<and> (length bs < rest \<longrightarrow> pend io' = [])"
  using assms
proof (induction "(rest, io)" arbitrary: rest io out
    rule: wf_induct_rule [OF wf_measures [of "[\<lambda>x. fst x, \<lambda>x. budget (snd x), \<lambda>x. idle_rank (snd x)]"]])
  case (1 rest io out)
  note inv = 1(2) and len = 1(3)
  from inv have core: "core io" by (simp add: mid_inv_def)
  from core have pb: "h_pbuf io \<le> length (h_buf io)" by (simp add: core_def placed_def)
  show ?case
  proof (cases "rest = 0")
    case True
    with inv 1(4) have "http_inv io" by (simp add: http_inv_def)
    with True len show ?thesis by (subst http_run.simps) simp
  next
    case rest: False
    let ?got = "drop (h_pbuf io) (h_buf io)"
    show ?thesis
    proof (cases "h_lbuf io - int (h_pbuf io) \<ge> int rest")
      case True
      let ?io = "io\<lparr>h_pbuf := h_pbuf io + rest\<rparr>"
      have enough: "rest \<le> length ?got" using True pb by simp
      have "pend ?io = drop rest (pend io)" by (simp add: pend_def ac_simps)
      moreover have "take rest ?got = take rest (pend io)" using pend_split [OF core] enough by simp
      ultimately have "pend io = take rest ?got @ pend ?io" by simp
      moreover have "mid_inv ?io" using True by (intro move_pbuf [OF inv]) linarith
      with enough rest have "http_inv ?io" by (auto simp: http_inv_def)
      moreover have "http_run cu (Call_read_loop len rest out) io = Some (int len, out @ take rest ?got, ?io)"
        using True rest by (subst http_run.simps) simp
      ultimately show ?thesis using enough len by (intro exI [of _ "take rest ?got"] exI [of _ ?io]) simp
    next
      case False
      let ?io = "io\<lparr>h_pbuf := length (h_buf io)\<rparr>"
      have io: "mid_inv ?io" using move_pbuf [OF inv order.refl] .
      from run_fill [OF io] obtain ret io1 where fill: "http_run cu Call_fill ?io = Some (ret, [], io1)"
        and f: "filled ?io io1"
        and ret: "ret = h_lbuf io1 \<and> (h_buf io1 = [] \<longrightarrow> h_off0 io1 = int (length F)) \<or>
          ret = FILL_RETRY \<and> (budget io1 < budget ?io \<or> v_at (vw ?io) = None \<and> v_at (vw io1) \<noteq> None)" by auto
      have mid1: "mid_inv io1" by (rule filled_mid [OF io f])
      have f0: "filled io io1" using f by (simp add: filled_def budget_def)
      note p = filled_pend [OF core f0]
      have few: "length ?got < rest" using False pb by simp
      have bud: "budget io1 \<le> budget io" "budget ?io = budget io" using f0 by (simp_all add: filled_def budget_def)
      show ?thesis
      proof (cases "ret > 0 \<or> ret = FILL_RETRY")
        case True
        have "((rest - length ?got, io1), (rest, io)) \<in>
          measures [\<lambda>x. fst x, \<lambda>x. budget (snd x), \<lambda>x. idle_rank (snd x)]"
        proof (cases "?got = []")
          case True
          then have used: "\<not> h_pbuf io < length (h_buf io)" by simp
          have "budget io1 < budget io \<or> idle_rank io1 < idle_rank io"
            using ret \<open>ret > 0 \<or> ret = FILL_RETRY\<close> f0 used bud unfolding idle_rank_def
            by (auto simp: filled_def FILL_RETRY_def split: if_splits)
          with True bud rest show ?thesis by auto
        next
          case False
          then have "0 < length ?got" by (rule length_greater_0_conv [THEN iffD2])
          with rest have "rest - length ?got < rest" by linarith
          then show ?thesis by (simp del: length_drop)
        qed
        moreover have "length (out @ ?got) + (rest - length ?got) = len" using len few by simp
        moreover have "h_buf io1 = [] \<longrightarrow> rest - length ?got = 0 \<longrightarrow> h_off0 io1 = int (length F)" using few by simp
        ultimately obtain bs io' where more:
          "http_run cu (Call_read_loop len (rest - length ?got) (out @ ?got)) io1 =
            Some (int (length (out @ ?got) + length bs), (out @ ?got) @ bs, io')"
          "http_inv io'" "pend io1 = bs @ pend io'" "length bs \<le> rest - length ?got"
          "length bs < rest - length ?got \<longrightarrow> pend io' = []"
          using 1(1) [of "rest - length ?got" io1 "out @ ?got"] mid1 by blast
        have "http_run cu (Call_read_loop len rest out) io =
            http_run cu (Call_read_loop len (rest - length ?got) (out @ ?got)) io1"
          using rest False fill True by (subst http_run.simps) (simp add: Let_def)
        with more p few show ?thesis by (intro exI [of _ "?got @ bs"] exI [of _ io']) auto
      next
        case False
        with ret have fin: "ret = 0" "h_buf io1 = []" "h_off0 io1 = int (length F)" by (auto simp: FILL_RETRY_def)
        have "http_run cu (Call_read_loop len rest out) io = Some (int len - int (rest - length ?got), out @ ?got, io1)"
          using rest \<open>\<not> int rest \<le> h_lbuf io - int (h_pbuf io)\<close> fill fin(1)
          by (subst http_run.simps) (simp add: Let_def FILL_FINISHED_def FILL_RETRY_def)
        moreover have "int len - int (rest - length ?got) = int (length out + length ?got)" using len few by linarith
        moreover have "pend io1 = []" "http_inv io1"
          using fin(2,3) mid1 by (simp_all add: pend_def http_inv_def)
        ultimately show ?thesis using p few by (intro exI [of _ ?got] exI [of _ io1]) simp
      qed
    qed
  qed
qed

lemma read_exact:
  assumes "http_inv io"
  shows "\<exists>bs io'. http_read cu io a n = Some (int (length bs), bs, io') \<and> http_inv io' \<and>
    pend io = bs @ pend io' \<and> length bs \<le> n \<and> (length bs < n \<longrightarrow> pend io' = [])"
proof (cases "h_buf io = []")
  case True
  with assms have "pend io = []" by (simp add: pend_def http_inv_def)
  with True assms show ?thesis by (simp add: http_read_def)
next
  case False
  from assms have "mid_inv io" by (simp add: http_inv_def)
  from read_loop [OF this, of "[]" n n] False show ?thesis by (auto simp: http_read_def)
qed

lemma read_everything:
  assumes "http_inv io" "0 < n"
  shows "\<exists>io'. read_all (http_read cu) a n io acc = Some (0, acc @ pend io, io')"
  using assms(1)
proof (induction "length (pend io)" arbitrary: io acc rule: less_induct)
  case less
  from read_exact [OF less.prems, of a n] obtain bs io' where r: "http_read cu io a n = Some (int (length bs), bs, io')"
    "http_inv io'" "pend io = bs @ pend io'" "length bs < n \<longrightarrow> pend io' = []" by blast
  show ?case
  proof (cases "bs = []")
    case True
    with r assms(2) show ?thesis by (subst read_all.simps) simp
  next
    case False
    with r(3) have "length (pend io') < length (pend io)" by simp
    from less.hyps [OF this r(2), of "acc @ bs"] r False show ?thesis
      by (subst read_all.simps) simp
  qed
qed

lemma read_one:
  assumes "http_inv io"
  shows "read_outcome http_inv pend io n (http_read cu io a n)"
proof -
  from read_exact [OF assms] obtain bs io' where r: "http_read cu io a n = Some (int (length bs), bs, io')"
    "http_inv io'" "pend io = bs @ pend io'" "length bs \<le> n" "length bs < n \<longrightarrow> pend io' = []" by blast
  have "bs = [] \<Longrightarrow> n = 0 \<or> pend io = []" using r by auto
  with r show ?thesis
    by (intro read_outcome_data [where r = "int (length bs)" and bs = bs and s' = io']) simp_all
qed

section \<open>Seeking\<close>

text \<open>A seek to a place in the file comes back with that place and everything from there on still to
  come, or with \<open>-1\<close> and an empty buffer, which later reads take for the end of the file. It can fail
  only when it makes a new request: for a place behind, or more than 64 KiB ahead.\<close>

lemma seek_ok:
  assumes "http_inv io" "0 \<le> to" "to \<le> int (length F)"
  shows "\<exists>r io'. http_seek cu io to SEEK_SET = Some (r, io') \<and>
    (r = to \<and> http_inv io' \<and> pend io' = drop (nat to) F \<or>
     r = -1 \<and> h_buf io' = [] \<and> (to < http_tell io \<or> http_tell io + HTTP_MAX_SKIP < to) \<and>
       (to = int (length F) \<or> budget io' < budget io))"
proof -
  from assms(1) have mid: "mid_inv io" and core: "core io" by (simp_all add: http_inv_def mid_inv_def)
  note off = core_off [OF core]
  have pb: "h_pbuf io \<le> length (h_buf io)" using core by (simp add: core_def placed_def)
  let ?cur = "h_off0 io + int (h_pbuf io)"
  consider (inside) "?cur \<le> to" "to - ?cur + int (h_pbuf io) < h_lbuf io"
    | (far) "\<not> (?cur \<le> to \<and> to - ?cur + int (h_pbuf io) < h_lbuf io)" "to < ?cur \<or> to - ?cur > HTTP_MAX_SKIP"
    | (near) "\<not> (?cur \<le> to \<and> to - ?cur + int (h_pbuf io) < h_lbuf io)" "\<not> (to < ?cur \<or> to - ?cur > HTTP_MAX_SKIP)"
    by blast
  then show ?thesis
  proof cases
    case inside
    let ?io = "io\<lparr>h_pbuf := h_pbuf io + nat (to - ?cur)\<rparr>"
    have le: "h_pbuf io + nat (to - ?cur) < length (h_buf io)" using inside by linarith
    then have "mid_inv ?io" by (intro move_pbuf [OF mid]) simp
    with le have "http_inv ?io" by (auto simp: http_inv_def)
    moreover have "nat (h_off0 io) + (h_pbuf io + nat (to - ?cur)) = nat to" using inside off by linarith
    then have "pend ?io = drop (nat to) F" by (simp add: pend_def)
    moreover have "http_seek cu io to SEEK_SET = Some (to, ?io)"
      using inside assms(2) by (simp add: http_seek_def http_run.simps Let_def)
    ultimately show ?thesis by blast
  next
    case far
    let ?io = "io\<lparr>h_off0 := to, h_done := False\<rparr>"
    have b: "base ?io" using core mid assms(2,3)
      by (auto simp: base_def core_def set_up_def tracked_def mid_inv_def split: if_splits)
    from prepare_ok [OF b] obtain c where p: "prepare cu ?io = (0, (set_net c ?io)\<lparr>h_pbuf := 0, h_buf := []\<rparr>)"
      and v: "view c = (vw io)\<lparr>v_at := Some (nat to), v_notes := [], v_from := to, v_start := to\<rparr>"
      and core1: "core ((set_net c ?io)\<lparr>h_pbuf := 0, h_buf := []\<rparr>)" by auto
    let ?io1 = "(set_net c ?io)\<lparr>h_pbuf := 0, h_buf := []\<rparr>"
    have "mid_inv ?io1" using core1 v mid by (simp add: mid_inv_def)
    from run_fill [OF this] obtain ret io2 where fill: "http_run cu Call_fill ?io1 = Some (ret, [], io2)"
      and f: "filled ?io1 io2"
      and ret: "ret = h_lbuf io2 \<and> (h_buf io2 = [] \<longrightarrow> h_off0 io2 = int (length F)) \<or>
        ret = FILL_RETRY \<and> (budget io2 < budget ?io1 \<or> v_at (vw ?io1) = None \<and> v_at (vw io2) \<noteq> None)" by auto
    have bud: "budget ?io1 = budget io" using v by (simp add: budget_def)
    have off2: "h_off0 io2 = to" "h_pbuf io2 = 0" using f by (simp_all add: filled_def)
    have seek: "http_seek cu io to SEEK_SET =
        Some (if ret \<le> 0 then (-1, io2\<lparr>h_buf := [], h_pbuf := 0\<rparr>) else (to, io2))"
      using far assms(2) p fill by (auto simp: http_seek_def http_run.simps [of cu "Call_seek to SEEK_SET"] Let_def)
    show ?thesis
    proof (cases "ret \<le> 0")
      case True
      with ret v off2 bud have "to = int (length F) \<or> budget io2 < budget io" by (auto simp: FILL_RETRY_def)
      with True seek far show ?thesis by (auto simp: http_tell_def budget_def)
    next
      case False
      with ret have "h_buf io2 \<noteq> []" by (auto simp: FILL_RETRY_def)
      with filled_mid [OF \<open>mid_inv ?io1\<close> f] have "http_inv io2" by (simp add: http_inv_def)
      moreover have "pend io2 = drop (nat to) F" using off2 by (simp add: pend_def)
      ultimately show ?thesis using seek False by simp
    qed
  next
    case near
    let ?n = "nat (to - ?cur)"
    have n: "int ?n = to - ?cur" using near by simp
    have len: "?n \<le> length (pend io)" using n assms(3) off pb by (simp add: pend_def)
    have at_to: "nat (h_off0 io) + h_pbuf io + ?n = nat to" using n off by linarith
    from read_exact [OF assms(1), of 0 ?n] obtain bs io1 where r: "http_read cu io 0 ?n = Some (int (length bs), bs, io1)"
      "http_inv io1" "pend io = bs @ pend io1" "length bs \<le> ?n" "length bs < ?n \<longrightarrow> pend io1 = []" by blast
    then have "length bs = ?n" using len by (cases "length bs < ?n") auto
    then have "int (length bs) + ?cur = to" "pend io1 = drop ?n (pend io)" using n r(3) by simp_all
    moreover have "drop ?n (pend io) = drop (nat to) F" using at_to by (simp add: pend_def add.commute)
    moreover have "http_run cu (Call_seek to SEEK_SET) io = Some (to, [], io1)"
    proof -
      have "(if h_buf io = [] then Some (0, [], io) else http_run cu (Call_read_loop ?n ?n []) io) =
          Some (int (length bs), bs, io1)" using r(1) by (simp add: http_read_def)
      with near assms(2) \<open>int (length bs) + ?cur = to\<close> show ?thesis
        by (subst http_run.simps) (simp only: http_call.case Let_def, auto split: if_splits)
    qed
    ultimately show ?thesis using r(2) by (simp add: http_seek_def)
  qed
qed

lemma tell_pend:
  assumes "http_inv io" "pend io = drop (nat k) F" "0 \<le> k" "k \<le> int (length F)"
  shows "http_tell io = k"
proof -
  have core: "core io" using assms(1) by (simp add: http_inv_def mid_inv_def)
  then have "h_pbuf io \<le> length (h_buf io)" by (simp add: core_def placed_def)
  with core_off [OF core] have "nat (h_off0 io) + h_pbuf io \<le> length F" "0 \<le> h_off0 io" by linarith+
  moreover from assms(2) have "length F - (nat (h_off0 io) + h_pbuf io) = length F - nat k"
    by (metis length_drop pend_def)
  ultimately have "nat (h_off0 io) + h_pbuf io = nat k" using assms(4) by linarith
  with \<open>0 \<le> h_off0 io\<close> assms(3) show ?thesis by (simp add: http_tell_def)
qed

section \<open>Opening and closing\<close>

lemma close_ok:
  assumes "set_up io"
  shows "\<exists>io'. http_close cu io = Some io' \<and> cg_ok (h_env io') \<and>
    cg_init_cnt (h_env io') = cg_init_cnt (h_env io) - 1"
proof -
  let ?io = "set_net (cu_cleanup cu (cu_remove cu (h_net io))) io"
  have "cg_ok (h_env ?io)" "0 < cg_init_cnt (h_env ?io)" using assms by (simp_all add: set_up_def)
  from global_cleanup_ok [OF this] obtain g' where "curl_helper_safe_global_cleanup (h_env ?io) = Some g'" "cg_ok g'"
    "cg_init_cnt g' = cg_init_cnt (h_env io) - 1" by auto
  then show ?thesis by (simp add: http_close_def Let_def)
qed

lemma steady_waits: "steady \<Longrightarrow> \<not> select_fails_early cu view"
  using select by (force simp: select_fails_early_def)

lemma append_hdrs_all: "append_hdrs cu l hs = Some l' \<Longrightarrow> l' = l @ hs"
  by (induction hs arbitrary: l) (fastforce simp: bind_eq_Some_conv dest: slist)+

lemma open_hdrs_ok:
  assumes "cg_ok g" "\<not> v_known (view (cg_net g))" "accepts hdrs"
  shows "\<exists>res. http_open_hdrs cu mem g url hdrs = Some res \<and>
    (case res of Inl g' \<Rightarrow> cg_ok g' \<and> (mem \<and> append_hdrs cu [] hdrs \<noteq> None \<longrightarrow> 0 < v_budget (view (cg_net g)))
     | Inr io \<Rightarrow> http_inv io \<and> pend io = F \<and> http_tell io = 0 \<or>
         select_fails_early cu view \<and> 0 < v_budget (view (cg_net g)) \<and> h_buf io = [])"
proof (cases mem)
  case False
  with assms show ?thesis by (simp add: http_open_hdrs_def)
next
  case mem: True
  define io0 where "io0 = init_io cu \<lparr>h_env = g, h_handles = False, h_buf = [], h_off0 = 0, h_total = -1,
    h_url = url, h_mbuf = 0, h_pbuf = 0, h_done = False\<rparr>"
  define g1 where "g1 = curl_helper_safe_global_init g"
  have g1: "cg_ok g1" "0 < cg_init_cnt g1" "cg_net g1 = cg_net g"
    using global_init_ok [OF assms(1)] assms(1) by (simp_all add: g1_def cg_ok_def)
  have io0: "h_handles io0" "h_url io0 = url" "h_mbuf io0 = int (cu_max_write cu) * 2" "h_off0 io0 = 0"
    "h_total io0 = -1" "h_done io0 = False" "h_env io0 = g1\<lparr>cg_net := cu_init cu (cg_net g1) url\<rparr>"
    by (simp_all add: io0_def init_io_def Let_def set_net_def g1_def)
  show ?thesis
  proof (cases "fst (process_hdrs cu hdrs io0) = 0")
    case False
    then have l: "append_hdrs cu [] hdrs = None" and h: "process_hdrs cu hdrs io0 = (-1, io0)"
      by (auto simp: process_hdrs_def split: if_splits option.splits)
    have "set_up io0" using g1 io0 by (simp add: set_up_def cg_ok_def)
    from close_ok [OF this] obtain io1 where "http_close cu io0 = Some io1" "cg_ok (h_env io1)" by blast
    then show ?thesis using mem l h by (simp add: http_open_hdrs_def io0_def [symmetric])
  next
    case True
    then obtain io1 where h: "process_hdrs cu hdrs io0 = (0, io1)" by (metis prod.collapse)
    then have io1: "io1 = io0 \<or> (\<exists>l. io1 = set_net (cu_headers cu (h_net io0) l) io0)"
      by (auto simp: process_hdrs_def split: if_splits option.splits)
    have hd: "v_hdrs (vw io1) = hdrs"
      using h io0(7) append_hdrs_all [of "[]" hdrs]
      by (auto simp: process_hdrs_def headers init split: if_splits option.splits)
    have b: "base io1" "h_off0 io1 = 0" "h_done io1 = False" "h_total io1 = -1"
    proof -
      have u: "h_handles io1" "h_url io1 = url" "h_mbuf io1 = int (cu_max_write cu) * 2" "cg_ok (h_env io1)"
        "0 < cg_init_cnt (h_env io1)" using io1 g1 io0 by (auto simp: cg_ok_def set_net_def)
      show r: "h_off0 io1 = 0" "h_done io1 = False" "h_total io1 = -1" using io1 io0 by (auto simp: set_net_def)
      show "base io1" using u r hd assms(3) by (simp add: base_def)
    qed
    have v0: "v_known (vw io1) = v_known (view (cg_net g))" "v_budget (vw io1) = v_budget (view (cg_net g))"
      using io1 io0(7) g1(3) by (auto simp: init headers set_net_def)
    from prepare_ok [OF b(1)] b(2,3) obtain c where p: "prepare cu io1 = (0, (set_net c io1)\<lparr>h_pbuf := 0, h_buf := []\<rparr>)"
      and v: "view c = (vw io1)\<lparr>v_at := Some (nat (h_off0 io1)), v_notes := [], v_from := h_off0 io1, v_start := h_off0 io1\<rparr>"
      and core: "core ((set_net c io1)\<lparr>h_pbuf := 0, h_buf := []\<rparr>)" by auto
    let ?io = "(set_net c io1)\<lparr>h_pbuf := 0, h_buf := []\<rparr>"
    have "learnt ?io" "v_notes (vw ?io) = []" "h_pbuf ?io = length (h_buf ?io)" "v_at (vw ?io) \<noteq> None"
      using v v0 b assms(2) by (simp_all add: learnt_def)
    from run_fill_core [OF core this(1-3)] this(4) obtain ret io2 where fill: "http_run cu Call_fill ?io = Some (ret, [], io2)"
      and ret: "filled ?io io2 \<and> (ret = h_lbuf io2 \<and> (h_buf io2 = [] \<longrightarrow> h_off0 io2 = int (length F)) \<and> 0 \<le> h_total io2 \<or>
        ret = FILL_RETRY \<and> budget io2 < budget ?io) \<or> looks_empty ?io ret io2"
      by auto
    have opened: "http_open_hdrs cu mem g url hdrs =
        (if ret < 0 then do { io \<leftarrow> http_close cu io2; Some (Inl (h_env io)) } else Some (Inr io2))"
      using mem h p fill by (simp add: http_open_hdrs_def io0_def [symmetric] fill_buffer_def Let_def)
    show ?thesis
    proof (cases "ret < 0")
      case True
      with ret have f: "filled ?io io2" by (auto simp: looks_empty_def)
      then have "set_up io2" by (simp add: filled_def core_def)
      from close_ok [OF this] obtain io3 where "http_close cu io2 = Some io3" "cg_ok (h_env io3)" by blast
      moreover have "0 < v_budget (view (cg_net g))" using ret True v v0 by (auto simp: budget_def looks_empty_def)
      ultimately show ?thesis using opened True by simp
    next
      case ok: False
      show ?thesis
      proof (cases "looks_empty ?io ret io2")
        case True
        then have "select_fails_early cu view \<and> 0 < v_budget (view (cg_net g)) \<and> h_buf io2 = []"
          using v v0 by (auto simp: looks_empty_def budget_def)
        with opened ok show ?thesis by simp
      next
        case False
        with ret have f: "filled ?io io2" by blast
        with ret ok False have "http_inv io2" by (auto simp: http_inv_def mid_inv_def filled_def FILL_RETRY_def)
        moreover have "pend io2 = F" "http_tell io2 = 0" using f b(2) by (simp_all add: pend_def filled_def http_tell_def)
        ultimately show ?thesis using opened ok by simp
      qed
    qed
  qed
qed

lemma open_ok:
  assumes "cg_ok g" "\<not> v_known (view (cg_net g))" "accepts []"
  shows "\<exists>res. http_open cu mem g url = Some res \<and>
    (case res of Inl g' \<Rightarrow> cg_ok g' \<and> (mem \<longrightarrow> 0 < v_budget (view (cg_net g)))
     | Inr io \<Rightarrow> http_inv io \<and> pend io = F \<and> http_tell io = 0 \<or>
         select_fails_early cu view \<and> 0 < v_budget (view (cg_net g)) \<and> h_buf io = [])"
  using open_hdrs_ok [OF assms, of mem] by (auto simp: http_open_def split: sum.splits)

end

sublocale http_server \<subseteq> rd: reader "http_read cu" http_inv pend any_size
  by (rule readerI) (rule read_one)

end
