(* ===== verification/Http_Files.thy ===== *)
theory Http_Files
  imports Http_Fill
begin

text \<open>
  What reading over HTTP amounts to: the file is read whole over broken transfers, seeking goes
  where it says or fails, and the ways in which the reader goes wrong. A small network that stalls,
  breaks off and cuts its deliveries by a plan keeps the contract of libcurl.
\<close>

section \<open>A network with a plan\<close>

datatype hiccup = Stall | Break | Piece nat

record demo_net =
  dn_at :: "nat option"
  dn_from :: int
  dn_start :: int
  dn_notes :: "curl_code list"
  dn_hdrs :: "string list"
  dn_known :: bool
  dn_plan :: "hiccup list"

definition demo_offer :: "byte list \<Rightarrow> nat \<Rightarrow> nat \<Rightarrow> demo_net \<Rightarrow> demo_net curl_event" where
  "demo_offer F p n c =
     (if F = [] then CURL_writes [] (\<lambda>r. CURL_returns CURLM_OK 0
        (c\<lparr>dn_at := None, dn_notes := [CURLE_OK], dn_known := True\<rparr>))
      else if length F \<le> p then CURL_returns CURLM_OK 0 (c\<lparr>dn_at := None, dn_notes := [CURLE_OK], dn_known := True\<rparr>)
      else CURL_writes (take n (drop p F)) (\<lambda>r. case r of
          Wrote k \<Rightarrow> CURL_returns CURLM_OK 1 (c\<lparr>dn_at := Some (p + k), dn_known := True\<rparr>)
        | CURL_WRITEFUNC_PAUSE \<Rightarrow> CURL_returns CURLM_OK 1 c))"

definition demo_perform :: "byte list \<Rightarrow> demo_net \<Rightarrow> demo_net curl_event" where
  "demo_perform F c =
     (case dn_at c of
        None \<Rightarrow> CURL_returns CURLM_OK 0 c
      | Some p \<Rightarrow>
          (case dn_plan c of
             [] \<Rightarrow> demo_offer F p 16384 c
           | Stall # ps \<Rightarrow> CURL_returns CURLM_OK 1 (c\<lparr>dn_plan := ps\<rparr>)
           | Break # ps \<Rightarrow> CURL_returns CURLM_OK 0 (c\<lparr>dn_at := None, dn_notes := [CURLE_PARTIAL_FILE], dn_plan := ps\<rparr>)
           | Piece n # ps \<Rightarrow> demo_offer F p (min 16384 (Suc n)) (c\<lparr>dn_plan := ps\<rparr>)))"

definition demo_curl :: "byte list \<Rightarrow> demo_net curl" where
  "demo_curl F = \<lparr>cu_max_write = 16384,
     cu_init = (\<lambda>c u. c\<lparr>dn_at := None, dn_notes := [], dn_hdrs := []\<rparr>),
     cu_cleanup = (\<lambda>c. c\<lparr>dn_at := None, dn_notes := []\<rparr>),
     cu_slist_append = (\<lambda>l h. Some (l @ [h])),
     cu_headers = (\<lambda>c hs. c\<lparr>dn_hdrs := hs\<rparr>),
     cu_remove = (\<lambda>c. c\<lparr>dn_at := None, dn_notes := []\<rparr>),
     cu_resume = (\<lambda>c k. c\<lparr>dn_from := k\<rparr>),
     cu_add = (\<lambda>c. (0, c\<lparr>dn_at := Some (nat (dn_from c)), dn_start := dn_from c\<rparr>)),
     cu_timeout = (\<lambda>c. (CURLM_OK, 0, c)),
     cu_fdset = (\<lambda>c. (CURLM_OK, 3, c)),
     cu_select = (\<lambda>c t. (1, c)),
     cu_pause = (\<lambda>c. CURL_returns 0 0 c),
     cu_perform = demo_perform F,
     cu_length = (\<lambda>c. if dn_known c then int (length F) - dn_start c else -1),
     cu_msg = (\<lambda>c. case dn_notes c of [] \<Rightarrow> (None, c) | m # ms \<Rightarrow> (Some m, c\<lparr>dn_notes := ms\<rparr>))\<rparr>"

definition demo_view :: "demo_net \<Rightarrow> net_view" where
  "demo_view c = \<lparr>v_at = dn_at c, v_from = dn_from c, v_start = dn_start c, v_notes = dn_notes c,
     v_hdrs = dn_hdrs c, v_known = dn_known c, v_budget = length (dn_plan c)\<rparr>"

lemma demo_offer_ok:
  assumes "v_at v = Some p" "0 < n" "n \<le> 16384" "dn_at c = Some p" "dn_notes c = []"
    and "carried v p p (demo_view c)" "p \<le> length F"
  shows "delivers (\<lambda>p' paused rc n c'. performed steady v (length F) p p' paused rc n (demo_view c'))
    F 16384 (demo_offer F p n c) p False"
proof (cases "length F \<le> p")
  case True
  with assms show ?thesis
    by (simp add: demo_offer_def performed_def carried_def demo_view_def CURLM_OK_def)
next
  case False
  then have "take n (drop p F) \<noteq> []" "F \<noteq> []" "min (length F - p) n \<le> 16384" using assms(2,3) by auto
  with False assms show ?thesis
    by (simp add: demo_offer_def performed_def carried_def demo_view_def CURLM_OK_def take_is_prefix)
qed

lemma demo_perform_ok:
  assumes "dn_at c = Some p" "dn_notes c = []" "p \<le> length F"
  shows "delivers (\<lambda>p' paused rc n c'. performed False (demo_view c) (length F) p p' paused rc n (demo_view c'))
    F 16384 (demo_perform F c) p False"
proof (cases "dn_plan c")
  case Nil
  with assms demo_offer_ok [of "demo_view c" p 16384 c F] show ?thesis
    by (simp add: demo_perform_def carried_def demo_view_def)
next
  case (Cons e ps)
  show ?thesis
  proof (cases e)
    case (Piece n)
    with Cons assms demo_offer_ok [of "demo_view c" p "min 16384 (Suc n)" "c\<lparr>dn_plan := ps\<rparr>" F] show ?thesis
      by (simp add: demo_perform_def carried_def demo_view_def)
  qed (use Cons assms in \<open>simp_all add: demo_perform_def performed_def carried_def demo_view_def CURLM_OK_def\<close>)
qed

interpretation demo_http: http_server "demo_curl F" F url demo_view "\<lambda>_. True" False for F url
proof (unfold_locales, goal_cases)
  case prems: (14 c p)
  then have "delivers (\<lambda>p' paused rc n c'. performed False (demo_view c) (length F) p p' paused rc n (demo_view c'))
    F 16384 (demo_perform F c) p False" by (intro demo_perform_ok) (simp_all add: demo_view_def)
  then show ?case by (simp add: demo_curl_def)
qed (auto simp: demo_curl_def demo_view_def calm_refl CURLM_OK_def demo_perform_def carried_def split: list.splits)

section \<open>Reading the file\<close>

text \<open>A wait that fails before the length is known leaves a reader with nothing in its buffer, and
  every read takes that for the end of the file.\<close>

lemma empty_reader:
  assumes "h_buf io = []"
  shows "read_all (http_read cu) a n io [] = Some (0, [], io)"
  using assms by (subst read_all.simps) (simp add: http_read_def)

text \<open>C18: over a server that gives the file to requests without headers, announces its length and keeps
  the contract of libcurl, with transfers that stall, are cut to pieces and break off any finite number
  of times, opening comes back, failing only for want of memory or of the network, and what reading
  with any non-empty requests then gives is exactly the file, with a clean end; or nothing at all,
  with a clean end too, which needs a \<^verbatim>\<open>select(2)\<close> that fails before the length is known
  (\<open>http_signal_looks_empty\<close> shows that it does happen then).\<close>

theorem http_reads_file:
  assumes "http_server cu F url view accepts steady" "accepts []"
    and "cg_ok g" "\<not> v_known (view (cg_net g))" "0 < n"
  shows "\<exists>res. http_open cu mem g url = Some res \<and>
    (case res of Inl g' \<Rightarrow> cg_ok g' \<and> (mem \<longrightarrow> 0 < v_budget (view (cg_net g)))
     | Inr io \<Rightarrow> \<exists>bs io'. read_all (wandio_read (http_source cu)) a n io [] = Some (0, bs, io') \<and>
         (bs = F \<or> bs = [] \<and> select_fails_early cu view \<and> 0 < v_budget (view (cg_net g))))"
proof -
  from http_server.open_ok [OF assms(1,3,4,2), of mem] obtain res where res: "http_open cu mem g url = Some res"
    "case res of Inl g' \<Rightarrow> cg_ok g' \<and> (mem \<longrightarrow> 0 < v_budget (view (cg_net g)))
      | Inr io \<Rightarrow> http_server.http_inv cu F url view accepts steady io \<and> http_server.pend F io = F \<and> http_tell io = 0 \<or>
          select_fails_early cu view \<and> 0 < v_budget (view (cg_net g)) \<and> h_buf io = []" by blast
  have src: "wandio_read (http_source cu) = http_read cu" by (simp add: wandio_read_def http_source_def fun_eq_iff)
  show ?thesis
  proof (cases res)
    case (Inl g')
    with res show ?thesis by simp
  next
    case (Inr io)
    with res http_server.read_everything [OF assms(1) _ assms(5), of io a "[]"] empty_reader [of io cu a n]
    show ?thesis by (auto simp: src)
  qed
qed

definition demo_start :: "hiccup list \<Rightarrow> demo_net curl_global" where
  "demo_start plan = \<lparr>cg_init_cnt = 0, cg_ready = False,
     cg_net = \<lparr>dn_at = None, dn_from = 0, dn_start = 0, dn_notes = [], dn_hdrs = [], dn_known = False,
       dn_plan = plan\<rparr>\<rparr>"

lemma demo_start_ok: "cg_ok (demo_start plan)" "\<not> v_known (demo_view (cg_net (demo_start plan)))"
  "v_budget (demo_view (cg_net (demo_start plan))) = length plan"
  by (simp_all add: demo_start_def cg_ok_def demo_view_def)

lemma demo_patient: "\<not> select_fails_early (demo_curl F) demo_view"
  by (simp add: select_fails_early_def demo_curl_def)

abbreviation demo_text :: "byte list" where
  "demo_text \<equiv> [72, 84, 84, 80, 33]"

theorem http_reads_file_witness:
  "(\<forall>plan. \<exists>res. http_open (demo_curl demo_text) True (demo_start plan) ''http://a/b'' = Some res \<and>
     (case res of
        Inl g' \<Rightarrow> cg_ok g' \<and> plan \<noteq> []
      | Inr io \<Rightarrow> \<exists>io'. read_all (wandio_read (http_source (demo_curl demo_text))) 0 2 io [] =
          Some (0, demo_text, io'))) \<and>
   (\<exists>io io'. http_open (demo_curl demo_text) True (demo_start []) ''http://a/b'' = Some (Inr io) \<and>
     read_all (wandio_read (http_source (demo_curl demo_text))) 0 2 io [] = Some (0, demo_text, io'))"
proof -
  note srv = demo_http.http_server_axioms [of demo_text "''http://a/b''"]
  have main: "\<exists>res. http_open (demo_curl demo_text) True (demo_start plan) ''http://a/b'' = Some res \<and>
     (case res of
        Inl g' \<Rightarrow> cg_ok g' \<and> plan \<noteq> []
      | Inr io \<Rightarrow> \<exists>io'. read_all (wandio_read (http_source (demo_curl demo_text))) 0 2 io [] =
          Some (0, demo_text, io'))" for plan
  proof -
    have "(0 :: nat) < 2" by simp
    from http_reads_file [OF srv TrueI demo_start_ok(1,2) [of plan] this, of True 0]
    obtain res where "http_open (demo_curl demo_text) True (demo_start plan) ''http://a/b'' = Some res"
      "case res of Inl g' \<Rightarrow> cg_ok g' \<and> (True \<longrightarrow> 0 < v_budget (demo_view (cg_net (demo_start plan))))
       | Inr io \<Rightarrow> \<exists>bs io'. read_all (wandio_read (http_source (demo_curl demo_text))) 0 2 io [] = Some (0, bs, io') \<and>
         (bs = demo_text \<or> bs = [] \<and> select_fails_early (demo_curl demo_text) demo_view \<and>
           0 < v_budget (demo_view (cg_net (demo_start plan))))" by blast
    then show ?thesis by (cases res) (auto simp: demo_start_ok demo_patient)
  qed
  from main [of "[]"] obtain res where
    res: "http_open (demo_curl demo_text) True (demo_start []) ''http://a/b'' = Some res"
      "case res of Inl g' \<Rightarrow> False
       | Inr io \<Rightarrow> \<exists>io'. read_all (wandio_read (http_source (demo_curl demo_text))) 0 2 io [] =
           Some (0, demo_text, io')" by (metis (no_types, lifting) old.sum.simps(5,6) sum.exhaust)
  then have "\<exists>io io'. http_open (demo_curl demo_text) True (demo_start []) ''http://a/b'' = Some (Inr io) \<and>
     read_all (wandio_read (http_source (demo_curl demo_text))) 0 2 io [] = Some (0, demo_text, io')"
    by (cases res) auto
  with main show ?thesis by blast
qed

section \<open>Seeking\<close>

text \<open>C32: a seek to a place of the file either returns it, and what is read from then on is the file
  from there, or returns \<open>-1\<close>, and then every read takes the file for ended. It can fail only by
  making a new request (back, or more than 64 KiB ahead), and only at the very end of the file or
  for a failure of the network; so it moves to the end of the file from near and not from afar.\<close>

theorem http_seek_goes_there:
  assumes "http_server cu F url view accepts steady" "http_server.http_inv cu F url view accepts steady io"
    and "0 \<le> k" "k \<le> int (length F)" "0 < n"
  shows "\<exists>r io1 io2. http_seek cu io k SEEK_SET = Some (r, io1) \<and>
    (r = k \<and> http_tell io1 = k \<and> read_all (http_read cu) a n io1 [] = Some (0, drop (nat k) F, io2) \<or>
     r = -1 \<and> (k < http_tell io \<or> http_tell io + HTTP_MAX_SKIP < k) \<and>
       (k = int (length F) \<or> v_budget (view (h_net io1)) < v_budget (view (h_net io))) \<and>
       read_all (http_read cu) a n io1 [] = Some (0, [], io2))"
proof -
  from http_server.seek_ok [OF assms(1-4)] obtain r io1 where seek: "http_seek cu io k SEEK_SET = Some (r, io1)"
    and r: "r = k \<and> http_server.http_inv cu F url view accepts steady io1 \<and> http_server.pend F io1 = drop (nat k) F \<or>
      r = -1 \<and> h_buf io1 = [] \<and> (k < http_tell io \<or> http_tell io + HTTP_MAX_SKIP < k) \<and>
       (k = int (length F) \<or> http_server.budget view io1 < http_server.budget view io)" by blast
  from r show ?thesis
  proof
    assume good: "r = k \<and> http_server.http_inv cu F url view accepts steady io1 \<and> http_server.pend F io1 = drop (nat k) F"
    with http_server.read_everything [OF assms(1) _ assms(5), of io1 a "[]"]
    obtain io2 where "read_all (http_read cu) a n io1 [] = Some (0, drop (nat k) F, io2)" by auto
    moreover have "http_tell io1 = k"
      using http_server.tell_pend [OF assms(1)] good assms(3,4) by simp
    ultimately show ?thesis using seek good by blast
  next
    assume bad: "r = -1 \<and> h_buf io1 = [] \<and> (k < http_tell io \<or> http_tell io + HTTP_MAX_SKIP < k) \<and>
       (k = int (length F) \<or> http_server.budget view io1 < http_server.budget view io)"
    then have "read_all (http_read cu) a n io1 [] = Some (0, [], io1)" using empty_reader by blast
    with seek bad show ?thesis by (auto simp: http_server.budget_def [OF assms(1)])
  qed
qed

theorem http_seek_goes_there_witness:
  "\<exists>io r io1 io2. http_open (demo_curl demo_text) True (demo_start []) ''http://a/b'' = Some (Inr io) \<and>
    http_seek (demo_curl demo_text) io 3 SEEK_SET = Some (r, io1) \<and> r = 3 \<and>
    read_all (http_read (demo_curl demo_text)) 0 2 io1 [] = Some (0, [80, 33], io2)"
proof -
  note srv = demo_http.http_server_axioms [of demo_text "''http://a/b''"]
  obtain io where io: "http_open (demo_curl demo_text) True (demo_start []) ''http://a/b'' = Some (Inr io)"
    "http_server.http_inv (demo_curl demo_text) demo_text ''http://a/b'' demo_view (\<lambda>_. True) False io" "http_tell io = 0"
  proof -
    from http_server.open_ok [OF srv demo_start_ok(1,2) TrueI, of True "[]"] obtain res where
      res: "http_open (demo_curl demo_text) True (demo_start []) ''http://a/b'' = Some res"
        "case res of Inl g' \<Rightarrow> cg_ok g' \<and> (True \<longrightarrow> 0 < v_budget (demo_view (cg_net (demo_start []))))
         | Inr io \<Rightarrow> http_server.http_inv (demo_curl demo_text) demo_text ''http://a/b'' demo_view (\<lambda>_. True) False io \<and>
             http_server.pend demo_text io = demo_text \<and> http_tell io = 0 \<or>
             select_fails_early (demo_curl demo_text) demo_view \<and> 0 < v_budget (demo_view (cg_net (demo_start []))) \<and>
             h_buf io = []" by blast
    show thesis
    proof (cases res)
      case (Inl g')
      with res(2) show thesis by (simp add: demo_start_ok)
    next
      case (Inr io)
      with res that show thesis by (simp add: demo_patient)
    qed
  qed
  from http_seek_goes_there [OF srv io(2), of 3 2 0] io(3) obtain r io1 io2 where
    "http_seek (demo_curl demo_text) io 3 SEEK_SET = Some (r, io1)" "r = 3"
    "read_all (http_read (demo_curl demo_text)) 0 2 io1 [] = Some (0, drop (nat 3) demo_text, io2)"
    by (auto simp: HTTP_MAX_SKIP_def HTTP_DEF_BUFLEN_def)
  with io(1) show ?thesis by auto
qed

text \<open>A seek relative to the current place goes one byte too far back: \<open>new_off\<close> starts at \<open>-1\<close> and
  is added to.\<close>

theorem http_seek_cur_off_by_one:
  "http_seek cu io k SEEK_CUR = http_seek cu io (http_tell io + k - 1) SEEK_SET"
proof -
  have "-1 + (h_off0 io + int (h_pbuf io)) + k = h_off0 io + int (h_pbuf io) + k - 1" by simp
  then have "http_run cu (Call_seek k SEEK_CUR) io = http_run cu (Call_seek (http_tell io + k - 1) SEEK_SET) io"
    unfolding http_run.simps [of cu "Call_seek k SEEK_CUR"] http_run.simps [of cu "Call_seek (http_tell io + k - 1) SEEK_SET"]
    by (simp only: http_call.case whence.simps http_tell_def Let_def if_True if_False simp_thms)
  then show ?thesis by (simp add: http_seek_def)
qed

section \<open>A wait that fails\<close>

text \<open>The same network, with signals that interrupt \<^verbatim>\<open>select(2)\<close>.\<close>

definition signalled_curl :: "byte list \<Rightarrow> demo_net curl" where
  "signalled_curl F = (demo_curl F)\<lparr>cu_select := (\<lambda>c t. case dn_plan c of
     Stall # ps \<Rightarrow> (-1, c\<lparr>dn_plan := ps\<rparr>) | _ \<Rightarrow> (1, c))\<rparr>"

text \<open>When the first wait is interrupted, before libcurl knows the length, \<^verbatim>\<open>off0 + p_buf\<close> is not below
  the \<open>-1\<close> of \<^verbatim>\<open>total_length\<close>: the file opens, and reads as an empty one.\<close>

theorem http_signal_looks_empty:
  "\<exists>io. http_open (signalled_curl demo_text) True (demo_start [Stall]) ''http://a/b'' = Some (Inr io) \<and>
    read_all (http_read (signalled_curl demo_text)) a n io [] = Some (0, [], io)"
proof -
  let ?cu = "signalled_curl demo_text"
  let ?start = "init_io ?cu \<lparr>h_env = demo_start [Stall], h_handles = False, h_buf = [], h_off0 = 0,
    h_total = -1, h_url = ''http://a/b'', h_mbuf = 0, h_pbuf = 0, h_done = False\<rparr>"
  define io0 where "io0 = snd (prepare ?cu ?start)"
  then have p: "prepare ?cu ?start = (0, io0)"
    by (simp add: prepare_def Let_def signalled_curl_def demo_curl_def)
  have io0: "h_buf io0 = []" "h_pbuf io0 = 0" "h_off0 io0 = 0" "h_total io0 = -1" "h_mbuf io0 = 32768" "\<not> h_done io0"
    "dn_plan (h_net io0) = [Stall]" "dn_notes (h_net io0) = []"
    by (simp_all add: io0_def init_io_def prepare_def set_net_def Let_def signalled_curl_def demo_curl_def
      demo_start_def curl_helper_safe_global_init_def)
  let ?io1 = "set_net ((h_net io0)\<lparr>dn_plan := []\<rparr>) io0"
  have e: "io0\<lparr>h_off0 := 0, h_pbuf := 0, h_buf := []\<rparr> = io0" using io0(1-3) by simp
  have "fill_round ?cu io0 = Some (Inl (Inr ?io1))"
    using io0 by (simp add: fill_round_def Let_def signalled_curl_def demo_curl_def set_net_def)
  note rounds = c_loop_stop [where body = "fill_round ?cu", OF this]
  have "msg_pass ?cu ?io1 = Some (Inl (False, ?io1))"
    using io0 by (simp add: msg_pass_def Let_def signalled_curl_def demo_curl_def set_net_def)
  note msgs = c_loop_stop [where body = "msg_pass ?cu", OF this]
  have "fill_outcome ?cu ?io1 = Inl (0, ?io1\<lparr>h_done := True\<rparr>)"
    using io0 by (simp add: fill_outcome_def set_net_def signalled_curl_def demo_curl_def)
  with rounds msgs io0 have "fill_transfer ?cu io0 = Some (Inl (0, ?io1\<lparr>h_done := True\<rparr>))"
    by (simp add: fill_transfer_def Let_def e)
  then have "http_run ?cu Call_fill io0 = Some (0, [], ?io1\<lparr>h_done := True\<rparr>)" by (simp add: http_run.simps)
  then have "http_open ?cu True (demo_start [Stall]) ''http://a/b'' = Some (Inr (?io1\<lparr>h_done := True\<rparr>))"
    by (simp add: http_open_def http_open_hdrs_def process_hdrs_def fill_buffer_def p)
  moreover have "h_buf (?io1\<lparr>h_done := True\<rparr>) = []" using io0 by (simp add: set_net_def)
  ultimately show ?thesis using empty_reader by blast
qed

section \<open>A server that is gone\<close>

text \<open>Whatever is asked of libcurl, no more data come: transfers end at once, with or without a message.\<close>

definition server_gone :: "'c curl \<Rightarrow> ('c \<Rightarrow> bool) \<Rightarrow> bool" where
  "server_gone cu P \<longleftrightarrow>
     (\<forall>c u. P c \<longrightarrow> P (cu_init cu c u)) \<and> (\<forall>c. P c \<longrightarrow> P (cu_cleanup cu c) \<and> P (cu_remove cu c)) \<and>
     (\<forall>c k. P c \<longrightarrow> P (cu_resume cu c k)) \<and> (\<forall>c. P c \<longrightarrow> fst (cu_add cu c) = 0 \<and> P (snd (cu_add cu c))) \<and>
     (\<forall>c. P c \<longrightarrow> P (snd (snd (cu_timeout cu c))) \<and> P (snd (snd (cu_fdset cu c))) \<and> P (snd (cu_msg cu c))) \<and>
     (\<forall>c t. P c \<longrightarrow> P (snd (cu_select cu c t))) \<and>
     (\<forall>c. P c \<longrightarrow> (\<exists>rc n c'. cu_pause cu c = CURL_returns rc n c' \<and> P c')) \<and>
     (\<forall>c. P c \<longrightarrow> (\<exists>rc n c'. cu_perform cu c = CURL_returns rc n c' \<and> P c'))"

lemma server_gone_rules:
  assumes "server_gone cu P" "P c"
  shows "P (cu_init cu c u)" "P (cu_cleanup cu c)" "P (cu_remove cu c)" "P (cu_resume cu c k)"
    "fst (cu_add cu c) = 0" "P (snd (cu_add cu c))" "P (snd (snd (cu_timeout cu c)))"
    "P (snd (snd (cu_fdset cu c)))" "P (snd (cu_msg cu c))" "P (snd (cu_select cu c t))"
  using assms(2) assms(1) [unfolded server_gone_def] by (cases t; simp)+

lemma server_gone_pause:
  assumes "server_gone cu P" "P c"
  obtains rc n c' where "cu_pause cu c = CURL_returns rc n c'" "P c'"
proof -
  from assms(1) have "\<forall>c. P c \<longrightarrow> (\<exists>rc n c'. cu_pause cu c = CURL_returns rc n c' \<and> P c')"
    unfolding server_gone_def by (elim conjE)
  with assms(2) that show thesis by blast
qed

lemma server_gone_perform:
  assumes "server_gone cu P" "P c"
  obtains rc n c' where "cu_perform cu c = CURL_returns rc n c'" "P c'"
proof -
  from assms(1) have "\<forall>c. P c \<longrightarrow> (\<exists>rc n c'. cu_perform cu c = CURL_returns rc n c' \<and> P c')"
    unfolding server_gone_def by (elim conjE)
  with assms(2) that show thesis by blast
qed

text \<open>A reader that has used its buffer up before the end of the file.\<close>

definition stuck :: "'c curl \<Rightarrow> ('c \<Rightarrow> bool) \<Rightarrow> 'c http_t \<Rightarrow> bool" where
  "stuck cu P io \<longleftrightarrow> P (h_net io) \<and> h_buf io = [] \<and> h_pbuf io = 0 \<and> \<not> h_done io \<and> 0 \<le> h_off0 io \<and> h_off0 io < h_total io"

lemma stuck_set_net: "stuck cu P io \<Longrightarrow> P c \<Longrightarrow> stuck cu P (set_net c io)"
  by (simp add: stuck_def set_net_def)

lemma stuck_perform:
  assumes "server_gone cu P" "stuck cu P io" "c_loop (perform_pass cu) io = Some res"
  shows "stuck cu P (snd (snd res))"
proof (rule c_loop_partial [OF assms(3), where I = "stuck cu P"])
  show "stuck cu P io" by (rule assms(2))
next
  fix s s' assume s: "stuck cu P s" and run: "perform_pass cu s = Some (Inr s')"
  from s have "P (h_net s)" by (simp add: stuck_def)
  with assms(1) obtain rc n c where "cu_perform cu (h_net s) = CURL_returns rc n c" "P c"
    by (rule server_gone_perform)
  with run s show "stuck cu P s'" by (auto simp: perform_pass_def stuck_set_net split: if_splits)
next
  fix s r assume s: "stuck cu P s" and run: "perform_pass cu s = Some (Inl r)"
  from s have "P (h_net s)" by (simp add: stuck_def)
  with assms(1) obtain rc n c where "cu_perform cu (h_net s) = CURL_returns rc n c" "P c"
    by (rule server_gone_perform)
  with run s show "stuck cu P (snd (snd r))" by (auto simp: perform_pass_def stuck_set_net split: if_splits)
qed

lemma stuck_round:
  assumes "server_gone cu P" "stuck cu P io" "fill_round cu io = Some res"
  shows "case res of Inl (Inl (ret, io')) \<Rightarrow> ret = -1 \<and> stuck cu P io' | Inl (Inr io') \<Rightarrow> stuck cu P io'
    | Inr io' \<Rightarrow> stuck cu P io'"
proof -
  obtain rt t c1 where c1: "cu_timeout cu (h_net io) = (rt, t, c1)" by (metis prod_cases3)
  obtain rf fd c2 where c2: "cu_fdset cu c1 = (rf, fd, c2)" by (metis prod_cases3)
  obtain rs c3 where c3: "(if fd \<ge> 0 then cu_select cu c2 (fill_timeout t) else (0, c2)) = (rs, c3)" by fastforce
  have P0: "P (h_net io)" using assms(2) by (simp add: stuck_def)
  have "P c1" using server_gone_rules(7) [OF assms(1) P0] c1 by simp
  have "P c2" using server_gone_rules(8) [OF assms(1) \<open>P c1\<close>] c2 by simp
  with c3 server_gone_rules(10) [OF assms(1) \<open>P c2\<close>, of "fill_timeout t"] have "P c3"
    by (cases "fd \<ge> 0") auto
  then obtain rc n c4 where c4: "cu_pause cu c3 = CURL_returns rc n c4" "P c4"
    by (rule server_gone_pause [OF assms(1)])
  have st: "stuck cu P (set_net c io)" if "P c" for c using stuck_set_net [OF assms(2) that] .
  show ?thesis
  proof (cases "rt = CURLM_OK \<and> rf = CURLM_OK \<and> 0 \<le> rs")
    case False
    with assms(3) c1 c2 c3 st \<open>P c1\<close> \<open>P c2\<close> \<open>P c3\<close> show ?thesis
      by (auto simp: fill_round_def Let_def split: if_splits)
  next
    case True
    then have run: "do { (rc, n_running, io) \<leftarrow> c_loop (perform_pass cu) (set_net c4 io);
          if rc \<noteq> CURLM_OK then Some (Inl (Inl (-1, io)))
          else do {
            let io = learn_length cu io;
            Some (if n_running \<noteq> 0 \<and> h_lbuf io < h_mbuf io - int (cu_max_write cu) then Inr io else Inl (Inr io)) } }
        = Some res"
      using assms(3) c1 c2 c3 c4 by (simp add: fill_round_def Let_def)
    then obtain rc n io1 where loop: "c_loop (perform_pass cu) (set_net c4 io) = Some (rc, n, io1)"
      by (auto simp: bind_eq_Some_conv)
    from stuck_perform [OF assms(1) st [OF c4(2)] loop] have s1: "stuck cu P io1" by simp
    then have "learn_length cu io1 = io1" by (simp add: learn_length_def stuck_def)
    with run loop s1 show ?thesis by (auto simp: Let_def split: if_splits)
  qed
qed

lemma stuck_restart:
  assumes "server_gone cu P" "stuck cu P io"
  shows "\<exists>io'. fill_outcome cu io = Inr (h_off0 io, io') \<and> h_off0 io' = h_off0 io \<and> stuck cu P io'"
proof -
  note rules = server_gone_rules [OF assms(1)]
  let ?i = "init_io cu io"
  have i: "h_off0 ?i = h_off0 io" "h_total ?i = h_total io" "h_done ?i = h_done io"
    by (simp_all add: init_io_def Let_def set_net_def)
  have "h_net (io\<lparr>h_env := curl_helper_safe_global_init (h_env io)\<rparr>) = h_net io"
    by (simp add: curl_helper_safe_global_init_def Let_def)
  then have "P (h_net ?i)" using assms(2) rules(1,2) by (simp add: stuck_def init_io_def Let_def set_net_def)
  then have c: "P (cu_resume cu (cu_remove cu (h_net ?i)) (h_off0 ?i))" (is "P ?c") by (intro rules)
  obtain rc c' where add: "cu_add cu ?c = (rc, c')" by fastforce
  with rules(5,6) [OF c] have "rc = 0" "P c'" by simp_all
  with add have "prepare cu ?i = (0, (set_net c' ?i)\<lparr>h_pbuf := 0, h_buf := []\<rparr>)" (is "_ = (0, ?io)")
    by (simp add: prepare_def Let_def)
  moreover have "stuck cu P ?io" "h_off0 ?io = h_off0 io" using \<open>P c'\<close> assms(2) i by (simp_all add: stuck_def set_net_def)
  ultimately show ?thesis using assms(2) by (simp add: fill_outcome_def stuck_def)
qed

lemma stuck_fill:
  assumes "server_gone cu P" "stuck cu P (io\<lparr>h_off0 := h_off0 io + h_lbuf io, h_pbuf := 0, h_buf := []\<rparr>)"
    and "fill_transfer cu io = Some res"
  shows "case res of Inl (ret, io') \<Rightarrow> ret = -1 \<and> stuck cu P io' | Inr (ptr, io') \<Rightarrow> ptr = h_off0 io' \<and> stuck cu P io'"
proof -
  let ?e = "io\<lparr>h_off0 := h_off0 io + h_lbuf io, h_pbuf := 0, h_buf := []\<rparr>"
  have "\<not> h_done io" using assms(2) by (simp add: stuck_def)
  with assms(3) obtain x where loop: "c_loop (fill_round cu) ?e = Some x"
    and rest: "(case x of Inl res \<Rightarrow> Some (Inl res)
       | Inr io \<Rightarrow> do {
           (failed, io) \<leftarrow> c_loop (msg_pass cu) io;
           if failed then Some (Inl (-1, io)) else Some (fill_outcome cu io) }) = Some res"
    by (auto simp: fill_transfer_def Let_def bind_eq_Some_conv)
  have x: "case x of Inl (ret, io') \<Rightarrow> ret = -1 \<and> stuck cu P io' | Inr io' \<Rightarrow> stuck cu P io'"
  proof (rule c_loop_partial [OF loop, where I = "stuck cu P"])
    show "stuck cu P ?e" by (rule assms(2))
  next
    fix s s' assume "stuck cu P s" "fill_round cu s = Some (Inr s')"
    from stuck_round [OF assms(1) this] show "stuck cu P s'" by simp
  next
    fix s r assume "stuck cu P s" "fill_round cu s = Some (Inl r)"
    from stuck_round [OF assms(1) this]
    show "case r of Inl (ret, io') \<Rightarrow> ret = -1 \<and> stuck cu P io' | Inr io' \<Rightarrow> stuck cu P io'" by simp
  qed
  show ?thesis
  proof (cases x)
    case (Inl y)
    with x rest show ?thesis by auto
  next
    case (Inr io1)
    with rest obtain failed io2 where msgs: "c_loop (msg_pass cu) io1 = Some (failed, io2)"
      and res: "res = (if failed then Inl (-1, io2) else fill_outcome cu io2)"
      by (auto simp: bind_eq_Some_conv split: if_splits)
    have "stuck cu P (snd (failed, io2))"
    proof (rule c_loop_partial [OF msgs, where I = "stuck cu P"])
      show "stuck cu P io1" using x Inr by simp
    next
      have step: "stuck cu P (set_net (snd (cu_msg cu (h_net s))) s)" if "stuck cu P s" for s
        using that server_gone_rules(9) [OF assms(1), of "h_net s"] by (intro stuck_set_net) (simp_all add: stuck_def)
      {
        fix s s' assume "stuck cu P s" "msg_pass cu s = Some (Inr s')"
        with step [of s] show "stuck cu P s'"
          by (auto simp: msg_pass_def Let_def split: prod.splits option.splits if_splits)
      next
        fix s r assume "stuck cu P s" "msg_pass cu s = Some (Inl r)"
        with step [of s] show "stuck cu P (snd r)"
          by (auto simp: msg_pass_def Let_def split: prod.splits option.splits if_splits)
      }
    qed
    then have io2: "stuck cu P io2" by simp
    with res stuck_restart [OF assms(1) io2] show ?thesis by (cases failed) auto
  qed
qed

text \<open>What calls that start with the buffer used up come to, if they come back at all.\<close>

definition used_up :: "'c http_t \<Rightarrow> 'c http_t" where
  "used_up io = io\<lparr>h_off0 := h_off0 io + h_lbuf io, h_pbuf := 0, h_buf := []\<rparr>"

definition stuck_result :: "'c curl \<Rightarrow> ('c \<Rightarrow> bool) \<Rightarrow> http_call \<Rightarrow> 'c http_t \<Rightarrow> int \<times> byte list \<times> 'c http_t \<Rightarrow> bool" where
  "stuck_result cu P c io y \<longleftrightarrow> (case c of
      Call_fill \<Rightarrow> stuck cu P (used_up io) \<longrightarrow> fst y = FILL_RETRY \<and> stuck cu P (snd (snd y))
    | Call_read_loop len rest out \<Rightarrow>
        \<not> (stuck cu P (used_up io) \<and> length (h_buf io) - h_pbuf io < rest \<and> h_pbuf io \<le> length (h_buf io))
    | Call_seek off wh \<Rightarrow> stuck cu P io \<longrightarrow> off = h_off0 io \<longrightarrow> wh = SEEK_SET \<longrightarrow> snd (snd y) = io)"

lemma stuck_used_up: "stuck cu P io \<Longrightarrow> used_up io = io"
  by (simp add: stuck_def used_up_def)

lemma stuck_run:
  assumes "server_gone cu P" "http_run cu c io = Some y"
  shows "stuck_result cu P c io y"
proof -
  have "cu = cu \<longrightarrow> stuck_result cu P c io y"
  proof (rule http_run.raw_induct [OF _ assms(2), where P = "\<lambda>cu' c io y. cu' = cu \<longrightarrow> stuck_result cu P c io y"], intro impI, goal_cases)
    case (1 f cu' c io y)
    note IH = 1(1) and run = 1(2) and cu = 1(3)
    show "stuck_result cu P c io y"
    proof (cases c)
      case Call_fill
      show ?thesis unfolding stuck_result_def Call_fill http_call.case
      proof
        assume st: "stuck cu P (used_up io)"
        from run cu Call_fill obtain x where x: "fill_transfer cu io = Some x"
          "(case x of Inl (ret, io) \<Rightarrow> Some (ret, [], io)
          | Inr (ptr, io) \<Rightarrow> do {
              (_, _, io) \<leftarrow> f cu (Call_seek ptr SEEK_SET) io;
              Some (FILL_RETRY, [], io) }) = Some y" by (auto simp: bind_eq_Some_conv)
        from stuck_fill [OF assms(1) st [unfolded used_up_def] x(1)] x(2) IH
        show "fst y = FILL_RETRY \<and> stuck cu P (snd (snd y))"
          by (fastforce simp: FILL_RETRY_def stuck_result_def bind_eq_Some_conv split: sum.splits prod.splits)
      qed
    next
      case (Call_read_loop len rest out)
      show ?thesis unfolding stuck_result_def Call_read_loop http_call.case
      proof
        assume st: "stuck cu P (used_up io) \<and> length (h_buf io) - h_pbuf io < rest \<and> h_pbuf io \<le> length (h_buf io)"
        let ?io = "io\<lparr>h_pbuf := length (h_buf io)\<rparr>"
        let ?got = "drop (h_pbuf io) (h_buf io)"
        from st have "rest \<noteq> 0" "\<not> int rest \<le> h_lbuf io - int (h_pbuf io)" by linarith+
        with run cu Call_read_loop obtain ret bs io1 where fill: "f cu Call_fill ?io = Some (ret, bs, io1)"
          and more: "(if ret > 0 \<or> ret = FILL_RETRY then f cu (Call_read_loop len (rest - length ?got) (out @ ?got)) io1
            else if ret = FILL_FINISHED then Some (int len - int (rest - length ?got), out @ ?got, io1)
            else if ret = FILL_RETRY_ERROR then Some (-1, out @ ?got, io1)
            else Some (-2, out @ ?got, io1)) = Some y"
          by (auto simp: bind_eq_Some_conv Let_def)
        have "used_up ?io = used_up io" by (simp add: used_up_def)
        with IH [OF fill] st have io1: "ret = FILL_RETRY" "stuck cu P io1" by (simp_all add: stuck_result_def)
        with more have "f cu (Call_read_loop len (rest - length ?got) (out @ ?got)) io1 = Some y" by simp
        from IH [OF this] have "\<not> (stuck cu P (used_up io1) \<and> length (h_buf io1) - h_pbuf io1 < rest - length ?got \<and>
            h_pbuf io1 \<le> length (h_buf io1))" by (simp add: stuck_result_def)
        moreover from st have "length (h_buf io) - h_pbuf io < rest" by blast
        then have "0 < rest - length ?got" by (simp only: length_drop zero_less_diff)
        ultimately show False using io1(2) stuck_used_up [OF io1(2)] by (simp add: stuck_def)
      qed
    next
      case (Call_seek off wh)
      with run show ?thesis
        by (auto simp: stuck_result_def stuck_def Let_def HTTP_MAX_SKIP_def HTTP_DEF_BUFLEN_def)
    qed
  qed
  then show ?thesis by simp
qed

text \<open>C33: once a server is gone before the end of the file, a read that needs more than the buffer holds
  never comes back: the \<open>-1\<close> of \<^verbatim>\<open>fill_buffer\<close> for an error of libcurl is also the value of
  \<^verbatim>\<open>FILL_RETRY\<close>, so \<^verbatim>\<open>http_read\<close> starts again, and so it does after every restart that fails.\<close>

theorem http_read_never_gives_up:
  assumes "server_gone cu P" "P (h_net io)" "h_buf io \<noteq> []" "h_pbuf io \<le> length (h_buf io)" "\<not> h_done io"
    and "0 \<le> h_off0 io" "h_off0 io + h_lbuf io < h_total io" "length (h_buf io) - h_pbuf io < n"
  shows "http_read cu io a n = None"
proof -
  have "stuck cu P (used_up io)" using assms by (simp add: used_up_def stuck_def)
  then have "\<not> stuck_result cu P (Call_read_loop n n []) io y" for y using assms by (simp add: stuck_result_def)
  with stuck_run [OF assms(1)] have "http_run cu (Call_read_loop n n []) io = None" by (metis option.exhaust)
  with assms(3) show ?thesis by (simp add: http_read_def)
qed

text \<open>A network on which everything ends at once.\<close>

definition gone_curl :: "unit curl" where
  "gone_curl = \<lparr>cu_max_write = 16384, cu_init = (\<lambda>c u. c), cu_cleanup = (\<lambda>c. c),
     cu_slist_append = (\<lambda>l h. Some (l @ [h])), cu_headers = (\<lambda>c hs. c), cu_remove = (\<lambda>c. c),
     cu_resume = (\<lambda>c k. c), cu_add = (\<lambda>c. (0, c)), cu_timeout = (\<lambda>c. (CURLM_OK, 0, c)),
     cu_fdset = (\<lambda>c. (CURLM_OK, -1, c)), cu_select = (\<lambda>c t. (0, c)),
     cu_pause = (\<lambda>c. CURL_returns 0 0 c), cu_perform = (\<lambda>c. CURL_returns CURLM_OK 0 c),
     cu_length = (\<lambda>c. 10), cu_msg = (\<lambda>c. (Some (CURLE_other 7), c))\<rparr>"

theorem http_read_never_gives_up_witness:
  "http_read gone_curl
     \<lparr>h_env = \<lparr>cg_init_cnt = 1, cg_ready = True, cg_net = ()\<rparr>, h_handles = True, h_buf = [1, 2, 3], h_off0 = 0,
       h_total = 10, h_url = ''http://a/b'', h_mbuf = 32768, h_pbuf = 0, h_done = False\<rparr> 0 5 = None"
  by (rule http_read_never_gives_up [where P = "\<lambda>_. True"]) (simp_all add: server_gone_def gone_curl_def)

section \<open>Restarts and headers\<close>

text \<open>When a broken transfer is started again, the new request has none of the headers the file was
  opened with: \<^verbatim>\<open>init_io\<close> makes a new handle and \<^verbatim>\<open>process_hdrs\<close> is only called on opening. A Swift
  object is asked for again without its \<^verbatim>\<open>X-Auth-Token\<close>.\<close>

theorem http_restart_drops_headers:
  assumes "\<And>c u. hdrs (cu_init cu c u) = []" "\<And>c. hdrs (cu_remove cu c) = hdrs c"
    and "\<And>c k. hdrs (cu_resume cu c k) = hdrs c" "\<And>c. hdrs (snd (cu_add cu c)) = hdrs c"
    and "fill_transfer cu io = Some (Inr (ptr, io'))"
  shows "hdrs (h_net io') = []"
proof -
  from assms(5) obtain x where "(case x of Inl res \<Rightarrow> Some (Inl res)
       | Inr io \<Rightarrow> do {
           (failed, io) \<leftarrow> c_loop (msg_pass cu) io;
           if failed then Some (Inl (-1, io)) else Some (fill_outcome cu io) }) = Some (Inr (ptr, io'))"
    by (auto simp: fill_transfer_def Let_def bind_eq_Some_conv split: if_splits)
  then obtain io2 where "fill_outcome cu io2 = Inr (ptr, io')"
    by (cases x) (auto simp: bind_eq_Some_conv split: if_splits)
  then obtain io3 where p: "prepare cu (init_io cu io3) = (0, io')"
    by (auto simp: fill_outcome_def Let_def split: prod.splits if_splits)
  let ?c = "cu_resume cu (cu_remove cu (h_net (init_io cu io3))) (h_off0 (init_io cu io3))"
  have "hdrs ?c = []" using assms(1-3) by (simp add: init_io_def Let_def set_net_def)
  with assms(4) [of ?c] p show ?thesis by (auto simp: prepare_def Let_def set_net_def split: prod.splits)
qed

text \<open>A transfer that broke off at byte 2 of 5; the next fill finds it dead and restarts it.\<close>

definition broken_reader :: "demo_net http_t" where
  "broken_reader = \<lparr>h_env = \<lparr>cg_init_cnt = 1, cg_ready = True, cg_net = \<lparr>dn_at = None, dn_from = 0, dn_start = 0,
       dn_notes = [], dn_hdrs = [''X-Auth-Token: t''], dn_known = True, dn_plan = []\<rparr>\<rparr>,
     h_handles = True, h_buf = [72, 84], h_off0 = 0, h_total = 5, h_url = ''http://a/b'', h_mbuf = 32768,
     h_pbuf = 2, h_done = False\<rparr>"

theorem http_restart_drops_headers_witness:
  "dn_hdrs (h_net broken_reader) = [''X-Auth-Token: t''] \<and>
   (\<exists>io'. fill_transfer (demo_curl demo_text) broken_reader = Some (Inr (2, io')) \<and> dn_hdrs (h_net io') = [] \<and>
      dn_at (h_net io') = Some 2)"
proof -
  let ?cu = "demo_curl demo_text"
  let ?e = "broken_reader\<lparr>h_off0 := 2, h_pbuf := 0, h_buf := []\<rparr>"
  have "perform_pass ?cu ?e = Some (Inl (CURLM_OK, 0, ?e))"
    by (simp add: perform_pass_def broken_reader_def demo_curl_def demo_perform_def set_net_def CURLM_OK_def
      CURLM_CALL_MULTI_PERFORM_def)
  note c_loop_stop [where body = "perform_pass ?cu", OF this]
  moreover have "set_net (h_net ?e) ?e = ?e" by (simp add: set_net_def)
  ultimately have "fill_round ?cu ?e = Some (Inl (Inr ?e))"
    by (simp add: fill_round_def Let_def demo_curl_def CURLM_OK_def learn_length_def broken_reader_def set_net_def)
  note c_loop_stop [where body = "fill_round ?cu", OF this]
  moreover have "msg_pass ?cu ?e = Some (Inl (False, ?e))"
    by (simp add: msg_pass_def broken_reader_def demo_curl_def set_net_def)
  note c_loop_stop [where body = "msg_pass ?cu", OF this]
  moreover obtain io' where "fill_outcome ?cu ?e = Inr (2, io')" "dn_at (h_net io') = Some 2"
    by (simp add: fill_outcome_def broken_reader_def demo_curl_def prepare_def init_io_def set_net_def Let_def
      curl_helper_safe_global_init_def)
  ultimately have run: "fill_transfer ?cu broken_reader = Some (Inr (2, io'))"
    by (simp add: fill_transfer_def Let_def broken_reader_def)
  have "dn_hdrs (h_net io') = []"
    by (rule http_restart_drops_headers [where hdrs = dn_hdrs, OF _ _ _ _ run]) (simp_all add: demo_curl_def)
  with run \<open>dn_at (h_net io') = Some 2\<close> show ?thesis by (auto simp: broken_reader_def)
qed

end
