(* ===== verification/Jsmn.thy ===== *)
theory Jsmn
  imports Wandio_Prelude
begin

text \<open>
  \<^verbatim>\<open>lib/swift-support/jsmn.c\<close>: the JSON tokeniser the Swift reader carries, built without
  \<^verbatim>\<open>JSMN_STRICT\<close> and \<^verbatim>\<open>JSMN_PARENT_LINKS\<close> and called with a token array. The array below \<^verbatim>\<open>toknext\<close>
  is a list; an access outside it, or a loop that does not end, is \<open>None\<close>.

  Positions and counters are unbounded here and have 32 bits in \<^verbatim>\<open>jsmn.h\<close>: \<^verbatim>\<open>pos\<close> and \<^verbatim>\<open>toknext\<close> are
  \<^verbatim>\<open>unsigned int\<close>, \<^verbatim>\<open>start\<close>, \<^verbatim>\<open>end\<close>, \<^verbatim>\<open>size\<close> and \<^verbatim>\<open>toksuper\<close> are \<^verbatim>\<open>int\<close>. The model is that of texts
  shorter than \<open>2 ^ 31\<close> characters, on which none of them wraps, as all stay at or below the length of
  the text (as \<open>jp_ok\<close> states and the theory Keystone_Files concludes). On longer texts offsets would turn negative, and from \<open>2 ^ 32\<close>
  characters on the loop would not end.
\<close>

section \<open>Tokens and parser\<close>

datatype jsmntype_t = JSMN_UNDEFINED | JSMN_OBJECT | JSMN_ARRAY | JSMN_STRING | JSMN_PRIMITIVE

definition JSMN_ERROR_NOMEM :: int where "JSMN_ERROR_NOMEM = -1"
definition JSMN_ERROR_INVAL :: int where "JSMN_ERROR_INVAL = -2"
definition JSMN_ERROR_PART :: int where "JSMN_ERROR_PART = -3"

record jsmntok_t =
  tk_type :: jsmntype_t
  tk_start :: int
  tk_end :: int
  tk_size :: int

text \<open>\<^verbatim>\<open>jsmn_parser\<close> and the array it fills; \<^verbatim>\<open>toknext\<close> is the length of \<open>jp_toks\<close>. The fields stand for
  those of the C structure as long as the text is shorter than \<open>2 ^ 31\<close> characters.\<close>

record jsmn_parser =
  jp_pos :: nat
  jp_toksuper :: int
  jp_toks :: "jsmntok_t list"

definition jsmn_init :: jsmn_parser where
  "jsmn_init = \<lparr>jp_pos = 0, jp_toksuper = -1, jp_toks = []\<rparr>"

text \<open>A fresh token; its type is whatever the memory held until the caller sets it.\<close>

definition jsmn_alloc_token :: "nat \<Rightarrow> jsmn_parser \<Rightarrow> jsmn_parser option" where
  "jsmn_alloc_token num_tokens p =
     (if num_tokens \<le> length (jp_toks p) then None
      else Some (p\<lparr>jp_toks := jp_toks p @ [\<lparr>tk_type = JSMN_UNDEFINED, tk_start = -1, tk_end = -1, tk_size = 0\<rparr>]\<rparr>))"

definition jsmn_fill_token :: "jsmntype_t \<Rightarrow> int \<Rightarrow> int \<Rightarrow> jsmn_parser \<Rightarrow> jsmn_parser" where
  "jsmn_fill_token ty start fin p =
     p\<lparr>jp_toks := (jp_toks p)[length (jp_toks p) - 1 := \<lparr>tk_type = ty, tk_start = start, tk_end = fin, tk_size = 0\<rparr>]\<rparr>"

text \<open>\<open>tokens[parser->toksuper].size++\<close>, unless there is no superior token.\<close>

definition bump_super :: "jsmn_parser \<Rightarrow> jsmn_parser option" where
  "bump_super p =
     (if jp_toksuper p = -1 then Some p
      else do {
        c_assert (0 \<le> jp_toksuper p \<and> jp_toksuper p < int (length (jp_toks p)));
        let i = nat (jp_toksuper p);
        Some (p\<lparr>jp_toks := (jp_toks p)[i := (jp_toks p ! i)\<lparr>tk_size := tk_size (jp_toks p ! i) + 1\<rparr>]\<rparr>) })"

section \<open>Primitives and strings\<close>

abbreviation NUL :: char where "NUL \<equiv> CHR 0x00"
abbreviation QUOTE :: char where "QUOTE \<equiv> CHR 0x22"
abbreviation BACKSLASH :: char where "BACKSLASH \<equiv> CHR 0x5C"

definition prim_end :: "char \<Rightarrow> bool" where
  "prim_end c \<longleftrightarrow> c \<in> {CHR '':'', CHR 0x09, CHR 0x0D, CHR 0x0A, CHR '' '', CHR '','', CHR '']'', CHR ''}''}"

text \<open>\<^verbatim>\<open>char\<close> is signed, so a byte above 127 is below 32.\<close>

definition printable :: "char \<Rightarrow> bool" where
  "printable c \<longleftrightarrow> 32 \<le> (of_char c :: nat) \<and> (of_char c :: nat) < 127"

text \<open>How many characters a primitive has, or \<open>None\<close> for a character it cannot have.\<close>

fun prim_scan :: "string \<Rightarrow> nat option" where
  "prim_scan [] = Some 0"
| "prim_scan (c # cs) =
     (if c = NUL \<or> prim_end c then Some 0
      else if \<not> printable c then None
      else map_option Suc (prim_scan cs))"

text \<open>The result is that of the function and the parser; the caller steps over the last character.\<close>

definition jsmn_parse_primitive :: "string \<Rightarrow> nat \<Rightarrow> jsmn_parser \<Rightarrow> int \<times> jsmn_parser" where
  "jsmn_parse_primitive js num_tokens p =
     (case prim_scan (drop (jp_pos p) js) of
        None \<Rightarrow> (JSMN_ERROR_INVAL, p)
      | Some k \<Rightarrow>
          (case jsmn_alloc_token num_tokens p of
             None \<Rightarrow> (JSMN_ERROR_NOMEM, p)
           | Some p1 \<Rightarrow>
               (0, (jsmn_fill_token JSMN_PRIMITIVE (int (jp_pos p)) (int (jp_pos p + k)) p1)
                     \<lparr>jp_pos := jp_pos p + k - 1\<rparr>)))"

definition hexdigit :: "char \<Rightarrow> bool" where
  "hexdigit c \<longleftrightarrow> (let n = of_char c :: nat in 48 \<le> n \<and> n \<le> 57 \<or> 65 \<le> n \<and> n \<le> 70 \<or> 97 \<le> n \<and> n \<le> 102)"

text \<open>Up to four hexadecimal digits after \<^verbatim>\<open>\u\<close>.\<close>

fun hex_scan :: "nat \<Rightarrow> string \<Rightarrow> nat option" where
  "hex_scan 0 cs = Some 0"
| "hex_scan (Suc n) [] = Some 0"
| "hex_scan (Suc n) (c # cs) =
     (if c = NUL then Some 0 else if \<not> hexdigit c then None else map_option Suc (hex_scan n cs))"

definition escapes :: "char set" where
  "escapes = {QUOTE, CHR ''/'', BACKSLASH, CHR ''b'', CHR ''f'', CHR ''r'', CHR ''n'', CHR ''t''}"

text \<open>The distance to the closing quote, or an error code.\<close>

function str_scan :: "string \<Rightarrow> int + nat" where
  "str_scan [] = Inl JSMN_ERROR_PART"
| "str_scan (c # cs) =
     (if c = NUL then Inl JSMN_ERROR_PART
      else if c = QUOTE then Inr 0
      else if c = BACKSLASH \<and> cs \<noteq> [] then
        (if hd cs \<in> escapes then map_sum id ((+) 2) (str_scan (tl cs))
         else if hd cs = CHR ''u'' then
           (case hex_scan 4 (tl cs) of
              None \<Rightarrow> Inl JSMN_ERROR_INVAL
            | Some k \<Rightarrow> map_sum id ((+) (2 + k)) (str_scan (drop k (tl cs))))
         else Inl JSMN_ERROR_INVAL)
      else map_sum id Suc (str_scan cs))"
  by pat_completeness auto
termination by (relation "measure length") auto

definition jsmn_parse_string :: "string \<Rightarrow> nat \<Rightarrow> jsmn_parser \<Rightarrow> int \<times> jsmn_parser" where
  "jsmn_parse_string js num_tokens p =
     (case str_scan (drop (jp_pos p + 1) js) of
        Inl r \<Rightarrow> (r, p)
      | Inr k \<Rightarrow>
          (case jsmn_alloc_token num_tokens p of
             None \<Rightarrow> (JSMN_ERROR_NOMEM, p)
           | Some p1 \<Rightarrow>
               (0, (jsmn_fill_token JSMN_STRING (int (jp_pos p + 1)) (int (jp_pos p + 1 + k)) p1)
                     \<lparr>jp_pos := jp_pos p + 1 + k\<rparr>)))"

section \<open>The parser\<close>

definition tk_open :: "jsmntok_t \<Rightarrow> bool" where
  "tk_open t \<longleftrightarrow> tk_start t \<noteq> -1 \<and> tk_end t = -1"

definition tk_container :: "jsmntok_t \<Rightarrow> bool" where
  "tk_container t \<longleftrightarrow> tk_type t = JSMN_ARRAY \<or> tk_type t = JSMN_OBJECT"

text \<open>The searches run from a token down to the first.\<close>

fun last_below :: "(jsmntok_t \<Rightarrow> bool) \<Rightarrow> jsmntok_t list \<Rightarrow> nat \<Rightarrow> nat option" where
  "last_below P ts 0 = None"
| "last_below P ts (Suc i) = (if P (ts ! i) then Some i else last_below P ts i)"

text \<open>A closing bracket: \<open>None\<close> is an error, when no token is open or the open one is of another type.\<close>

definition close_bracket :: "jsmntype_t \<Rightarrow> jsmn_parser \<Rightarrow> jsmn_parser option" where
  "close_bracket ty p =
     (case last_below tk_open (jp_toks p) (length (jp_toks p)) of
        None \<Rightarrow> None
      | Some i \<Rightarrow>
          if tk_type (jp_toks p ! i) \<noteq> ty then None
          else (let ts = (jp_toks p)[i := (jp_toks p ! i)\<lparr>tk_end := int (jp_pos p + 1)\<rparr>]
                in Some (p\<lparr>jp_toks := ts,
                     jp_toksuper := (case last_below tk_open ts (Suc i) of None \<Rightarrow> -1 | Some j \<Rightarrow> int j)\<rparr>)))"

definition comma :: "jsmn_parser \<Rightarrow> jsmn_parser option" where
  "comma p =
     (if jp_toksuper p = -1 then Some p
      else do {
        c_assert (0 \<le> jp_toksuper p \<and> jp_toksuper p < int (length (jp_toks p)));
        Some (if tk_container (jp_toks p ! nat (jp_toksuper p)) then p
              else case last_below (\<lambda>t. tk_container t \<and> tk_open t) (jp_toks p) (length (jp_toks p)) of
                  None \<Rightarrow> p
                | Some i \<Rightarrow> p\<lparr>jp_toksuper := int i\<rparr>) })"

definition advance :: "jsmn_parser \<Rightarrow> jsmn_parser" where
  "advance p = p\<lparr>jp_pos := jp_pos p + 1\<rparr>"

text \<open>One character of the loop of \<^verbatim>\<open>jsmn_parse\<close>, with its local \<^verbatim>\<open>count\<close>; \<open>Inl\<close> is a return.\<close>

definition jsmn_pass ::
  "string \<Rightarrow> nat \<Rightarrow> int \<times> jsmn_parser \<Rightarrow> ((int \<times> jsmn_parser) + (int \<times> jsmn_parser)) option" where
  "jsmn_pass js num_tokens = (\<lambda>(count, p).
     if \<not> (jp_pos p < length js \<and> js ! jp_pos p \<noteq> NUL) then
       Some (Inl (if last_below tk_open (jp_toks p) (length (jp_toks p)) \<noteq> None then JSMN_ERROR_PART else count, p))
     else let c = js ! jp_pos p in
       if c = CHR ''{'' \<or> c = CHR ''['' then
         (case jsmn_alloc_token num_tokens p of
            None \<Rightarrow> Some (Inl (JSMN_ERROR_NOMEM, p))
          | Some p1 \<Rightarrow> do {
              p2 \<leftarrow> bump_super p1;
              let n = length (jp_toks p2) - 1;
              let ty = (if c = CHR ''{'' then JSMN_OBJECT else JSMN_ARRAY);
              Some (Inr (count + 1, advance (p2\<lparr>
                jp_toks := (jp_toks p2)[n := (jp_toks p2 ! n)\<lparr>tk_type := ty, tk_start := int (jp_pos p2)\<rparr>],
                jp_toksuper := int n\<rparr>))) })
       else if c = CHR ''}'' \<or> c = CHR '']'' then
         Some (case close_bracket (if c = CHR ''}'' then JSMN_OBJECT else JSMN_ARRAY) p of
             None \<Rightarrow> Inl (JSMN_ERROR_INVAL, p)
           | Some p1 \<Rightarrow> Inr (count, advance p1))
       else if c = QUOTE then
         (case jsmn_parse_string js num_tokens p of (r, p1) \<Rightarrow>
            if r < 0 then Some (Inl (r, p1))
            else do { p2 \<leftarrow> bump_super p1; Some (Inr (count + 1, advance p2)) })
       else if c = CHR 0x09 \<or> c = CHR 0x0D \<or> c = CHR 0x0A \<or> c = CHR '' '' then Some (Inr (count, advance p))
       else if c = CHR '':'' then Some (Inr (count, advance (p\<lparr>jp_toksuper := int (length (jp_toks p)) - 1\<rparr>)))
       else if c = CHR '','' then do { p1 \<leftarrow> comma p; Some (Inr (count, advance p1)) }
       else
         (case jsmn_parse_primitive js num_tokens p of (r, p1) \<Rightarrow>
            if r < 0 then Some (Inl (r, p1))
            else do { p2 \<leftarrow> bump_super p1; Some (Inr (count + 1, advance p2)) }))"

definition jsmn_parse :: "jsmn_parser \<Rightarrow> string \<Rightarrow> nat \<Rightarrow> (int \<times> jsmn_parser) option" where
  "jsmn_parse p js num_tokens = c_loop (jsmn_pass js num_tokens) (int (length (jp_toks p)), p)"

end
