(* ===== verification/Jsmn_Proofs.thy ===== *)
theory Jsmn_Proofs
  imports Jsmn
begin

text \<open>
  The tokeniser on any input: it ends, stays inside its token array, and every token it leaves is
  well formed; and a parse that ran out of tokens can go on with more where it stopped.
\<close>

section \<open>Well-formed tokens\<close>

text \<open>An open token has no end yet and is a container; a closed one lies inside the text.\<close>

definition tok_ok :: "nat \<Rightarrow> jsmntok_t \<Rightarrow> bool" where
  "tok_ok n t \<longleftrightarrow> tk_type t \<noteq> JSMN_UNDEFINED \<and> 0 \<le> tk_start t \<and> 0 \<le> tk_size t \<and>
     (if tk_open t then tk_container t \<and> tk_start t < int n
      else tk_start t \<le> tk_end t \<and> tk_end t \<le> int n)"

definition jp_ok :: "nat \<Rightarrow> jsmn_parser \<Rightarrow> bool" where
  "jp_ok n p \<longleftrightarrow> jp_pos p \<le> n \<and> length (jp_toks p) \<le> jp_pos p \<and>
     (jp_toksuper p = -1 \<or> 0 \<le> jp_toksuper p \<and> jp_toksuper p < int (length (jp_toks p))) \<and>
     (\<forall>t\<in>set (jp_toks p). tok_ok n t) \<and> (\<forall>t\<in>set (jp_toks p). tk_size t \<le> int (length (jp_toks p))) \<and>
     (\<forall>t\<in>set (jp_toks p). tk_start t < int (jp_pos p))"

lemma jsmn_init_ok: "jp_ok n jsmn_init"
  by (simp add: jp_ok_def jsmn_init_def)

lemma last_below_Some: "last_below P ts n = Some i \<Longrightarrow> i < n \<and> P (ts ! i)"
  by (induction n) (auto split: if_splits)

lemma last_below_None: "last_below P ts n = None \<longleftrightarrow> (\<forall>i<n. \<not> P (ts ! i))"
  by (induction n) (auto simp: less_Suc_eq)

lemma prim_scan_le: "prim_scan cs = Some k \<Longrightarrow> k \<le> length cs"
  by (induction cs arbitrary: k) (auto split: if_splits)

lemma hex_scan_le: "hex_scan n cs = Some k \<Longrightarrow> k \<le> length cs"
  by (induction n cs arbitrary: k rule: hex_scan.induct) (auto split: if_splits)

lemma str_scan_less: "str_scan cs = Inr k \<Longrightarrow> k < length cs"
proof (induction cs arbitrary: k rule: str_scan.induct)
  case (2 c cs)
  show ?case
  proof (cases "c = NUL \<or> c = QUOTE")
    case True
    with 2(4) show ?thesis by (auto split: if_splits)
  next
    case plain: False
    show ?thesis
    proof (cases "c = BACKSLASH \<and> cs \<noteq> []")
      case False
      with plain 2(4) obtain m where "str_scan cs = Inr m" "k = Suc m" by (cases "str_scan cs") auto
      with plain False 2(3) show ?thesis by auto
    next
      case esc: True
      then obtain e es where cs: "cs = e # es" by (cases cs) auto
      show ?thesis
      proof (cases "e \<in> escapes")
        case True
        with plain esc cs 2(4) obtain m where "str_scan es = Inr m" "k = 2 + m" by (cases "str_scan es") auto
        with plain esc True 2(1) cs show ?thesis by auto
      next
        case False
        with plain esc cs 2(4) obtain d where d: "e = CHR ''u''" "hex_scan 4 es = Some d"
          by (auto split: if_splits option.splits)
        with plain esc False cs 2(4) obtain m where m: "str_scan (drop d es) = Inr m" "k = 2 + d + m"
          by (cases "str_scan (drop d es)") auto
        from 2(2) [of d m] plain esc False cs d m(1) have "m < length (drop d es)" by auto
        with m(2) cs show ?thesis by simp
      qed
    qed
  qed
qed simp

lemma str_scan_code: "str_scan cs = Inl r \<Longrightarrow> r = JSMN_ERROR_PART \<or> r = JSMN_ERROR_INVAL"
  by (induction cs arbitrary: r rule: str_scan.induct)
    (fastforce split: if_splits option.splits simp: map_sum_def split: sum.splits)+

section \<open>One pass, by the character\<close>

definition bumped :: "int \<Rightarrow> jsmntok_t list \<Rightarrow> jsmntok_t list" where
  "bumped s ts = (if s = -1 then ts else ts[nat s := (ts ! nat s)\<lparr>tk_size := tk_size (ts ! nat s) + 1\<rparr>])"

definition super_ok :: "int \<Rightarrow> jsmntok_t list \<Rightarrow> bool" where
  "super_ok s ts \<longleftrightarrow> s = -1 \<or> 0 \<le> s \<and> s < int (length ts)"

lemma length_bumped [simp]: "length (bumped s ts) = length ts"
  by (simp add: bumped_def)

lemma bumped_append: "super_ok s ts \<Longrightarrow> bumped s (ts @ us) = bumped s ts @ us"
  by (auto simp: bumped_def super_ok_def list_update_append nth_append)

lemma bumped_nth:
  "i < length ts \<Longrightarrow> tk_type (bumped s ts ! i) = tk_type (ts ! i) \<and> tk_start (bumped s ts ! i) = tk_start (ts ! i) \<and>
    tk_end (bumped s ts ! i) = tk_end (ts ! i) \<and> tk_size (ts ! i) \<le> tk_size (bumped s ts ! i)"
  by (cases "i = nat s") (simp_all add: bumped_def)

lemma bump_Some: "super_ok (jp_toksuper p) (jp_toks p) \<Longrightarrow>
    bump_super p = Some (p\<lparr>jp_toks := bumped (jp_toksuper p) (jp_toks p)\<rparr>)"
  by (auto simp: bump_super_def bumped_def super_ok_def Let_def)

lemma super_ok_append: "super_ok s ts \<Longrightarrow> super_ok s (ts @ us)"
  by (auto simp: super_ok_def)

text \<open>The characters the parser tells apart.\<close>

definition json_space :: "char \<Rightarrow> bool" where
  "json_space c \<longleftrightarrow> c = CHR 0x09 \<or> c = CHR 0x0D \<or> c = CHR 0x0A \<or> c = CHR '' ''"

definition prim_start :: "char \<Rightarrow> bool" where
  "prim_start c \<longleftrightarrow> c \<noteq> NUL \<and> \<not> prim_end c \<and> c \<notin> {CHR ''{'', CHR ''['', QUOTE}"

lemma char_cases:
  obtains "c = NUL" | "c = CHR ''{'' \<or> c = CHR ''[''" | "c = CHR ''}'' \<or> c = CHR '']''" | "c = QUOTE"
    | "json_space c" | "c = CHR '':''" | "c = CHR '',''" | "prim_start c"
proof -
  have "prim_start c" if "c \<noteq> NUL" "\<not> prim_end c" "c \<noteq> CHR ''{''" "c \<noteq> CHR ''[''" "c \<noteq> QUOTE"
    using that by (simp add: prim_start_def)
  moreover have "c = CHR ''}'' \<or> c = CHR '']'' \<or> json_space c \<or> c = CHR '':'' \<or> c = CHR '',''" if "prim_end c"
    using that by (simp only: prim_end_def json_space_def insert_iff empty_iff) argo
  ultimately show thesis using that by argo
qed

abbreviation bracket_type :: "char \<Rightarrow> jsmntype_t" where
  "bracket_type c \<equiv> (if c = CHR ''{'' \<or> c = CHR ''}'' then JSMN_OBJECT else JSMN_ARRAY)"

lemma pass_open:
  assumes "jp_pos p < length js" "js ! jp_pos p = CHR ''{'' \<or> js ! jp_pos p = CHR ''[''"
    and "super_ok (jp_toksuper p) (jp_toks p)"
  shows "jsmn_pass js num (count, p) = Some
    (if num \<le> length (jp_toks p) then Inl (JSMN_ERROR_NOMEM, p)
     else Inr (count + 1, \<lparr>jp_pos = jp_pos p + 1, jp_toksuper = int (length (jp_toks p)),
       jp_toks = bumped (jp_toksuper p) (jp_toks p) @
         [\<lparr>tk_type = bracket_type (js ! jp_pos p), tk_start = int (jp_pos p), tk_end = -1, tk_size = 0\<rparr>]\<rparr>))"
  using assms
  by (auto simp: jsmn_pass_def jsmn_alloc_token_def Let_def bump_Some super_ok_append bumped_append advance_def
    nth_append list_update_append)

lemma pass_close:
  assumes "jp_pos p < length js" "js ! jp_pos p = CHR ''}'' \<or> js ! jp_pos p = CHR '']''"
  shows "jsmn_pass js num (count, p) = Some
    (case close_bracket (bracket_type (js ! jp_pos p)) p of
       None \<Rightarrow> Inl (JSMN_ERROR_INVAL, p) | Some p1 \<Rightarrow> Inr (count, advance p1))"
  using assms by (auto simp: jsmn_pass_def Let_def split: option.splits)

lemma pass_string:
  assumes "jp_pos p < length js" "js ! jp_pos p = QUOTE" "super_ok (jp_toksuper p) (jp_toks p)"
  shows "jsmn_pass js num (count, p) = Some
    (case str_scan (drop (jp_pos p + 1) js) of
       Inl r \<Rightarrow> Inl (r, p)
     | Inr k \<Rightarrow>
         if num \<le> length (jp_toks p) then Inl (JSMN_ERROR_NOMEM, p)
         else Inr (count + 1, \<lparr>jp_pos = jp_pos p + 2 + k, jp_toksuper = jp_toksuper p,
           jp_toks = bumped (jp_toksuper p) (jp_toks p) @
             [\<lparr>tk_type = JSMN_STRING, tk_start = int (jp_pos p + 1), tk_end = int (jp_pos p + 1 + k), tk_size = 0\<rparr>]\<rparr>))"
proof (cases "str_scan (drop (jp_pos p + 1) js)")
  case (Inl r)
  with str_scan_code [OF Inl] assms show ?thesis
    by (auto simp: jsmn_pass_def Let_def jsmn_parse_string_def JSMN_ERROR_PART_def JSMN_ERROR_INVAL_def)
next
  case (Inr k)
  with assms show ?thesis
    by (simp add: jsmn_pass_def Let_def jsmn_parse_string_def jsmn_alloc_token_def jsmn_fill_token_def
      JSMN_ERROR_NOMEM_def bump_Some super_ok_append bumped_append advance_def)
qed

lemma pass_space:
  assumes "jp_pos p < length js" "json_space (js ! jp_pos p)"
  shows "jsmn_pass js num (count, p) = Some (Inr (count, advance p))"
  using assms by (auto simp: jsmn_pass_def Let_def json_space_def)

lemma pass_colon:
  assumes "jp_pos p < length js" "js ! jp_pos p = CHR '':''"
  shows "jsmn_pass js num (count, p) = Some (Inr (count, advance (p\<lparr>jp_toksuper := int (length (jp_toks p)) - 1\<rparr>)))"
  using assms by (simp add: jsmn_pass_def Let_def)

text \<open>The superior token after a comma.\<close>

definition comma_super :: "int \<Rightarrow> jsmntok_t list \<Rightarrow> int" where
  "comma_super s ts =
     (if s = -1 \<or> tk_container (ts ! nat s) then s
      else case last_below (\<lambda>t. tk_container t \<and> tk_open t) ts (length ts) of None \<Rightarrow> s | Some i \<Rightarrow> int i)"

lemma pass_comma:
  assumes "jp_pos p < length js" "js ! jp_pos p = CHR '',''" "super_ok (jp_toksuper p) (jp_toks p)"
  shows "jsmn_pass js num (count, p) =
    Some (Inr (count, advance (p\<lparr>jp_toksuper := comma_super (jp_toksuper p) (jp_toks p)\<rparr>)))"
proof -
  have same: "p\<lparr>jp_toksuper := jp_toksuper p\<rparr> = p" by simp
  have "comma p = Some (p\<lparr>jp_toksuper := comma_super (jp_toksuper p) (jp_toks p)\<rparr>)"
  proof (cases "jp_toksuper p = -1")
    case True
    with same show ?thesis by (simp add: comma_def comma_super_def)
  next
    case False
    with assms(3) same show ?thesis by (simp add: comma_def comma_super_def super_ok_def split: option.splits)
  qed
  with assms(1,2) show ?thesis by (simp add: jsmn_pass_def Let_def)
qed

lemma pass_prim:
  assumes "jp_pos p < length js" "prim_start (js ! jp_pos p)" "super_ok (jp_toksuper p) (jp_toks p)"
  shows "jsmn_pass js num (count, p) = Some
    (case prim_scan (drop (jp_pos p) js) of
       None \<Rightarrow> Inl (JSMN_ERROR_INVAL, p)
     | Some k \<Rightarrow>
         if num \<le> length (jp_toks p) then Inl (JSMN_ERROR_NOMEM, p)
         else Inr (count + 1, \<lparr>jp_pos = jp_pos p + k, jp_toksuper = jp_toksuper p,
           jp_toks = bumped (jp_toksuper p) (jp_toks p) @
             [\<lparr>tk_type = JSMN_PRIMITIVE, tk_start = int (jp_pos p), tk_end = int (jp_pos p + k), tk_size = 0\<rparr>]\<rparr>))"
    and "prim_scan (drop (jp_pos p) js) = Some k \<Longrightarrow> 0 < k"
proof -
  have d: "drop (jp_pos p) js = js ! jp_pos p # drop (Suc (jp_pos p)) js"
    using assms(1) by (rule Cons_nth_drop_Suc [symmetric])
  show pos: "0 < k" if "prim_scan (drop (jp_pos p) js) = Some k" for k
    using that assms(2) unfolding d by (auto simp: prim_start_def split: if_splits)
  have c: "js ! jp_pos p \<notin> {NUL, CHR ''{'', CHR ''['', CHR ''}'', CHR '']'', QUOTE, CHR 0x09, CHR 0x0D, CHR 0x0A,
      CHR '' '', CHR '':'', CHR '',''}"
    using assms(2) by (auto simp: prim_start_def prim_end_def)
  show "jsmn_pass js num (count, p) = Some
    (case prim_scan (drop (jp_pos p) js) of
       None \<Rightarrow> Inl (JSMN_ERROR_INVAL, p)
     | Some k \<Rightarrow>
         if num \<le> length (jp_toks p) then Inl (JSMN_ERROR_NOMEM, p)
         else Inr (count + 1, \<lparr>jp_pos = jp_pos p + k, jp_toksuper = jp_toksuper p,
           jp_toks = bumped (jp_toksuper p) (jp_toks p) @
             [\<lparr>tk_type = JSMN_PRIMITIVE, tk_start = int (jp_pos p), tk_end = int (jp_pos p + k), tk_size = 0\<rparr>]\<rparr>))"
  proof (cases "prim_scan (drop (jp_pos p) js)")
    case None
    with assms(1) c show ?thesis
      by (simp add: jsmn_pass_def Let_def jsmn_parse_primitive_def JSMN_ERROR_INVAL_def)
  next
    case (Some k)
    with pos [OF Some] assms(1,3) c show ?thesis
      by (simp add: jsmn_pass_def Let_def jsmn_parse_primitive_def jsmn_alloc_token_def jsmn_fill_token_def
        JSMN_ERROR_NOMEM_def bump_Some super_ok_append bumped_append advance_def)
  qed
qed

section \<open>Every input\<close>

lemma bumped_ok:
  assumes "\<forall>t\<in>set ts. tok_ok n t \<and> tk_start t < m" "super_ok s ts"
  shows "\<forall>t\<in>set (bumped s ts). tok_ok n t \<and> tk_start t < m"
proof
  fix t assume "t \<in> set (bumped s ts)"
  then obtain i where i: "i < length ts" "t = bumped s ts ! i" by (auto simp: in_set_conv_nth)
  then have "tok_ok n (ts ! i) \<and> tk_start (ts ! i) < m" using assms(1) by simp
  with bumped_nth [OF i(1), of s] i(2) show "tok_ok n t \<and> tk_start t < m"
    by (auto simp: tok_ok_def tk_open_def tk_container_def)
qed

lemma bumped_size:
  assumes "\<forall>t\<in>set ts. tk_size t \<le> k"
  shows "\<forall>t\<in>set (bumped s ts). tk_size t \<le> k + 1"
proof
  fix t assume "t \<in> set (bumped s ts)"
  then obtain i where i: "i < length ts" "t = bumped s ts ! i" by (auto simp: in_set_conv_nth)
  then have "tk_size (ts ! i) \<le> k" using assms by simp
  then show "tk_size t \<le> k + 1" unfolding i(2) using i(1) by (cases "i = nat s") (auto simp: bumped_def)
qed

lemma jp_ok_super: "jp_ok n p \<Longrightarrow> super_ok (jp_toksuper p) (jp_toks p)"
  by (simp add: jp_ok_def super_ok_def)

lemma jp_ok_add:
  assumes "jp_ok n p" "tok_ok n t" "tk_start t < int pos'" "jp_pos p < pos'" "pos' \<le> n" "super_ok s (jp_toks p @ [t])"
    and "tk_size t = 0"
  shows "jp_ok n \<lparr>jp_pos = pos', jp_toksuper = s, jp_toks = bumped (jp_toksuper p) (jp_toks p) @ [t]\<rparr>"
proof -
  have "\<forall>u\<in>set (jp_toks p). tok_ok n u \<and> tk_start u < int pos'" using assms(1,4) by (fastforce simp: jp_ok_def)
  with bumped_ok [OF _ jp_ok_super [OF assms(1)]]
  have "\<forall>u\<in>set (bumped (jp_toksuper p) (jp_toks p)). tok_ok n u \<and> tk_start u < int pos'" by blast
  moreover have "\<forall>u\<in>set (bumped (jp_toksuper p) (jp_toks p)). tk_size u \<le> int (length (jp_toks p)) + 1"
    using assms(1) by (intro bumped_size) (simp add: jp_ok_def)
  ultimately show ?thesis using assms by (auto simp: jp_ok_def super_ok_def)
qed

lemma jp_ok_move:
  assumes "jp_ok n p" "jp_pos p < n" "super_ok s (jp_toks p)"
  shows "jp_ok n (advance (p\<lparr>jp_toksuper := s\<rparr>))"
  using assms by (fastforce simp: jp_ok_def advance_def super_ok_def)

lemma jsmn_close_ok:
  assumes "jp_ok n p" "jp_pos p < n" "close_bracket ty p = Some p1"
  shows "jp_ok n (advance p1)" "jp_pos p1 = jp_pos p" "length (jp_toks p1) = length (jp_toks p)"
proof -
  from assms(3) obtain i where i: "last_below tk_open (jp_toks p) (length (jp_toks p)) = Some i"
    and p1: "p1 = p\<lparr>jp_toks := (jp_toks p)[i := (jp_toks p ! i)\<lparr>tk_end := int (jp_pos p + 1)\<rparr>],
      jp_toksuper := (case last_below tk_open ((jp_toks p)[i := (jp_toks p ! i)\<lparr>tk_end := int (jp_pos p + 1)\<rparr>]) (Suc i)
        of None \<Rightarrow> -1 | Some j \<Rightarrow> int j)\<rparr>"
    by (auto simp: close_bracket_def Let_def split: option.splits if_splits)
  then show "jp_pos p1 = jp_pos p" "length (jp_toks p1) = length (jp_toks p)" by simp_all
  let ?t = "(jp_toks p ! i)\<lparr>tk_end := int (jp_pos p + 1)\<rparr>"
  let ?ts = "(jp_toks p)[i := ?t]"
  from last_below_Some [OF i] have il: "i < length (jp_toks p)" "tk_open (jp_toks p ! i)" by auto
  then have "tok_ok n (jp_toks p ! i) \<and> tk_start (jp_toks p ! i) < int (jp_pos p)"
    using assms(1) by (simp add: jp_ok_def)
  then have "tok_ok n ?t \<and> tk_start ?t < int (jp_pos p)"
    using assms(2) by (simp add: tok_ok_def tk_open_def split: if_splits)
  then have "\<forall>u\<in>set ?ts. tok_ok n u \<and> tk_start u < int (jp_pos p)"
    using assms(1) by (auto simp: jp_ok_def dest!: set_update_subset_insert [THEN subsetD])
  moreover have "tk_size ?t \<le> int (length (jp_toks p))" using il(1) assms(1) by (simp add: jp_ok_def)
  then have "\<forall>u\<in>set ?ts. tk_size u \<le> int (length (jp_toks p))"
    using assms(1) by (auto simp: jp_ok_def dest!: set_update_subset_insert [THEN subsetD])
  moreover have "super_ok (jp_toksuper p1) ?ts"
    using il(1) last_below_Some [of tk_open ?ts "Suc i"] by (auto simp: p1 super_ok_def split: option.splits)
  ultimately show "jp_ok n (advance p1)"
    using assms(1,2) unfolding p1 jp_ok_def super_ok_def advance_def by fastforce
qed

lemma comma_super_ok: "super_ok s ts \<Longrightarrow> super_ok (comma_super s ts) ts"
  by (auto simp: comma_super_def super_ok_def dest!: last_below_Some split: option.splits)

text \<open>A pass either returns with the parser as it was, or has read at least one character.\<close>

lemma jsmn_pass_ok:
  assumes "jp_ok (length js) p" "length (jp_toks p) \<le> num"
  obtains (ret) r where "jsmn_pass js num (int (length (jp_toks p)), p) = Some (Inl (r, p))"
      "r = JSMN_ERROR_NOMEM \<and> length (jp_toks p) = num \<or> r = JSMN_ERROR_INVAL \<or> r = JSMN_ERROR_PART \<or>
       r = int (length (jp_toks p)) \<and> (\<forall>t\<in>set (jp_toks p). \<not> tk_open t)"
    | (step) p' where "jsmn_pass js num (int (length (jp_toks p)), p) = Some (Inr (int (length (jp_toks p')), p'))"
      "jp_ok (length js) p'" "jp_pos p < jp_pos p'" "length (jp_toks p') \<le> num"
proof -
  note result = that
  note sup = jp_ok_super [OF assms(1)]
  let ?n = "int (length (jp_toks p))"
  let ?c = "js ! jp_pos p"
  have added: thesis
    if h: "jsmn_pass js num (?n, p) =
        Some (if num \<le> length (jp_toks p) then Inl (JSMN_ERROR_NOMEM, p) else Inr (?n + 1, q))"
      "jp_ok (length js) q" "jp_pos p < jp_pos q" "length (jp_toks q) = length (jp_toks p) + 1" for q
  proof (cases "num \<le> length (jp_toks p)")
    case True
    with h(1) assms(2) show thesis by (intro result(1)) auto
  next
    case False
    with h show thesis by (intro result(2) [of q]) auto
  qed
  show thesis
  proof (cases "jp_pos p < length js \<and> ?c \<noteq> NUL")
    case False
    have "last_below tk_open (jp_toks p) (length (jp_toks p)) = None \<Longrightarrow> \<forall>t\<in>set (jp_toks p). \<not> tk_open t"
      by (auto simp: last_below_None in_set_conv_nth)
    with False show ?thesis
      by (intro result(1) [of "if last_below tk_open (jp_toks p) (length (jp_toks p)) \<noteq> None then JSMN_ERROR_PART else ?n"])
        (auto simp: jsmn_pass_def)
  next
    case True
    then have lt: "jp_pos p < length js" by simp
    show thesis
    proof (cases rule: char_cases [of ?c])
      case 1
      with True show thesis by simp
    next
      case 2
      let ?t = "\<lparr>tk_type = bracket_type ?c, tk_start = int (jp_pos p), tk_end = -1, tk_size = 0\<rparr>"
      have "tok_ok (length js) ?t" using lt by (simp add: tok_ok_def tk_open_def tk_container_def)
      from jp_ok_add [OF assms(1) this, of "jp_pos p + 1" "?n"] lt
      have "jp_ok (length js) \<lparr>jp_pos = jp_pos p + 1, jp_toksuper = ?n, jp_toks = bumped (jp_toksuper p) (jp_toks p) @ [?t]\<rparr>"
        by (simp add: super_ok_def)
      from added [OF pass_open [OF lt 2 sup] this] show thesis by simp
    next
      case 3
      show thesis
      proof (cases "close_bracket (bracket_type ?c) p")
        case None
        with pass_close [OF lt 3, of num "?n"] show thesis by (intro result(1)) auto
      next
        case (Some p1)
        with pass_close [OF lt 3, of num "?n"] jsmn_close_ok [OF assms(1) lt Some] assms(2) show thesis
          by (intro result(2) [of "advance p1"]) (auto simp: advance_def)
      qed
    next
      case 4
      show thesis
      proof (cases "str_scan (drop (jp_pos p + 1) js)")
        case (Inl r)
        with pass_string [OF lt 4 sup, of num "?n"] str_scan_code [OF Inl] show thesis by (intro result(1)) auto
      next
        case (Inr k)
        let ?t = "\<lparr>tk_type = JSMN_STRING, tk_start = int (jp_pos p + 1), tk_end = int (jp_pos p + 1 + k), tk_size = 0\<rparr>"
        have k: "jp_pos p + 2 + k \<le> length js" using str_scan_less [OF Inr] by simp
        then have "tok_ok (length js) ?t" by (simp add: tok_ok_def tk_open_def tk_container_def)
        from jp_ok_add [OF assms(1) this, of "jp_pos p + 2 + k" "jp_toksuper p"] k super_ok_append [OF sup]
        have "jp_ok (length js) \<lparr>jp_pos = jp_pos p + 2 + k, jp_toksuper = jp_toksuper p,
            jp_toks = bumped (jp_toksuper p) (jp_toks p) @ [?t]\<rparr>" by simp
        note ok = this
        have "jsmn_pass js num (?n, p) = Some (if num \<le> length (jp_toks p) then Inl (JSMN_ERROR_NOMEM, p)
            else Inr (?n + 1, \<lparr>jp_pos = jp_pos p + 2 + k, jp_toksuper = jp_toksuper p,
              jp_toks = bumped (jp_toksuper p) (jp_toks p) @ [?t]\<rparr>))"
          using pass_string [OF lt 4 sup, of num "?n"] Inr by simp
        from added [OF this ok] show thesis by simp
      qed
    next
      case 5
      have "jp_ok (length js) (advance p)" using jp_ok_move [OF assms(1) lt sup] by simp
      with pass_space [OF lt 5, of num "?n"] assms(2) show thesis
        by (intro result(2) [of "advance p"]) (auto simp: advance_def)
    next
      case 6
      have "super_ok (?n - 1) (jp_toks p)" by (auto simp: super_ok_def)
      with pass_colon [OF lt 6, of num "?n"] jp_ok_move [OF assms(1) lt, of "?n - 1"] assms(2) show thesis
        by (intro result(2) [of "advance (p\<lparr>jp_toksuper := ?n - 1\<rparr>)"]) (auto simp: advance_def)
    next
      case 7
      with pass_comma [OF lt 7 sup, of num "?n"] jp_ok_move [OF assms(1) lt comma_super_ok [OF sup]] assms(2) show thesis
        by (intro result(2) [of "advance (p\<lparr>jp_toksuper := comma_super (jp_toksuper p) (jp_toks p)\<rparr>)"])
          (auto simp: advance_def)
    next
      case 8
      show thesis
      proof (cases "prim_scan (drop (jp_pos p) js)")
        case None
        with pass_prim(1) [OF lt 8 sup, of num "?n"] show thesis by (intro result(1)) auto
      next
        case (Some k)
        let ?t = "\<lparr>tk_type = JSMN_PRIMITIVE, tk_start = int (jp_pos p), tk_end = int (jp_pos p + k), tk_size = 0\<rparr>"
        have k: "jp_pos p + k \<le> length js" "0 < k" using prim_scan_le [OF Some] lt pass_prim(2) [OF lt 8 sup Some] by auto
        then have "tok_ok (length js) ?t" by (simp add: tok_ok_def tk_open_def tk_container_def)
        from jp_ok_add [OF assms(1) this, of "jp_pos p + k" "jp_toksuper p"] k super_ok_append [OF sup]
        have "jp_ok (length js) \<lparr>jp_pos = jp_pos p + k, jp_toksuper = jp_toksuper p,
            jp_toks = bumped (jp_toksuper p) (jp_toks p) @ [?t]\<rparr>" by simp
        note ok = this
        have "jsmn_pass js num (?n, p) = Some (if num \<le> length (jp_toks p) then Inl (JSMN_ERROR_NOMEM, p)
            else Inr (?n + 1, \<lparr>jp_pos = jp_pos p + k, jp_toksuper = jp_toksuper p,
              jp_toks = bumped (jp_toksuper p) (jp_toks p) @ [?t]\<rparr>))"
          using pass_prim(1) [OF lt 8 sup, of num "?n"] Some by simp
        from added [OF this ok] k(2) show thesis by simp
      qed
    qed
  qed
qed

text \<open>What \<^verbatim>\<open>jsmn_parse\<close> returns.\<close>

definition parsed :: "string \<Rightarrow> nat \<Rightarrow> int \<Rightarrow> jsmn_parser \<Rightarrow> bool" where
  "parsed js num r p \<longleftrightarrow> jp_ok (length js) p \<and> length (jp_toks p) \<le> num \<and>
     (r = JSMN_ERROR_NOMEM \<and> length (jp_toks p) = num \<or> r = JSMN_ERROR_INVAL \<or> r = JSMN_ERROR_PART \<or>
      r = int (length (jp_toks p)) \<and> (\<forall>t\<in>set (jp_toks p). \<not> tk_open t))"

lemma parse_ok:
  assumes "jp_ok (length js) p" "length (jp_toks p) \<le> num"
  shows "\<exists>r p'. jsmn_parse p js num = Some (r, p') \<and> parsed js num r p'"
proof -
  define I where "I = (\<lambda>(count, q). jp_ok (length js) q \<and> length (jp_toks q) \<le> num \<and> count = int (length (jp_toks q)))"
  have "\<exists>res. c_loop (jsmn_pass js num) (int (length (jp_toks p)), p) = Some res \<and> parsed js num (fst res) (snd res)"
  proof (rule c_loop_returns [where I = I and m = "\<lambda>(count, q). length js - jp_pos q"])
    show "I (int (length (jp_toks p)), p)" using assms by (simp add: I_def)
  next
    fix s assume "I s"
    then obtain q where q: "s = (int (length (jp_toks q)), q)" "jp_ok (length js) q" "length (jp_toks q) \<le> num"
      by (auto simp: I_def)
    from q(2,3) show "(\<exists>r. jsmn_pass js num s = Some (Inl r) \<and> parsed js num (fst r) (snd r)) \<or>
      (\<exists>s'. jsmn_pass js num s = Some (Inr s') \<and> I s' \<and>
        (case s' of (count, q) \<Rightarrow> length js - jp_pos q) < (case s of (count, q) \<Rightarrow> length js - jp_pos q))"
    proof (cases rule: jsmn_pass_ok)
      case (ret r)
      with q show ?thesis by (auto simp: parsed_def)
    next
      case (step q')
      moreover have "jp_pos q' \<le> length js" using step(2) by (simp add: jp_ok_def)
      ultimately show ?thesis using q(1) by (auto simp: I_def)
    qed
  qed
  then show ?thesis by (auto simp: jsmn_parse_def)
qed

section \<open>Going on with more tokens\<close>

lemma pass_capacity:
  assumes "num \<le> m"
  shows "jsmn_pass js num (count, p) = Some (Inl (JSMN_ERROR_NOMEM, p)) \<or>
    jsmn_pass js num (count, p) = jsmn_pass js m (count, p)"
proof (cases "num \<le> length (jp_toks p)")
  case True
  then have "jsmn_alloc_token num p = None" by (simp add: jsmn_alloc_token_def)
  then show ?thesis
    by (auto simp: jsmn_pass_def jsmn_parse_string_def jsmn_parse_primitive_def JSMN_ERROR_NOMEM_def Let_def
      split: option.splits sum.splits)
next
  case False
  with assms have eq: "jsmn_alloc_token num p = jsmn_alloc_token m p" by (simp add: jsmn_alloc_token_def)
  show ?thesis
    unfolding jsmn_pass_def prod.case jsmn_parse_string_def jsmn_parse_primitive_def eq by (rule disjI2) (rule refl)
qed

text \<open>A parse with too few tokens stops on the way of a parse with more, which can go on from there.\<close>

lemma parse_resume:
  assumes "jp_ok (length js) p" "length (jp_toks p) \<le> num" "num \<le> m" "jsmn_parse p js num = Some (r, p')"
  shows "if r = JSMN_ERROR_NOMEM then jsmn_parse p' js m = jsmn_parse p js m else jsmn_parse p js m = Some (r, p')"
  using assms(1,2,4)
proof (induction "length js - jp_pos p" arbitrary: p rule: less_induct)
  case less
  let ?s = "(int (length (jp_toks p)), p)"
  from less.prems(1,2) show ?case
  proof (cases rule: jsmn_pass_ok)
    case (ret q)
    then have "jsmn_parse p js num = Some (q, p)" by (simp add: jsmn_parse_def c_loop_stop)
    with less.prems(3) have eq: "q = r" "p' = p" by simp_all
    show ?thesis
    proof (cases "r = JSMN_ERROR_NOMEM")
      case True
      with eq show ?thesis by simp
    next
      case False
      with pass_capacity [OF assms(3), of js "int (length (jp_toks p))" p] ret(1) eq
      have "jsmn_pass js m ?s = Some (Inl (r, p))" by auto
      with False eq show ?thesis by (simp add: jsmn_parse_def c_loop_stop)
    qed
  next
    case (step q)
    let ?t = "(int (length (jp_toks q)), q)"
    have "jsmn_pass js m ?s = Some (Inr ?t)"
      using pass_capacity [OF assms(3), of js "int (length (jp_toks p))" p] step(1) by auto
    then have on: "jsmn_parse p js m = jsmn_parse q js m" by (simp add: jsmn_parse_def c_loop_next)
    have "jsmn_parse p js num = jsmn_parse q js num" using step(1) by (simp add: jsmn_parse_def c_loop_next)
    moreover have "jp_pos q \<le> length js" using step(2) by (simp add: jp_ok_def)
    then have "length js - jp_pos q < length js - jp_pos p" using step(3) by arith
    ultimately show ?thesis using less.hyps [of q] step(2,4) less.prems(3) on by simp
  qed
qed

end
