(* ===== verification/Json_Text.thy ===== *)
theory Json_Text
  imports Jsmn_Proofs
begin

text \<open>
  JSON values, how they are written, and the tokens of the written text: the reference the
  tokeniser is compared with. Strings and primitives are kept as they are spelled.
\<close>

section \<open>Values and their spelling\<close>

datatype json =
    JPrim string
  | JStr string
  | JArr "json list"
  | JObj "(string \<times> json) list"

text \<open>\<open>w i\<close> is the white space written at position \<open>i\<close> of the text, so that a value can be laid out in
  every way; \<open>spell w i v\<close> writes \<open>v\<close> from position \<open>i\<close> on.\<close>

type_synonym layout = "nat \<Rightarrow> string"

definition after :: "layout \<Rightarrow> nat \<Rightarrow> string \<Rightarrow> string" where
  "after w i s = s @ w (i + length s)"

function spell :: "layout \<Rightarrow> nat \<Rightarrow> json \<Rightarrow> string"
  and spell_elements :: "layout \<Rightarrow> nat \<Rightarrow> json list \<Rightarrow> string"
  and spell_members :: "layout \<Rightarrow> nat \<Rightarrow> (string \<times> json) list \<Rightarrow> string" where
  "spell w i (JPrim s) = s"
| "spell w i (JStr s) = QUOTE # s @ [QUOTE]"
| "spell w i (JArr es) =
     (let a = after w i [CHR ''['']
      in a @ spell_elements w (i + length a) es @ [CHR '']''])"
| "spell w i (JObj ms) =
     (let a = after w i [CHR ''{'']
      in a @ spell_members w (i + length a) ms @ [CHR ''}''])"
| "spell_elements w i [] = []"
| "spell_elements w i (e # es) =
     (let a = after w i (spell w i e);
          b = (if es = [] then [] else after w (i + length a) [CHR '',''])
      in a @ b @ spell_elements w (i + length a + length b) es)"
| "spell_members w i [] = []"
| "spell_members w i (m # ms) =
     (let k = after w i (QUOTE # fst m @ [QUOTE]);
          c = after w (i + length k) [CHR '':''];
          a = after w (i + length k + length c) (spell w (i + length k + length c) (snd m));
          b = (if ms = [] then [] else after w (i + length k + length c + length a) [CHR '',''])
      in k @ c @ a @ b @ spell_members w (i + length k + length c + length a + length b) ms)"
  by pat_completeness auto
termination
  by (relation "measure (\<lambda>x. case x of
      Inl (w, i, v) \<Rightarrow> 2 * size v
    | Inr (Inl (w, i, es)) \<Rightarrow> 2 * size_list size es + 1
    | Inr (Inr (w, i, ms)) \<Rightarrow> 2 * size_list (size_prod (\<lambda>_. 0) size) ms + 1)") auto

text \<open>The tokens of the text of a value: a key counts the value it has, a container its elements.\<close>

function tokens_of :: "layout \<Rightarrow> nat \<Rightarrow> json \<Rightarrow> jsmntok_t list"
  and tokens_elements :: "layout \<Rightarrow> nat \<Rightarrow> json list \<Rightarrow> jsmntok_t list"
  and tokens_members :: "layout \<Rightarrow> nat \<Rightarrow> (string \<times> json) list \<Rightarrow> jsmntok_t list" where
  "tokens_of w i (JPrim s) =
     [\<lparr>tk_type = JSMN_PRIMITIVE, tk_start = int i, tk_end = int (i + length s), tk_size = 0\<rparr>]"
| "tokens_of w i (JStr s) =
     [\<lparr>tk_type = JSMN_STRING, tk_start = int (i + 1), tk_end = int (i + 1 + length s), tk_size = 0\<rparr>]"
| "tokens_of w i (JArr es) =
     \<lparr>tk_type = JSMN_ARRAY, tk_start = int i, tk_end = int (i + length (spell w i (JArr es))), tk_size = int (length es)\<rparr> #
     tokens_elements w (i + length (after w i [CHR ''['']) ) es"
| "tokens_of w i (JObj ms) =
     \<lparr>tk_type = JSMN_OBJECT, tk_start = int i, tk_end = int (i + length (spell w i (JObj ms))), tk_size = int (length ms)\<rparr> #
     tokens_members w (i + length (after w i [CHR ''{''])) ms"
| "tokens_elements w i [] = []"
| "tokens_elements w i (e # es) =
     (let a = after w i (spell w i e);
          b = (if es = [] then [] else after w (i + length a) [CHR '',''])
      in tokens_of w i e @ tokens_elements w (i + length a + length b) es)"
| "tokens_members w i [] = []"
| "tokens_members w i (m # ms) =
     (let k = after w i (QUOTE # fst m @ [QUOTE]);
          c = after w (i + length k) [CHR '':''];
          a = after w (i + length k + length c) (spell w (i + length k + length c) (snd m));
          b = (if ms = [] then [] else after w (i + length k + length c + length a) [CHR '',''])
      in \<lparr>tk_type = JSMN_STRING, tk_start = int (i + 1), tk_end = int (i + 1 + length (fst m)), tk_size = 1\<rparr> #
         tokens_of w (i + length k + length c) (snd m) @
         tokens_members w (i + length k + length c + length a + length b) ms)"
  by pat_completeness auto
termination
  by (relation "measure (\<lambda>x. case x of
      Inl (w, i, v) \<Rightarrow> 2 * size v
    | Inr (Inl (w, i, es)) \<Rightarrow> 2 * size_list size es + 1
    | Inr (Inr (w, i, ms)) \<Rightarrow> 2 * size_list (size_prod (\<lambda>_. 0) size) ms + 1)") auto

text \<open>Types and sizes of the tokens do not depend on the layout.\<close>

fun shape :: "json \<Rightarrow> (jsmntype_t \<times> int) list" where
  "shape (JPrim s) = [(JSMN_PRIMITIVE, 0)]"
| "shape (JStr s) = [(JSMN_STRING, 0)]"
| "shape (JArr es) = (JSMN_ARRAY, int (length es)) # concat (map shape es)"
| "shape (JObj ms) = (JSMN_OBJECT, int (length ms)) # concat (map (\<lambda>m. (JSMN_STRING, 1) # shape (snd m)) ms)"

lemma tokens_shape:
  "map (\<lambda>t. (tk_type t, tk_size t)) (tokens_of w i v) = shape v"
  "map (\<lambda>t. (tk_type t, tk_size t)) (tokens_elements w i es) = concat (map shape es)"
  "map (\<lambda>t. (tk_type t, tk_size t)) (tokens_members w i ms) = concat (map (\<lambda>m. (JSMN_STRING, 1) # shape (snd m)) ms)"
  by (induction w i v and w i es and w i ms rule: tokens_of_tokens_elements_tokens_members.induct)
    (auto simp: Let_def)

text \<open>Strings and primitives as JSON has them: escapes are complete, nothing ends too early.\<close>

fun str_ok :: "string \<Rightarrow> bool" where
  "str_ok [] \<longleftrightarrow> True"
| "str_ok [c] \<longleftrightarrow> c \<notin> {NUL, QUOTE, BACKSLASH}"
| "str_ok (c # e # cs) \<longleftrightarrow> c \<noteq> NUL \<and> c \<noteq> QUOTE \<and>
     (if c = BACKSLASH then
        e \<in> escapes \<and> str_ok cs \<or>
        e = CHR ''u'' \<and> 4 \<le> length cs \<and> (\<forall>h\<in>set (take 4 cs). h \<noteq> NUL \<and> hexdigit h) \<and> str_ok (drop 4 cs)
      else str_ok (e # cs))"

definition prim_ok :: "string \<Rightarrow> bool" where
  "prim_ok s \<longleftrightarrow> s \<noteq> [] \<and> prim_start (hd s) \<and> (\<forall>c\<in>set s. c \<noteq> NUL \<and> \<not> prim_end c \<and> printable c)"

fun json_ok :: "json \<Rightarrow> bool" where
  "json_ok (JPrim s) \<longleftrightarrow> prim_ok s"
| "json_ok (JStr s) \<longleftrightarrow> str_ok s"
| "json_ok (JArr es) \<longleftrightarrow> (\<forall>e\<in>set es. json_ok e)"
| "json_ok (JObj ms) \<longleftrightarrow> (\<forall>m\<in>set ms. str_ok (fst m) \<and> json_ok (snd m))"

definition layout_ok :: "layout \<Rightarrow> bool" where
  "layout_ok w \<longleftrightarrow> (\<forall>i. \<forall>c\<in>set (w i). json_space c)"

section \<open>Scanning\<close>

lemma hex_scan_all: "n \<le> length cs \<Longrightarrow> \<forall>h\<in>set (take n cs). h \<noteq> NUL \<and> hexdigit h \<Longrightarrow> hex_scan n cs = Some n"
  by (induction n cs rule: hex_scan.induct) auto

lemma str_scan_ok: "str_ok s \<Longrightarrow> str_scan (s @ QUOTE # rest) = Inr (length s)"
proof (induction s rule: str_ok.induct)
  case (3 c e cs)
  show ?case
  proof (cases "c = BACKSLASH")
    case False
    with 3 show ?thesis by auto
  next
    case True
    show ?thesis
    proof (cases "e \<in> escapes")
      case in_esc: True
      then have "e \<noteq> CHR ''u''" by (auto simp: escapes_def)
      with True in_esc 3 show ?thesis by auto
    next
      case False
      with True 3(4) have u: "e = CHR ''u''" "4 \<le> length cs" "\<forall>h\<in>set (take 4 cs). h \<noteq> NUL \<and> hexdigit h" "str_ok (drop 4 cs)"
        by auto
      then have h: "hex_scan 4 (cs @ QUOTE # rest) = Some 4" by (intro hex_scan_all) auto
      have "str_scan (drop 4 cs @ QUOTE # rest) = Inr (length cs - 4)" using 3(2) True u by simp
      with True False u h show ?thesis by simp
    qed
  qed
qed auto

text \<open>A primitive ends where the next character ends it.\<close>

definition delimited :: "string \<Rightarrow> nat \<Rightarrow> bool" where
  "delimited js k \<longleftrightarrow> drop k js = [] \<or> hd (drop k js) = NUL \<or> prim_end (hd (drop k js))"

lemma prim_scan_ok:
  "\<forall>c\<in>set s. c \<noteq> NUL \<and> \<not> prim_end c \<and> printable c \<Longrightarrow> rest = [] \<or> hd rest = NUL \<or> prim_end (hd rest) \<Longrightarrow>
    prim_scan (s @ rest) = Some (length s)"
proof (induction s)
  case Nil
  then show ?case by (cases rest) auto
qed auto

text \<open>\<open>found js i u\<close>: the text \<open>js\<close> has \<open>u\<close> at position \<open>i\<close>.\<close>

definition found :: "string \<Rightarrow> nat \<Rightarrow> string \<Rightarrow> bool" where
  "found js i u \<longleftrightarrow> prefix u (drop i js)"

lemma found_append: "found js i (u @ v) \<longleftrightarrow> found js i u \<and> found js (i + length u) v"
proof -
  have d: "drop (i + length u) js = drop (length u) (drop i js)" by (simp add: add.commute)
  show ?thesis unfolding found_def d by (auto simp: prefix_def simp del: drop_drop)
qed

lemma found_Cons: "found js i (c # u) \<longleftrightarrow> i < length js \<and> js ! i = c \<and> found js (i + 1) u"
proof (cases "i < length js")
  case True
  then have "drop i js = js ! i # drop (i + 1) js" by (simp add: Cons_nth_drop_Suc)
  then show ?thesis using True by (auto simp: found_def)
qed (simp add: found_def)

lemma found_Nil [simp]: "found js i []" by (simp add: found_def)

lemma found_after: "found js i (after w i u) \<longleftrightarrow> found js i u \<and> found js (i + length u) (w (i + length u))"
  by (simp add: after_def found_append)

lemma delimited_Cons: "found js k (c # u) \<Longrightarrow> prim_end c \<Longrightarrow> delimited js k"
  by (auto simp: delimited_def found_def prefix_def)

lemma delimited_space:
  assumes "found js k ws" "\<forall>c\<in>set ws. json_space c" "delimited js (k + length ws)"
  shows "delimited js k"
proof (cases ws)
  case (Cons c u)
  with assms(1,2) show ?thesis by (intro delimited_Cons [of js k c u]) (auto simp: json_space_def prim_end_def)
qed (use assms in simp)

end
