(* ===== verification/Json_Parse.thy ===== *)
theory Json_Parse
  imports Json_Text
begin

text \<open>
  The tokeniser on the text of a JSON value: whatever the layout, it gives the tokens of the
  value. \<open>go js num i s ts\<close> is what is left to do at position \<open>i\<close> with superior token \<open>s\<close> and tokens \<open>ts\<close>.
\<close>

section \<open>Steps\<close>

definition go :: "string \<Rightarrow> nat \<Rightarrow> nat \<Rightarrow> int \<Rightarrow> jsmntok_t list \<Rightarrow> (int \<times> jsmn_parser) option" where
  "go js num i s ts = c_loop (jsmn_pass js num) (int (length ts), \<lparr>jp_pos = i, jp_toksuper = s, jp_toks = ts\<rparr>)"

lemma go_space:
  "found js i ws \<Longrightarrow> \<forall>c\<in>set ws. json_space c \<Longrightarrow> go js num i s ts = go js num (i + length ws) s ts"
proof (induction ws arbitrary: i)
  case (Cons c ws)
  then have c: "i < length js" "json_space (js ! i)" and f: "found js (i + 1) ws" by (auto simp: found_Cons)
  have "go js num i s ts = go js num (i + 1) s ts"
    using pass_space [of "\<lparr>jp_pos = i, jp_toksuper = s, jp_toks = ts\<rparr>" js num "int (length ts)"] c
    by (simp add: go_def c_loop_next advance_def)
  with Cons.IH [OF f] Cons.prems(2) show ?case by simp
qed simp

lemma go_layout: "layout_ok w \<Longrightarrow> found js i (w k) \<Longrightarrow> go js num i s ts = go js num (i + length (w k)) s ts"
  by (rule go_space) (auto simp: layout_ok_def)

lemma go_string:
  assumes "found js i (QUOTE # u @ [QUOTE])" "str_ok u" "super_ok s ts" "length ts < num"
  shows "go js num i s ts = go js num (i + length u + 2) s (bumped s ts @
    [\<lparr>tk_type = JSMN_STRING, tk_start = int (i + 1), tk_end = int (i + 1 + length u), tk_size = 0\<rparr>])"
proof -
  from assms(1) have c: "i < length js" "js ! i = QUOTE" and f: "found js (i + 1) (u @ [QUOTE])" by (auto simp: found_Cons)
  from f obtain zs where "drop (i + 1) js = u @ QUOTE # zs" by (auto simp: found_def prefix_def)
  with str_scan_ok [OF assms(2)] have "str_scan (drop (i + 1) js) = Inr (length u)" by simp
  with pass_string [of "\<lparr>jp_pos = i, jp_toksuper = s, jp_toks = ts\<rparr>" js num "int (length ts)"] c assms(3,4)
  show ?thesis by (simp add: go_def c_loop_next add.commute)
qed

lemma go_prim:
  assumes "found js i u" "prim_ok u" "delimited js (i + length u)" "super_ok s ts" "length ts < num"
  shows "go js num i s ts = go js num (i + length u) s (bumped s ts @
    [\<lparr>tk_type = JSMN_PRIMITIVE, tk_start = int i, tk_end = int (i + length u), tk_size = 0\<rparr>])"
proof -
  obtain c cs where u: "u = c # cs" "prim_start c" using assms(2) by (cases u) (auto simp: prim_ok_def)
  with assms(1) have c: "i < length js" "prim_start (js ! i)" by (auto simp: found_Cons)
  from assms(1) obtain zs where zs: "drop i js = u @ zs" by (auto simp: found_def prefix_def)
  have "drop (i + length u) js = drop (length u) (drop i js)" by (simp add: add.commute)
  then have "zs = drop (i + length u) js" unfolding zs by simp
  with assms(2,3) zs have "prim_scan (drop i js) = Some (length u)"
    by (simp add: prim_scan_ok prim_ok_def delimited_def)
  with pass_prim(1) [of "\<lparr>jp_pos = i, jp_toksuper = s, jp_toks = ts\<rparr>" js num "int (length ts)"] c assms(4,5)
  show ?thesis by (simp add: go_def c_loop_next add.commute)
qed

lemma go_open:
  assumes "found js i [c]" "c = CHR ''{'' \<or> c = CHR ''[''" "super_ok s ts" "length ts < num"
  shows "go js num i s ts = go js num (i + 1) (int (length ts)) (bumped s ts @
    [\<lparr>tk_type = bracket_type c, tk_start = int i, tk_end = -1, tk_size = 0\<rparr>])"
  using pass_open [of "\<lparr>jp_pos = i, jp_toksuper = s, jp_toks = ts\<rparr>" js num "int (length ts)"] assms
  by (auto simp: go_def c_loop_next found_Cons add.commute)

lemma go_colon:
  assumes "found js i [CHR '':'']"
  shows "go js num i s ts = go js num (i + 1) (int (length ts) - 1) ts"
  using pass_colon [of "\<lparr>jp_pos = i, jp_toksuper = s, jp_toks = ts\<rparr>" js num "int (length ts)"] assms
  by (simp add: go_def c_loop_next found_Cons advance_def)

lemma go_comma:
  assumes "found js i [CHR '','']" "super_ok s ts"
  shows "go js num i s ts = go js num (i + 1) (comma_super s ts) ts"
  using pass_comma [of "\<lparr>jp_pos = i, jp_toksuper = s, jp_toks = ts\<rparr>" js num "int (length ts)"] assms
  by (simp add: go_def c_loop_next found_Cons advance_def)

section \<open>The open tokens\<close>

text \<open>The innermost open token is the superior one once a value is closed.\<close>

definition open_super :: "jsmntok_t list \<Rightarrow> int" where
  "open_super ts = (case last_below tk_open ts (length ts) of None \<Rightarrow> -1 | Some i \<Rightarrow> int i)"

definition all_closed :: "jsmntok_t list \<Rightarrow> bool" where
  "all_closed ts \<longleftrightarrow> (\<forall>t\<in>set ts. \<not> tk_open t)"

lemma all_closed_simps [simp]: "all_closed []" "all_closed (t # ts) \<longleftrightarrow> \<not> tk_open t \<and> all_closed ts"
  "all_closed (ts @ us) \<longleftrightarrow> all_closed ts \<and> all_closed us"
  by (auto simp: all_closed_def)

lemma last_below_cong: "(\<And>i. i < n \<Longrightarrow> P (ts ! i) = P (us ! i)) \<Longrightarrow> last_below P ts n = last_below P us n"
  by (induction n) auto

lemma last_below_bumped: "n \<le> length ts \<Longrightarrow> last_below tk_open (bumped s ts) n = last_below tk_open ts n"
  by (rule last_below_cong) (simp add: tk_open_def bumped_nth)

lemma open_super_bumped: "open_super (bumped s ts) = open_super ts"
  by (simp add: open_super_def last_below_bumped)

lemma last_below_skip: "n \<le> m \<Longrightarrow> (\<And>i. n \<le> i \<Longrightarrow> i < m \<Longrightarrow> \<not> P (ts ! i)) \<Longrightarrow> last_below P ts m = last_below P ts n"
  by (induction m rule: nat_induct_at_least [where m = n]; simp)
    
lemma last_below_hit:
  assumes "P t" "\<forall>u\<in>set ys. \<not> P u"
  shows "last_below P (xs @ t # ys) (length (xs @ t # ys)) = Some (length xs)"
proof -
  have "last_below P (xs @ t # ys) (length (xs @ t # ys)) = last_below P (xs @ t # ys) (Suc (length xs))"
    using assms(2) by (intro last_below_skip) (auto simp: nth_append nth_Cons split: nat.split)
  with assms(1) show ?thesis by simp
qed

lemma open_super_hit: "tk_open t \<Longrightarrow> all_closed ys \<Longrightarrow> open_super (xs @ t # ys) = int (length xs)"
  using last_below_hit [of tk_open t ys xs] by (simp add: open_super_def all_closed_def)

lemma comma_super_hit:
  assumes "tk_open t" "tk_container t" "all_closed ys"
    and "s = int (length xs) \<or> \<not> tk_container ((xs @ t # ys) ! nat s) \<and> s \<noteq> -1"
  shows "comma_super s (xs @ t # ys) = int (length xs)"
proof -
  have hit: "last_below (\<lambda>t. tk_container t \<and> tk_open t) (xs @ t # ys) (length (xs @ t # ys)) = Some (length xs)"
    using assms(1-3) by (intro last_below_hit) (auto simp: all_closed_def)
  from assms(4) show ?thesis
  proof
    assume "s = int (length xs)"
    with assms(2) show ?thesis by (simp add: comma_super_def)
  next
    assume "\<not> tk_container ((xs @ t # ys) ! nat s) \<and> s \<noteq> -1"
    with hit show ?thesis by (simp add: comma_super_def)
  qed
qed

lemma go_close:
  assumes "found js i [c]" "c = CHR ''}'' \<or> c = CHR '']''" "tk_open t" "all_closed ys" "tk_type t = bracket_type c"
  shows "go js num i s (xs @ t # ys) = go js num (i + 1) (open_super xs) (xs @ t\<lparr>tk_end := int (i + 1)\<rparr> # ys)"
proof -
  let ?p = "\<lparr>jp_pos = i, jp_toksuper = s, jp_toks = xs @ t # ys\<rparr>"
  let ?t = "t\<lparr>tk_end := int (i + 1)\<rparr>"
  have "last_below tk_open (xs @ ?t # ys) (Suc (length xs)) = last_below tk_open (xs @ ?t # ys) (length xs)"
    by (simp add: tk_open_def)
  also have "\<dots> = last_below tk_open xs (length xs)" by (rule last_below_cong) (simp add: nth_append)
  finally have sup: "(case last_below tk_open (xs @ ?t # ys) (Suc (length xs)) of None \<Rightarrow> -1 | Some j \<Rightarrow> int j) = open_super xs"
    by (simp add: open_super_def)
  have hit: "last_below tk_open (xs @ t # ys) (length (xs @ t # ys)) = Some (length xs)"
    using assms(3,4) by (intro last_below_hit) (auto simp: all_closed_def)
  have "close_bracket (bracket_type c) ?p = Some \<lparr>jp_pos = i, jp_toksuper = open_super xs, jp_toks = xs @ ?t # ys\<rparr>"
    unfolding close_bracket_def jsmn_parser.simps hit using assms(5) sup by (simp add: Let_def)
  moreover have "i < length js" "js ! i = c" using assms(1) by (simp_all add: found_Cons)
  ultimately show ?thesis
    using pass_close [of ?p js num "int (length (xs @ t # ys))"] assms(2) by (simp add: go_def c_loop_next advance_def)
qed

section \<open>Values\<close>

fun final_super :: "json \<Rightarrow> int \<Rightarrow> jsmntok_t list \<Rightarrow> int" where
  "final_super (JPrim _) s ts = s"
| "final_super (JStr _) s ts = s"
| "final_super _ s ts = open_super ts"

definition value_goes :: "string \<Rightarrow> nat \<Rightarrow> layout \<Rightarrow> nat \<Rightarrow> json \<Rightarrow> bool" where
  "value_goes js num w i v \<longleftrightarrow> (\<forall>s ts.
     json_ok v \<and> found js i (spell w i v) \<and> delimited js (i + length (spell w i v)) \<and> super_ok s ts \<and>
     length ts + length (tokens_of w i v) \<le> num \<longrightarrow>
     go js num i s ts = go js num (i + length (spell w i v)) (final_super v s ts) (bumped s ts @ tokens_of w i v))"

definition grown :: "jsmntok_t \<Rightarrow> 'a list \<Rightarrow> jsmntok_t" where
  "grown t es = t\<lparr>tk_size := tk_size t + int (length es)\<rparr>"

definition elements_go :: "string \<Rightarrow> nat \<Rightarrow> layout \<Rightarrow> nat \<Rightarrow> json list \<Rightarrow> bool" where
  "elements_go js num w i es \<longleftrightarrow> (\<forall>xs t ys.
     (\<forall>e\<in>set es. json_ok e) \<and> found js i (spell_elements w i es) \<and>
     delimited js (i + length (spell_elements w i es)) \<and> tk_open t \<and> tk_container t \<and> all_closed ys \<and>
     length (xs @ t # ys) + length (tokens_elements w i es) \<le> num \<longrightarrow>
     go js num i (int (length xs)) (xs @ t # ys) =
     go js num (i + length (spell_elements w i es)) (int (length xs)) (xs @ grown t es # ys @ tokens_elements w i es))"

definition members_go :: "string \<Rightarrow> nat \<Rightarrow> layout \<Rightarrow> nat \<Rightarrow> (string \<times> json) list \<Rightarrow> bool" where
  "members_go js num w i ms \<longleftrightarrow> (\<forall>xs t ys.
     (\<forall>m\<in>set ms. str_ok (fst m) \<and> json_ok (snd m)) \<and> found js i (spell_members w i ms) \<and>
     delimited js (i + length (spell_members w i ms)) \<and> tk_open t \<and> tk_container t \<and> all_closed ys \<and>
     length (xs @ t # ys) + length (tokens_members w i ms) \<le> num \<longrightarrow>
     (\<exists>s. go js num i (int (length xs)) (xs @ t # ys) =
       go js num (i + length (spell_members w i ms)) s (xs @ grown t ms # ys @ tokens_members w i ms)))"

lemma tokens_closed:
  "all_closed (tokens_of w i v)" "all_closed (tokens_elements w i es)" "all_closed (tokens_members w i ms)"
  by (induction w i v and w i es and w i ms rule: tokens_of_tokens_elements_tokens_members.induct)
    (auto simp: tk_open_def Let_def)

lemma bumped_hit: "bumped (int (length xs)) (xs @ t # ys) = xs @ t\<lparr>tk_size := tk_size t + 1\<rparr> # ys"
  by (simp add: bumped_def)

lemma grown_Nil [simp]: "grown t [] = t" and grown_open [simp]: "tk_open (grown t es) = tk_open t"
  and grown_type [simp]: "tk_type (grown t es) = tk_type t" and grown_container [simp]: "tk_container (grown t es) = tk_container t"
  by (simp_all add: grown_def tk_open_def tk_container_def)

lemma grown_Cons: "grown t (e # es) = grown (t\<lparr>tk_size := tk_size t + 1\<rparr>) es"
  by (simp add: grown_def)

lemma array_goes:
  assumes w: "layout_ok w" and inner: "elements_go js num w (i + length (after w i [CHR ''[''])) es"
  shows "value_goes js num w i (JArr es)"
  unfolding value_goes_def
proof (intro allI impI, elim conjE)
  fix s ts
  let ?a = "after w i [CHR ''['']" let ?k = "i + length ?a" let ?e = "spell_elements w ?k es"
  let ?t = "\<lparr>tk_type = JSMN_ARRAY, tk_start = int i, tk_end = -1, tk_size = 0\<rparr>"
  assume ok: "json_ok (JArr es)" and f: "found js i (spell w i (JArr es))" and sup: "super_ok s ts"
    and cap: "length ts + length (tokens_of w i (JArr es)) \<le> num"
  from f have f1: "found js i [CHR ''['']" "found js (i + 1) (w (i + 1))" "found js ?k ?e" "found js (?k + length ?e) [CHR '']'']"
    by (simp_all add: Let_def found_after found_append)
  have "go js num i s ts = go js num (i + 1) (int (length (bumped s ts))) (bumped s ts @ [?t])"
    using go_open [OF f1(1) _ sup, of num] cap by simp
  also have "\<dots> = go js num ?k (int (length (bumped s ts))) (bumped s ts @ [?t])"
    using go_layout [OF w f1(2)] by (simp add: after_def)
  also have "\<dots> = go js num (?k + length ?e) (int (length (bumped s ts))) (bumped s ts @ grown ?t es # tokens_elements w ?k es)"
    using inner [unfolded elements_go_def, rule_format, of ?t "[]" "bumped s ts"] ok f1(3) cap
      delimited_Cons [OF f1(4)] by (simp add: tk_open_def tk_container_def prim_end_def)
  also have "\<dots> = go js num (?k + length ?e + 1) (open_super ts)
      (bumped s ts @ (grown ?t es)\<lparr>tk_end := int (?k + length ?e + 1)\<rparr> # tokens_elements w ?k es)"
    using go_close [OF f1(4), of "grown ?t es"] by (simp add: tk_open_def grown_def tokens_closed open_super_bumped)
  finally show "go js num i s ts = go js num (i + length (spell w i (JArr es))) (final_super (JArr es) s ts)
      (bumped s ts @ tokens_of w i (JArr es))"
    by (simp add: Let_def grown_def add.assoc)
qed

lemma object_goes:
  assumes w: "layout_ok w" and inner: "members_go js num w (i + length (after w i [CHR ''{''])) ms"
  shows "value_goes js num w i (JObj ms)"
  unfolding value_goes_def
proof (intro allI impI, elim conjE)
  fix s ts
  let ?a = "after w i [CHR ''{'']" let ?k = "i + length ?a" let ?e = "spell_members w ?k ms"
  let ?t = "\<lparr>tk_type = JSMN_OBJECT, tk_start = int i, tk_end = -1, tk_size = 0\<rparr>"
  assume ok: "json_ok (JObj ms)" and f: "found js i (spell w i (JObj ms))" and sup: "super_ok s ts"
    and cap: "length ts + length (tokens_of w i (JObj ms)) \<le> num"
  from f have f1: "found js i [CHR ''{'']" "found js (i + 1) (w (i + 1))" "found js ?k ?e" "found js (?k + length ?e) [CHR ''}'']"
    by (simp_all add: Let_def found_after found_append)
  have "go js num i s ts = go js num (i + 1) (int (length (bumped s ts))) (bumped s ts @ [?t])"
    using go_open [OF f1(1) _ sup, of num] cap by simp
  also have "\<dots> = go js num ?k (int (length (bumped s ts))) (bumped s ts @ [?t])"
    using go_layout [OF w f1(2)] by (simp add: after_def)
  also obtain s' where "\<dots> = go js num (?k + length ?e) s' (bumped s ts @ grown ?t ms # tokens_members w ?k ms)"
    using inner [unfolded members_go_def, rule_format, of ?t "[]" "bumped s ts"] ok f1(3) cap
      delimited_Cons [OF f1(4)] by (auto simp: tk_open_def tk_container_def prim_end_def)
  also have "go js num (?k + length ?e) s' (bumped s ts @ grown ?t ms # tokens_members w ?k ms) =
      go js num (?k + length ?e + 1) (open_super ts)
      (bumped s ts @ (grown ?t ms)\<lparr>tk_end := int (?k + length ?e + 1)\<rparr> # tokens_members w ?k ms)"
    using go_close [OF f1(4), of "grown ?t ms"] by (simp add: tk_open_def grown_def tokens_closed open_super_bumped)
  finally show "go js num i s ts = go js num (i + length (spell w i (JObj ms))) (final_super (JObj ms) s ts)
      (bumped s ts @ tokens_of w i (JObj ms))"
    by (simp add: Let_def grown_def add.assoc)
qed

text \<open>The separator after an element: nothing after the last one, a comma otherwise.\<close>

definition separator :: "layout \<Rightarrow> nat \<Rightarrow> bool \<Rightarrow> string" where
  "separator w k final = (if final then [] else after w k [CHR '',''])"

lemma element_delimited:
  assumes "layout_ok w" "found js k (w k)" "found js (k + length (w k)) (separator w (k + length (w k)) final)"
    and "final \<Longrightarrow> delimited js (k + length (w k))"
  shows "delimited js k"
proof (rule delimited_space [OF assms(2)])
  show "\<forall>c\<in>set (w k). json_space c" using assms(1) by (simp add: layout_ok_def)
  show "delimited js (k + length (w k))"
  proof (cases final)
    case False
    with assms(3) show ?thesis by (auto simp: separator_def found_after prim_end_def intro: delimited_Cons)
  qed (use assms(4) in simp)
qed

lemma go_separator:
  assumes "layout_ok w" "found js k (separator w k final)" "tk_open t" "tk_container t" "all_closed ys"
    and "s = int (length xs) \<or> \<not> tk_container ((xs @ t # ys) ! nat s) \<and> s \<noteq> -1" "super_ok s (xs @ t # ys)"
  obtains s' where "go js num k s (xs @ t # ys) = go js num (k + length (separator w k final)) s' (xs @ t # ys)"
    "final \<Longrightarrow> s' = s" "\<not> final \<Longrightarrow> s' = int (length xs)"
proof (cases final)
  case True
  with that [of s] show thesis by (simp add: separator_def)
next
  case False
  with assms(2) have f: "found js k [CHR '','']" "found js (k + 1) (w (k + 1))" by (simp_all add: separator_def found_after)
  have "go js num k s (xs @ t # ys) = go js num (k + 1) (int (length xs)) (xs @ t # ys)"
    using go_comma [OF f(1) assms(7)] comma_super_hit [OF assms(3-6)] by simp
  also have "\<dots> = go js num (k + length (separator w k final)) (int (length xs)) (xs @ t # ys)"
    using go_layout [OF assms(1) f(2)] False by (simp add: separator_def after_def)
  finally show thesis using that False by blast
qed

lemma final_super_hit: "tk_open t \<Longrightarrow> all_closed ys \<Longrightarrow> final_super v (int (length xs)) (xs @ t # ys) = int (length xs)"
  by (cases v) (simp_all add: open_super_hit)

lemma elements_Nil_go: "elements_go js num w i []"
  by (simp add: elements_go_def)

lemma elements_Cons_go:
  fixes w :: layout and i :: nat and e :: json and es :: "json list"
  defines "a \<equiv> after w i (spell w i e)"
  defines "b \<equiv> separator w (i + length a) (es = [])"
  assumes w: "layout_ok w" and here: "value_goes js num w i e"
    and rest: "elements_go js num w (i + length a + length b) es"
  shows "elements_go js num w i (e # es)"
  unfolding elements_go_def
proof (intro allI impI, elim conjE)
  fix xs ys :: "jsmntok_t list" and t :: jsmntok_t
  let ?k = "i + length a + length b" let ?r = "spell_elements w ?k es" let ?s = "int (length xs)"
  let ?t = "t\<lparr>tk_size := tk_size t + 1\<rparr>"
  have sp: "spell_elements w i (e # es) = a @ b @ ?r" and tk: "tokens_elements w i (e # es) = tokens_of w i e @ tokens_elements w ?k es"
    by (simp_all add: Let_def a_def b_def separator_def)
  assume ok: "\<forall>e\<in>set (e # es). json_ok e" and f: "found js i (spell_elements w i (e # es))"
    and fin: "delimited js (i + length (spell_elements w i (e # es)))"
    and t: "tk_open t" "tk_container t" "all_closed ys"
    and cap: "length (xs @ t # ys) + length (tokens_elements w i (e # es)) \<le> num"
  note cap = cap [unfolded tk] and fin = fin [unfolded sp]
  have t': "tk_open ?t" "tk_container ?t" "all_closed (ys @ tokens_of w i e)"
    using t by (simp_all add: tk_open_def tk_container_def tokens_closed)
  let ?m = "i + length (spell w i e)"
  have m: "?m + length (w ?m) = i + length a" by (simp add: a_def after_def)
  from f [unfolded sp] have f1: "found js i (spell w i e)" "found js ?m (w ?m)" "found js (i + length a) b" "found js ?k ?r"
    by (simp_all add: a_def found_after found_append add.assoc)
  have "delimited js (i + length a)" if "es = []" using fin that by (simp add: b_def separator_def)
  with element_delimited [OF w f1(2), of "es = []"] f1(3) have d: "delimited js ?m" unfolding m b_def by blast
  have "go js num i ?s (xs @ t # ys) = go js num ?m ?s (xs @ ?t # ys @ tokens_of w i e)"
    using here [unfolded value_goes_def, rule_format, of ?s "xs @ t # ys"] ok f1(1) d cap t
    by (simp add: super_ok_def final_super_hit bumped_hit)
  also have "\<dots> = go js num (i + length a) ?s (xs @ ?t # ys @ tokens_of w i e)"
    using go_layout [OF w f1(2)] m by simp
  also have "\<dots> = go js num ?k ?s (xs @ ?t # ys @ tokens_of w i e)"
    by (rule go_separator [OF w f1(3) [unfolded b_def] t', of ?s xs num]) (auto simp: super_ok_def b_def)
  also have "\<dots> = go js num (?k + length ?r) ?s (xs @ grown ?t es # (ys @ tokens_of w i e) @ tokens_elements w ?k es)"
    using rest [unfolded elements_go_def, rule_format, of ?t "ys @ tokens_of w i e" xs] ok f1(4) fin t' cap
    by (simp add: add.assoc)
  finally show "go js num i ?s (xs @ t # ys) =
      go js num (i + length (spell_elements w i (e # es))) ?s (xs @ grown t (e # es) # ys @ tokens_elements w i (e # es))"
    unfolding sp tk grown_Cons by (simp add: add.assoc)
qed

lemma members_Nil_go: "members_go js num w i []"
  unfolding members_go_def by (intro allI impI) auto

lemma members_Cons_go:
  fixes w :: layout and i :: nat and m :: "string \<times> json" and ms :: "(string \<times> json) list"
  defines "k \<equiv> after w i (QUOTE # fst m @ [QUOTE])"
  defines "c \<equiv> after w (i + length k) [CHR '':'']"
  defines "j \<equiv> i + length k + length c"
  defines "a \<equiv> after w j (spell w j (snd m))"
  defines "b \<equiv> separator w (j + length a) (ms = [])"
  assumes w: "layout_ok w" and here: "value_goes js num w j (snd m)"
    and rest: "members_go js num w (j + length a + length b) ms"
  shows "members_go js num w i (m # ms)"
  unfolding members_go_def
proof (intro allI impI, elim conjE)
  fix xs ys :: "jsmntok_t list" and t :: jsmntok_t
  let ?k = "j + length a + length b" let ?r = "spell_members w ?k ms" let ?s = "int (length xs)"
  let ?t = "t\<lparr>tk_size := tk_size t + 1\<rparr>"
  let ?n = "\<lparr>tk_type = JSMN_STRING, tk_start = int (i + 1), tk_end = int (i + 1 + length (fst m)), tk_size = 0\<rparr>"
  let ?n1 = "?n\<lparr>tk_size := 1\<rparr>"
  let ?ns = "int (length (xs @ ?t # ys))"
  have sp: "spell_members w i (m # ms) = k @ c @ a @ b @ ?r"
    and tk: "tokens_members w i (m # ms) = ?n1 # tokens_of w j (snd m) @ tokens_members w ?k ms"
    by (simp_all add: Let_def a_def b_def k_def c_def j_def separator_def add.assoc)
  assume ok: "\<forall>m\<in>set (m # ms). str_ok (fst m) \<and> json_ok (snd m)" and f: "found js i (spell_members w i (m # ms))"
    and fin: "delimited js (i + length (spell_members w i (m # ms)))"
    and t: "tk_open t" "tk_container t" "all_closed ys"
    and cap: "length (xs @ t # ys) + length (tokens_members w i (m # ms)) \<le> num"
  note cap = cap [unfolded tk] and fin = fin [unfolded sp]
  have t': "tk_open ?t" "tk_container ?t" "all_closed (ys @ ?n # [])" "all_closed (ys @ ?n1 # tokens_of w j (snd m))"
    using t by (simp_all add: tk_open_def tk_container_def tokens_closed)
  let ?m = "j + length (spell w j (snd m))"
  have m: "?m + length (w ?m) = j + length a" by (simp add: a_def after_def)
  from f [unfolded sp] have f0: "found js i k" "found js (i + length k) c" "found js j a" "found js (j + length a) b" "found js ?k ?r"
    by (simp_all add: found_append j_def add.assoc)
  from f0 have f1: "found js i (QUOTE # fst m @ [QUOTE])" "found js (i + length (fst m) + 2) (w (i + length (fst m) + 2))"
    "found js (i + length k) [CHR '':'']" "found js (i + length k + 1) (w (i + length k + 1))"
    "found js j (spell w j (snd m))" "found js ?m (w ?m)"
    by (simp_all add: k_def c_def a_def found_after)
  have "delimited js (j + length a)" if "ms = []" using fin that by (simp add: b_def separator_def j_def add.assoc)
  with element_delimited [OF w f1(6), of "ms = []"] f0(4) have d: "delimited js ?m" unfolding m b_def by blast
  have "go js num i ?s (xs @ t # ys) = go js num (i + length (fst m) + 2) ?s (xs @ ?t # ys @ [?n])"
    using go_string [OF f1(1), of ?s "xs @ t # ys" num] ok cap by (simp add: super_ok_def bumped_hit)
  also have "\<dots> = go js num (i + length k) ?s (xs @ ?t # ys @ [?n])"
    using go_layout [OF w f1(2)] by (simp add: k_def after_def add.assoc)
  also have "\<dots> = go js num (i + length k + 1) ?ns (xs @ ?t # ys @ [?n])"
    using go_colon [OF f1(3)] by simp
  also have "\<dots> = go js num j ?ns (xs @ ?t # ys @ [?n])"
    using go_layout [OF w f1(4)] by (simp add: c_def j_def after_def)
  also have "\<dots> = go js num ?m (final_super (snd m) ?ns (xs @ ?t # ys @ [?n])) (xs @ ?t # ys @ ?n1 # tokens_of w j (snd m))"
    using here [unfolded value_goes_def, rule_format, of ?ns "xs @ ?t # ys @ [?n]"] bumped_hit [of "xs @ ?t # ys" ?n "[]"]
      ok f1(5) d cap by (simp add: super_ok_def)
  also have "\<dots> = go js num (j + length a) (final_super (snd m) ?ns (xs @ ?t # ys @ [?n])) (xs @ ?t # ys @ ?n1 # tokens_of w j (snd m))"
    using go_layout [OF w f1(6)] m by simp
  finally have to_sep: "go js num i ?s (xs @ t # ys) = go js num (j + length a) (final_super (snd m) ?ns (xs @ ?t # ys @ [?n]))
      (xs @ ?t # ys @ ?n1 # tokens_of w j (snd m))" .
  obtain s where past: "go js num (j + length a) (final_super (snd m) ?ns (xs @ ?t # ys @ [?n]))
      (xs @ ?t # ys @ ?n1 # tokens_of w j (snd m)) = go js num ?k s (xs @ ?t # ys @ ?n1 # tokens_of w j (snd m))" and s: "ms \<noteq> [] \<Longrightarrow> s = ?s"
  proof -
    let ?f = "final_super (snd m) ?ns (xs @ ?t # ys @ [?n])"
    have "(xs @ ?t # ys @ ?n1 # tokens_of w j (snd m)) ! nat ?ns = ?n1"
      unfolding nat_int using nth_append_length [of "xs @ ?t # ys" ?n1 "tokens_of w j (snd m)"] by simp
    then have "\<not> tk_container ((xs @ ?t # ys @ ?n1 # tokens_of w j (snd m)) ! nat ?ns)"
      unfolding tk_container_def by simp
    moreover have "?ns \<noteq> -1" by linarith
    moreover have "?f = ?ns \<or> ?f = ?s" using open_super_hit [OF t'(1,3)] by (cases "snd m") simp_all
    ultimately have "?f = ?s \<or> \<not> tk_container ((xs @ ?t # ys @ ?n1 # tokens_of w j (snd m)) ! nat ?f) \<and> ?f \<noteq> -1"
      by (elim disjE) simp_all
    moreover have "super_ok ?f (xs @ ?t # ys @ ?n1 # tokens_of w j (snd m))"
      using open_super_hit [OF t'(1,3)] by (cases "snd m") (simp_all add: super_ok_def)
    ultimately show thesis
      using go_separator [OF w f0(4) [unfolded b_def] t'(1,2,4), of ?f xs num] that unfolding b_def by metis
  qed
  note on = trans [OF to_sep past]
  show "\<exists>s. go js num i ?s (xs @ t # ys) = go js num (i + length (spell_members w i (m # ms))) s
      (xs @ grown t (m # ms) # ys @ tokens_members w i (m # ms))"
  proof (cases "ms = []")
    case True
    with on show ?thesis unfolding sp tk grown_Cons by (auto simp: j_def add.assoc)
  next
    case False
    with rest [unfolded members_go_def, rule_format, of ?t "ys @ ?n1 # tokens_of w j (snd m)" xs] ok f0(5) fin t' cap on s
    show ?thesis unfolding sp tk grown_Cons by (auto simp: j_def add.assoc)
  qed
qed

text \<open>Every value.\<close>

lemma value_go:
  "layout_ok w \<Longrightarrow> value_goes js num w i v" "layout_ok w \<Longrightarrow> elements_go js num w i es"
  "layout_ok w \<Longrightarrow> members_go js num w i ms"
proof (induction w i v and w i es and w i ms rule: spell_spell_elements_spell_members.induct)
  case (1 w i u)
  then show ?case by (simp add: value_goes_def go_prim [simplified, of js i u])
next
  case (2 w i u)
  then show ?case by (simp add: value_goes_def go_string [simplified, of js i u])
next
  case (3 w i es)
  then show ?case by (intro array_goes) auto
next
  case (4 w i ms)
  then show ?case by (intro object_goes) auto
next
  case (6 w i e es)
  then show ?case by (intro elements_Cons_go) (auto simp: separator_def)
next
  case (8 w i m ms)
  then show ?case by (intro members_Cons_go) (auto simp: separator_def)
qed (rule elements_Nil_go members_Nil_go)+

section \<open>The whole text\<close>

text \<open>A value with white space around it.\<close>

definition spell_text :: "layout \<Rightarrow> json \<Rightarrow> string" where
  "spell_text w v = w 0 @ after w (length (w 0)) (spell w (length (w 0)) v)"

definition text_tokens :: "layout \<Rightarrow> json \<Rightarrow> jsmntok_t list" where
  "text_tokens w v = tokens_of w (length (w 0)) v"

lemma text_found: "found (spell_text w v) (length (w 0)) (spell w (length (w 0)) v)"
  by (simp add: spell_text_def after_def found_def)

lemma text_parse:
  assumes "layout_ok w" "json_ok v" "length (text_tokens w v) \<le> num"
  shows "jsmn_parse jsmn_init (spell_text w v) num =
    Some (int (length (text_tokens w v)),
      \<lparr>jp_pos = length (spell_text w v), jp_toksuper = -1, jp_toks = text_tokens w v\<rparr>)"
proof -
  let ?js = "spell_text w v" and ?i = "length (w 0)"
  let ?k = "?i + length (spell w ?i v)"
  have f: "found ?js 0 (w 0)" "found ?js ?k (w ?k)" and l: "length ?js = ?k + length (w ?k)"
    by (simp_all add: spell_text_def after_def found_def)
  have "delimited ?js (length ?js)" by (simp add: delimited_def)
  then have d: "delimited ?js ?k"
    using delimited_space [OF f(2)] assms(1) l by (simp add: layout_ok_def)
  have "jsmn_parse jsmn_init ?js num = go ?js num 0 (-1) []" by (simp add: jsmn_parse_def jsmn_init_def go_def)
  also have "\<dots> = go ?js num ?i (-1) []" using go_layout [OF assms(1) f(1)] by simp
  also have "\<dots> = go ?js num ?k (final_super v (-1) []) (text_tokens w v)"
    using value_go(1) [OF assms(1), of ?js num ?i v, unfolded value_goes_def, rule_format, of "-1" "[]"]
      assms(2,3) text_found d by (simp add: super_ok_def bumped_def text_tokens_def)
  also have "final_super v (-1) [] = -1" by (cases v) (simp_all add: open_super_def)
  also have "go ?js num ?k (-1) (text_tokens w v) = go ?js num (length ?js) (-1) (text_tokens w v)"
    using go_layout [OF assms(1) f(2)] l by simp
  also have "last_below tk_open (text_tokens w v) (length (text_tokens w v)) = None"
    using tokens_closed(1) [of w ?i v] by (auto simp: last_below_None text_tokens_def all_closed_def)
  then have "go ?js num (length ?js) (-1) (text_tokens w v) = Some (int (length (text_tokens w v)),
      \<lparr>jp_pos = length ?js, jp_toksuper = -1, jp_toks = text_tokens w v\<rparr>)"
    by (simp add: go_def c_loop_stop jsmn_pass_def)
  finally show ?thesis .
qed

end
