(* ===== verification/Json_Utils.thy ===== *)
theory Json_Utils
  imports Json_Parse
begin

text \<open>
  \<^verbatim>\<open>lib/swift-support/jsmn_utils.c\<close>: walking over the tokens. A token pointer is an index into the
  tokens the parser has filled; reading behind them is \<open>None\<close>.
\<close>

section \<open>Helpers\<close>

definition tok_at :: "jsmntok_t list \<Rightarrow> nat \<Rightarrow> jsmntok_t option" where
  "tok_at ts t = (if t < length ts then Some (ts ! t) else None)"

definition tok_len :: "jsmntok_t \<Rightarrow> nat" where
  "tok_len t = nat (tk_end t - tk_start t)"

text \<open>\<^verbatim>\<open>strncmp\<close> is zero; a string ends at its first NUL or at its last character.\<close>

fun strncmp_eq :: "string \<Rightarrow> string \<Rightarrow> nat \<Rightarrow> bool" where
  "strncmp_eq a b 0 \<longleftrightarrow> True"
| "strncmp_eq a b (Suc n) \<longleftrightarrow>
     (let x = (case a of [] \<Rightarrow> NUL | c # _ \<Rightarrow> c); y = (case b of [] \<Rightarrow> NUL | c # _ \<Rightarrow> c)
      in x = y \<and> (x = NUL \<or> strncmp_eq (tl a) (tl b) n))"

definition jsmn_isnull :: "string \<Rightarrow> jsmntok_t \<Rightarrow> bool" where
  "jsmn_isnull json t \<longleftrightarrow>
     tk_type t = JSMN_PRIMITIVE \<and> strncmp_eq ''null'' (drop (nat (tk_start t)) json) (tok_len t)"

definition jsmn_streq :: "string \<Rightarrow> jsmntok_t \<Rightarrow> string \<Rightarrow> bool" where
  "jsmn_streq json t s \<longleftrightarrow>
     tk_type t = JSMN_STRING \<and> int (length s) = tk_end t - tk_start t \<and>
     strncmp_eq (drop (nat (tk_start t)) json) s (tok_len t)"

text \<open>The characters of a token, which \<^verbatim>\<open>jsmn_strcpy\<close> copies.\<close>

definition jsmn_strcpy :: "jsmntok_t \<Rightarrow> string \<Rightarrow> string" where
  "jsmn_strcpy t json = take (tok_len t) (drop (nat (tk_start t)) json)"

text \<open>\<^verbatim>\<open>jsmn_skip\<close> and the loop in it, which call each other: \<open>Skip t\<close> is the function at \<open>t\<close>,
  \<open>Skip_rest ty k t\<close> the loop with \<open>k\<close> rounds to go in a container of type \<open>ty\<close>.\<close>

datatype skip_call = Skip nat | Skip_rest jsmntype_t nat nat

partial_function (option) skip_run :: "jsmntok_t list \<Rightarrow> skip_call \<Rightarrow> nat option" where
  "skip_run ts call =
     (case call of
        Skip t \<Rightarrow> do {
          s \<leftarrow> tok_at ts t;
          case tk_type s of
            JSMN_UNDEFINED \<Rightarrow> None
          | JSMN_PRIMITIVE \<Rightarrow> Some (t + 1)
          | JSMN_STRING \<Rightarrow> Some (t + 1)
          | ty \<Rightarrow> skip_run ts (Skip_rest ty (nat (tk_size s)) (t + 1)) }
      | Skip_rest ty k t \<Rightarrow>
          if k = 0 then Some t
          else do {
            t1 \<leftarrow> skip_run ts (Skip t);
            t2 \<leftarrow> (if ty = JSMN_OBJECT then skip_run ts (Skip t1) else Some t1);
            skip_run ts (Skip_rest ty (k - 1) t2) })"

definition jsmn_skip :: "jsmntok_t list \<Rightarrow> nat \<Rightarrow> nat option" where
  "jsmn_skip ts t = skip_run ts (Skip t)"

lemma skip_token:
  "tok_at ts t = Some s \<Longrightarrow> tk_type s = JSMN_STRING \<or> tk_type s = JSMN_PRIMITIVE \<Longrightarrow> skip_run ts (Skip t) = Some (t + 1)"
  by (subst skip_run.simps) auto

lemma skip_container:
  "tok_at ts t = Some s \<Longrightarrow> tk_container s \<Longrightarrow>
    skip_run ts (Skip t) = skip_run ts (Skip_rest (tk_type s) (nat (tk_size s)) (t + 1))"
  by (subst skip_run.simps) (auto simp: tk_container_def)

lemma skip_rest_0: "skip_run ts (Skip_rest ty 0 t) = Some t"
  by (subst skip_run.simps) simp

lemma skip_rest_Suc: "skip_run ts (Skip_rest ty (Suc k) t) = do {
    t1 \<leftarrow> skip_run ts (Skip t);
    t2 \<leftarrow> (if ty = JSMN_OBJECT then skip_run ts (Skip t1) else Some t1);
    skip_run ts (Skip_rest ty k t2) }"
  by (subst skip_run.simps) simp

lemma strncmp_take: "NUL \<notin> set s \<Longrightarrow> length s = n \<Longrightarrow> strncmp_eq a s n \<longleftrightarrow> take n a = s"
proof (induction a s n rule: strncmp_eq.induct)
  case (2 a b n)
  then show ?case by (cases a; cases b) auto
qed simp

section \<open>Where a value stands\<close>

text \<open>The tokens from \<open>t\<close> on, and the text they point into, are those of a value, of elements, of
  members.\<close>

definition toks_at :: "jsmntok_t list \<Rightarrow> nat \<Rightarrow> jsmntok_t list \<Rightarrow> bool" where
  "toks_at ts t us \<longleftrightarrow> prefix us (drop t ts)"

definition val_at :: "string \<Rightarrow> jsmntok_t list \<Rightarrow> nat \<Rightarrow> json \<Rightarrow> bool" where
  "val_at js ts t v \<longleftrightarrow> (\<exists>w i. toks_at ts t (tokens_of w i v) \<and> found js i (spell w i v))"

definition elems_at :: "string \<Rightarrow> jsmntok_t list \<Rightarrow> nat \<Rightarrow> json list \<Rightarrow> bool" where
  "elems_at js ts t es \<longleftrightarrow> (\<exists>w i. toks_at ts t (tokens_elements w i es) \<and> found js i (spell_elements w i es))"

definition mems_at :: "string \<Rightarrow> jsmntok_t list \<Rightarrow> nat \<Rightarrow> (string \<times> json) list \<Rightarrow> bool" where
  "mems_at js ts t ms \<longleftrightarrow> (\<exists>w i. toks_at ts t (tokens_members w i ms) \<and> found js i (spell_members w i ms))"

text \<open>How many tokens a value has, in any layout.\<close>

fun ntoks :: "json \<Rightarrow> nat" where
  "ntoks (JPrim _) = 1"
| "ntoks (JStr _) = 1"
| "ntoks (JArr es) = 1 + sum_list (map ntoks es)"
| "ntoks (JObj ms) = 1 + sum_list (map (\<lambda>m. 1 + ntoks (snd m)) ms)"

fun json_type :: "json \<Rightarrow> jsmntype_t" where
  "json_type (JPrim _) = JSMN_PRIMITIVE"
| "json_type (JStr _) = JSMN_STRING"
| "json_type (JArr _) = JSMN_ARRAY"
| "json_type (JObj _) = JSMN_OBJECT"

lemma toks_append: "toks_at ts t (us @ vs) \<longleftrightarrow> toks_at ts t us \<and> toks_at ts (t + length us) vs"
proof -
  have d: "drop (t + length us) ts = drop (length us) (drop t ts)" by (simp add: add.commute)
  show ?thesis unfolding toks_at_def d by (auto simp: prefix_def simp del: drop_drop)
qed

lemma toks_Cons: "toks_at ts t (u # us) \<longleftrightarrow> tok_at ts t = Some u \<and> toks_at ts (t + 1) us"
proof (cases "t < length ts")
  case True
  then have "drop t ts = ts ! t # drop (t + 1) ts" by (simp add: Cons_nth_drop_Suc)
  then show ?thesis using True by (auto simp: toks_at_def tok_at_def)
qed (simp add: toks_at_def tok_at_def)

lemma length_tokens:
  "length (tokens_of w i v) = ntoks v" "length (tokens_elements w i es) = sum_list (map ntoks es)"
  "length (tokens_members w i ms) = sum_list (map (\<lambda>m. 1 + ntoks (snd m)) ms)"
  by (induction w i v and w i es and w i ms rule: tokens_of_tokens_elements_tokens_members.induct)
    (auto simp: Let_def)

lemma found_take: "found js i u \<Longrightarrow> take (length u) (drop i js) = u"
  by (auto simp: found_def prefix_def)

text \<open>The token of a string.\<close>

lemma string_token:
  assumes "found js i (QUOTE # u @ [QUOTE])"
    "s = \<lparr>tk_type = JSMN_STRING, tk_start = int (i + 1), tk_end = int (i + 1 + length u), tk_size = z\<rparr>"
  shows "jsmn_strcpy s js = u" "NUL \<notin> set x \<Longrightarrow> jsmn_streq js s x \<longleftrightarrow> u = x"
proof -
  have f: "found js (i + 1) u" using assms(1) by (simp add: found_Cons found_append)
  have l: "tok_len s = length u" by (simp add: tok_len_def assms(2))
  have n: "nat (tk_start s) = i + 1" unfolding assms(2) jsmntok_t.simps nat_int by (rule refl)
  show "jsmn_strcpy s js = u" using found_take [OF f] by (simp add: jsmn_strcpy_def l n)
  assume x: "NUL \<notin> set x"
  show "jsmn_streq js s x \<longleftrightarrow> u = x"
  proof (cases "length x = length u")
    case True
    have "strncmp_eq (drop (i + 1) js) x (length u) \<longleftrightarrow> u = x"
      using strncmp_take [OF x True, of "drop (i + 1) js"] found_take [OF f] by simp
    moreover have "tk_type s = JSMN_STRING" "tk_end s - tk_start s = int (length u)" by (simp_all add: assms(2))
    ultimately show ?thesis using True by (simp add: jsmn_streq_def l n)
  next
    case False
    then show ?thesis by (auto simp: jsmn_streq_def assms(2))
  qed
qed

lemma val_at_token:
  assumes "val_at js ts t v"
  obtains s where "tok_at ts t = Some s" "tk_type s = json_type v"
    "\<And>u. v = JStr u \<Longrightarrow> jsmn_strcpy s js = u"
    "\<And>u x. v = JStr u \<Longrightarrow> NUL \<notin> set x \<Longrightarrow> jsmn_streq js s x \<longleftrightarrow> u = x"
    "\<And>es. v = JArr es \<Longrightarrow> tk_size s = int (length es) \<and> elems_at js ts (t + 1) es"
    "\<And>ms. v = JObj ms \<Longrightarrow> tk_size s = int (length ms) \<and> mems_at js ts (t + 1) ms"
proof -
  note result = that
  from assms obtain w i where k: "toks_at ts t (tokens_of w i v)" and f: "found js i (spell w i v)"
    by (auto simp: val_at_def)
  show thesis
  proof (cases v)
    case (JPrim u)
    with k show ?thesis by (intro result) (auto simp: toks_Cons)
  next
    case (JStr u)
    with k f string_token [of js i u _ 0, OF _ refl] show ?thesis by (intro result) (auto simp: toks_Cons)
  next
    case (JArr es)
    with k f have "elems_at js ts (t + 1) es" by (auto simp: elems_at_def toks_Cons Let_def found_append)
    with JArr k show ?thesis by (intro result) (auto simp: toks_Cons)
  next
    case (JObj ms)
    with k f have "mems_at js ts (t + 1) ms" by (auto simp: mems_at_def toks_Cons Let_def found_append)
    with JObj k show ?thesis by (intro result) (auto simp: toks_Cons)
  qed
qed

lemma elems_at_Cons:
  assumes "elems_at js ts t (e # es)"
  shows "val_at js ts t e" "elems_at js ts (t + ntoks e) es"
  using assms unfolding elems_at_def val_at_def
  by (force simp: Let_def toks_append found_append found_after length_tokens)+

lemma mems_at_Cons:
  assumes "mems_at js ts t (m # ms)"
  obtains s where "tok_at ts t = Some s" "tk_type s = JSMN_STRING"
    "\<And>x. NUL \<notin> set x \<Longrightarrow> jsmn_streq js s x \<longleftrightarrow> fst m = x"
    "val_at js ts (t + 1) (snd m)" "mems_at js ts (t + 1 + ntoks (snd m)) ms"
proof -
  from assms obtain w i where toks: "toks_at ts t (tokens_members w i (m # ms))" and f: "found js i (spell_members w i (m # ms))"
    by (auto simp: mems_at_def)
  let ?s = "\<lparr>tk_type = JSMN_STRING, tk_start = int (i + 1), tk_end = int (i + 1 + length (fst m)), tk_size = 1\<rparr>"
  from toks have s: "tok_at ts t = Some ?s" by (simp add: Let_def toks_Cons)
  from f have q: "found js i (QUOTE # fst m @ [QUOTE])" unfolding spell_members.simps Let_def found_append found_after by blast
  have v: "val_at js ts (t + 1) (snd m)" "mems_at js ts (t + 1 + ntoks (snd m)) ms"
    using toks f unfolding val_at_def mems_at_def spell_members.simps tokens_members.simps Let_def
      found_append found_after toks_Cons toks_append length_tokens add.assoc by blast+
  show thesis using that [OF s _ string_token(2) [OF q refl] v] by simp
qed

text \<open>Skipping a value moves behind its tokens.\<close>

lemma skip_elems:
  assumes "\<And>e t. e \<in> set es \<Longrightarrow> val_at js ts t e \<Longrightarrow> skip_run ts (Skip t) = Some (t + ntoks e)" "elems_at js ts t es"
  shows "skip_run ts (Skip_rest JSMN_ARRAY (length es) t) = Some (t + sum_list (map ntoks es))"
  using assms
proof (induction es arbitrary: t)
  case (Cons e es)
  note e = elems_at_Cons [OF Cons.prems(2)]
  have "skip_run ts (Skip t) = Some (t + ntoks e)" using Cons.prems(1) [OF _ e(1)] by simp
  with Cons.IH [OF _ e(2)] Cons.prems(1) show ?case by (simp add: skip_rest_Suc)
qed (simp add: skip_rest_0)

lemma skip_mems:
  assumes "\<And>m t. m \<in> set ms \<Longrightarrow> val_at js ts t (snd m) \<Longrightarrow> skip_run ts (Skip t) = Some (t + ntoks (snd m))" "mems_at js ts t ms"
  shows "skip_run ts (Skip_rest JSMN_OBJECT (length ms) t) = Some (t + sum_list (map (\<lambda>m. 1 + ntoks (snd m)) ms))"
  using assms
proof (induction ms arbitrary: t)
  case (Cons m ms)
  from Cons.prems(2) obtain s where "tok_at ts t = Some s" "tk_type s = JSMN_STRING"
    and v: "val_at js ts (t + 1) (snd m)" "mems_at js ts (t + 1 + ntoks (snd m)) ms" by (rule mems_at_Cons)
  then have "skip_run ts (Skip t) = Some (t + 1)" by (simp add: skip_token)
  moreover have "skip_run ts (Skip (t + 1)) = Some (t + 1 + ntoks (snd m))" using Cons.prems(1) [OF _ v(1)] by simp
  ultimately show ?case using Cons.IH [OF _ v(2)] Cons.prems(1) by (simp add: skip_rest_Suc)
qed (simp add: skip_rest_0)

lemma skip_value: "val_at js ts t v \<Longrightarrow> jsmn_skip ts t = Some (t + ntoks v)"
  unfolding jsmn_skip_def
proof (induction v arbitrary: t)
  case (JPrim u)
  then show ?case by (auto elim!: val_at_token simp: skip_token)
next
  case (JStr u)
  then show ?case by (auto elim!: val_at_token simp: skip_token)
next
  case (JArr es)
  from JArr.prems obtain s where s: "tok_at ts t = Some s" "tk_type s = JSMN_ARRAY" "tk_size s = int (length es)"
    and e: "elems_at js ts (t + 1) es" by (rule val_at_token) auto
  from skip_elems [OF JArr.IH e] s show ?case by (simp add: skip_container tk_container_def)
next
  case (JObj ms)
  from JObj.prems obtain s where s: "tok_at ts t = Some s" "tk_type s = JSMN_OBJECT" "tk_size s = int (length ms)"
    and m: "mems_at js ts (t + 1) ms" by (rule val_at_token) auto
  have "skip_run ts (Skip u) = Some (u + ntoks (snd m))" if "m \<in> set ms" "val_at js ts u (snd m)" for m u
    using JObj.IH [of m "snd m" u] that by (cases m) auto
  from skip_mems [OF this m] s show ?case by (simp add: skip_container tk_container_def)
qed

end
