(* ===== verification/Keystone.thy ===== *)
theory Keystone
  imports Json_Utils Curl
begin

text \<open>
  \<^verbatim>\<open>lib/swift-support/keystone.c\<close>: asking an OpenStack Keystone server for a token and a storage
  URL, or taking them from the environment. Allocation succeeds. \<open>None\<close> is an access outside
  memory, a failed assertion or a loop that does not end; a C function's \<^verbatim>\<open>NULL\<close> is an inner \<open>None\<close>.
\<close>

section \<open>Data\<close>

definition BUFLEN :: nat where "BUFLEN = 1024"

definition TOKEN_HDR :: string where "TOKEN_HDR = ''X-Subject-Token: ''"

record keystone_auth_creds_t =
  kc_auth_url :: "string option"
  kc_username :: "string option"
  kc_password :: "string option"
  kc_project :: "string option"
  kc_domain_id :: "string option"

record keystone_auth_token_t =
  kt_token :: "string option"
  kt_storage_url :: "string option"

definition keystone_no_token :: keystone_auth_token_t where
  "keystone_no_token = \<lparr>kt_token = None, kt_storage_url = None\<rparr>"

text \<open>The characters of a C string end at a NUL.\<close>

definition c_str :: "string \<Rightarrow> string" where
  "c_str s = takeWhile (\<lambda>c. c \<noteq> NUL) s"

section \<open>The environment\<close>

text \<open>The macro: the flag \<^verbatim>\<open>success\<close> and the destination.\<close>

definition GETENV :: "(string \<Rightarrow> string option) \<Rightarrow> string \<Rightarrow> bool \<Rightarrow> int \<times> string option \<Rightarrow> int \<times> string option" where
  "GETENV getenv env req = (\<lambda>(success, dst).
     (case getenv env of
        None \<Rightarrow> (if req then 0 else success, dst)
      | Some tmp \<Rightarrow> if tmp = [] then (0, dst) else (success, Some tmp)))"

definition keystone_env_parse_creds ::
  "(string \<Rightarrow> string option) \<Rightarrow> keystone_auth_creds_t \<Rightarrow> int \<times> keystone_auth_creds_t" where
  "keystone_env_parse_creds getenv creds =
     (let (success, auth_url) = GETENV getenv ''OS_AUTH_URL'' True (1, kc_auth_url creds);
          (success, username) = GETENV getenv ''OS_USERNAME'' True (success, kc_username creds);
          (success, password) = GETENV getenv ''OS_PASSWORD'' True (success, kc_password creds);
          (success, project) = GETENV getenv ''OS_PROJECT_NAME'' True (success, kc_project creds);
          (success, domain_id) = GETENV getenv ''OS_PROJECT_DOMAIN_ID'' False (success, kc_domain_id creds);
          domain_id = (if domain_id = None then Some ''default'' else domain_id)
      in (success, \<lparr>kc_auth_url = auth_url, kc_username = username, kc_password = password,
            kc_project = project, kc_domain_id = domain_id\<rparr>))"

definition keystone_env_parse_token ::
  "(string \<Rightarrow> string option) \<Rightarrow> keystone_auth_token_t \<Rightarrow> int \<times> keystone_auth_token_t" where
  "keystone_env_parse_token getenv token =
     (let (success, t) = GETENV getenv ''OS_AUTH_TOKEN'' True (1, kt_token token);
          (success, url) = GETENV getenv ''OS_STORAGE_URL'' True (success, kt_storage_url token)
      in (success, \<lparr>kt_token = t, kt_storage_url = url\<rparr>))"

section \<open>Receiving the response\<close>

definition trailing :: "char \<Rightarrow> bool" where
  "trailing c \<longleftrightarrow> c = NUL \<or> c = CHR 0x0A \<or> c = CHR 0x0D"

text \<open>\<open>buf\<close> is exactly the memory libcurl passes; the copy takes one byte more than the value has.\<close>

definition auth_header_cb :: "string \<Rightarrow> keystone_auth_token_t \<Rightarrow> (nat \<times> keystone_auth_token_t) option" where
  "auth_header_cb buf token =
     (if length buf > length TOKEN_HDR \<and> strncmp_eq buf TOKEN_HDR (length TOKEN_HDR) then do {
        let chomplen = length (takeWhile trailing (rev buf));
        let token_len = length buf - length TOKEN_HDR - chomplen + 1;
        c_assert (length TOKEN_HDR + token_len \<le> length buf);
        let p = take (token_len - 1) (drop (length TOKEN_HDR) buf);
        Some (length buf, token\<lparr>kt_token := Some (c_str p)\<rparr>) }
      else Some (length buf, token))"

text \<open>\<^verbatim>\<open>struct response_wrap\<close> is the text received so far.\<close>

definition auth_write_cb :: "string \<Rightarrow> string \<Rightarrow> nat \<times> string" where
  "auth_write_cb buf response = (length buf, response @ buf)"

section \<open>Reading the response\<close>

text \<open>The loop over the keys of an endpoint, \<open>n\<close> of them left: \<open>Inl\<close> is \<^verbatim>\<open>goto err\<close>. The last URL is
  kept by its characters, none at first.\<close>

fun endpoint_keys ::
  "string \<Rightarrow> jsmntok_t list \<Rightarrow> nat \<Rightarrow> nat \<Rightarrow> bool \<Rightarrow> string \<Rightarrow> (unit + (nat \<times> bool \<times> string)) option" where
  "endpoint_keys js ts 0 t found_interface url = Some (Inr (t, found_interface, url))"
| "endpoint_keys js ts (Suc n) t found_interface url = do {
     key \<leftarrow> tok_at ts t;
     if jsmn_streq js key ''interface'' then do {
       v \<leftarrow> tok_at ts (t + 1);
       if tk_type v \<noteq> JSMN_STRING then Some (Inl ())
       else endpoint_keys js ts n (t + 2) (found_interface \<or> jsmn_streq js v ''public'') url }
     else if jsmn_streq js key ''url'' then do {
       v \<leftarrow> tok_at ts (t + 1);
       if tk_type v \<noteq> JSMN_STRING then Some (Inl ())
       else endpoint_keys js ts n (t + 2) found_interface (jsmn_strcpy v js) }
     else do {
       t' \<leftarrow> jsmn_skip ts (t + 1);
       endpoint_keys js ts n t' found_interface url } }"

text \<open>The next token, or NULL, and the buffer for the URL.\<close>

definition process_endpoint_entry ::
  "string \<Rightarrow> jsmntok_t list \<Rightarrow> string \<Rightarrow> nat \<Rightarrow> ((nat \<times> string) option) option" where
  "process_endpoint_entry js ts urlbuf t = do {
     obj \<leftarrow> tok_at ts t;
     if tk_type obj \<noteq> JSMN_OBJECT then Some None
     else do {
       r \<leftarrow> endpoint_keys js ts (nat (tk_size obj)) (t + 1) False [];
       case r of
         Inl _ \<Rightarrow> Some None
       | Inr (t', found_interface, url) \<Rightarrow>
           if found_interface then do {
             c_assert (length url < BUFLEN);
             Some (Some (t', c_str url)) }
           else Some (Some (t', urlbuf)) } }"

fun endpoints_loop :: "string \<Rightarrow> jsmntok_t list \<Rightarrow> nat \<Rightarrow> nat \<Rightarrow> string \<Rightarrow> ((nat \<times> string) option) option" where
  "endpoints_loop js ts 0 t urlbuf = Some (Some (t, urlbuf))"
| "endpoints_loop js ts (Suc n) t urlbuf = do {
     r \<leftarrow> process_endpoint_entry js ts urlbuf t;
     case r of None \<Rightarrow> Some None | Some (t', urlbuf') \<Rightarrow> endpoints_loop js ts n t' urlbuf' }"

fun catalog_keys ::
  "string \<Rightarrow> jsmntok_t list \<Rightarrow> nat \<Rightarrow> nat \<Rightarrow> bool \<Rightarrow> string \<Rightarrow> (unit + (nat \<times> bool \<times> string)) option" where
  "catalog_keys js ts 0 t found_service urlbuf = Some (Inr (t, found_service, urlbuf))"
| "catalog_keys js ts (Suc n) t found_service urlbuf = do {
     key \<leftarrow> tok_at ts t;
     if jsmn_streq js key ''type'' then do {
       v \<leftarrow> tok_at ts (t + 1);
       if tk_type v \<noteq> JSMN_STRING then Some (Inl ())
       else catalog_keys js ts n (t + 2) (found_service \<or> jsmn_streq js v ''object-store'') urlbuf }
     else if jsmn_streq js key ''endpoints'' then do {
       v \<leftarrow> tok_at ts (t + 1);
       if tk_type v \<noteq> JSMN_ARRAY then Some (Inl ())
       else do {
         r \<leftarrow> endpoints_loop js ts (nat (tk_size v)) (t + 2) urlbuf;
         case r of None \<Rightarrow> Some (Inl ()) | Some (t', urlbuf') \<Rightarrow> catalog_keys js ts n t' found_service urlbuf' } }
     else do {
       t' \<leftarrow> jsmn_skip ts (t + 1);
       catalog_keys js ts n t' found_service urlbuf } }"

definition process_catalog_entry ::
  "string \<Rightarrow> jsmntok_t list \<Rightarrow> keystone_auth_token_t \<Rightarrow> nat \<Rightarrow> ((nat \<times> keystone_auth_token_t) option) option" where
  "process_catalog_entry js ts token t = do {
     obj \<leftarrow> tok_at ts t;
     if tk_type obj \<noteq> JSMN_OBJECT then Some None
     else do {
       r \<leftarrow> catalog_keys js ts (nat (tk_size obj)) (t + 1) False [];
       Some (case r of
         Inl _ \<Rightarrow> None
       | Inr (t', found_service, urlbuf) \<Rightarrow>
           if found_service then
             if urlbuf = [] then None
             else Some (t', if kt_storage_url token = None then token\<lparr>kt_storage_url := Some urlbuf\<rparr> else token)
           else Some (t', token)) } }"

text \<open>The three loops of \<^verbatim>\<open>process_json\<close>, innermost first. On an error the token is as it was then.\<close>

fun catalog_loop ::
  "string \<Rightarrow> jsmntok_t list \<Rightarrow> nat \<Rightarrow> nat \<Rightarrow> keystone_auth_token_t \<Rightarrow> (nat option \<times> keystone_auth_token_t) option" where
  "catalog_loop js ts 0 t token = Some (Some t, token)"
| "catalog_loop js ts (Suc n) t token = do {
     r \<leftarrow> process_catalog_entry js ts token t;
     case r of None \<Rightarrow> Some (None, token) | Some (t', token') \<Rightarrow> catalog_loop js ts n t' token' }"

fun token_keys ::
  "string \<Rightarrow> jsmntok_t list \<Rightarrow> nat \<Rightarrow> nat \<Rightarrow> keystone_auth_token_t \<Rightarrow> (nat option \<times> keystone_auth_token_t) option" where
  "token_keys js ts 0 t token = Some (Some t, token)"
| "token_keys js ts (Suc n) t token = do {
     key \<leftarrow> tok_at ts t;
     if jsmn_streq js key ''catalog'' then do {
       v \<leftarrow> tok_at ts (t + 1);
       if tk_type v \<noteq> JSMN_ARRAY then Some (None, token)
       else do {
         (r, token') \<leftarrow> catalog_loop js ts (nat (tk_size v)) (t + 2) token;
         case r of None \<Rightarrow> Some (None, token') | Some t' \<Rightarrow> token_keys js ts n t' token' } }
     else do {
       t' \<leftarrow> jsmn_skip ts (t + 1);
       token_keys js ts n t' token } }"

fun root_keys ::
  "string \<Rightarrow> jsmntok_t list \<Rightarrow> nat \<Rightarrow> nat \<Rightarrow> keystone_auth_token_t \<Rightarrow> (nat option \<times> keystone_auth_token_t) option" where
  "root_keys js ts 0 t token = Some (Some t, token)"
| "root_keys js ts (Suc n) t token = do {
     key \<leftarrow> tok_at ts t;
     if tk_type key \<noteq> JSMN_STRING then Some (None, token)
     else if jsmn_streq js key ''token'' then do {
       v \<leftarrow> tok_at ts (t + 1);
       if tk_type v \<noteq> JSMN_OBJECT then Some (None, token)
       else do {
         (r, token') \<leftarrow> token_keys js ts (nat (tk_size v)) (t + 2) token;
         case r of None \<Rightarrow> Some (None, token') | Some t' \<Rightarrow> root_keys js ts n t' token' } }
     else do {
       t' \<leftarrow> jsmn_skip ts (t + 1);
       root_keys js ts n t' token } }"

definition process_json ::
  "keystone_auth_token_t \<Rightarrow> string \<Rightarrow> jsmntok_t list \<Rightarrow> (int \<times> keystone_auth_token_t) option" where
  "process_json token js ts =
     (if ts = [] then Some (-1, token)
      else if tk_type (ts ! 0) \<noteq> JSMN_OBJECT then Some (-1, token)
      else do {
        (r, token') \<leftarrow> root_keys js ts (nat (tk_size (ts ! 0))) 1 token;
        Some (if r = None then -1 else 0, token') })"

text \<open>Parsing with more and more tokens; \<open>Inl None\<close> is \<^verbatim>\<open>goto err\<close>.\<close>

definition response_pass ::
  "string \<Rightarrow> jsmn_parser \<times> nat \<Rightarrow> (jsmn_parser option + (jsmn_parser \<times> nat)) option" where
  "response_pass response = (\<lambda>(p, tokcount). do {
     (ret, p') \<leftarrow> jsmn_parse p response tokcount;
     Some (if ret < 0 then
             if ret = JSMN_ERROR_NOMEM then Inr (p', tokcount * 2) else Inl None
           else Inl (Some p')) })"

definition process_auth_response ::
  "string \<Rightarrow> keystone_auth_token_t \<Rightarrow> (int \<times> keystone_auth_token_t) option" where
  "process_auth_response response token = do {
     r \<leftarrow> c_loop (response_pass response) (jsmn_init, 128);
     case r of None \<Rightarrow> Some (-1, token) | Some p \<Rightarrow> process_json token response (jp_toks p) }"

section \<open>The request\<close>

text \<open>The body of the request, with the five values at their places.\<close>

definition auth_request :: "string \<Rightarrow> string \<Rightarrow> string \<Rightarrow> string \<Rightarrow> string \<Rightarrow> string" where
  \<open>auth_request username domain_id password scope_domain project =
     ''{'' @
     ''  "auth": {'' @
     ''    "identity": {'' @
     ''      "methods": ["password"],'' @
     ''      "password": {'' @
     ''        "user": {'' @
     ''          "name": "'' @ username @ ''",'' @
     ''          "domain": { "id": "'' @ domain_id @ ''" },'' @
     ''          "password": "'' @ password @ ''"'' @
     ''        }'' @
     ''      }'' @
     ''    },'' @
     ''    "scope": {'' @
     ''      "project": {'' @
     ''        "domain": { "id": "'' @ scope_domain @ ''" },'' @
     ''        "name": "'' @ project @ ''"'' @
     ''      }'' @
     ''    }'' @
     ''  }'' @
     ''}''\<close>

text \<open>
  libcurl's easy interface, a parameter: making a handle, setting its options, and a transfer,
  which hands over header lines and pieces of the body and goes on according to what the
  callbacks return. The result of a transfer comes with the response code.
\<close>

datatype 'c easy_event =
    EASY_returns curl_code int 'c
  | EASY_header string "nat \<Rightarrow> 'c easy_event"
  | EASY_body string "nat \<Rightarrow> 'c easy_event"

record easy_request =
  rq_url :: string
  rq_headers :: "string list"
  rq_post :: string

record 'c curl_easy =
  ce_init :: "'c \<Rightarrow> bool \<times> 'c"
  ce_slist_append :: "string list \<Rightarrow> string \<Rightarrow> string list"
  ce_setopts :: "'c \<Rightarrow> easy_request \<Rightarrow> bool \<times> 'c"
  ce_perform :: "'c \<Rightarrow> 'c easy_event"

primrec easy_drive ::
  "'c easy_event \<Rightarrow> string \<Rightarrow> keystone_auth_token_t \<Rightarrow> (curl_code \<times> int \<times> 'c \<times> string \<times> keystone_auth_token_t) option" where
  "easy_drive (EASY_returns code resp c) rw token = Some (code, resp, c, rw, token)"
| "easy_drive (EASY_header h k) rw token =
     (case auth_header_cb h token of None \<Rightarrow> None | Some (n, token') \<Rightarrow> easy_drive (k n) rw token')"
| "easy_drive (EASY_body b k) rw token =
     (case auth_write_cb b rw of (n, rw') \<Rightarrow> easy_drive (k n) rw' token)"

text \<open>From the end of the transfer on. The response code: 401, 404 and every other code but 201 return the
  same, with other messages.\<close>

definition keystone_answer ::
  "(string \<Rightarrow> string option) \<Rightarrow> 'c curl_global \<Rightarrow> curl_code \<times> int \<times> 'c \<times> string \<times> keystone_auth_token_t \<Rightarrow>
    (int \<times> keystone_auth_token_t \<times> 'c curl_global) option" where
  "keystone_answer getenv g = (\<lambda>(code, response_code, c, rw, token). do {
     let g = g\<lparr>cg_net := c\<rparr>;
     if code \<noteq> CURLE_OK \<or> response_code \<noteq> 201 then Some (-1, token, g)
     else do {
       let token = snd (keystone_env_parse_token getenv token);
       (ret, token) \<leftarrow> process_auth_response rw token;
       if ret \<noteq> 0 then Some (-1, token, g)
       else Some (if kt_storage_url token \<noteq> None \<and> kt_token token \<noteq> None then 1 else 0, token, g) } })"

definition keystone_authenticate ::
  "(string \<Rightarrow> string option) \<Rightarrow> 'c curl_easy \<Rightarrow> keystone_auth_creds_t \<Rightarrow> 'c curl_global \<Rightarrow>
    (int \<times> keystone_auth_token_t \<times> 'c curl_global) option" where
  "keystone_authenticate getenv ce creds g = do {
     let g = curl_helper_safe_global_init g;
     case ce_init ce (cg_net g) of (ok_handle, c) \<Rightarrow>
       if \<not> ok_handle then Some (-1, keystone_no_token, g\<lparr>cg_net := c\<rparr>)
       else do {
         auth_url \<leftarrow> kc_auth_url creds;
         let auth_url_buf = auth_url @ ''/auth/tokens'';
         if length auth_url_buf \<ge> BUFLEN then Some (-1, keystone_no_token, g\<lparr>cg_net := c\<rparr>)
         else do {
           let headers = ce_slist_append ce [] ''Content-Type: application/json'';
           username \<leftarrow> kc_username creds;
           domain_id \<leftarrow> kc_domain_id creds;
           password \<leftarrow> kc_password creds;
           project \<leftarrow> kc_project creds;
           let buf = auth_request username domain_id password domain_id project;
           if length buf \<ge> BUFLEN then Some (-1, keystone_no_token, g\<lparr>cg_net := c\<rparr>)
           else case ce_setopts ce c \<lparr>rq_url = auth_url_buf, rq_headers = headers, rq_post = buf\<rparr> of (ok_opts, c) \<Rightarrow>
             if \<not> ok_opts then Some (-1, keystone_no_token, g\<lparr>cg_net := c\<rparr>)
             else do {
               res \<leftarrow> easy_drive (ce_perform ce c) [] keystone_no_token;
               keystone_answer getenv g res } } } }"

text \<open>What \<^verbatim>\<open>keystone_auth_token_dump\<close> prints.\<close>

definition keystone_auth_token_dump :: "keystone_auth_token_t option \<Rightarrow> string list" where
  "keystone_auth_token_dump token =
     (case token of
        None \<Rightarrow> []
      | Some t \<Rightarrow>
          (case (kt_token t, kt_storage_url t) of
             (Some tk, Some url) \<Rightarrow> [''export OS_STORAGE_URL='' @ url, ''export OS_AUTH_TOKEN='' @ tk]
           | _ \<Rightarrow> []))"

end
