(* ===== verification/Keystone_Proofs.thy ===== *)
theory Keystone_Proofs
  imports Keystone
begin

text \<open>
  What the response means, as a function of the JSON value, and that the code computes it from the
  text; the parse with a growing token array is a single parse with enough tokens.
\<close>

section \<open>The meaning of a response\<close>

text \<open>The outer \<open>None\<close> is the assertion on the length of a URL, the inner one an error.\<close>

fun is_str :: "json \<Rightarrow> bool" where
  "is_str (JStr _) \<longleftrightarrow> True"
| "is_str _ \<longleftrightarrow> False"

fun last_url :: "(string \<times> json) list \<Rightarrow> string \<Rightarrow> string" where
  "last_url [] url = url"
| "last_url ((k, v) # ms) url = last_url ms (case v of JStr s \<Rightarrow> if k = ''url'' then s else url | _ \<Rightarrow> url)"

definition endpoint_keys_ok :: "(string \<times> json) list \<Rightarrow> bool" where
  "endpoint_keys_ok ms \<longleftrightarrow> (\<forall>(k, v)\<in>set ms. k = ''interface'' \<or> k = ''url'' \<longrightarrow> is_str v)"

definition public :: "(string \<times> json) list \<Rightarrow> bool" where
  "public ms \<longleftrightarrow> (''interface'', JStr ''public'') \<in> set ms"

definition endpoint_of :: "(string \<times> json) list \<Rightarrow> string \<Rightarrow> string option option" where
  "endpoint_of ms url =
     (if \<not> endpoint_keys_ok ms then Some None
      else if \<not> public ms then Some (Some url)
      else if length (last_url ms []) < BUFLEN then Some (Some (last_url ms [])) else None)"

fun endpoints_of :: "json list \<Rightarrow> string \<Rightarrow> string option option" where
  "endpoints_of [] url = Some (Some url)"
| "endpoints_of (JObj ms # es) url = do {
     r \<leftarrow> endpoint_of ms url;
     case r of None \<Rightarrow> Some None | Some url' \<Rightarrow> endpoints_of es url' }"
| "endpoints_of (e # es) url = Some None"

fun entry_of :: "(string \<times> json) list \<Rightarrow> bool \<Rightarrow> string \<Rightarrow> (bool \<times> string) option option" where
  "entry_of [] service url = Some (Some (service, url))"
| "entry_of (m # ms) service url =
     (if fst m = ''type'' then
        case snd m of JStr s \<Rightarrow> entry_of ms (service \<or> s = ''object-store'') url | _ \<Rightarrow> Some None
      else if fst m = ''endpoints'' then
        case snd m of
          JArr es \<Rightarrow> do {
            r \<leftarrow> endpoints_of es url;
            case r of None \<Rightarrow> Some None | Some url' \<Rightarrow> entry_of ms service url' }
        | _ \<Rightarrow> Some None
      else entry_of ms service url)"

definition offer_url :: "string \<Rightarrow> keystone_auth_token_t \<Rightarrow> keystone_auth_token_t" where
  "offer_url url token = (if kt_storage_url token = None then token\<lparr>kt_storage_url := Some url\<rparr> else token)"

text \<open>Whether all was well, and the token.\<close>

fun catalog_of :: "json list \<Rightarrow> keystone_auth_token_t \<Rightarrow> (bool \<times> keystone_auth_token_t) option" where
  "catalog_of [] token = Some (True, token)"
| "catalog_of (JObj ms # es) token = do {
     r \<leftarrow> entry_of ms False [];
     case r of
       None \<Rightarrow> Some (False, token)
     | Some (service, url) \<Rightarrow>
         if \<not> service then catalog_of es token
         else if url = [] then Some (False, token)
         else catalog_of es (offer_url url token) }"
| "catalog_of (e # es) token = Some (False, token)"

fun token_of :: "(string \<times> json) list \<Rightarrow> keystone_auth_token_t \<Rightarrow> (bool \<times> keystone_auth_token_t) option" where
  "token_of [] token = Some (True, token)"
| "token_of (m # ms) token =
     (if fst m = ''catalog'' then
        case snd m of
          JArr es \<Rightarrow> do { (good, token') \<leftarrow> catalog_of es token; if good then token_of ms token' else Some (False, token') }
        | _ \<Rightarrow> Some (False, token)
      else token_of ms token)"

fun root_of :: "(string \<times> json) list \<Rightarrow> keystone_auth_token_t \<Rightarrow> (bool \<times> keystone_auth_token_t) option" where
  "root_of [] token = Some (True, token)"
| "root_of (m # ms) token =
     (if fst m = ''token'' then
        case snd m of
          JObj ts \<Rightarrow> do { (good, token') \<leftarrow> token_of ts token; if good then root_of ms token' else Some (False, token') }
        | _ \<Rightarrow> Some (False, token)
      else root_of ms token)"

fun response_of :: "json \<Rightarrow> keystone_auth_token_t \<Rightarrow> (int \<times> keystone_auth_token_t) option" where
  "response_of (JObj ms) token = do { (good, token') \<leftarrow> root_of ms token; Some (if good then 0 else -1, token') }"
| "response_of v token = Some (-1, token)"

section \<open>The walk over the tokens\<close>

lemma str_ok_no_NUL: "str_ok s \<Longrightarrow> NUL \<notin> set s"
proof (induction s rule: str_ok.induct)
  case (3 c e cs)
  have "NUL \<notin> set cs" if "4 \<le> length cs" "\<forall>h\<in>set (take 4 cs). h \<noteq> NUL" "NUL \<notin> set (drop 4 cs)"
    using that by (metis append_take_drop_id Un_iff set_append)
  with 3 show ?case by (auto simp: escapes_def split: if_splits)
qed auto

lemma c_str_ok: "str_ok s \<Longrightarrow> c_str s = s"
  using str_ok_no_NUL [of s] by (auto simp: c_str_def takeWhile_eq_all_conv)

text \<open>How many tokens members and elements have.\<close>

abbreviation nmems :: "(string \<times> json) list \<Rightarrow> nat" where
  "nmems ms \<equiv> sum_list (map (\<lambda>m. 1 + ntoks (snd m)) ms)"

abbreviation nelems :: "json list \<Rightarrow> nat" where
  "nelems es \<equiv> sum_list (map ntoks es)"

text \<open>A member: the token of its key, and that of its value.\<close>

lemma member_at:
  assumes "mems_at js ts t ((k, v) # ms)"
  obtains s x where "tok_at ts t = Some s" "tk_type s = JSMN_STRING"
    "\<And>y. NUL \<notin> set y \<Longrightarrow> jsmn_streq js s y \<longleftrightarrow> k = y"
    "val_at js ts (t + 1) v" "mems_at js ts (t + 1 + ntoks v) ms"
    "tok_at ts (t + 1) = Some x" "tk_type x = json_type v"
    "\<And>u. v = JStr u \<Longrightarrow> jsmn_strcpy x js = u" "\<And>u y. v = JStr u \<Longrightarrow> NUL \<notin> set y \<Longrightarrow> jsmn_streq js x y \<longleftrightarrow> u = y"
    "\<And>es. v = JArr es \<Longrightarrow> tk_size x = int (length es) \<and> elems_at js ts (t + 1 + 1) es"
    "\<And>ns. v = JObj ns \<Longrightarrow> tk_size x = int (length ns) \<and> mems_at js ts (t + 1 + 1) ns"
proof -
  note result = that
  from assms obtain s where s: "tok_at ts t = Some s" "tk_type s = JSMN_STRING"
      "\<And>y. NUL \<notin> set y \<Longrightarrow> jsmn_streq js s y \<longleftrightarrow> k = y"
    and v: "val_at js ts (t + 1) v" and r: "mems_at js ts (t + 1 + ntoks v) ms"
    by (rule mems_at_Cons) simp
  from v show thesis by (rule val_at_token) (rule result [OF s v r], assumption+)
qed

lemma is_str_type: "is_str v \<longleftrightarrow> json_type v = JSMN_STRING"
  by (cases v) simp_all

lemma endpoint_keys_ok_simps [simp]: "endpoint_keys_ok []"
  "endpoint_keys_ok ((k, v) # ms) \<longleftrightarrow> (k = ''interface'' \<or> k = ''url'' \<longrightarrow> is_str v) \<and> endpoint_keys_ok ms"
  by (simp_all add: endpoint_keys_ok_def)

lemma public_simps [simp]: "\<not> public []"
  "public ((k, v) # ms) \<longleftrightarrow> k = ''interface'' \<and> v = JStr ''public'' \<or> public ms"
  by (auto simp: public_def)

lemma endpoint_keys_walk:
  assumes "mems_at js ts t ms"
  shows "endpoint_keys js ts (length ms) t fi url = Some
    (if endpoint_keys_ok ms then Inr (t + nmems ms, fi \<or> public ms, last_url ms url) else Inl ())"
  using assms
proof (induction ms arbitrary: t fi url)
  case (Cons m ms)
  obtain k v where m: "m = (k, v)" by (cases m)
  from Cons.prems obtain s x where s: "tok_at ts t = Some s" "tk_type s = JSMN_STRING"
      "\<And>y. NUL \<notin> set y \<Longrightarrow> jsmn_streq js s y \<longleftrightarrow> k = y"
    and v: "val_at js ts (t + 1) v" and r: "mems_at js ts (t + 1 + ntoks v) ms"
    and x: "tok_at ts (t + 1) = Some x" "tk_type x = json_type v"
      "\<And>u. v = JStr u \<Longrightarrow> jsmn_strcpy x js = u" "\<And>u y. v = JStr u \<Longrightarrow> NUL \<notin> set y \<Longrightarrow> jsmn_streq js x y \<longleftrightarrow> u = y"
      "\<And>es. v = JArr es \<Longrightarrow> tk_size x = int (length es) \<and> elems_at js ts (t + 1 + 1) es"
      "\<And>ns. v = JObj ns \<Longrightarrow> tk_size x = int (length ns) \<and> mems_at js ts (t + 1 + 1) ns"
    unfolding m by (rule member_at) blast
  have key: "jsmn_streq js s ''interface'' \<longleftrightarrow> k = ''interface''" "jsmn_streq js s ''url'' \<longleftrightarrow> k = ''url''"
    using s(3) by simp_all
  note IH = Cons.IH [OF r]
  show ?case
  proof (cases "k = ''interface'' \<or> k = ''url''")
    case False
    have "last_url (m # ms) url = last_url ms url" using False by (cases v) (simp_all add: m)
    with False IH s(1) key skip_value [OF v] show ?thesis by (simp add: m)
  next
    case True
    show ?thesis
    proof (cases v)
      case (JStr u)
      with True IH s(1) key x(1,2) x(3) [of u] x(4) [of u "''public''"] show ?thesis
        by (elim disjE) (simp_all add: m)
    qed (use True s(1) key x(1,2) in \<open>auto simp: m\<close>)
  qed
qed simp

lemma last_url_ok: "\<forall>m\<in>set ms. json_ok (snd m) \<Longrightarrow> str_ok url \<Longrightarrow> str_ok (last_url ms url)"
proof (induction ms arbitrary: url)
  case (Cons m ms)
  obtain k v where "m = (k, v)" by (cases m)
  with Cons show ?case by (cases v) simp_all
qed simp

lemma endpoint_walk:
  assumes "val_at js ts t e" "json_ok e"
  shows "process_endpoint_entry js ts url t =
    (case e of JObj ms \<Rightarrow> do { r \<leftarrow> endpoint_of ms url; Some (map_option (\<lambda>u. (t + ntoks e, u)) r) } | _ \<Rightarrow> Some None)"
proof -
  from assms(1) obtain s where s: "tok_at ts t = Some s" "tk_type s = json_type e"
    and ob: "\<And>ms. e = JObj ms \<Longrightarrow> tk_size s = int (length ms) \<and> mems_at js ts (t + 1) ms"
    by (rule val_at_token) blast
  show ?thesis
  proof (cases e)
    case (JObj ms)
    have c: "c_str (last_url ms []) = last_url ms []" using JObj assms(2) by (intro c_str_ok last_url_ok) auto
    from ob [OF JObj] endpoint_keys_walk [of js ts "t + 1" ms False "[]"] s JObj
    show ?thesis by (simp add: process_endpoint_entry_def endpoint_of_def c)
  qed (use s in \<open>simp_all add: process_endpoint_entry_def\<close>)
qed

lemma endpoints_walk:
  assumes "elems_at js ts t es" "\<forall>e\<in>set es. json_ok e"
  shows "endpoints_loop js ts (length es) t url = do { r \<leftarrow> endpoints_of es url; Some (map_option (\<lambda>u. (t + nelems es, u)) r) }"
  using assms
proof (induction es arbitrary: t url)
  case (Cons e es)
  note e = elems_at_Cons [OF Cons.prems(1)]
  note IH = Cons.IH [OF e(2)] and here = endpoint_walk [OF e(1), of url]
  show ?case
  proof (cases e)
    case (JObj ms)
    with here Cons.prems(2) IH show ?thesis
      by (cases "endpoint_of ms url") (auto simp: add.assoc split: option.splits)
  qed (use here Cons.prems(2) in simp_all)
qed simp

lemma entry_walk:
  assumes "mems_at js ts t ms" "\<forall>m\<in>set ms. json_ok (snd m)"
  shows "catalog_keys js ts (length ms) t f url = do {
    r \<leftarrow> entry_of ms f url;
    Some (case r of None \<Rightarrow> Inl () | Some (f', u) \<Rightarrow> Inr (t + nmems ms, f', u)) }"
  using assms
proof (induction ms arbitrary: t f url)
  case (Cons m ms)
  obtain k v where m: "m = (k, v)" by (cases m)
  from Cons.prems(1) obtain s x where s: "tok_at ts t = Some s" "tk_type s = JSMN_STRING"
      "\<And>y. NUL \<notin> set y \<Longrightarrow> jsmn_streq js s y \<longleftrightarrow> k = y"
    and v: "val_at js ts (t + 1) v" and r: "mems_at js ts (t + 1 + ntoks v) ms"
    and x: "tok_at ts (t + 1) = Some x" "tk_type x = json_type v"
      "\<And>u. v = JStr u \<Longrightarrow> jsmn_strcpy x js = u" "\<And>u y. v = JStr u \<Longrightarrow> NUL \<notin> set y \<Longrightarrow> jsmn_streq js x y \<longleftrightarrow> u = y"
      "\<And>es. v = JArr es \<Longrightarrow> tk_size x = int (length es) \<and> elems_at js ts (t + 1 + 1) es"
      "\<And>ns. v = JObj ns \<Longrightarrow> tk_size x = int (length ns) \<and> mems_at js ts (t + 1 + 1) ns"
    unfolding m by (rule member_at) blast
  have key: "jsmn_streq js s ''type'' \<longleftrightarrow> k = ''type''" "jsmn_streq js s ''endpoints'' \<longleftrightarrow> k = ''endpoints''"
    using s(3) by simp_all
  have n: "t + 1 + ntoks v + nmems ms = t + nmems (m # ms)" by (simp add: m)
  note IH = Cons.IH [OF r, unfolded n] and ok = Cons.prems(2)
  consider "k = ''type''" | "k = ''endpoints''" | "k \<noteq> ''type''" "k \<noteq> ''endpoints''" by blast
  then show ?case
  proof cases
    case 1
    show ?thesis
    proof (cases v)
      case (JStr u)
      with 1 IH ok s(1) key x(1,2) x(4) [of u "''object-store''"] show ?thesis by (simp add: m)
    qed (use 1 s(1) key x(1,2) in \<open>simp_all add: m\<close>)
  next
    case 2
    show ?thesis
    proof (cases v)
      case (JArr es)
      with x(5) have "tk_size x = int (length es)" "elems_at js ts (t + 1 + 1) es" by simp_all
      with 2 JArr IH ok s(1) key x(1,2) endpoints_walk [of js ts "t + 1 + 1" es url] show ?thesis
        by (cases "endpoints_of es url") (auto simp: m add.assoc split: option.splits)
    qed (use 2 s(1) key x(1,2) in \<open>simp_all add: m\<close>)
  next
    case 3
    with IH ok s(1) key skip_value [OF v] show ?thesis by (simp add: m add.assoc)
  qed
qed simp

lemma catalog_entry_walk:
  assumes "val_at js ts t e" "json_ok e"
  shows "process_catalog_entry js ts token t =
    (case e of
       JObj ms \<Rightarrow> do {
         r \<leftarrow> entry_of ms False [];
         Some (case r of
           None \<Rightarrow> None
         | Some (service, u) \<Rightarrow>
             if \<not> service then Some (t + ntoks e, token)
             else if u = [] then None else Some (t + ntoks e, offer_url u token)) }
     | _ \<Rightarrow> Some None)"
proof -
  from assms(1) obtain s where s: "tok_at ts t = Some s" "tk_type s = json_type e"
    and ob: "\<And>ms. e = JObj ms \<Longrightarrow> tk_size s = int (length ms) \<and> mems_at js ts (t + 1) ms"
    by (rule val_at_token) blast
  show ?thesis
  proof (cases e)
    case (JObj ms)
    with assms(2) entry_walk [of js ts "t + 1" ms False "[]"] ob [OF JObj] s show ?thesis
      by (cases "entry_of ms False []") (auto simp: process_catalog_entry_def offer_url_def split: option.splits)
  qed (use s in \<open>simp_all add: process_catalog_entry_def\<close>)
qed

lemma catalog_walk:
  assumes "elems_at js ts t es" "\<forall>e\<in>set es. json_ok e"
  shows "catalog_loop js ts (length es) t token =
    do { (good, token') \<leftarrow> catalog_of es token; Some (if good then Some (t + nelems es) else None, token') }"
  using assms
proof (induction es arbitrary: t token)
  case (Cons e es)
  note e = elems_at_Cons [OF Cons.prems(1)]
  have n: "t + ntoks e + nelems es = t + nelems (e # es)" by simp
  note IH = Cons.IH [OF e(2), unfolded n] and here = catalog_entry_walk [OF e(1), of token]
  show ?case
  proof (cases e)
    case (JObj ms)
    with here Cons.prems(2) IH show ?thesis
      by (cases "entry_of ms False []") (auto simp: add.assoc split: option.splits)
  qed (use here Cons.prems(2) in simp_all)
qed simp

lemma token_walk:
  assumes "mems_at js ts t ms" "\<forall>m\<in>set ms. json_ok (snd m)"
  shows "token_keys js ts (length ms) t token =
    do { (good, token') \<leftarrow> token_of ms token; Some (if good then Some (t + nmems ms) else None, token') }"
  using assms
proof (induction ms arbitrary: t token)
  case (Cons m ms)
  obtain k v where m: "m = (k, v)" by (cases m)
  from Cons.prems(1) obtain s x where s: "tok_at ts t = Some s" "tk_type s = JSMN_STRING"
      "\<And>y. NUL \<notin> set y \<Longrightarrow> jsmn_streq js s y \<longleftrightarrow> k = y"
    and v: "val_at js ts (t + 1) v" and r: "mems_at js ts (t + 1 + ntoks v) ms"
    and x: "tok_at ts (t + 1) = Some x" "tk_type x = json_type v"
      "\<And>u. v = JStr u \<Longrightarrow> jsmn_strcpy x js = u" "\<And>u y. v = JStr u \<Longrightarrow> NUL \<notin> set y \<Longrightarrow> jsmn_streq js x y \<longleftrightarrow> u = y"
      "\<And>es. v = JArr es \<Longrightarrow> tk_size x = int (length es) \<and> elems_at js ts (t + 1 + 1) es"
      "\<And>ns. v = JObj ns \<Longrightarrow> tk_size x = int (length ns) \<and> mems_at js ts (t + 1 + 1) ns"
    unfolding m by (rule member_at) blast
  have key: "jsmn_streq js s ''catalog'' \<longleftrightarrow> k = ''catalog''" using s(3) by simp
  have n: "t + 1 + ntoks v + nmems ms = t + nmems (m # ms)" by (simp add: m)
  note IH = Cons.IH [OF r, unfolded n] and ok = Cons.prems(2)
  show ?case
  proof (cases "k = ''catalog''")
    case True
    show ?thesis
    proof (cases v)
      case (JArr es)
      with x(5) have "tk_size x = int (length es)" "elems_at js ts (t + 1 + 1) es" by simp_all
      with True JArr IH ok s(1) key x(1,2) catalog_walk [of js ts "t + 1 + 1" es token] show ?thesis
        by (cases "catalog_of es token") (auto simp: m add.assoc)
    qed (use True s(1) key x(1,2) in \<open>simp_all add: m\<close>)
  next
    case False
    with IH ok s(1) key skip_value [OF v] show ?thesis by (simp add: m add.assoc)
  qed
qed simp

lemma root_walk:
  assumes "mems_at js ts t ms" "\<forall>m\<in>set ms. json_ok (snd m)"
  shows "root_keys js ts (length ms) t token =
    do { (good, token') \<leftarrow> root_of ms token; Some (if good then Some (t + nmems ms) else None, token') }"
  using assms
proof (induction ms arbitrary: t token)
  case (Cons m ms)
  obtain k v where m: "m = (k, v)" by (cases m)
  from Cons.prems(1) obtain s x where s: "tok_at ts t = Some s" "tk_type s = JSMN_STRING"
      "\<And>y. NUL \<notin> set y \<Longrightarrow> jsmn_streq js s y \<longleftrightarrow> k = y"
    and v: "val_at js ts (t + 1) v" and r: "mems_at js ts (t + 1 + ntoks v) ms"
    and x: "tok_at ts (t + 1) = Some x" "tk_type x = json_type v"
      "\<And>u. v = JStr u \<Longrightarrow> jsmn_strcpy x js = u" "\<And>u y. v = JStr u \<Longrightarrow> NUL \<notin> set y \<Longrightarrow> jsmn_streq js x y \<longleftrightarrow> u = y"
      "\<And>es. v = JArr es \<Longrightarrow> tk_size x = int (length es) \<and> elems_at js ts (t + 1 + 1) es"
      "\<And>ns. v = JObj ns \<Longrightarrow> tk_size x = int (length ns) \<and> mems_at js ts (t + 1 + 1) ns"
    unfolding m by (rule member_at) blast
  have key: "jsmn_streq js s ''token'' \<longleftrightarrow> k = ''token''" using s(3) by simp
  have n: "t + 1 + ntoks v + nmems ms = t + nmems (m # ms)" by (simp add: m)
  note IH = Cons.IH [OF r, unfolded n] and ok = Cons.prems(2)
  show ?case
  proof (cases "k = ''token''")
    case True
    show ?thesis
    proof (cases v)
      case (JObj ns)
      with x(6) have "tk_size x = int (length ns)" "mems_at js ts (t + 1 + 1) ns" by simp_all
      with True JObj IH ok s(1,2) key x(1,2) token_walk [of js ts "t + 1 + 1" ns token] show ?thesis
        by (cases "token_of ns token") (auto simp: m add.assoc)
    qed (use True s(1,2) key x(1,2) in \<open>simp_all add: m\<close>)
  next
    case False
    with IH ok s(1,2) key skip_value [OF v] show ?thesis by (simp add: m add.assoc)
  qed
qed simp

lemma json_walk:
  assumes "val_at js ts 0 v" "json_ok v"
  shows "process_json token js ts = response_of v token"
proof -
  from assms(1) obtain s where s: "tok_at ts 0 = Some s" "tk_type s = json_type v"
    and ob: "\<And>ms. v = JObj ms \<Longrightarrow> tk_size s = int (length ms) \<and> mems_at js ts (0 + 1) ms"
    by (rule val_at_token) blast
  have ts: "ts \<noteq> []" "ts ! 0 = s" using s(1) by (auto simp: tok_at_def split: if_splits)
  show ?thesis
  proof (cases v)
    case (JObj ms)
    with ob [OF JObj] assms(2) root_walk [of js ts 1 ms token] s(2) ts show ?thesis
      by (cases "root_of ms token") (auto simp: process_json_def)
  qed (use s(2) ts in \<open>simp_all add: process_json_def\<close>)
qed

section \<open>Parsing the response\<close>

text \<open>The loop with its doubling array is one parse with an array that is large enough.\<close>

lemma response_loop:
  assumes "jp_ok (length js) p" "length (jp_toks p) \<le> num" "0 < num"
    and "jsmn_parse p js (length js + 1) = Some (r, q)" "r \<noteq> JSMN_ERROR_NOMEM" "length (jp_toks p) \<le> length js + 1"
  shows "c_loop (response_pass js) (p, num) = Some (if r < 0 then None else Some q)"
  using assms
proof (induction "length js + 1 - num" arbitrary: p num rule: less_induct)
  case less
  from parse_ok [OF less.prems(1,2)] obtain r1 p1 where p1: "jsmn_parse p js num = Some (r1, p1)" "parsed js num r1 p1" by blast
  show ?case
  proof (cases "r1 = JSMN_ERROR_NOMEM")
    case True
    from p1(2) have ok: "jp_ok (length js) p1" "length (jp_toks p1) \<le> num" by (simp_all add: parsed_def)
    from p1(2) True have "length (jp_toks p1) = num" by (auto simp: parsed_def JSMN_ERROR_NOMEM_def JSMN_ERROR_INVAL_def JSMN_ERROR_PART_def)
    with ok(1) have num: "num \<le> length js" by (simp add: jp_ok_def)
    have "jsmn_parse p1 js (length js + 1) = jsmn_parse p js (length js + 1)"
      using parse_resume [OF less.prems(1,2) _ p1(1), of "length js + 1"] num True by simp
    then have "c_loop (response_pass js) (p1, num * 2) = Some (if r < 0 then None else Some q)"
      using less.hyps [of "num * 2" p1] num ok less.prems(3-5) by simp
    moreover have "response_pass js (p, num) = Some (Inr (p1, num * 2))"
      using p1(1) True by (simp add: response_pass_def JSMN_ERROR_NOMEM_def)
    ultimately show ?thesis by (simp add: c_loop_next)
  next
    case False
    have "(r1, p1) = (r, q)"
    proof (cases "num \<le> length js + 1")
      case True
      with parse_resume [OF less.prems(1,2) _ p1(1), of "length js + 1"] False less.prems(4) show ?thesis by simp
    next
      case big: False
      with parse_resume [OF less.prems(1,6) _ less.prems(4), of num] less.prems(5) p1(1) show ?thesis by simp
    qed
    then have "response_pass js (p, num) = Some (Inl (if r < 0 then None else Some q))"
      using p1(1) False by (simp add: response_pass_def)
    then show ?thesis by (rule c_loop_stop)
  qed
qed

lemma parse_enough:
  obtains r q where "jsmn_parse jsmn_init js (length js + 1) = Some (r, q)" "r \<noteq> JSMN_ERROR_NOMEM"
    "parsed js (length js + 1) r q"
proof -
  from parse_ok [of js jsmn_init "length js + 1"] obtain r q
    where q: "jsmn_parse jsmn_init js (length js + 1) = Some (r, q)" "parsed js (length js + 1) r q"
    by (auto simp: jsmn_init_ok) (auto simp: jsmn_init_def)
  have "r \<noteq> JSMN_ERROR_NOMEM"
    using q(2) by (auto simp: parsed_def jp_ok_def JSMN_ERROR_NOMEM_def JSMN_ERROR_INVAL_def JSMN_ERROR_PART_def)
  from that [OF q(1) this q(2)] show thesis .
qed

lemma response_parse:
  "c_loop (response_pass js) (jsmn_init, 128) =
    (case jsmn_parse jsmn_init js (length js + 1) of None \<Rightarrow> None | Some (r, q) \<Rightarrow> Some (if r < 0 then None else Some q))"
proof -
  obtain r q where q: "jsmn_parse jsmn_init js (length js + 1) = Some (r, q)" "r \<noteq> JSMN_ERROR_NOMEM" by (rule parse_enough)
  from response_loop [OF jsmn_init_ok _ _ q, of 128] q(1) show ?thesis by (simp add: jsmn_init_def)
qed

text \<open>A response that spells a JSON value.\<close>

lemma text_response:
  assumes "layout_ok w" "json_ok v"
  shows "process_auth_response (spell_text w v) token = response_of v token"
proof -
  let ?js = "spell_text w v" and ?ts = "text_tokens w v"
  obtain r q where q: "jsmn_parse jsmn_init ?js (length ?js + 1) = Some (r, q)" "r \<noteq> JSMN_ERROR_NOMEM" by (rule parse_enough)
  let ?m = "max (length ?ts) (length ?js + 1)"
  have "jsmn_parse jsmn_init ?js ?m = Some (r, q)"
    using parse_resume [OF jsmn_init_ok _ _ q(1), of ?m] q(2) by (simp add: jsmn_init_def)
  with text_parse [OF assms, of ?m] have rq: "r = int (length ?ts)" "jp_toks q = ?ts" by auto
  have "val_at ?js ?ts 0 v"
    using text_found [of w v] unfolding val_at_def text_tokens_def toks_at_def by auto
  from json_walk [OF this assms(2)] rq response_parse [of ?js] q(1) show ?thesis
    by (simp add: process_auth_response_def)
qed

section \<open>Headers\<close>

lemma TOKEN_HDR_no_NUL: "NUL \<notin> set TOKEN_HDR" and TOKEN_HDR_last: "TOKEN_HDR \<noteq> []" "\<not> trailing (last TOKEN_HDR)"
  by (simp_all add: TOKEN_HDR_def trailing_def)

lemma is_token_header: "strncmp_eq buf TOKEN_HDR (length TOKEN_HDR) \<longleftrightarrow> prefix TOKEN_HDR buf"
  using strncmp_take [OF TOKEN_HDR_no_NUL refl, of buf] by (auto simp: prefix_def) (metis append_take_drop_id)

lemma other_header: "\<not> prefix TOKEN_HDR buf \<Longrightarrow> auth_header_cb buf token = Some (length buf, token)"
  by (simp add: auth_header_cb_def is_token_header)

lemma chomp:
  assumes "list_all trailing nl" "v = [] \<or> \<not> trailing (last v)"
  shows "takeWhile trailing (rev (TOKEN_HDR @ v @ nl)) = rev nl"
proof -
  have "TOKEN_HDR @ v \<noteq> []" "\<not> trailing (last (TOKEN_HDR @ v))" using assms(2) TOKEN_HDR_last by (cases "v = []"; simp)+
  then have "takeWhile trailing (rev (TOKEN_HDR @ v)) = []" by (cases "TOKEN_HDR @ v" rule: rev_cases) simp_all
  moreover have "takeWhile trailing (rev nl @ xs) = rev nl @ takeWhile trailing xs" for xs
    using assms(1) by (intro takeWhile_append2) (simp add: list_all_iff)
  ultimately show ?thesis by simp
qed

text \<open>The value of the header, when a line end follows it; without one, the copy leaves the buffer.\<close>

lemma token_header:
  assumes "list_all trailing nl" "nl \<noteq> []" "v = [] \<or> \<not> trailing (last v)" "NUL \<notin> set v"
  shows "auth_header_cb (TOKEN_HDR @ v @ nl) token =
    Some (length (TOKEN_HDR @ v @ nl), token\<lparr>kt_token := Some v\<rparr>)"
proof -
  have "c_str v = v" using assms(4) by (auto simp: c_str_def takeWhile_eq_all_conv)
  with assms(2) show ?thesis
    unfolding auth_header_cb_def is_token_header chomp [OF assms(1,3)] by (auto simp: Let_def Suc_le_eq)
qed

lemma token_header_unterminated:
  assumes "v \<noteq> []" "\<not> trailing (last v)"
  shows "auth_header_cb (TOKEN_HDR @ v) token = None"
  unfolding auth_header_cb_def is_token_header using chomp [of "[]" v] assms by (simp add: Let_def)

text \<open>What libcurl promises of a transfer whose callbacks accept everything: these header lines and
  these pieces of the body, in order, and this result.\<close>

primrec easy_sends :: "'c easy_event \<Rightarrow> string list \<Rightarrow> string list \<Rightarrow> curl_code \<times> int \<times> 'c \<Rightarrow> bool" where
  "easy_sends (EASY_returns code resp c) hs bs res \<longleftrightarrow> hs = [] \<and> bs = [] \<and> res = (code, resp, c)"
| "easy_sends (EASY_header h k) hs bs res \<longleftrightarrow> hs \<noteq> [] \<and> h = hd hs \<and> easy_sends (k (length h)) (tl hs) bs res"
| "easy_sends (EASY_body b k) hs bs res \<longleftrightarrow> bs \<noteq> [] \<and> b = hd bs \<and> easy_sends (k (length b)) hs (tl bs) res"

lemma auth_header_length: "auth_header_cb h token = Some (n, token') \<Longrightarrow> n = length h"
  by (auto simp: auth_header_cb_def Let_def bind_eq_Some_conv split: if_splits)

fun take_headers :: "string list \<Rightarrow> keystone_auth_token_t \<Rightarrow> keystone_auth_token_t option" where
  "take_headers [] token = Some token"
| "take_headers (h # hs) token = do { (_, token') \<leftarrow> auth_header_cb h token; take_headers hs token' }"

lemma drive_sends:
  "easy_sends ev hs bs (code, resp, c) \<Longrightarrow>
    easy_drive ev rw token = do { token' \<leftarrow> take_headers hs token; Some (code, resp, c, rw @ concat bs, token') }"
proof (induction ev arbitrary: hs bs rw token)
  case (EASY_header h k)
  then obtain hs' where hs: "hs = h # hs'" by (cases hs) auto
  show ?case
  proof (cases "auth_header_cb h token")
    case None
    with hs show ?thesis by simp
  next
    case (Some r)
    then obtain n token' where r: "auth_header_cb h token = Some (n, token')" by (cases r) simp
    with EASY_header.prems EASY_header.IH [of "k n" hs' bs rw token'] auth_header_length [OF r] hs show ?thesis by simp
  qed
next
  case (EASY_body b k)
  then obtain bs' where "bs = b # bs'" by (cases bs) auto
  with EASY_body.prems EASY_body.IH [of "k (length b)" hs bs' "rw @ b" token] show ?case by (simp add: auth_write_cb_def)
qed simp

lemma take_headers_other: "\<forall>h\<in>set hs. \<not> prefix TOKEN_HDR h \<Longrightarrow> take_headers hs token = Some token"
  by (induction hs) (simp_all add: other_header)

lemma take_headers_append: "take_headers (xs @ ys) token = do { token' \<leftarrow> take_headers xs token; take_headers ys token' }"
  by (induction xs arbitrary: token) (auto split: bind_splits)

section \<open>The token is only ever the header's or the environment's\<close>

lemma process_entry_token:
  assumes "process_catalog_entry js ts token t = Some (Some (t', token'))"
  shows "kt_token token' = kt_token token"
proof -
  from assms obtain n where "do { r \<leftarrow> catalog_keys js ts n (t + 1) False [];
       Some (case r of
         Inl _ \<Rightarrow> None
       | Inr (t', found_service, urlbuf) \<Rightarrow>
           if found_service then
             if urlbuf = [] then None
             else Some (t', if kt_storage_url token = None then token\<lparr>kt_storage_url := Some urlbuf\<rparr> else token)
           else Some (t', token)) } = Some (Some (t', token'))"
    by (auto simp: process_catalog_entry_def bind_eq_Some_conv split: if_splits)
  then obtain r where r: "catalog_keys js ts n (t + 1) False [] = Some r"
    "(case r of
         Inl _ \<Rightarrow> None
       | Inr (t', found_service, urlbuf) \<Rightarrow>
           if found_service then
             if urlbuf = [] then None
             else Some (t', if kt_storage_url token = None then token\<lparr>kt_storage_url := Some urlbuf\<rparr> else token)
           else Some (t', token)) = Some (t', token')"
    unfolding bind_eq_Some_conv option.inject by blast
  show ?thesis
  proof (cases r)
    case (Inr x)
    with r(2) show ?thesis by (cases x) (auto split: if_splits)
  qed (use r(2) in simp)
qed

lemma catalog_loop_token: "catalog_loop js ts n t token = Some (r, token') \<Longrightarrow> kt_token token' = kt_token token"
proof (induction n arbitrary: t token)
  case (Suc n)
  then obtain x where x: "process_catalog_entry js ts token t = Some x" by (auto simp: bind_eq_Some_conv)
  show ?case
  proof (cases x)
    case (Some y)
    with Suc x process_entry_token show ?thesis by (cases y) auto
  qed (use Suc.prems x in simp)
qed simp

lemma token_keys_token: "token_keys js ts n t token = Some (r, token') \<Longrightarrow> kt_token token' = kt_token token"
proof (induction n arbitrary: t token)
  case (Suc n)
  then show ?case
    by (fastforce simp: bind_eq_Some_conv split: if_splits option.splits dest: catalog_loop_token)
qed simp

lemma root_keys_token: "root_keys js ts n t token = Some (r, token') \<Longrightarrow> kt_token token' = kt_token token"
proof (induction n arbitrary: t token)
  case (Suc n)
  then show ?case
    by (fastforce simp: bind_eq_Some_conv split: if_splits option.splits dest: token_keys_token)
qed simp

lemma process_response_token: "process_auth_response js token = Some (r, token') \<Longrightarrow> kt_token token' = kt_token token"
  by (auto simp: process_auth_response_def process_json_def bind_eq_Some_conv split: if_splits option.splits
    dest: root_keys_token)

section \<open>The whole request\<close>

lemma answer_cases:
  assumes "keystone_answer getenv g res = Some (r, token, g')"
  shows "cg_init_cnt g' = cg_init_cnt g \<and> (r = -1 \<or>
    (\<exists>rw tk. process_auth_response rw (snd (keystone_env_parse_token getenv tk)) = Some (0, token) \<and>
      r = (if kt_storage_url token \<noteq> None \<and> kt_token token \<noteq> None then 1 else 0)))"
proof -
  obtain code resp c rw tk where "res = (code, resp, c, rw, tk)" by (metis prod_cases5)
  with assms show ?thesis
    by (cases "process_auth_response rw (snd (keystone_env_parse_token getenv tk))")
      (auto simp: keystone_answer_def Let_def split: if_splits intro!: exI [of _ rw] exI [of _ tk])
qed

text \<open>Every way out: an early error, or what became of the answer. Either way libcurl stays initialised
  once more than before.\<close>

lemma authenticate_cases:
  assumes "keystone_authenticate getenv ce creds g = Some (r, token, g')"
  obtains (early) "r = -1" "cg_init_cnt g' = cg_init_cnt g + 1"
    | (answered) res g1 where "keystone_answer getenv g1 res = Some (r, token, g')" "cg_init_cnt g1 = cg_init_cnt g + 1"
proof -
  note result = that
  let ?g = "curl_helper_safe_global_init g"
  have cnt: "cg_init_cnt ?g = cg_init_cnt g + 1" by (simp add: curl_helper_safe_global_init_def Let_def)
  obtain ok0 c0 where init: "ce_init ce (cg_net ?g) = (ok0, c0)" by fastforce
  show thesis
  proof (cases ok0)
    case False
    with assms init cnt show thesis by (intro result(1)) (auto simp: keystone_authenticate_def Let_def)
  next
    case True
    with assms init obtain a where a: "kc_auth_url creds = Some a"
      by (auto simp: keystone_authenticate_def Let_def bind_eq_Some_conv)
    show thesis
    proof (cases "length (a @ ''/auth/tokens'') \<ge> BUFLEN")
      case big: True
      with assms init a True cnt show thesis by (intro result(1)) (auto simp: keystone_authenticate_def Let_def)
    next
      case False
      with assms init a True obtain u d p r' where f: "kc_username creds = Some u" "kc_domain_id creds = Some d"
          "kc_password creds = Some p" "kc_project creds = Some r'"
        by (auto simp: keystone_authenticate_def Let_def bind_eq_Some_conv)
      obtain ok1 c1 where opts: "ce_setopts ce c0 \<lparr>rq_url = a @ ''/auth/tokens'',
          rq_headers = ce_slist_append ce [] ''Content-Type: application/json'', rq_post = auth_request u d p d r'\<rparr> = (ok1, c1)"
        by fastforce
      show thesis
      proof (cases "length (auth_request u d p d r') \<ge> BUFLEN \<or> \<not> ok1")
        case bad: True
        with assms init a f opts True False cnt show thesis
          by (intro result(1); cases "length (auth_request u d p d r') \<ge> BUFLEN")
            (auto simp: keystone_authenticate_def Let_def)
      next
        case good: False
        with assms init a f opts True False obtain res where "keystone_answer getenv ?g res = Some (r, token, g')"
          by (auto simp: keystone_authenticate_def Let_def bind_eq_Some_conv)
        with cnt show thesis by (rule result(2) [rotated])
      qed
    qed
  qed
qed

end
