(* ===== verification/Keystone_Files.thy ===== *)
theory Keystone_Files
  imports Keystone_Proofs Http_Files
begin

text \<open>
  What the tokeniser and the Keystone client promise, and where they go wrong.
\<close>

section \<open>The tokeniser\<close>

text \<open>Two short texts, tokenised a character at a time.\<close>

lemma parse_next: "jsmn_pass js num (int (length (jp_toks p)), p) = Some (Inr (int (length (jp_toks p')), p')) \<Longrightarrow>
    jsmn_parse p js num = jsmn_parse p' js num"
  by (simp add: jsmn_parse_def c_loop_next)
lemma parse_stop: "jsmn_pass js num (int (length (jp_toks p)), p) = Some (Inl res) \<Longrightarrow>
    jsmn_parse p js num = Some res"
  by (simp add: jsmn_parse_def c_loop_stop)

lemma unclosed_parse: "jsmn_parse jsmn_init ''{'' num = (if num = 0 then Some (JSMN_ERROR_NOMEM, jsmn_init) else
   Some (JSMN_ERROR_PART, \<lparr>jp_pos = 1, jp_toksuper = 0, jp_toks = [\<lparr>tk_type = JSMN_OBJECT, tk_start = 0, tk_end = -1, tk_size = 0\<rparr>]\<rparr>))"
proof (cases "num = 0")
  case True
  then show ?thesis by (simp add: parse_stop jsmn_pass_def jsmn_init_def jsmn_alloc_token_def)
next
  case False
  let ?p = "\<lparr>jp_pos = 1, jp_toksuper = 0, jp_toks = [\<lparr>tk_type = JSMN_OBJECT, tk_start = 0, tk_end = -1, tk_size = 0\<rparr>]\<rparr>"
  have "jsmn_parse jsmn_init ''{'' num = jsmn_parse ?p ''{'' num"
    using False by (intro parse_next) (simp add: jsmn_pass_def jsmn_init_def jsmn_alloc_token_def bump_super_def advance_def)
  moreover have "jsmn_parse ?p ''{'' num = Some (JSMN_ERROR_PART, ?p)"
    by (rule parse_stop) (simp add: jsmn_pass_def tk_open_def)
  ultimately show ?thesis using False by simp
qed

lemma one_parse: "jsmn_parse jsmn_init ''[1]'' 8 = Some (2, \<lparr>jp_pos = 3, jp_toksuper = -1, jp_toks =
  [\<lparr>tk_type = JSMN_ARRAY, tk_start = 0, tk_end = 3, tk_size = 1\<rparr>, \<lparr>tk_type = JSMN_PRIMITIVE, tk_start = 1, tk_end = 2, tk_size = 0\<rparr>]\<rparr>)"
proof -
  let ?a = "\<lparr>tk_type = JSMN_ARRAY, tk_start = 0, tk_end = -1, tk_size = 0\<rparr>"
  let ?b = "\<lparr>tk_type = JSMN_PRIMITIVE, tk_start = 1, tk_end = 2, tk_size = 0\<rparr>"
  let ?p1 = "\<lparr>jp_pos = 1, jp_toksuper = 0, jp_toks = [?a]\<rparr>"
  let ?p2 = "\<lparr>jp_pos = 2, jp_toksuper = 0, jp_toks = [?a\<lparr>tk_size := 1\<rparr>, ?b]\<rparr>"
  let ?p3 = "\<lparr>jp_pos = 3, jp_toksuper = -1, jp_toks = [?a\<lparr>tk_size := 1, tk_end := 3\<rparr>, ?b]\<rparr>"
  have "jsmn_parse jsmn_init ''[1]'' 8 = jsmn_parse ?p1 ''[1]'' 8"
    by (rule parse_next) (simp add: jsmn_pass_def jsmn_init_def jsmn_alloc_token_def bump_super_def advance_def)
  also have "\<dots> = jsmn_parse ?p2 ''[1]'' 8"
    by (rule parse_next) (simp add: jsmn_pass_def jsmn_alloc_token_def bump_super_def advance_def
      jsmn_parse_primitive_def jsmn_fill_token_def prim_end_def printable_def)
  also have "\<dots> = jsmn_parse ?p3 ''[1]'' 8"
    by (rule parse_next) (simp add: jsmn_pass_def close_bracket_def tk_open_def advance_def eval_nat_numeral)
  also have "\<dots> = Some (2, ?p3)"
    by (rule parse_stop) (simp add: jsmn_pass_def tk_open_def eval_nat_numeral)
  finally show ?thesis by simp
qed

text \<open>C23: on any text below \<open>2 ^ 31\<close> characters and any number of tokens the tokeniser comes back, with as
  many tokens as it counts or an error code, and every token it leaves is of one of the four types, has
  a size between 0 and the number of tokens, and either is an open container that starts inside the text
  or spans a part of it; so the position and all these numbers keep within the 32 bits of \<^verbatim>\<open>jsmn.h\<close>.\<close>

theorem tokens_well_typed:
  assumes "length js < 2 ^ 31"
  shows "\<exists>r p. jsmn_parse jsmn_init js num = Some (r, p) \<and> jp_pos p \<le> length js \<and>
    (r = int (length (jp_toks p)) \<or> r \<in> {JSMN_ERROR_NOMEM, JSMN_ERROR_INVAL, JSMN_ERROR_PART}) \<and>
    length (jp_toks p) \<le> num \<and> length (jp_toks p) \<le> length js \<and>
    list_all (\<lambda>t. tk_type t \<noteq> JSMN_UNDEFINED \<and> 0 \<le> tk_size t \<and> tk_size t \<le> int (length (jp_toks p)) \<and>
      0 \<le> tk_start t \<and>
      (if tk_open t then r < 0 \<and> tk_container t \<and> tk_start t < int (length js)
       else tk_start t \<le> tk_end t \<and> tk_end t \<le> int (length js)) \<and>
      tk_size t < 2 ^ 31 \<and> tk_start t < 2 ^ 31 \<and> tk_end t < 2 ^ 31) (jp_toks p)"
proof -
  from parse_ok [of js jsmn_init num] obtain r p where p: "jsmn_parse jsmn_init js num = Some (r, p)" "parsed js num r p"
    by (auto simp: jsmn_init_ok) (auto simp: jsmn_init_def)
  then have ok: "jp_ok (length js) p" and len: "length (jp_toks p) \<le> length js" by (auto simp: parsed_def jp_ok_def)
  have closed: "r < 0 \<or> (\<forall>t\<in>set (jp_toks p). \<not> tk_open t)"
    using p(2) by (auto simp: parsed_def JSMN_ERROR_NOMEM_def JSMN_ERROR_INVAL_def JSMN_ERROR_PART_def)
  have "list_all (\<lambda>t. tk_type t \<noteq> JSMN_UNDEFINED \<and> 0 \<le> tk_size t \<and> tk_size t \<le> int (length (jp_toks p)) \<and>
      0 \<le> tk_start t \<and>
      (if tk_open t then r < 0 \<and> tk_container t \<and> tk_start t < int (length js)
       else tk_start t \<le> tk_end t \<and> tk_end t \<le> int (length js)) \<and>
      tk_size t < 2 ^ 31 \<and> tk_start t < 2 ^ 31 \<and> tk_end t < 2 ^ 31) (jp_toks p)"
    unfolding list_all_iff
  proof
    fix t assume t: "t \<in> set (jp_toks p)"
    with ok have "tok_ok (length js) t" "tk_size t \<le> int (length (jp_toks p))" by (simp_all add: jp_ok_def)
    moreover have "int (length (jp_toks p)) < 2 ^ 31" "int (length js) < 2 ^ 31" using assms len by simp_all
    ultimately show "tk_type t \<noteq> JSMN_UNDEFINED \<and> 0 \<le> tk_size t \<and> tk_size t \<le> int (length (jp_toks p)) \<and>
      0 \<le> tk_start t \<and>
      (if tk_open t then r < 0 \<and> tk_container t \<and> tk_start t < int (length js)
       else tk_start t \<le> tk_end t \<and> tk_end t \<le> int (length js)) \<and>
      tk_size t < 2 ^ 31 \<and> tk_start t < 2 ^ 31 \<and> tk_end t < 2 ^ 31"
      using closed t by (cases "tk_open t") (auto simp: tok_ok_def tk_open_def)
  qed
  moreover have "jp_pos p \<le> length js" using ok by (simp add: jp_ok_def)
  ultimately show ?thesis using p len by (auto simp: parsed_def)
qed

theorem tokens_well_typed_witness:
  "\<exists>p. jsmn_parse jsmn_init ''[1]'' 8 = Some (2, p) \<and> jp_pos p \<le> 3 \<and> length (jp_toks p) = 2 \<and>
    list_all (\<lambda>t. tk_type t \<noteq> JSMN_UNDEFINED \<and> tk_size t \<le> 2 \<and> tk_start t \<le> tk_end t \<and> tk_end t \<le> 3) (jp_toks p)"
proof -
  have len: "length ''[1]'' < 2 ^ 31" by simp
  from tokens_well_typed [OF len, of 8] show ?thesis unfolding one_parse by (simp add: tk_open_def)
qed

text \<open>C21: the tokens of the text of a JSON value, laid out with any white space, are those of the value:
  one for each value and key, in order, with the places of their characters, a container counting its
  elements and a key its value, given that there are enough of them.\<close>

theorem json_text_tokens:
  assumes "layout_ok w" "json_ok v" "length (text_tokens w v) \<le> num"
  shows "\<exists>p. jsmn_parse jsmn_init (spell_text w v) num = Some (int (length (text_tokens w v)), p) \<and>
    jp_toks p = text_tokens w v"
  using text_parse [OF assms] by auto

abbreviation demo_json :: json where
  "demo_json \<equiv> JObj [(''a'', JArr [JPrim ''1'', JStr ''x'']), (''b'', JObj [])]"

theorem json_text_tokens_witness:
  "json_ok demo_json \<and> (\<exists>p. jsmn_parse jsmn_init (spell_text (\<lambda>i. '' '') demo_json) 7 = Some (7, p) \<and>
    jp_toks p = text_tokens (\<lambda>i. '' '') demo_json \<and>
    map tk_type (jp_toks p) =
      [JSMN_OBJECT, JSMN_STRING, JSMN_ARRAY, JSMN_PRIMITIVE, JSMN_STRING, JSMN_STRING, JSMN_OBJECT] \<and>
    map tk_size (jp_toks p) = [2, 1, 2, 0, 0, 1, 0])"
proof -
  have j: "json_ok demo_json" by (simp add: prim_ok_def prim_start_def prim_end_def printable_def)
  have l: "layout_ok (\<lambda>i. '' '')" by (simp add: layout_ok_def json_space_def)
  have n: "length (text_tokens (\<lambda>i. '' '') demo_json) = 7" unfolding text_tokens_def length_tokens by simp
  from json_text_tokens [OF l j, of 7, unfolded n] obtain p where
    p: "jsmn_parse jsmn_init (spell_text (\<lambda>i. '' '') demo_json) 7 = Some (7, p)"
      "jp_toks p = text_tokens (\<lambda>i. '' '') demo_json" unfolding of_nat_numeral by blast
  have sh: "map (\<lambda>t. (tk_type t, tk_size t)) (jp_toks p) = shape demo_json"
    unfolding p(2) text_tokens_def by (rule tokens_shape)
  have "map tk_type (jp_toks p) = map fst (map (\<lambda>t. (tk_type t, tk_size t)) (jp_toks p))"
    "map tk_size (jp_toks p) = map snd (map (\<lambda>t. (tk_type t, tk_size t)) (jp_toks p))" by simp_all
  note this [unfolded sh]
  moreover have "shape demo_json = [(JSMN_OBJECT, 2), (JSMN_STRING, 1), (JSMN_ARRAY, 2), (JSMN_PRIMITIVE, 0),
      (JSMN_STRING, 0), (JSMN_STRING, 1), (JSMN_OBJECT, 0)]" by simp
  ultimately have maps: "map tk_type (jp_toks p) =
      [JSMN_OBJECT, JSMN_STRING, JSMN_ARRAY, JSMN_PRIMITIVE, JSMN_STRING, JSMN_STRING, JSMN_OBJECT]"
    "map tk_size (jp_toks p) = [2, 1, 2, 0, 0, 1, 0]" by (simp_all only: list.map fst_conv snd_conv)
  show ?thesis by (intro conjI exI [of _ p] j p maps)
qed

section \<open>Keystone\<close>

text \<open>C39: the array that is doubled whenever it is full does not change what is parsed: parsing with more
  and more tokens ends on every response below \<open>2 ^ 31\<close> characters, and reading it is one parse with an
  array larger than the response, which does not run out of tokens, and process_json on its tokens.\<close>

theorem response_growing_array:
  assumes "length response < 2 ^ 31"
  shows "\<exists>ret p. jsmn_parse jsmn_init response (length response + 1) = Some (ret, p) \<and> ret \<noteq> JSMN_ERROR_NOMEM \<and>
    c_loop (response_pass response) (jsmn_init, 128) = Some (if ret < 0 then None else Some p) \<and>
    process_auth_response response token =
      (if ret < 0 then Some (-1, token) else process_json token response (jp_toks p))"
proof -
  obtain r q where "jsmn_parse jsmn_init response (length response + 1) = Some (r, q)" "r \<noteq> JSMN_ERROR_NOMEM"
    by (rule parse_enough)
  then show ?thesis by (simp add: process_auth_response_def response_parse)
qed

theorem response_growing_array_witness:
  "jsmn_parse jsmn_init ''{'' 2 = Some (JSMN_ERROR_PART,
      \<lparr>jp_pos = 1, jp_toksuper = 0, jp_toks = [\<lparr>tk_type = JSMN_OBJECT, tk_start = 0, tk_end = -1, tk_size = 0\<rparr>]\<rparr>) \<and>
   process_auth_response ''{'' keystone_no_token = Some (-1, keystone_no_token)"
proof -
  have len: "length ''{'' < 2 ^ 31" by simp
  have two: "jsmn_parse jsmn_init ''{'' (length ''{'' + 1) = Some (JSMN_ERROR_PART,
      \<lparr>jp_pos = 1, jp_toksuper = 0, jp_toks = [\<lparr>tk_type = JSMN_OBJECT, tk_start = 0, tk_end = -1, tk_size = 0\<rparr>]\<rparr>)"
    by (simp add: unclosed_parse)
  from response_growing_array [OF len, of keystone_no_token] two show ?thesis
    by (auto simp: JSMN_ERROR_PART_def numeral_2_eq_2)
qed

text \<open>C20: on the text of any JSON value in any layout, the walk over the tokens does what the value
  says: the catalogue's object-store entry offers the URL of its public endpoint as storage URL, keys
  nobody asks for are skipped whatever is in them, and what is not of the expected shape is an error.\<close>

theorem response_means_value:
  assumes "layout_ok w" "json_ok v"
  shows "process_auth_response (spell_text w v) token = response_of v token"
  by (rule text_response [OF assms])

abbreviation demo_response :: json where
  "demo_response \<equiv> JObj [(''token'', JObj [
     (''methods'', JArr [JStr ''password'']),
     (''catalog'', JArr [
       JObj [(''endpoints'', JArr [JObj [(''url'', JStr ''http://k''), (''interface'', JStr ''public'')]]), (''type'', JStr ''identity'')],
       JObj [(''endpoints'', JArr [
           JObj [(''interface'', JStr ''admin''), (''url'', JStr ''http://x'')],
           JObj [(''region'', JPrim ''null''), (''url'', JStr ''http://s''), (''interface'', JStr ''public'')]]),
         (''type'', JStr ''object-store'')]])])]"

lemma demo_response_ok: "json_ok demo_response" "layout_ok (\<lambda>i. [])"
  "response_of demo_response \<lparr>kt_token = t, kt_storage_url = None\<rparr> =
    Some (0, \<lparr>kt_token = t, kt_storage_url = Some ''http://s''\<rparr>)"
  by (simp_all add: layout_ok_def prim_ok_def prim_start_def prim_end_def printable_def endpoint_of_def BUFLEN_def
    offer_url_def)

theorem response_means_value_witness:
  "process_auth_response (spell_text (\<lambda>i. []) demo_response) keystone_no_token =
    Some (0, \<lparr>kt_token = None, kt_storage_url = Some ''http://s''\<rparr>)"
  unfolding response_means_value [OF demo_response_ok(2,1)] keystone_no_token_def demo_response_ok(3) ..

text \<open>C40: an object with a key but no value, which the tokeniser lets pass, makes the walk read a token
  behind the last one, in memory that was never written.\<close>

theorem valueless_key_reads_past_tokens:
  assumes "str_ok k"
  shows "process_auth_response ([CHR ''{'', QUOTE] @ k @ [QUOTE, CHR ''}'']) token = None"
proof -
  let ?js = "[CHR ''{'', QUOTE] @ k @ [QUOTE, CHR ''}'']" and ?m = "length k + 5"
  let ?o = "\<lparr>tk_type = JSMN_OBJECT, tk_start = 0, tk_end = -1, tk_size = 0\<rparr>"
  let ?k = "\<lparr>tk_type = JSMN_STRING, tk_start = 2, tk_end = int (2 + length k), tk_size = 0\<rparr>"
  have "found ?js 0 ([CHR ''{''] @ (QUOTE # k @ [QUOTE]) @ [CHR ''}''])" by (simp add: found_def)
  then have f: "found ?js 0 [CHR ''{'']" "found ?js 1 (QUOTE # k @ [QUOTE])" "found ?js (length k + 3) [CHR ''}'']"
    unfolding found_append [of _ 0] found_append [of _ _ "QUOTE # k @ [QUOTE]"] by (simp_all add: numeral_3_eq_3)
  have "jsmn_parse jsmn_init ?js ?m = go ?js ?m 0 (-1) []" by (simp add: jsmn_parse_def jsmn_init_def go_def)
  also have "\<dots> = go ?js ?m 1 0 [?o]" using go_open [OF f(1), of "-1" "[]" ?m] by (simp add: super_ok_def bumped_def)
  also have "\<dots> = go ?js ?m (length k + 3) 0 [?o\<lparr>tk_size := 1\<rparr>, ?k]"
    using go_string [OF f(2) assms, of 0 "[?o]" ?m] by (simp add: super_ok_def bumped_def numeral_3_eq_3 add.commute)
  also have "\<dots> = go ?js ?m (length k + 4) (-1) [?o\<lparr>tk_size := 1, tk_end := int (length k + 4)\<rparr>, ?k]"
    using go_close [OF f(3), of "?o\<lparr>tk_size := 1\<rparr>" "[?k]" ?m 0 "[]"] by (simp add: tk_open_def open_super_def add.commute)
  also have "\<dots> = Some (2, \<lparr>jp_pos = length k + 4, jp_toksuper = -1,
      jp_toks = [?o\<lparr>tk_size := 1, tk_end := int (length k + 4)\<rparr>, ?k]\<rparr>)"
    by (simp add: go_def c_loop_stop jsmn_pass_def tk_open_def numeral_2_eq_2)
  finally have p: "jsmn_parse jsmn_init ?js (length ?js + 1) = Some (2, \<lparr>jp_pos = length k + 4, jp_toksuper = -1,
      jp_toks = [?o\<lparr>tk_size := 1, tk_end := int (length k + 4)\<rparr>, ?k]\<rparr>)" by (simp add: add.commute eval_nat_numeral)
  have skip: "jsmn_skip [x, y] (Suc (Suc 0)) = None" for x y
    unfolding jsmn_skip_def by (subst skip_run.simps) (simp add: tok_at_def)
  show ?thesis
    unfolding process_auth_response_def response_parse p
    by (simp add: process_json_def tok_at_def skip jsmn_streq_def)
qed

theorem valueless_key_reads_past_tokens_witness:
  "process_auth_response (''{'' @ [QUOTE] @ ''error'' @ [QUOTE] @ ''}'') keystone_no_token = None"
  using valueless_key_reads_past_tokens [of "''error''" keystone_no_token] by simp

section \<open>Getting a token\<close>

text \<open>The server answers 201 with the token in a header line that is ended as HTTP has it, among any other
  header lines.\<close>

lemma request_answered:
  assumes creds: "creds = \<lparr>kc_auth_url = Some a, kc_username = Some u, kc_password = Some p, kc_project = Some r,
      kc_domain_id = Some d\<rparr>"
    and short: "length a + 12 < BUFLEN" "length (auth_request u d p d r) < BUFLEN"
    and handle: "ce_init ce (cg_net g) = (True, c0)"
    and opts: "ce_setopts ce c0 \<lparr>rq_url = a @ ''/auth/tokens'',
      rq_headers = ce_slist_append ce [] ''Content-Type: application/json'',
      rq_post = auth_request u d p d r\<rparr> = (True, c1)"
    and sends: "easy_sends (ce_perform ce c1) (hs1 @ [TOKEN_HDR @ t @ [CHR 0x0D, CHR 0x0A]] @ hs2) bs (CURLE_OK, 201, c2)"
    and others: "\<forall>h\<in>set hs1 \<union> set hs2. \<not> prefix TOKEN_HDR h"
    and t: "NUL \<notin> set t" "t = [] \<or> \<not> trailing (last t)"
  shows "keystone_authenticate getenv ce creds g = keystone_answer getenv (curl_helper_safe_global_init g)
    (CURLE_OK, 201, c2, concat bs, \<lparr>kt_token = Some t, kt_storage_url = None\<rparr>)"
proof -
  let ?nl = "[CHR 0x0D, CHR 0x0A]"
  have "take_headers (hs1 @ [TOKEN_HDR @ t @ ?nl] @ hs2) keystone_no_token =
      Some \<lparr>kt_token = Some t, kt_storage_url = None\<rparr>"
    using token_header [of ?nl t keystone_no_token] t others
    unfolding take_headers_append by (simp add: take_headers_other trailing_def keystone_no_token_def)
  with drive_sends [OF sends, of "[]" keystone_no_token]
  have "easy_drive (ce_perform ce c1) [] keystone_no_token =
      Some (CURLE_OK, 201, c2, concat bs, \<lparr>kt_token = Some t, kt_storage_url = None\<rparr>)" by simp
  with handle opts short show ?thesis
    by (simp add: keystone_authenticate_def creds curl_helper_safe_global_init_def Let_def)
qed

text \<open>C22: a Keystone server that answers 201 with the token in a header line that is ended as HTTP has it,
  among any other header lines, and with a JSON body whose catalogue offers a storage URL, cut into
  pieces in any way, gets the client its token and URL, if the environment names neither.\<close>

theorem keystone_token_accepted:
  assumes "creds = \<lparr>kc_auth_url = Some a, kc_username = Some u, kc_password = Some p, kc_project = Some r,
      kc_domain_id = Some d\<rparr>"
    and "length a + 12 < BUFLEN" "length (auth_request u d p d r) < BUFLEN"
    and "ce_init ce (cg_net g) = (True, c0)"
    and "ce_setopts ce c0 \<lparr>rq_url = a @ ''/auth/tokens'',
      rq_headers = ce_slist_append ce [] ''Content-Type: application/json'',
      rq_post = auth_request u d p d r\<rparr> = (True, c1)"
    and "easy_sends (ce_perform ce c1) (hs1 @ [TOKEN_HDR @ t @ [CHR 0x0D, CHR 0x0A]] @ hs2) bs (CURLE_OK, 201, c2)"
    and "\<forall>h\<in>set hs1 \<union> set hs2. \<not> prefix TOKEN_HDR h"
    and "NUL \<notin> set t" "t = [] \<or> \<not> trailing (last t)"
    and env: "getenv ''OS_AUTH_TOKEN'' = None" "getenv ''OS_STORAGE_URL'' = None"
    and body: "concat bs = spell_text w v" "layout_ok w" "json_ok v"
    and v: "response_of v \<lparr>kt_token = Some t, kt_storage_url = None\<rparr> =
      Some (0, \<lparr>kt_token = Some t, kt_storage_url = Some url\<rparr>)"
  shows "\<exists>g'. keystone_authenticate getenv ce creds g =
    Some (1, \<lparr>kt_token = Some t, kt_storage_url = Some url\<rparr>, g')"
  unfolding request_answered [OF assms(1-9)] body(1)
  using text_response [OF body(2,3), of "\<lparr>kt_token = Some t, kt_storage_url = None\<rparr>"] v
  by (simp add: keystone_answer_def keystone_env_parse_token_def GETENV_def env Let_def)

text \<open>A server that sends \<open>tok\<close> and the catalogue above, in two pieces.\<close>

definition demo_body :: string where
  "demo_body = spell_text (\<lambda>i. []) demo_response"

definition demo_keystone :: "'c curl_easy" where
  "demo_keystone = \<lparr>ce_init = Pair True, ce_slist_append = (\<lambda>l h. l @ [h]), ce_setopts = (\<lambda>c rq. (True, c)),
     ce_perform = (\<lambda>c. EASY_header ''HTTP/1.1 201 Created'' (\<lambda>_.
       EASY_header (TOKEN_HDR @ ''tok'' @ [CHR 0x0D, CHR 0x0A]) (\<lambda>_.
       EASY_body (take 40 demo_body) (\<lambda>_. EASY_body (drop 40 demo_body) (\<lambda>_. EASY_returns CURLE_OK 201 c)))))\<rparr>"

abbreviation demo_creds :: keystone_auth_creds_t where
  "demo_creds \<equiv> \<lparr>kc_auth_url = Some ''http://k/v3'', kc_username = Some ''u'', kc_password = Some ''p'',
     kc_project = Some ''r'', kc_domain_id = Some ''default''\<rparr>"

lemma demo_request:
  "length ''http://k/v3'' + 12 < BUFLEN" "length (auth_request ''u'' ''default'' ''p'' ''default'' ''r'') < BUFLEN"
  "ce_init demo_keystone c = (True, c)" "ce_setopts demo_keystone c rq = (True, c)"
  "easy_sends (ce_perform demo_keystone c)
    ([''HTTP/1.1 201 Created''] @ [TOKEN_HDR @ ''tok'' @ [CHR 0x0D, CHR 0x0A]] @ []) [take 40 demo_body, drop 40 demo_body]
    (CURLE_OK, 201, c)"
  "\<forall>h\<in>set [''HTTP/1.1 201 Created''] \<union> set []. \<not> prefix TOKEN_HDR h"
  "NUL \<notin> set ''tok''" "''tok'' = [] \<or> \<not> trailing (last ''tok'')"
  "concat [take 40 demo_body, drop 40 demo_body] = spell_text (\<lambda>i. []) demo_response"
  by (simp_all add: BUFLEN_def auth_request_def demo_keystone_def TOKEN_HDR_def trailing_def demo_body_def [symmetric])

theorem keystone_token_accepted_witness:
  "\<exists>g'. keystone_authenticate (\<lambda>_. None) demo_keystone demo_creds (demo_start []) =
    Some (1, \<lparr>kt_token = Some ''tok'', kt_storage_url = Some ''http://s''\<rparr>, g')"
  by (rule keystone_token_accepted [OF refl demo_request(1,2) demo_request(3) demo_request(4-8) _ _ demo_request(9)
    demo_response_ok(2,1) demo_response_ok(3)]) simp_all

text \<open>A token in the environment wins over the one the server has just issued: asked for a new token
  because the storage URL is not in the environment, the client hands out the old one.\<close>

theorem environment_token_wins:
  assumes "getenv ''OS_AUTH_TOKEN'' = Some old" "old \<noteq> []"
    and "keystone_authenticate getenv ce creds g = Some (1, token, g')"
  shows "kt_token token = Some old"
proof -
  have old: "kt_token (snd (keystone_env_parse_token getenv tk)) = Some old" for tk
    using assms(1,2) by (simp add: keystone_env_parse_token_def GETENV_def Let_def split: option.splits)
  from assms(3) obtain g1 res where "keystone_answer getenv g1 res = Some (1, token, g')"
    by (rule authenticate_cases) auto
  from answer_cases [OF this] obtain tk rw ret
    where "process_auth_response rw (snd (keystone_env_parse_token getenv tk)) = Some (ret, token)" by auto
  with old process_response_token show ?thesis by metis
qed

theorem environment_token_wins_witness:
  "\<exists>token g'. keystone_authenticate [''OS_AUTH_TOKEN'' \<mapsto> ''stale''] demo_keystone demo_creds (demo_start []) =
    Some (1, token, g') \<and> kt_token token = Some ''stale''"
proof -
  let ?env = "[''OS_AUTH_TOKEN'' \<mapsto> ''stale'']"
  have "keystone_authenticate ?env demo_keystone demo_creds (demo_start []) =
      keystone_answer ?env (curl_helper_safe_global_init (demo_start []))
        (CURLE_OK, 201, cg_net (demo_start []), concat [take 40 demo_body, drop 40 demo_body],
         \<lparr>kt_token = Some ''tok'', kt_storage_url = None\<rparr>)"
    by (rule request_answered [OF refl demo_request(1,2) demo_request(3) demo_request(4-8)])
  also have "\<dots> = Some (1, \<lparr>kt_token = Some ''stale'', kt_storage_url = Some ''http://s''\<rparr>,
      (curl_helper_safe_global_init (demo_start []))\<lparr>cg_net := cg_net (demo_start [])\<rparr>)"
    unfolding demo_request(9)
    using text_response [OF demo_response_ok(2,1), of "\<lparr>kt_token = Some ''stale'', kt_storage_url = None\<rparr>"]
      demo_response_ok(3) [of "Some ''stale''"]
    by (simp add: keystone_answer_def keystone_env_parse_token_def GETENV_def Let_def del: response_of.simps)
  finally have run: "keystone_authenticate ?env demo_keystone demo_creds (demo_start []) = \<dots>" .
  from environment_token_wins [OF _ _ run, of "''stale''"] run show ?thesis by simp
qed

end
