(* ===== verification/Swift.thy ===== *)
theory Swift
  imports Keystone Http_Reader
begin

text \<open>
  \<^verbatim>\<open>lib/ior-swift.c\<close>: reading an object of an OpenStack Swift store, by the HTTP reader with a token
  in a header. The token comes from the environment or from Keystone. Allocation succeeds but for
  the HTTP reader's, whose outcome is a parameter.
\<close>

section \<open>State\<close>

definition SWIFT_PFX :: string where "SWIFT_PFX = ''swift://''"

definition SWIFT_AUTH_TOKEN_HDR :: string where "SWIFT_AUTH_TOKEN_HDR = ''X-Auth-Token: ''"

abbreviation SLASH :: char where "SLASH \<equiv> CHR ''/''"

record 'c swift_t =
  sw_container :: string
  sw_object :: string
  sw_creds :: keystone_auth_creds_t
  sw_token :: keystone_auth_token_t
  sw_http_reader :: "'c http_t option"

definition swift_blank :: "'c swift_t" where
  "swift_blank = \<lparr>sw_container = [], sw_object = [],
     sw_creds = \<lparr>kc_auth_url = None, kc_username = None, kc_password = None, kc_project = None, kc_domain_id = None\<rparr>,
     sw_token = keystone_no_token, sw_http_reader = None\<rparr>"

section \<open>Opening\<close>

text \<open>Container and object of a URL, or \<open>None\<close> for \<open>-1\<close>.\<close>

definition parse_swifturl :: "string \<Rightarrow> (string \<times> string) option" where
  "parse_swifturl swifturl =
     (if length swifturl < length SWIFT_PFX + 1 \<or> \<not> strncmp_eq swifturl SWIFT_PFX (length SWIFT_PFX) then None
      else let ctmp = drop (length SWIFT_PFX) swifturl
        in if SLASH \<notin> set ctmp then None
           else Some (takeWhile (\<lambda>c. c \<noteq> SLASH) ctmp, tl (dropWhile (\<lambda>c. c \<noteq> SLASH) ctmp)))"

definition build_auth_token_hdr :: "string \<Rightarrow> string" where
  "build_auth_token_hdr token = SWIFT_AUTH_TOKEN_HDR @ token"

text \<open>\<^verbatim>\<open>strlen\<close> of a NULL storage URL is undefined.\<close>

definition build_http_url :: "'c swift_t \<Rightarrow> string option" where
  "build_http_url s = do {
     storage_url \<leftarrow> kt_storage_url (sw_token s);
     Some (storage_url @ ''/'' @ sw_container s @ ''/'' @ sw_object s) }"

definition get_token ::
  "(string \<Rightarrow> string option) \<Rightarrow> 'c curl_easy \<Rightarrow> 'c swift_t \<Rightarrow> 'c curl_global \<Rightarrow>
    (int \<times> 'c swift_t \<times> 'c curl_global) option" where
  "get_token getenv ce s g =
     (case keystone_env_parse_token getenv (sw_token s) of (r, token) \<Rightarrow>
        let s = s\<lparr>sw_token := token\<rparr>
        in if r = 1 then Some (0, s, g)
        else case keystone_env_parse_creds getenv (sw_creds s) of (rc, creds) \<Rightarrow>
          let s = s\<lparr>sw_creds := creds\<rparr>
          in if rc \<noteq> 1 then Some (-1, s, g)
          else do {
            (ra, token, g) \<leftarrow> keystone_authenticate getenv ce creds g;
            Some (if ra \<noteq> 1 then -1 else 0, s\<lparr>sw_token := token\<rparr>, g) })"

text \<open>\<open>Inl\<close> is NULL, with what remains of libcurl; the reader is then closed with nothing in it.\<close>

definition swift_open ::
  "(string \<Rightarrow> string option) \<Rightarrow> 'c curl_easy \<Rightarrow> 'c curl \<Rightarrow> bool \<Rightarrow> 'c curl_global \<Rightarrow> string \<Rightarrow>
    ('c curl_global + 'c swift_t) option" where
  "swift_open getenv ce cu mem g filename =
     (case parse_swifturl filename of
        None \<Rightarrow> Some (Inl g)
      | Some (container, object) \<Rightarrow> do {
          (r, s, g) \<leftarrow> get_token getenv ce (swift_blank\<lparr>sw_container := container, sw_object := object\<rparr>) g;
          if r \<noteq> 0 then Some (Inl g)
          else do {
            token \<leftarrow> kt_token (sw_token s);
            let auth_hdr = build_auth_token_hdr token;
            http_url \<leftarrow> build_http_url s;
            x \<leftarrow> http_open_hdrs cu mem g http_url [auth_hdr];
            Some (case x of Inl g \<Rightarrow> Inl g | Inr io \<Rightarrow> Inr (s\<lparr>sw_http_reader := Some io\<rparr>)) } })"

section \<open>Reading, seeking, closing\<close>

definition swift_read :: "'c curl \<Rightarrow> 'c swift_t read_fn" where
  "swift_read cu s buffer len =
     (case sw_http_reader s of
        None \<Rightarrow> Some (0, [], s)
      | Some io \<Rightarrow> do {
          (r, bs, io') \<leftarrow> wandio_read (http_source cu) io buffer len;
          Some (r, bs, s\<lparr>sw_http_reader := Some io'\<rparr>) })"

definition swift_tell :: "'c curl \<Rightarrow> 'c swift_t tell_fn" where
  "swift_tell cu s = (case sw_http_reader s of None \<Rightarrow> -1 | Some io \<Rightarrow> wandio_tell (http_source cu) io)"

definition swift_seek :: "'c curl \<Rightarrow> 'c swift_t seek_fn" where
  "swift_seek cu s offset wh =
     (case sw_http_reader s of
        None \<Rightarrow> Some (-1, s)
      | Some io \<Rightarrow> do {
          (r, io') \<leftarrow> wandio_seek (http_source cu) io offset wh;
          Some (r, s\<lparr>sw_http_reader := Some io'\<rparr>) })"

definition swift_close :: "'c curl \<Rightarrow> 'c swift_t \<Rightarrow> 'c swift_t" where
  "swift_close cu s = s\<lparr>sw_http_reader := wandio_destroy (http_source cu) (sw_http_reader s)\<rparr>"

definition swift_source :: "'c curl \<Rightarrow> 'c swift_t io_source_t" where
  "swift_source cu = \<lparr>src_name = ''swift'', src_read = swift_read cu, src_peek = None,
     src_tell = Some (swift_tell cu), src_seek = Some (swift_seek cu), src_close = swift_close cu\<rparr>"

end
