(* ===== verification/Swift_Files.thy ===== *)
theory Swift_Files
  imports Swift Keystone_Files
begin

text \<open>
  What the Swift reader promises: its URLs, its token, and that it reads the object; and what it
  leaves behind.
\<close>

section \<open>URLs\<close>

lemma swifturl_parts:
  "parse_swifturl url = Some (c, ob) \<longleftrightarrow> url = SWIFT_PFX @ c @ [SLASH] @ ob \<and> SLASH \<notin> set c"
proof -
  have no_NUL: "NUL \<notin> set SWIFT_PFX" by (simp add: SWIFT_PFX_def)
  have pfx: "strncmp_eq url SWIFT_PFX (length SWIFT_PFX) \<longleftrightarrow> prefix SWIFT_PFX url"
    using strncmp_take [OF no_NUL refl, of url] by (auto simp: prefix_def) (metis append_take_drop_id)
  show ?thesis
  proof
    assume "parse_swifturl url = Some (c, ob)"
    then have p: "prefix SWIFT_PFX url" "SLASH \<in> set (drop (length SWIFT_PFX) url)"
      and c: "c = takeWhile (\<lambda>x. x \<noteq> SLASH) (drop (length SWIFT_PFX) url)"
      and ob: "ob = tl (dropWhile (\<lambda>x. x \<noteq> SLASH) (drop (length SWIFT_PFX) url))"
      unfolding parse_swifturl_def pfx by (auto simp: Let_def split: if_splits)
    from p(1) obtain rest where url: "url = SWIFT_PFX @ rest" by (auto simp: prefix_def)
    with p(2) have "SLASH \<in> set rest" by simp
    then have d: "dropWhile (\<lambda>x. x \<noteq> SLASH) rest \<noteq> []" by (auto simp: dropWhile_eq_Nil_conv)
    with hd_dropWhile [OF d] have "dropWhile (\<lambda>x. x \<noteq> SLASH) rest = SLASH # tl (dropWhile (\<lambda>x. x \<noteq> SLASH) rest)"
      by (cases "dropWhile (\<lambda>x. x \<noteq> SLASH) rest") simp_all
    with takeWhile_dropWhile_id [of "\<lambda>x. x \<noteq> SLASH" rest]
    have "rest = takeWhile (\<lambda>x. x \<noteq> SLASH) rest @ SLASH # tl (dropWhile (\<lambda>x. x \<noteq> SLASH) rest)" by simp
    moreover have "SLASH \<notin> set c" unfolding c using set_takeWhileD by fastforce
    ultimately show "url = SWIFT_PFX @ c @ [SLASH] @ ob \<and> SLASH \<notin> set c" using url c ob by simp
  next
    assume u: "url = SWIFT_PFX @ c @ [SLASH] @ ob \<and> SLASH \<notin> set c"
    then have "takeWhile (\<lambda>x. x \<noteq> SLASH) (c @ SLASH # ob) = c" "dropWhile (\<lambda>x. x \<noteq> SLASH) (c @ SLASH # ob) = SLASH # ob"
      by (auto simp: takeWhile_append dropWhile_append)
    with u show "parse_swifturl url = Some (c, ob)" unfolding parse_swifturl_def pfx by simp
  qed
qed

text \<open>The URLs the reader accepts are exactly those of a container without a slash and an object,
  and it takes both apart as they were put together.\<close>

theorem swifturl_roundtrip:
  "parse_swifturl url = Some (c, ob) \<longleftrightarrow> url = ''swift://'' @ c @ ''/'' @ ob \<and> SLASH \<notin> set c"
  by (simp add: swifturl_parts SWIFT_PFX_def)

section \<open>The token\<close>

text \<open>A token that was found has both its parts, wherever it came from.\<close>

lemma env_token_complete:
  "keystone_env_parse_token getenv tk = (1, token) \<Longrightarrow> kt_token token \<noteq> None \<and> kt_storage_url token \<noteq> None"
  by (auto simp: keystone_env_parse_token_def GETENV_def Let_def split: option.splits if_splits)

lemma env_creds_complete:
  "keystone_env_parse_creds getenv cr = (1, creds) \<Longrightarrow> kc_auth_url creds \<noteq> None \<and> kc_username creds \<noteq> None \<and>
    kc_password creds \<noteq> None \<and> kc_project creds \<noteq> None \<and> kc_domain_id creds \<noteq> None"
  by (auto simp: keystone_env_parse_creds_def GETENV_def Let_def split: option.splits if_splits)

lemma authenticated_complete:
  assumes "keystone_authenticate getenv ce creds g = Some (1, token, g')"
  shows "kt_token token \<noteq> None \<and> kt_storage_url token \<noteq> None"
proof -
  from assms obtain g1 res where "keystone_answer getenv g1 res = Some (1, token, g')" by (rule authenticate_cases) auto
  from answer_cases [OF this] show ?thesis by (auto split: if_splits)
qed

lemma get_token_complete:
  assumes "get_token getenv ce s g = Some (0, s', g')"
  obtains token url where "sw_token s' = \<lparr>kt_token = Some token, kt_storage_url = Some url\<rparr>"
    "sw_container s' = sw_container s" "sw_object s' = sw_object s"
proof -
  obtain r token where tk: "keystone_env_parse_token getenv (sw_token s) = (r, token)" by fastforce
  obtain rc creds where cr: "keystone_env_parse_creds getenv (sw_creds s) = (rc, creds)" by fastforce
  have "kt_token (sw_token s') \<noteq> None \<and> kt_storage_url (sw_token s') \<noteq> None \<and>
    sw_container s' = sw_container s \<and> sw_object s' = sw_object s"
  proof (cases "r = 1")
    case True
    with assms tk env_token_complete show ?thesis by (auto simp: get_token_def Let_def)
  next
    case False
    with assms tk cr obtain token' where "keystone_authenticate getenv ce creds g = Some (1, token', g')"
      "s' = s\<lparr>sw_creds := creds, sw_token := token'\<rparr>"
      by (auto simp: get_token_def Let_def bind_eq_Some_conv split: if_splits)
    with authenticated_complete show ?thesis by fastforce
  qed
  then show thesis using that by (cases "sw_token s'") auto
qed

text \<open>When the reader goes on with a token, the token and the storage URL are both there, so neither
  the header nor the URL of the request is ever made from a NULL pointer; and the container and the
  object are those of the URL it was opened with.\<close>

theorem swift_token_complete:
  assumes "get_token getenv ce s g = Some (0, s', g')"
  shows "kt_token (sw_token s') \<noteq> None \<and> build_http_url s' \<noteq> None \<and>
    sw_container s' = sw_container s \<and> sw_object s' = sw_object s"
  by (rule get_token_complete [OF assms]) (simp add: build_http_url_def)

abbreviation demo_env :: "string \<Rightarrow> string option" where
  "demo_env \<equiv> [''OS_AUTH_TOKEN'' \<mapsto> ''t'', ''OS_STORAGE_URL'' \<mapsto> ''http://s'']"

definition demo_swift :: "'c swift_t" where
  "demo_swift = swift_blank\<lparr>sw_container := ''c'', sw_object := ''o''\<rparr>"

definition demo_swift_token :: "'c swift_t" where
  "demo_swift_token = demo_swift\<lparr>sw_token := \<lparr>kt_token = Some ''t'', kt_storage_url = Some ''http://s''\<rparr>\<rparr>"

lemma demo_get_token: "get_token demo_env demo_keystone demo_swift g = Some (0, demo_swift_token, g)"
  by (simp add: get_token_def keystone_env_parse_token_def GETENV_def Let_def demo_swift_token_def)

theorem swift_token_complete_witness:
  "\<exists>s'. get_token demo_env demo_keystone (demo_swift :: unit swift_t) \<lparr>cg_init_cnt = 0, cg_ready = False, cg_net = ()\<rparr> =
      Some (0, s', \<lparr>cg_init_cnt = 0, cg_ready = False, cg_net = ()\<rparr>) \<and>
    kt_token (sw_token s') \<noteq> None \<and> build_http_url s' = Some ''http://s/c/o''"
proof -
  note run = demo_get_token [of "\<lparr>cg_init_cnt = 0, cg_ready = False, cg_net = ()\<rparr>"]
  from swift_token_complete [OF run] run show ?thesis
    by (auto simp: demo_swift_token_def build_http_url_def demo_swift_def swift_blank_def)
qed

section \<open>Reading\<close>

text \<open>The reader is the HTTP reader in it.\<close>

context http_server begin

definition swift_inv :: "'c swift_t \<Rightarrow> bool" where
  "swift_inv s \<longleftrightarrow> (case sw_http_reader s of None \<Rightarrow> False | Some io \<Rightarrow> http_inv io)"

definition swift_pend :: "'c swift_t \<Rightarrow> byte list" where
  "swift_pend s = (case sw_http_reader s of None \<Rightarrow> [] | Some io \<Rightarrow> pend io)"

lemma swift_read_one:
  assumes "swift_inv s"
  shows "read_outcome swift_inv swift_pend s n (swift_read cu s a n)"
proof -
  from assms obtain io where io: "sw_http_reader s = Some io" "http_inv io" by (auto simp: swift_inv_def split: option.splits)
  from read_one [OF io(2), of n a] io(1) show ?thesis
    by (auto simp: read_outcome_def swift_read_def wandio_read_def http_source_def swift_inv_def swift_pend_def)
qed

end

sublocale http_server \<subseteq> sw: reader "swift_read cu" swift_inv swift_pend any_size
  by (rule readerI) (rule swift_read_one)

lemma swift_read_all:
  assumes "read_all (http_read cu) a n io acc = Some (r, bs, io')" "sw_http_reader s = Some io"
  shows "read_all (swift_read cu) a n s acc = Some (r, bs, s\<lparr>sw_http_reader := Some io'\<rparr>)"
proof -
  have step: "swift_read cu s a n = do { (r, bs, io') \<leftarrow> http_read cu io a n; Some (r, bs, s\<lparr>sw_http_reader := Some io'\<rparr>) }"
    if "sw_http_reader s = Some io" for s io a n
    using that by (simp add: swift_read_def wandio_read_def http_source_def)
  have "\<forall>s. rd = http_read cu \<longrightarrow> sw_http_reader s = Some io \<longrightarrow>
      read_all (swift_read cu) a n s acc = Some (fst res, fst (snd res), s\<lparr>sw_http_reader := Some (snd (snd res))\<rparr>)"
    if "read_all rd a n io acc = Some res" for rd res
  proof (rule read_all.raw_induct [OF _ that, where P = "\<lambda>rd a n io acc res. \<forall>s. rd = http_read cu \<longrightarrow>
      sw_http_reader s = Some io \<longrightarrow> read_all (swift_read cu) a n s acc =
        Some (fst res, fst (snd res), s\<lparr>sw_http_reader := Some (snd (snd res))\<rparr>)"], intro allI impI, goal_cases)
    case (1 read_all' rd a n io acc res s)
    then obtain r bs io1 where one: "http_read cu io a n = Some (r, bs, io1)"
      and rest: "(if 0 < r then read_all' (http_read cu) a n io1 (acc @ bs) else Some (r, acc, io1)) = Some res"
      by (auto simp: bind_eq_Some_conv)
    have "swift_read cu s a n = Some (r, bs, s\<lparr>sw_http_reader := Some io1\<rparr>)" using one step [OF 1(4)] by simp
    note next_read = read_all.simps [of "swift_read cu" a n s acc, unfolded this]
    show ?case
    proof (cases "0 < r")
      case True
      with rest have "read_all' (http_read cu) a n io1 (acc @ bs) = Some res" by simp
      from 1(1) [OF this, rule_format, OF refl, of "s\<lparr>sw_http_reader := Some io1\<rparr>"] True next_read
      show ?thesis by simp
    next
      case False
      with rest next_read show ?thesis by auto
    qed
  qed
  from this [OF assms(1)] assms(2) show ?thesis by simp
qed

lemma swift_source_read: "wandio_read (swift_source cu) = swift_read cu"
  by (simp add: wandio_read_def swift_source_def fun_eq_iff)

text \<open>C19: with a token from wherever it comes, reading \<^verbatim>\<open>swift://c/o\<close> from a store that gives the object
  only to requests with that token in \<^verbatim>\<open>X-Auth-Token\<close>, keeps the contract of libcurl at the URL of the
  object and is on a steady network (stalls, errors of the multi interface and data in pieces, but no
  transfer that breaks off and no \<^verbatim>\<open>select(2)\<close> that fails: what is started again is asked for without
  the token, \<open>http_restart_drops_headers\<close>) gives exactly the object; opening comes back, failing only
  for want of memory or of the network.\<close>

theorem swift_reads_object:
  assumes "get_token getenv ce (swift_blank\<lparr>sw_container := c, sw_object := ob\<rparr>) g = Some (0, s, g1)"
    and "SLASH \<notin> set c" "kt_storage_url (sw_token s) = Some store" "kt_token (sw_token s) = Some token"
    and "http_server cu F (store @ ''/'' @ c @ ''/'' @ ob) view (\<lambda>hs. ''X-Auth-Token: '' @ token \<in> set hs) True"
    and "cg_ok g1" "\<not> v_known (view (cg_net g1))" "0 < n"
  shows "\<exists>res. swift_open getenv ce cu mem g (SWIFT_PFX @ c @ [SLASH] @ ob) = Some res \<and>
    (case res of
       Inl g' \<Rightarrow> cg_ok g' \<and>
         (mem \<and> (\<forall>h. cu_slist_append cu [] h \<noteq> None) \<longrightarrow> 0 < v_budget (view (cg_net g1)))
     | Inr r \<Rightarrow> \<exists>r'. read_all (wandio_read (swift_source cu)) a n r [] = Some (0, F, r'))"
proof -
  have tok: "sw_container s = c" "sw_object s = ob"
    by (rule get_token_complete [OF assms(1)], simp)+
  with assms(3) have store: "build_http_url s = Some (store @ ''/'' @ c @ ''/'' @ ob)" by (simp add: build_http_url_def)
  have parse: "parse_swifturl (SWIFT_PFX @ c @ [SLASH] @ ob) = Some (c, ob)" using swifturl_parts assms(2) by blast
  let ?hdr = "build_auth_token_hdr token"
  let ?acc = "\<lambda>hs. ''X-Auth-Token: '' @ token \<in> set hs"
  have acc: "?acc [?hdr]" by (simp add: build_auth_token_hdr_def SWIFT_AUTH_TOKEN_HDR_def)
  have waits: "\<not> select_fails_early cu view" by (rule http_server.steady_waits [OF assms(5) TrueI])
  from http_server.open_hdrs_ok [where accepts = ?acc, OF assms(5-7) acc, of mem] obtain res where
    res: "http_open_hdrs cu mem g1 (store @ ''/'' @ c @ ''/'' @ ob) [?hdr] = Some res"
      "case res of Inl g' \<Rightarrow> cg_ok g' \<and> (mem \<and> append_hdrs cu [] [?hdr] \<noteq> None \<longrightarrow> 0 < v_budget (view (cg_net g1)))
       | Inr io \<Rightarrow> http_server.http_inv cu F (store @ ''/'' @ c @ ''/'' @ ob) view ?acc True io \<and>
           http_server.pend F io = F \<and> http_tell io = 0 \<or>
           select_fails_early cu view \<and> 0 < v_budget (view (cg_net g1)) \<and> h_buf io = []" by blast
  have opened: "swift_open getenv ce cu mem g (SWIFT_PFX @ c @ [SLASH] @ ob) =
      Some (case res of Inl g \<Rightarrow> Inl g | Inr io \<Rightarrow> Inr (s\<lparr>sw_http_reader := Some io\<rparr>))"
    unfolding swift_open_def parse using assms(1,4) store res(1) by simp
  show ?thesis
  proof (cases res)
    case (Inl g')
    with opened res(2) show ?thesis by auto
  next
    case (Inr io)
    with res(2) waits http_server.read_everything [OF assms(5) _ assms(8), of io a "[]"] obtain io'
      where "read_all (http_read cu) a n io [] = Some (0, F, io')" by auto
    from swift_read_all [OF this, of "s\<lparr>sw_http_reader := Some io\<rparr>"] opened Inr
    show ?thesis by (simp add: swift_source_read)
  qed
qed

text \<open>A store that turns away requests without the header \<open>h\<close>, on a network where transfers stall and
  come in pieces and never break off.\<close>

definition guarded_perform :: "string \<Rightarrow> byte list \<Rightarrow> demo_net \<Rightarrow> demo_net curl_event" where
  "guarded_perform h F c =
     (if dn_at c \<noteq> None \<and> h \<notin> set (dn_hdrs c) then
        CURL_writes [52, 48, 49] (\<lambda>r. CURL_returns CURLM_OK 0
          (c\<lparr>dn_at := None, dn_notes := [CURLE_OK], dn_known := True\<rparr>))
      else case dn_plan c of
          Break # ps \<Rightarrow> demo_perform F (c\<lparr>dn_plan := Stall # ps\<rparr>)
        | _ \<Rightarrow> demo_perform F c)"

definition guarded_curl :: "string \<Rightarrow> byte list \<Rightarrow> demo_net curl" where
  "guarded_curl h F = (demo_curl F)\<lparr>cu_perform := guarded_perform h F\<rparr>"

lemma guarded_perform_ok:
  assumes "dn_at c = Some p" "h \<in> set (dn_hdrs c)" "dn_notes c = []" "p \<le> length F"
  shows "delivers (\<lambda>p' paused rc n c'. performed True (demo_view c) (length F) p p' paused rc n (demo_view c'))
    F 16384 (guarded_perform h F c) p False"
proof (cases "dn_plan c")
  case Nil
  with assms demo_offer_ok [of "demo_view c" p 16384 c F] show ?thesis
    by (simp add: guarded_perform_def demo_perform_def carried_def demo_view_def)
next
  case (Cons e ps)
  show ?thesis
  proof (cases e)
    case (Piece n)
    with Cons assms demo_offer_ok [of "demo_view c" p "min 16384 (Suc n)" "c\<lparr>dn_plan := ps\<rparr>" F] show ?thesis
      by (simp add: guarded_perform_def demo_perform_def carried_def demo_view_def)
  qed (use Cons assms in \<open>simp_all add: guarded_perform_def demo_perform_def performed_def carried_def demo_view_def CURLM_OK_def\<close>)
qed

interpretation guarded_http: http_server "guarded_curl h F" F url demo_view "\<lambda>hs. h \<in> set hs" True for h F url
proof (unfold_locales, goal_cases)
  case prems: (14 c p)
  then have "delivers (\<lambda>p' paused rc n c'. performed True (demo_view c) (length F) p p' paused rc n (demo_view c'))
    F 16384 (guarded_perform h F c) p False" by (intro guarded_perform_ok) (simp_all add: demo_view_def)
  then show ?case by (simp add: guarded_curl_def demo_curl_def)
qed (auto simp: guarded_curl_def demo_curl_def demo_view_def calm_refl CURLM_OK_def guarded_perform_def demo_perform_def
  carried_def split: list.splits hiccup.splits)

theorem swift_reads_object_witness:
  "\<exists>r r'. swift_open demo_env demo_keystone (guarded_curl ''X-Auth-Token: t'' demo_text) True (demo_start [])
      ''swift://c/o'' = Some (Inr r) \<and>
    read_all (wandio_read (swift_source (guarded_curl ''X-Auth-Token: t'' demo_text))) 0 2 r [] = Some (0, demo_text, r')"
proof -
  let ?cu = "guarded_curl ''X-Auth-Token: t'' demo_text"
  note srv = guarded_http.http_server_axioms [of "''X-Auth-Token: '' @ ''t''" demo_text "''http://s'' @ ''/'' @ ''c'' @ ''/'' @ ''o''"]
  have tk: "kt_storage_url (sw_token demo_swift_token) = Some ''http://s''" "kt_token (sw_token demo_swift_token) = Some ''t''"
    by (simp_all add: demo_swift_token_def)
  have side: "SLASH \<notin> set ''c''" "(0 :: nat) < 2" by simp_all
  note run = swift_reads_object [where mem = True and a = 0, OF demo_get_token [unfolded demo_swift_def, of "demo_start []"]
    side(1) tk srv demo_start_ok(1,2) side(2)]
  obtain res where res: "swift_open demo_env demo_keystone ?cu True (demo_start []) ''swift://c/o'' = Some res"
    "case res of
       Inl g' \<Rightarrow> cg_ok g' \<and> (True \<and> (\<forall>h. cu_slist_append ?cu [] h \<noteq> None) \<longrightarrow>
         0 < v_budget (demo_view (cg_net (demo_start []))))
     | Inr r \<Rightarrow> \<exists>r'. read_all (wandio_read (swift_source ?cu)) 0 2 r [] = Some (0, demo_text, r')"
    using run unfolding SWIFT_PFX_def append.simps by blast
  moreover have "\<forall>h. cu_slist_append ?cu [] h \<noteq> None" by (simp add: guarded_curl_def demo_curl_def)
  ultimately show ?thesis by (cases res) (simp_all add: demo_start_ok)
qed

section \<open>What is left behind\<close>

text \<open>Asking Keystone initialises libcurl and never cleans it up: the counter is one higher afterwards,
  whatever came of it.\<close>

theorem keystone_leaves_curl_up:
  assumes "keystone_authenticate getenv ce creds g = Some (r, token, g')"
  shows "cg_init_cnt g' = cg_init_cnt g + 1"
  using assms by (rule authenticate_cases) (auto dest: answer_cases)

end
