(* ===== verification/Qat.thy ===== *)
theory Qat
  imports Wandio_Io
begin

text \<open>
  \<^verbatim>\<open>lib/ior-qat.c\<close> and \<^verbatim>\<open>lib/iow-qat.c\<close>: compression by Intel QAT hardware through QATzip. The library
  is a parameter: a session and its calls, each of which takes an input and the room for its
  output and gives a code, how much of the input it took, and the output. Messages are left out.
\<close>

section \<open>QATzip\<close>

text \<open>The codes the modules tell apart; \<open>QZ_failed\<close> stands for the other negative ones, \<open>QZ_status\<close>
  for the positive ones.\<close>

datatype qz_ret = QZ_OK | QZ_BUF_ERROR | QZ_DATA_ERROR | QZ_failed | QZ_status

definition qz_negative :: "qz_ret \<Rightarrow> bool" where
  "qz_negative rc \<longleftrightarrow> rc = QZ_BUF_ERROR \<or> rc = QZ_DATA_ERROR \<or> rc = QZ_failed"

datatype qz_direction = QZ_DIR_COMPRESS | QZ_DIR_DECOMPRESS

record 'q qatzip =
  qz_init :: "qz_ret \<times> 'q"
  qz_setup :: "qz_direction \<Rightarrow> int \<Rightarrow> 'q \<Rightarrow> qz_ret \<times> 'q"
  qz_max :: "nat \<Rightarrow> nat"
  qz_compress :: "'q \<Rightarrow> byte list \<Rightarrow> nat \<Rightarrow> bool \<Rightarrow> qz_ret \<times> nat \<times> byte list \<times> 'q"
  qz_decompress :: "'q \<Rightarrow> byte list \<Rightarrow> nat \<Rightarrow> qz_ret \<times> nat \<times> byte list \<times> 'q"
  qz_teardown :: "'q \<Rightarrow> 'q"

definition QAT_BUFFER :: nat where "QAT_BUFFER = WANDIO_BUFFER_SIZE * 10"

definition QAT_LOW :: nat where "QAT_LOW = 256 * 1024"

section \<open>The reader\<close>

text \<open>\<open>qr_in\<close> is \<open>inbuff\<close> below \<open>inoffset\<close>.\<close>

record ('p, 'q) qat_t =
  qr_sess :: 'q
  qr_parent :: 'p
  qr_in :: "byte list"
  qr_indecomp :: nat
  qr_err :: err_t

definition qat_open :: "'q qatzip \<Rightarrow> 'p \<Rightarrow> ('p, 'q) qat_t option" where
  "qat_open qz parent =
     (case qz_init qz of (x, q) \<Rightarrow>
        if x \<noteq> QZ_OK then None
        else case qz_setup qz QZ_DIR_DECOMPRESS 1 q of (x, q) \<Rightarrow>
          if x \<noteq> QZ_OK then None
          else Some \<lparr>qr_sess = q, qr_parent = parent, qr_in = [], qr_indecomp = 0, qr_err = ERR_OK\<rparr>)"

abbreviation qr_unread :: "('p, 'q) qat_t \<Rightarrow> byte list" where
  "qr_unread s \<equiv> drop (qr_indecomp s) (qr_in s)"

definition qat_compact :: "('p, 'q) qat_t \<Rightarrow> ('p, 'q) qat_t" where
  "qat_compact s =
     (let unread = length (qr_in s) - qr_indecomp s
      in if unread < QAT_LOW then
           if unread = 0 then s\<lparr>qr_in := [], qr_indecomp := 0\<rparr>
           else if QAT_BUFFER - length (qr_in s) < QAT_LOW then s\<lparr>qr_in := qr_unread s, qr_indecomp := 0\<rparr>
           else s
         else s)"

definition qat_fill_pass :: "'p read_fn \<Rightarrow> ('p, 'q) qat_t \<Rightarrow> ((int \<times> ('p, 'q) qat_t) + ('p, 'q) qat_t) option" where
  "qat_fill_pass prd s = do {
     (r, bs, p) \<leftarrow> prd (qr_parent s) (length (qr_in s)) (QAT_BUFFER - length (qr_in s));
     let bytes_read = c_int r;
     let s = s\<lparr>qr_parent := p\<rparr>;
     Some
      (if bytes_read < 0 then Inl (-1, s\<lparr>qr_err := ERR_ERROR\<rparr>)
       else if bytes_read = 0 \<and> length (qr_in s) = qr_indecomp s then Inl (0, s\<lparr>qr_err := ERR_EOF\<rparr>)
       else let s = s\<lparr>qr_in := qr_in s @ bs\<rparr>
            in if bytes_read = 0 \<or> QAT_BUFFER \<le> length (qr_in s)
               then Inl (int (length (qr_in s)) - int (qr_indecomp s), s)
               else Inr s) }"

definition read_from_parent :: "'p read_fn \<Rightarrow> ('p, 'q) qat_t \<Rightarrow> (int \<times> ('p, 'q) qat_t) option" where
  "read_from_parent prd s = c_loop (qat_fill_pass prd) (qat_compact s)"

text \<open>
  One round of \<^verbatim>\<open>qat_read\<close>, with what it has stored at \<^verbatim>\<open>buffer\<close> so far. \<^verbatim>\<open>dst_len\<close> is the whole length
  of the request in every round; output that does not fit behind \<open>out\<close> is written past the
  caller's buffer.
\<close>

definition qat_pass ::
  "'p read_fn \<Rightarrow> 'q qatzip \<Rightarrow> nat \<Rightarrow> byte list \<times> ('p, 'q) qat_t \<Rightarrow>
    ((int \<times> byte list \<times> ('p, 'q) qat_t) + (byte list \<times> ('p, 'q) qat_t)) option" where
  "qat_pass prd qz len = (\<lambda>(out, s).
     if qr_err s \<noteq> ERR_OK \<or> len \<le> length out then Some (Inl (int (length out), out, s))
     else do {
       (r, s) \<leftarrow> read_from_parent prd s;
       let rc = c_int r;
       if rc \<le> 0 then Some (Inl (if out \<noteq> [] then int (length out) else rc, out, s))
       else case qz_decompress qz (qr_sess s) (qr_unread s) (c_uint (int len)) of (code, n, got, q) \<Rightarrow>
         let s = s\<lparr>qr_sess := q\<rparr>
         in if code \<noteq> QZ_OK \<and> code \<noteq> QZ_BUF_ERROR \<and> code \<noteq> QZ_DATA_ERROR
            then Some (Inl (-1, out, s\<lparr>qr_err := ERR_ERROR\<rparr>))
            else do {
              c_assert (length out + length got \<le> len);
              Some (Inr (out @ got, s\<lparr>qr_err := ERR_OK, qr_indecomp := qr_indecomp s + n\<rparr>)) } })"

definition qat_read :: "'p read_fn \<Rightarrow> 'q qatzip \<Rightarrow> ('p, 'q) qat_t read_fn" where
  "qat_read prd qz s buffer len =
     (case qr_err s of
        ERR_EOF \<Rightarrow> Some (0, [], s)
      | ERR_ERROR \<Rightarrow> Some (-1, [], s)
      | ERR_OK \<Rightarrow> c_loop (qat_pass prd qz len) ([], s))"

definition qat_close :: "'p io_source_t \<Rightarrow> 'q qatzip \<Rightarrow> ('p, 'q) qat_t \<Rightarrow> ('p, 'q) qat_t" where
  "qat_close psrc qz s = s\<lparr>qr_sess := qz_teardown qz (qr_sess s), qr_parent := src_close psrc (qr_parent s)\<rparr>"

definition qat_source :: "'p io_source_t \<Rightarrow> 'q qatzip \<Rightarrow> ('p, 'q) qat_t io_source_t" where
  "qat_source psrc qz = \<lparr>src_name = ''qatr'', src_read = qat_read (wandio_read psrc) qz, src_peek = None,
     src_tell = None, src_seek = None, src_close = qat_close psrc qz\<rparr>"

section \<open>The writer\<close>

text \<open>\<open>qw_out\<close> is \<open>outbuff\<close> below \<open>outused\<close>.\<close>

record ('w, 'q) qatw_t =
  qw_sess :: 'q
  qw_child :: 'w
  qw_out :: "byte list"
  qw_err :: err_t

definition qat_wopen :: "'q qatzip \<Rightarrow> 'w option \<Rightarrow> int \<Rightarrow> ('w, 'q) qatw_t option" where
  "qat_wopen qz child compress_level =
     (case child of
        None \<Rightarrow> None
      | Some c \<Rightarrow>
          (case qz_init qz of (x, q) \<Rightarrow>
             if x \<noteq> QZ_OK then None
             else case qz_setup qz QZ_DIR_COMPRESS compress_level q of (x, q) \<Rightarrow>
               if x \<noteq> QZ_OK then None
               else Some \<lparr>qw_sess = q, qw_child = c, qw_out = [], qw_err = ERR_OK\<rparr>))"

text \<open>The buffer is written when the longest possible output does not fit; \<open>None\<close> is an error.\<close>

definition qat_make_room ::
  "'w iow_source_t \<Rightarrow> 'q qatzip \<Rightarrow> nat \<Rightarrow> ('w, 'q) qatw_t \<Rightarrow> (bool \<times> ('w, 'q) qatw_t) option" where
  "qat_make_room csrc qz src_len w =
     (if QAT_BUFFER - length (qw_out w) < qz_max qz src_len then do {
        (r, c) \<leftarrow> wandio_wwrite csrc (qw_child w) (qw_out w);
        let w = w\<lparr>qw_child := c\<rparr>;
        Some (if c_int r \<le> 0 then (False, w\<lparr>qw_err := ERR_ERROR\<rparr>) else (True, w\<lparr>qw_out := []\<rparr>)) }
      else Some (True, w))"

text \<open>One round of \<^verbatim>\<open>_qat_wwrite\<close>. Every round gives QATzip the buffer from its start and its full length.\<close>

definition qat_wpass ::
  "'w iow_source_t \<Rightarrow> 'q qatzip \<Rightarrow> byte list \<Rightarrow> bool \<Rightarrow> nat \<times> ('w, 'q) qatw_t \<Rightarrow>
    ((int \<times> ('w, 'q) qatw_t) + (nat \<times> ('w, 'q) qatw_t)) option" where
  "qat_wpass csrc qz buffer is_last = (\<lambda>(consumed, w).
     if qw_err w \<noteq> ERR_OK \<or> length buffer \<le> consumed
     then Some (Inl (int (length buffer) - int consumed, w))
     else do {
       let src_len = c_uint (int (length buffer));
       (room_made, w) \<leftarrow> qat_make_room csrc qz src_len w;
       if \<not> room_made then Some (Inl (-1, w))
       else case qz_compress qz (qw_sess w) (take src_len buffer) (QAT_BUFFER - length (qw_out w)) is_last of
         (rc, n, got, q) \<Rightarrow>
           let w = w\<lparr>qw_sess := q\<rparr>
           in Some (if qz_negative rc then Inl (-1, w\<lparr>qw_err := ERR_ERROR\<rparr>)
                    else Inr (consumed + n, w\<lparr>qw_err := ERR_OK, qw_out := qw_out w @ got\<rparr>)) })"

definition qat_wwrite_last ::
  "'w iow_source_t \<Rightarrow> 'q qatzip \<Rightarrow> ('w, 'q) qatw_t \<Rightarrow> byte list \<Rightarrow> bool \<Rightarrow> (int \<times> ('w, 'q) qatw_t) option" where
  "qat_wwrite_last csrc qz w buffer is_last = c_loop (qat_wpass csrc qz buffer is_last) (0, w)"

definition qat_wwrite :: "'w iow_source_t \<Rightarrow> 'q qatzip \<Rightarrow> ('w, 'q) qatw_t write_fn" where
  "qat_wwrite csrc qz w buffer = qat_wwrite_last csrc qz w buffer False"

definition qat_wflush :: "'w iow_source_t \<Rightarrow> 'q qatzip \<Rightarrow> ('w, 'q) qatw_t flush_fn" where
  "qat_wflush csrc qz w = do {
     (_, w) \<leftarrow> qat_wwrite_last csrc qz w [] True;
     if qw_err w = ERR_ERROR then Some (-1, w)
     else do {
       (r, c) \<leftarrow> wandio_wwrite csrc (qw_child w) (qw_out w);
       let w = w\<lparr>qw_child := c\<rparr>;
       if c_int r < 0 then Some (c_int r, w\<lparr>qw_err := ERR_ERROR\<rparr>)
       else do {
         (rf, c) \<leftarrow> wsrc_flush csrc (qw_child w);
         let w = w\<lparr>qw_child := c\<rparr>;
         Some (if rf < 0 then (rf, w\<lparr>qw_err := ERR_ERROR\<rparr>) else (1, w\<lparr>qw_out := []\<rparr>)) } } }"

definition qat_wclose :: "'w iow_source_t \<Rightarrow> 'q qatzip \<Rightarrow> ('w, 'q) qatw_t \<Rightarrow> ('w, 'q) qatw_t option" where
  "qat_wclose csrc qz w = do {
     (_, w) \<leftarrow> qat_wflush csrc qz w;
     let w = w\<lparr>qw_sess := qz_teardown qz (qw_sess w)\<rparr>;
     c \<leftarrow> wandio_wdestroy csrc (qw_child w);
     Some (w\<lparr>qw_child := c\<rparr>) }"

definition qat_wsource :: "'w iow_source_t \<Rightarrow> 'q qatzip \<Rightarrow> ('w, 'q) qatw_t iow_source_t" where
  "qat_wsource csrc qz = \<lparr>wsrc_name = ''qatw'', wsrc_write = qat_wwrite csrc qz, wsrc_flush = qat_wflush csrc qz,
     wsrc_close = qat_wclose csrc qz\<rparr>"

end
