(* ===== verification/Qat_Reading.thy ===== *)
theory Qat_Reading
  imports Qat Stdio_Reader
begin

text \<open>
  The QAT reader over any parent that keeps the reader contract: it gives the text of a compressed
  file that fits its buffer, when the requests are whole numbers of compression blocks. The laws of
  QATzip are a predicate on the library; the invariant says that what is in the buffer and in the
  parent is a row of compressed blocks.
\<close>

section \<open>What is relied on\<close>

text \<open>QATzip compresses a file in blocks, each of which it can only decompress as a whole:
  \<open>blocks q inp\<close> are the texts of the blocks \<open>inp\<close> consists of. A call takes whole blocks from the
  front; it stops before one that does not fit in what is left of the room, and may stop when the
  room is full. With all blocks taken it has taken all of the input.\<close>

definition qz_unpacks :: "'q qatzip \<Rightarrow> ('q \<Rightarrow> byte list \<Rightarrow> byte list list option) \<Rightarrow> bool" where
  "qz_unpacks qz blocks \<longleftrightarrow>
     (\<forall>q inp room bss code n got q'. blocks q inp = Some bss \<and> inp \<noteq> [] \<and> 0 < room \<and>
        qz_decompress qz q inp room = (code, n, got, q') \<longrightarrow>
          (code = QZ_OK \<or> code = QZ_BUF_ERROR) \<and> n \<le> length inp \<and>
          (\<exists>k\<le>length bss. got = concat (take k bss) \<and> length got \<le> room \<and>
             blocks q' (drop n inp) = Some (drop k bss) \<and>
             (k = length bss \<longrightarrow> drop n inp = []) \<and>
             (k < length bss \<longrightarrow> length got = room \<or> room < length got + length (bss ! k)))) \<and>
     (\<forall>q bss. blocks q [] = Some bss \<longrightarrow> bss = [])"

lemma qz_unpacksD:
  assumes "qz_unpacks qz blocks" "qz_decompress qz q inp room = (code, n, got, q')"
    and "blocks q inp = Some bss" "inp \<noteq> []" "0 < room"
  obtains k where "code = QZ_OK \<or> code = QZ_BUF_ERROR" "n \<le> length inp" "k \<le> length bss"
    "got = concat (take k bss)" "length got \<le> room" "blocks q' (drop n inp) = Some (drop k bss)"
    "k = length bss \<Longrightarrow> drop n inp = []"
    "k < length bss \<Longrightarrow> length got = room \<or> room < length got + length (bss ! k)"
  using assms unfolding qz_unpacks_def by blast

lemma qz_unpacks_nothing: "qz_unpacks qz blocks \<Longrightarrow> blocks q [] = Some bss \<Longrightarrow> bss = []"
  by (simp add: qz_unpacks_def)

text \<open>All blocks but the last have \<open>B\<close> bytes of text (the hardware buffer size, 64 KiB unless it is
  set otherwise), and the last has no more.\<close>

fun even_blocks :: "nat \<Rightarrow> byte list list \<Rightarrow> bool" where
  "even_blocks B [] = True"
| "even_blocks B [b] = (length b \<le> B)"
| "even_blocks B (b # c # bss) = (length b = B \<and> even_blocks B (c # bss))"

lemma even_blocks_drop: "even_blocks B bss \<Longrightarrow> even_blocks B (drop k bss)"
proof (induction B bss arbitrary: k rule: even_blocks.induct)
  case (3 B b c bss)
  then show ?case by (cases k) auto
qed (auto simp: drop_Cons' split: nat.splits)

lemma even_blocks_take:
  "even_blocks B bss \<Longrightarrow> k < length bss \<Longrightarrow>
    length (concat (take k bss)) = k * B \<and> length (bss ! k) \<le> B"
proof (induction B bss arbitrary: k rule: even_blocks.induct)
  case (3 B b c bss)
  then show ?case by (cases k; cases bss) (fastforce split: nat.splits)+
qed auto

text \<open>Room for a whole number of blocks is filled to the last byte, or everything is taken.\<close>

lemma even_blocks_fill:
  assumes "even_blocks B bss" "B dvd room" "k \<le> length bss" "length (concat (take k bss)) \<le> room"
    and "k < length bss \<Longrightarrow> length (concat (take k bss)) = room \<or>
      room < length (concat (take k bss)) + length (bss ! k)"
  shows "k = length bss \<or> length (concat (take k bss)) = room"
proof (cases "k < length bss")
  case True
  from even_blocks_take [OF assms(1) True] have k: "length (concat (take k bss)) = k * B" "length (bss ! k) \<le> B"
    by simp_all
  from assms(2) obtain j where j: "room = j * B" by (metis dvdE mult.commute)
  have "room < k * B + B \<or> room = k * B" using assms(5) [OF True] k by linarith
  then have "j * B < Suc k * B \<or> j * B = k * B" by (simp add: j add.commute)
  moreover have "k * B \<le> j * B" using assms(4) k(1) j by simp
  ultimately have "j * B = k * B" by (auto simp del: mult_Suc simp: less_Suc_eq_le)
  with k(1) j show ?thesis by simp
qed (use assms(3) in simp)

section \<open>The buffer\<close>

definition qat_left :: "('p \<Rightarrow> byte list) \<Rightarrow> ('p, 'q) qat_t \<Rightarrow> byte list" where
  "qat_left ppend s = qr_unread s @ ppend (qr_parent s)"

definition qat_core :: "('p \<Rightarrow> bool) \<Rightarrow> ('p \<Rightarrow> byte list) \<Rightarrow> ('p, 'q) qat_t \<Rightarrow> bool" where
  "qat_core pinv ppend s \<longleftrightarrow> pinv (qr_parent s) \<and> qr_indecomp s \<le> length (qr_in s) \<and>
     length (qr_in s) + length (ppend (qr_parent s)) \<le> QAT_BUFFER"

text \<open>Filling changes neither the session nor the latch while it succeeds; over a parent that never
  fails (\<open>calm\<close>) it does succeed.\<close>

definition qat_same :: "('p, 'q) qat_t \<Rightarrow> ('p, 'q) qat_t \<Rightarrow> bool" where
  "qat_same s s' \<longleftrightarrow> qr_sess s' = qr_sess s \<and> qr_err s' = qr_err s"

lemma qat_compact_ok:
  assumes "qat_core pinv ppend s"
  shows "qat_core pinv ppend (qat_compact s)" "qat_same s (qat_compact s)"
    "qat_left ppend (qat_compact s) = qat_left ppend s" "qr_parent (qat_compact s) = qr_parent s"
    "qr_unread (qat_compact s) = qr_unread s"
  using assms by (auto simp: qat_compact_def qat_core_def qat_same_def qat_left_def Let_def)

definition qat_filled ::
  "bool \<Rightarrow> ('p \<Rightarrow> bool) \<Rightarrow> ('p \<Rightarrow> byte list) \<Rightarrow> ('p, 'q) qat_t \<Rightarrow> int \<times> ('p, 'q) qat_t \<Rightarrow> bool" where
  "qat_filled calm pinv ppend s = (\<lambda>(r, s').
     qat_core pinv ppend s' \<and> qr_sess s' = qr_sess s \<and> qat_left ppend s' = qat_left ppend s \<and>
     (r = int (length (qr_unread s')) \<and> qr_err s' = qr_err s \<and> qr_unread s' = qat_left ppend s \<and>
        ppend (qr_parent s') = [] \<and> qr_unread s' \<noteq> [] \<or>
      r = 0 \<and> qr_err s' = ERR_EOF \<and> qat_left ppend s = [] \<or>
      r = -1 \<and> qr_err s' = ERR_ERROR \<and> \<not> calm))"

locale qat_reading = par: reader prd pinv ppend served
  for prd :: "'p read_fn" and pinv ppend served +
  fixes qz :: "'q qatzip" and blocks :: "'q \<Rightarrow> byte list \<Rightarrow> byte list list option" and B :: nat
  assumes served_part: "n \<le> QAT_BUFFER \<Longrightarrow> served n"
    and unpacks: "qz_unpacks qz blocks" and block_size: "0 < B"
begin

abbreviation calm :: bool where
  "calm \<equiv> never_fails prd pinv served"

lemma qat_fill_pass_ok:
  assumes "qat_core pinv ppend s"
  shows "(\<exists>res. qat_fill_pass prd s = Some (Inl res) \<and> qat_filled calm pinv ppend s res) \<or>
    (\<exists>s'. qat_fill_pass prd s = Some (Inr s') \<and> qat_core pinv ppend s' \<and> qat_same s s' \<and>
       qat_left ppend s' = qat_left ppend s \<and> length (ppend (qr_parent s')) < length (ppend (qr_parent s)))"
proof -
  from assms have p: "pinv (qr_parent s)" "qr_indecomp s \<le> length (qr_in s)"
    "length (qr_in s) + length (ppend (qr_parent s)) \<le> QAT_BUFFER" by (simp_all add: qat_core_def)
  have served: "served (QAT_BUFFER - length (qr_in s))" by (intro served_part) simp
  with p(1) show ?thesis
  proof (cases rule: par.rd_cases [where a = "length (qr_in s)"])
    case (data bs p')
    have "length bs < 2 ^ 31" using data(3) by (simp add: QAT_BUFFER_def WANDIO_BUFFER_SIZE_def)
    then have r: "c_int (int (length bs)) = int (length bs)" by (intro c_int_id_nat) simp
    let ?s = "s\<lparr>qr_parent := p', qr_in := qr_in s @ bs\<rparr>"
    have facts: "qat_core pinv ppend ?s" "qat_left ppend ?s = qat_left ppend s" "qat_same s ?s"
      using p data(4,5) by (simp_all add: qat_core_def qat_left_def qat_same_def)
    show ?thesis
    proof (cases "QAT_BUFFER \<le> length (qr_in ?s)")
      case True
      then have "QAT_BUFFER \<le> length (qr_in s) + length bs" by simp
      moreover have "length (ppend (qr_parent s)) = length bs + length (ppend p')" using data(4) by simp
      ultimately have "length (ppend p') = 0" using p(3) by linarith
      then have none: "ppend p' = []" by simp
      have more: "qr_indecomp s < length (qr_in s) + length bs" using p(2) data(2) by (cases bs) simp_all
      have "qat_fill_pass prd s = Some (Inl (int (length (qr_in ?s)) - int (qr_indecomp s), ?s))"
        using data(1,2) r True by (simp add: qat_fill_pass_def)
      moreover have "qat_filled calm pinv ppend s (int (length (qr_in ?s)) - int (qr_indecomp s), ?s)"
        using facts none p(2) data(2) more by (auto simp: qat_filled_def qat_same_def qat_left_def)
      ultimately show ?thesis by blast
    next
      case False
      have "qat_fill_pass prd s = Some (Inr ?s)" using data(1,2) r False by (simp add: qat_fill_pass_def)
      moreover have "length (ppend p') < length (ppend (qr_parent s))" using data(2,4) by simp
      ultimately show ?thesis using facts by auto
    qed
  next
    case (eof p')
    have r: "c_int 0 = 0" by (simp add: c_int_def)
    have none: "ppend (qr_parent s) = []" using eof(2) p(3) by (cases "ppend (qr_parent s)") auto
    let ?s = "s\<lparr>qr_parent := p'\<rparr>"
    have facts: "qat_core pinv ppend ?s" "qat_left ppend ?s = qat_left ppend s" "ppend p' = []"
      using p eof(3,4) none by (simp_all add: qat_core_def qat_left_def)
    show ?thesis
    proof (cases "length (qr_in s) = qr_indecomp s")
      case True
      have "qat_fill_pass prd s = Some (Inl (0, ?s\<lparr>qr_err := ERR_EOF\<rparr>))"
        using eof(1) r True by (simp add: qat_fill_pass_def)
      moreover have "qat_filled calm pinv ppend s (0, ?s\<lparr>qr_err := ERR_EOF\<rparr>)"
        using facts True none by (auto simp: qat_filled_def qat_core_def qat_left_def)
      ultimately show ?thesis by blast
    next
      case False
      have "qat_fill_pass prd s = Some (Inl (int (length (qr_in s)) - int (qr_indecomp s), ?s))"
        using eof(1) r False by (simp add: qat_fill_pass_def)
      moreover have "qat_filled calm pinv ppend s (int (length (qr_in s)) - int (qr_indecomp s), ?s)"
        using facts False none p(2) by (auto simp: qat_filled_def qat_left_def)
      ultimately show ?thesis by blast
    qed
  next
    case (err r p')
    have neg: "c_int r < 0" using err(2,3) c_int_id [of r] by linarith
    have wild: "\<not> calm" using p(1) served err(1,2) unfolding never_fails_def by fastforce
    let ?s = "s\<lparr>qr_parent := p', qr_err := ERR_ERROR\<rparr>"
    have "qat_fill_pass prd s = Some (Inl (-1, ?s))" using err(1) neg by (simp add: qat_fill_pass_def)
    moreover have "qat_filled calm pinv ppend s (-1, ?s)"
      using p err(4,5) wild by (auto simp: qat_filled_def qat_core_def qat_left_def)
    ultimately show ?thesis by blast
  qed
qed

lemma qat_filled_cong:
  "qat_filled calm pinv ppend u res \<Longrightarrow> qat_same s u \<Longrightarrow> qat_left ppend u = qat_left ppend s \<Longrightarrow> qat_filled calm pinv ppend s res"
  by (auto simp: qat_filled_def qat_same_def)

lemma read_from_parent_ok:
  assumes "qat_core pinv ppend s"
  shows "\<exists>res. read_from_parent prd s = Some res \<and> qat_filled calm pinv ppend s res"
  unfolding read_from_parent_def
proof (rule c_loop_returns [where m = "\<lambda>u. length (ppend (qr_parent u))" and
      I = "\<lambda>u. qat_core pinv ppend u \<and> qat_same s u \<and> qat_left ppend u = qat_left ppend s"])
  show "qat_core pinv ppend (qat_compact s) \<and> qat_same s (qat_compact s) \<and>
      qat_left ppend (qat_compact s) = qat_left ppend s" using qat_compact_ok [OF assms] by simp
next
  fix u assume u: "qat_core pinv ppend u \<and> qat_same s u \<and> qat_left ppend u = qat_left ppend s"
  from qat_fill_pass_ok [OF conjunct1 [OF u]] show "(\<exists>r. qat_fill_pass prd u = Some (Inl r) \<and> qat_filled calm pinv ppend s r) \<or>
      (\<exists>u'. qat_fill_pass prd u = Some (Inr u') \<and> (qat_core pinv ppend u' \<and> qat_same s u' \<and> qat_left ppend u' = qat_left ppend s) \<and>
        length (ppend (qr_parent u')) < length (ppend (qr_parent u)))"
  proof
    assume "\<exists>res. qat_fill_pass prd u = Some (Inl res) \<and> qat_filled calm pinv ppend u res"
    with u qat_filled_cong show ?thesis by blast
  next
    assume "\<exists>u'. qat_fill_pass prd u = Some (Inr u') \<and> qat_core pinv ppend u' \<and> qat_same u u' \<and>
       qat_left ppend u' = qat_left ppend u \<and> length (ppend (qr_parent u')) < length (ppend (qr_parent u))"
    with u show ?thesis by (auto simp: qat_same_def)
  qed
qed

section \<open>Reading\<close>

definition qat_pending :: "('p, 'q) qat_t \<Rightarrow> byte list" where
  "qat_pending s = (case blocks (qr_sess s) (qat_left ppend s) of None \<Rightarrow> [] | Some bss \<Rightarrow> concat bss)"

definition qat_inv :: "('p, 'q) qat_t \<Rightarrow> bool" where
  "qat_inv s \<longleftrightarrow> qat_core pinv ppend s \<and>
     (\<exists>bss. blocks (qr_sess s) (qat_left ppend s) = Some bss \<and> even_blocks B bss) \<and>
     (qr_err s = ERR_EOF \<longrightarrow> qat_left ppend s = []) \<and> (qr_err s = ERR_ERROR \<longrightarrow> \<not> calm)"

text \<open>Requests for whole numbers of blocks.\<close>

definition whole_blocks :: "nat \<Rightarrow> bool" where
  "whole_blocks n \<longleftrightarrow> B dvd n \<and> n < 2 ^ 31"

text \<open>The contract of a call, with no error over a parent that never fails.\<close>

definition qat_outcome :: "('p, 'q) qat_t \<Rightarrow> nat \<Rightarrow> (int \<times> byte list \<times> ('p, 'q) qat_t) option \<Rightarrow> bool" where
  "qat_outcome s len res \<longleftrightarrow> read_outcome qat_inv qat_pending s len res \<and>
     (calm \<longrightarrow> (\<forall>r bs s'. res = Some (r, bs, s') \<longrightarrow> 0 \<le> r))"

lemma outcome_data:
  "res = Some (r, bs, s') \<Longrightarrow> r = int (length bs) \<Longrightarrow> length bs \<le> n \<Longrightarrow>
    (bs = [] \<Longrightarrow> n = 0 \<or> qat_pending s = []) \<Longrightarrow> qat_pending s = bs @ qat_pending s' \<Longrightarrow> qat_inv s' \<Longrightarrow>
    qat_outcome s n res"
  unfolding qat_outcome_def by (intro conjI read_outcome_data) auto

lemma outcome_err:
  "res = Some (-1, [], s') \<Longrightarrow> qat_pending s' = qat_pending s \<Longrightarrow> qat_inv s' \<Longrightarrow> \<not> calm \<Longrightarrow> qat_outcome s n res"
  unfolding qat_outcome_def by (intro conjI read_outcome_err) auto

lemma qat_text_same:
  "qr_sess s' = qr_sess s \<Longrightarrow> qat_left ppend s' = qat_left ppend s \<Longrightarrow> qat_pending s' = qat_pending s"
  by (simp add: qat_pending_def)

lemma qat_nothing_left:
  assumes "qat_inv s" "qat_left ppend s = []"
  shows "qat_pending s = []"
proof -
  from assms obtain bss where bss: "blocks (qr_sess s) [] = Some bss" by (auto simp: qat_inv_def)
  with qz_unpacks_nothing [OF unpacks bss] assms(2) show ?thesis by (simp add: qat_pending_def)
qed

text \<open>One call of QATzip on what is left fills the request or takes everything.\<close>

lemma qat_decompressed:
  assumes "qz_decompress qz q inp len = (code, n, got, q')" "blocks q inp = Some bss" "even_blocks B bss"
    and "inp \<noteq> []" "0 < len" "B dvd len"
  obtains bss' where "code = QZ_OK \<or> code = QZ_BUF_ERROR" "n \<le> length inp" "length got \<le> len"
    "blocks q' (drop n inp) = Some bss'" "even_blocks B bss'" "concat bss = got @ concat bss'"
    "length got < len \<Longrightarrow> drop n inp = []"
proof -
  obtain k where k: "code = QZ_OK \<or> code = QZ_BUF_ERROR" "n \<le> length inp" "k \<le> length bss"
    "got = concat (take k bss)" "length got \<le> len" "blocks q' (drop n inp) = Some (drop k bss)"
    "k = length bss \<Longrightarrow> drop n inp = []"
    "k < length bss \<Longrightarrow> length got = len \<or> len < length got + length (bss ! k)"
    by (rule qz_unpacksD [OF unpacks assms(1,2,4,5)]) blast
  have "k = length bss \<or> length got = len"
    using even_blocks_fill [OF assms(3,6) k(3)] k(4,5,8) by blast
  then have "drop n inp = []" if "length got < len" using that k(7) by auto
  moreover have "concat bss = got @ concat (drop k bss)"
    unfolding k(4) concat_append [symmetric] append_take_drop_id ..
  ultimately show thesis using that [OF k(1,2,5,6) even_blocks_drop [OF assms(3)]] by blast
qed

text \<open>One round: the parent ends or fails, or all that is left is decompressed.\<close>

lemma qat_pass_round:
  assumes "qat_inv s" "qr_err s = ERR_OK" "length out < len" "whole_blocks len"
    and fits: "out \<noteq> [] \<Longrightarrow> qat_left ppend s = []"
  shows "(\<exists>r s'. qat_pass prd qz len (out, s) = Some (Inl (if out \<noteq> [] then int (length out) else r, out, s')) \<and>
      (r = 0 \<and> qat_pending s = [] \<or> r = -1 \<and> \<not> calm) \<and> qat_inv s' \<and> qat_pending s' = qat_pending s) \<or>
    (\<exists>got s'. out = [] \<and> qat_left ppend s \<noteq> [] \<and> qat_pass prd qz len (out, s) = Some (Inr (got, s')) \<and> qat_inv s' \<and> qr_err s' = ERR_OK \<and>
      length got \<le> len \<and> qat_pending s = got @ qat_pending s' \<and> (length got < len \<longrightarrow> qat_left ppend s' = []))"
proof -
  from assms(1) have core: "qat_core pinv ppend s" by (simp add: qat_inv_def)
  from read_from_parent_ok [OF this] obtain r s1 where
    fill: "read_from_parent prd s = Some (r, s1)" "qat_filled calm pinv ppend s (r, s1)" by auto
  note f = fill(2) [unfolded qat_filled_def prod.case]
  have len0: "(len \<le> length out) = False" using assms(3) by simp
  from assms(4) have len: "len < 2 ^ 31" "B dvd len" by (simp_all add: whole_blocks_def)
  consider (got) "r = int (length (qr_unread s1))" "qr_err s1 = qr_err s" "qr_unread s1 = qat_left ppend s"
      "ppend (qr_parent s1) = []" "qr_unread s1 \<noteq> []"
    | (stop) "r = 0 \<and> qr_err s1 = ERR_EOF \<and> qat_left ppend s = [] \<or> r = -1 \<and> qr_err s1 = ERR_ERROR \<and> \<not> calm"
    using f by blast
  then show ?thesis
  proof cases
    case stop
    then have r: "c_int r = r" "r \<le> 0" by (auto simp: c_int_def)
    have "qat_inv s1" using f assms(1) stop by (auto simp: qat_inv_def)
    moreover have "qat_pending s1 = qat_pending s" using f by (intro qat_text_same) simp_all
    moreover have "qat_pass prd qz len (out, s) = Some (Inl (if out \<noteq> [] then int (length out) else r, out, s1))"
      using fill(1) r assms(2) len0 by (simp add: qat_pass_def)
    moreover have "r = 0 \<and> qat_pending s = [] \<or> r = -1 \<and> \<not> calm"
      using stop qat_nothing_left [OF assms(1)] by auto
    ultimately show ?thesis by blast
  next
    case got
    then have out: "out = []" using fits by auto
    have small: "length (qr_unread s1) \<le> QAT_BUFFER" using f unfolding qat_core_def length_drop by linarith
    have "length (qr_unread s1) < 2 ^ 31" by (rule le_less_trans [OF small]) (simp add: QAT_BUFFER_def WANDIO_BUFFER_SIZE_def)
    then have r: "c_int r = r" unfolding got(1) by (rule c_int_id_nat)
    have pos: "0 < r" unfolding got(1) of_nat_0_less_iff length_greater_0_conv by (rule got(5))
    have room: "c_uint (int len) = len" "0 < len" using assms(3) len(1) by (auto intro: c_uint_id)
    from assms(1) obtain bss where t: "blocks (qr_sess s1) (qr_unread s1) = Some bss" "even_blocks B bss"
      "qat_pending s = concat bss"
      using f got(3) by (auto simp: qat_inv_def qat_pending_def)
    obtain code n bs q where run: "qz_decompress qz (qr_sess s1) (qr_unread s1) len = (code, n, bs, q)"
      by (metis prod_cases4)
    obtain bss' where law: "code = QZ_OK \<or> code = QZ_BUF_ERROR" "n \<le> length (qr_unread s1)" "length bs \<le> len"
      "blocks q (drop n (qr_unread s1)) = Some bss'" "even_blocks B bss'" "concat bss = bs @ concat bss'"
      "length bs < len \<Longrightarrow> drop n (qr_unread s1) = []"
      using qat_decompressed [OF run t(1,2) got(5) room(2) len(2)] by blast
    let ?s = "s1\<lparr>qr_sess := q, qr_err := ERR_OK, qr_indecomp := qr_indecomp s1 + n\<rparr>"
    have left: "qat_left ppend ?s = drop n (qr_unread s1)"
      using got(4) by (simp add: qat_left_def add.commute)
    have "qat_core pinv ppend ?s" using f law(2) by (auto simp: qat_core_def)
    then have inv: "qat_inv ?s" "qat_pending ?s = concat bss'"
      using law(4,5) left by (simp_all add: qat_inv_def qat_pending_def)
    have "qat_pass prd qz len (out, s) = Some (Inr (bs, ?s))"
      using law(1) fill(1) r pos assms(2) out room law(3) run by (elim disjE) (simp_all add: qat_pass_def)
    moreover have "qat_pending s = bs @ qat_pending ?s" using law(6) inv(2) t(3) by simp
    moreover have "length bs < len \<longrightarrow> qat_left ppend ?s = []" using law(7) left by simp
    moreover have "length bs \<le> len" "qat_left ppend s \<noteq> []" "qr_err ?s = ERR_OK" using law(3) got(3,5) by simp_all
    ultimately show ?thesis using out inv(1) by (intro disjI2 exI [of _ bs] exI [of _ ?s]) (simp only: simp_thms)
  qed
qed

lemma qat_read_one:
  assumes "qat_inv s" "whole_blocks len"
  shows "qat_outcome s len (qat_read prd qz s a len)"
proof (cases "qr_err s")
  case ERR_EOF
  with assms(1) have "qat_left ppend s = []" by (simp add: qat_inv_def)
  with assms(1) have "qat_pending s = []" by (rule qat_nothing_left)
  with ERR_EOF assms(1) show ?thesis by (intro outcome_data) (auto simp: qat_read_def)
next
  case ERR_ERROR
  with assms(1) have "\<not> calm" by (simp add: qat_inv_def)
  with ERR_ERROR assms(1) show ?thesis by (intro outcome_err) (auto simp: qat_read_def)
next
  case ERR_OK
  then have run: "qat_read prd qz s a len = c_loop (qat_pass prd qz len) ([], s)" by (simp add: qat_read_def)
  show ?thesis
  proof (cases "len = 0")
    case True
    then have "qat_read prd qz s a len = Some (0, [], s)" unfolding run by (intro c_loop_stop) (simp add: qat_pass_def)
    then show ?thesis using assms(1) True by (intro outcome_data) auto
  next
    case False
    then have "length ([] :: byte list) < len" by simp
    from qat_pass_round [OF assms(1) ERR_OK this assms(2)]
    have "(\<exists>r s'. qat_pass prd qz len ([], s) = Some (Inl (r, [], s')) \<and>
        (r = 0 \<and> qat_pending s = [] \<or> r = -1 \<and> \<not> calm) \<and> qat_inv s' \<and> qat_pending s' = qat_pending s) \<or>
      (\<exists>got s'. qat_pass prd qz len ([], s) = Some (Inr (got, s')) \<and> qat_inv s' \<and> qr_err s' = ERR_OK \<and>
        length got \<le> len \<and> qat_pending s = got @ qat_pending s' \<and> (length got < len \<longrightarrow> qat_left ppend s' = []))"
      by simp blast
    then show ?thesis
    proof (elim disjE exE conjE, goal_cases)
      case (1 r s')
      from c_loop_stop [where body = "qat_pass prd qz len", OF 1(1)] 1 show ?case unfolding run by (intro outcome_data) auto
    next
      case (2 r s')
      from c_loop_stop [where body = "qat_pass prd qz len", OF 2(1)] 2 show ?case unfolding run by (intro outcome_err) auto
    next
      case (3 got s1)
      note step = c_loop_next [where body = "qat_pass prd qz len", OF 3(1)]
      show ?case
      proof (cases "len \<le> length got")
        case True
        then have "c_loop (qat_pass prd qz len) (got, s1) = Some (int (length got), got, s1)"
          by (intro c_loop_stop) (simp add: qat_pass_def)
        with step 3 True False show ?thesis unfolding run by (intro outcome_data) auto
      next
        case False
        then have room: "length got < len" by simp
        have left: "qat_left ppend s1 = []" using 3(6) room by simp
        have none: "qat_pending s1 = []" by (rule qat_nothing_left [OF 3(2) left])
        from qat_pass_round [OF 3(2,3) room assms(2) left] left none
        have "\<exists>r s2. qat_pass prd qz len (got, s1) = Some (Inl (if got \<noteq> [] then int (length got) else r, got, s2)) \<and>
            (r = 0 \<or> r = -1 \<and> \<not> calm) \<and> qat_inv s2 \<and> qat_pending s2 = qat_pending s1" by blast
        then obtain r s2 where
          s2: "qat_pass prd qz len (got, s1) = Some (Inl (if got \<noteq> [] then int (length got) else r, got, s2))"
          "r = 0 \<or> r = -1 \<and> \<not> calm" "qat_inv s2" "qat_pending s2 = qat_pending s1" by blast
        show ?thesis
        proof (cases "got = [] \<and> r = -1")
          case True
          with c_loop_stop [where body = "qat_pass prd qz len", OF s2(1)] step 3(5) s2(2-4) none show ?thesis
            unfolding run by (intro outcome_err) auto
        next
          case False
          with c_loop_stop [where body = "qat_pass prd qz len", OF s2(1)] step 3(4,5) s2 none show ?thesis
            unfolding run by (intro outcome_data) auto
        qed
      qed
    qed
  qed
qed

end

sublocale qat_reading \<subseteq> qat: reader "qat_read prd qz" qat_inv qat_pending whole_blocks
  by (rule readerI) (use qat_read_one in \<open>simp add: qat_outcome_def\<close>)

text \<open>From the opening to the last result.\<close>

context qat_reading begin

lemma qat_open_inv:
  assumes "qat_open qz p = Some s" "pinv p" "blocks (qr_sess s) (ppend p) = Some bss" "even_blocks B bss"
    and "length (ppend p) \<le> QAT_BUFFER"
  shows "qat_inv s" "qat_pending s = concat bss"
proof -
  from assms(1) have s: "qr_parent s = p" "qr_in s = []" "qr_indecomp s = 0" "qr_err s = ERR_OK"
    by (auto simp: qat_open_def split: prod.splits if_splits)
  then have "qat_left ppend s = ppend p" by (simp add: qat_left_def)
  with s assms(2-5) show "qat_inv s" "qat_pending s = concat bss"
    by (simp_all add: qat_inv_def qat_pending_def qat_core_def)
qed

lemma qat_calm:
  assumes "calm"
  shows "calm_reader (qat_read prd qz) qat_inv qat_pending whole_blocks"
proof (rule calm_readerI [OF qat.reader_axioms])
  show "never_fails (qat_read prd qz) qat_inv whole_blocks"
    unfolding never_fails_def using qat_read_one assms unfolding qat_outcome_def by blast
qed

lemma qat_reads_all:
  assumes "qat_open qz p = Some s" "pinv p" "blocks (qr_sess s) (ppend p) = Some bss" "even_blocks B bss"
    and "length (ppend p) \<le> QAT_BUFFER" "0 < n" "whole_blocks n"
  shows "\<exists>r got s'. read_all (qat_read prd qz) a n s [] = Some (r, got, s') \<and> prefix got (concat bss) \<and>
    (r = 0 \<and> got = concat bss \<or> r < 0 \<and> \<not> calm)"
proof (cases calm)
  case True
  from calm_reader.read_all_whole [OF qat_calm [OF True] qat_open_inv(1) [OF assms(1-5)] assms(7,6), of a "[]"]
    qat_open_inv(2) [OF assms(1-5)]
  show ?thesis by auto
next
  case False
  from qat.read_all_result [OF qat_open_inv(1) [OF assms(1-5)] assms(7,6), of a "[]"] qat_open_inv(2) [OF assms(1-5)] False
  show ?thesis by (auto simp: prefix_def)
qed

end

section \<open>At the end of the input\<close>

lemma qat_compact_keeps [simp]: "qr_sess (qat_compact s) = qr_sess s" "qr_err (qat_compact s) = qr_err s"
  "qr_parent (qat_compact s) = qr_parent s"
  by (simp_all add: qat_compact_def Let_def)

lemma qat_compact_unread: "qr_unread (qat_compact s) = qr_unread s"
  by (simp add: qat_compact_def Let_def)

lemma qat_compact_bounds: "length (qr_in s) \<le> QAT_BUFFER \<Longrightarrow> length (qr_in (qat_compact s)) \<le> QAT_BUFFER"
  by (simp add: qat_compact_def Let_def le_diff_conv trans_le_add1)

text \<open>A parent that has ended adds nothing: what is unread is all there is.\<close>

lemma read_from_ended:
  assumes "\<And>b k. prd (qr_parent s) b k = Some (0, [], qr_parent s)" "qr_unread s \<noteq> []"
  shows "read_from_parent prd s = Some (int (length (qr_unread s)), qat_compact s)"
proof -
  let ?s = "qat_compact s"
  have "qr_unread ?s \<noteq> []" unfolding qat_compact_unread by (rule assms(2))
  then have more: "qr_indecomp ?s < length (qr_in ?s)" by simp
  have "qat_fill_pass prd ?s = Some (Inl (int (length (qr_in ?s)) - int (qr_indecomp ?s), ?s))"
    using assms(1) more by (simp add: qat_fill_pass_def c_int_def)
  moreover have "int (length (qr_in ?s)) - int (qr_indecomp ?s) = int (length (qr_unread s))"
    using more arg_cong [OF qat_compact_unread [of s], of length] by simp
  ultimately show ?thesis unfolding read_from_parent_def by (intro c_loop_stop) simp
qed

text \<open>So a round is one call of QATzip on it.\<close>

lemma qat_pass_ended:
  assumes "\<And>b k. prd (qr_parent s) b k = Some (0, [], qr_parent s)" "qr_unread s = m" "m \<noteq> []"
    and "length (qr_in s) \<le> QAT_BUFFER" "qr_err s = ERR_OK" "length out < len" "len < 2 ^ 31"
    and "qz_decompress qz (qr_sess s) m len = (code, n, got, q)"
      "code = QZ_OK \<or> code = QZ_BUF_ERROR \<or> code = QZ_DATA_ERROR"
  shows "qat_pass prd qz len (out, s) =
    (if length out + length got \<le> len
     then Some (Inr (out @ got, (qat_compact s)\<lparr>qr_sess := q, qr_err := ERR_OK, qr_indecomp := qr_indecomp (qat_compact s) + n\<rparr>))
     else None)"
proof -
  have "length (qr_unread s) < 2 ^ 31" using assms(4) by (simp add: QAT_BUFFER_def WANDIO_BUFFER_SIZE_def)
  then have r: "c_int (int (length (qr_unread s))) = int (length (qr_unread s))" by (rule c_int_id_nat)
  have pos: "\<not> int (length (qr_unread s)) \<le> 0" using assms(2,3) by simp
  have room: "c_uint (int len) = len" using assms(7) by (intro c_uint_id) simp
  have code: "(code \<noteq> QZ_OK \<and> code \<noteq> QZ_BUF_ERROR \<and> code \<noteq> QZ_DATA_ERROR) = False" using assms(9) by blast
  have ok: "(qr_err s \<noteq> ERR_OK \<or> len \<le> length out) = False" using assms(5,6) by simp
  note run = assms(8) [folded assms(2)]
  have some: "qr_unread s \<noteq> []" unfolding assms(2) by (rule assms(3))
  show ?thesis
    unfolding qat_pass_def prod.case ok if_False read_from_ended [where prd = prd and s = s, OF assms(1) some] Let_def bind.bind_lunit r
      qat_compact_keeps qat_compact_unread room run code
    using pos by (simp add: c_assert_def)
qed

end
