(* ===== verification/Qat_Files.thy ===== *)
theory Qat_Files
  imports Qat_Reading Codec_Readers Stdio_Writer
begin

text \<open>
  What the QAT modules promise: the reader contract on files that fit the buffer, one member per
  write on the way out; and where \<^verbatim>\<open>qat_read\<close> leaves the caller's buffer or does not come back.
\<close>

section \<open>A library that stores\<close>

text \<open>The smallest QATzip: a member is its text.\<close>

definition stored :: "unit qatzip" where
  "stored = \<lparr>qz_init = (QZ_OK, ()), qz_setup = (\<lambda>_ _ q. (QZ_OK, q)), qz_max = (\<lambda>n. n),
     qz_compress = (\<lambda>q bs room _. (if length bs \<le> room then QZ_OK else QZ_BUF_ERROR,
       if length bs \<le> room then length bs else 0, if length bs \<le> room then bs else [], q)),
     qz_decompress = (\<lambda>q bs room. (QZ_OK, min room (length bs), take room bs, q)), qz_teardown = (\<lambda>q. q)\<rparr>"

section \<open>A library that works in blocks\<close>

text \<open>The smallest format with blocks: a length byte and that many bytes. A call takes blocks as long as
  the next one is there and fits.\<close>

function member_blocks :: "byte list \<Rightarrow> byte list list option" where
  "member_blocks [] = Some []"
| "member_blocks (b # rest) =
     (if unat b \<le> length rest
      then map_option ((#) (take (unat b) rest)) (member_blocks (drop (unat b) rest)) else None)"
  by pat_completeness auto
termination by (relation "measure length") auto

function member_call :: "nat \<Rightarrow> byte list \<Rightarrow> nat \<times> byte list" where
  "member_call room [] = (0, [])"
| "member_call room (b # rest) =
     (if unat b \<le> length rest \<and> unat b \<le> room
      then (case member_call (room - unat b) (drop (unat b) rest) of (n, got) \<Rightarrow>
        (Suc (unat b) + n, take (unat b) rest @ got))
      else (0, []))"
  by pat_completeness auto
termination by (relation "measure (\<lambda>(room, bs). length bs)") auto

definition members :: "unit qatzip" where
  "members = stored\<lparr>qz_decompress := (\<lambda>q bs room. case member_call room bs of (n, got) \<Rightarrow>
     (if n = length bs then QZ_OK else QZ_BUF_ERROR, n, got, q))\<rparr>"

lemma member_call_law:
  "member_blocks inp = Some bss \<Longrightarrow> member_call room inp = (n, got) \<Longrightarrow>
    n \<le> length inp \<and> (\<exists>k\<le>length bss. got = concat (take k bss) \<and> length got \<le> room \<and>
      member_blocks (drop n inp) = Some (drop k bss) \<and> (k = length bss \<longrightarrow> drop n inp = []) \<and>
      (k < length bss \<longrightarrow> room < length got + length (bss ! k)))"
proof (induction room inp arbitrary: bss n got rule: member_call.induct)
  case (1 room)
  then show ?case by simp
next
  case (2 room b rest)
  from 2(2) obtain bss1 where fits: "unat b \<le> length rest" and bss: "bss = take (unat b) rest # bss1"
    "member_blocks (drop (unat b) rest) = Some bss1" by (auto split: if_splits)
  show ?case
  proof (cases "unat b \<le> room")
    case False
    with 2(2,3) fits bss(1) show ?thesis by (intro conjI exI [of _ 0]) auto
  next
    case True
    obtain n1 got1 where call: "member_call (room - unat b) (drop (unat b) rest) = (n1, got1)" by fastforce
    from 2(1) [OF conjI [OF fits True] bss(2) call] obtain k where
      ih: "n1 \<le> length (drop (unat b) rest)" "k \<le> length bss1" "got1 = concat (take k bss1)" "length got1 \<le> room - unat b"
        "member_blocks (drop n1 (drop (unat b) rest)) = Some (drop k bss1)"
        "k = length bss1 \<longrightarrow> drop n1 (drop (unat b) rest) = []"
        "k < length bss1 \<longrightarrow> room - unat b < length got1 + length (bss1 ! k)" by blast
    from 2(3) fits True call have res: "n = Suc (unat b) + n1" "got = take (unat b) rest @ got1" by simp_all
    have rest: "drop n (b # rest) = drop n1 (drop (unat b) rest)" by (simp add: res(1) add.commute)
    show ?thesis unfolding rest
      using ih(1-4) fits True
      by (intro conjI exI [of _ "Suc k"])
        (use ih(5-7) in \<open>auto simp: res bss(1) min_def\<close>)
  qed
qed

lemma members_unpacks: "qz_unpacks members (\<lambda>_. member_blocks)"
  unfolding qz_unpacks_def
proof (rule conjI; intro allI impI; (elim conjE)?, goal_cases)
  case (1 q inp room bss code n got q')
  obtain n1 got1 where call: "member_call room inp = (n1, got1)" by fastforce
  with 1(4) have eq: "n = n1" "got = got1" "code = QZ_OK \<or> code = QZ_BUF_ERROR"
    by (auto simp: members_def stored_def split: if_splits)
  from member_call_law [OF 1(1) call] eq show ?case by blast
qed simp

lemma qat_readingI:
  "reader prd pinv ppend served \<Longrightarrow> \<forall>n\<le>QAT_BUFFER. served n \<Longrightarrow> qz_unpacks qz blocks \<Longrightarrow> 0 < B \<Longrightarrow>
    qat_reading prd pinv ppend served qz blocks B"
  by (intro qat_reading.intro qat_reading_axioms.intro) auto

interpretation qat_stdio: qat_reading stdio_read stdio_inv stdio_pending any_size members "\<lambda>_. member_blocks" 2
  by unfold_locales (simp_all add: members_unpacks)

interpretation qat_peek_stdio: qat_reading "peek_read stdio_read alloc_ok" "peek_inv stdio_inv"
    "peek_pending stdio_pending" any_size members "\<lambda>_. member_blocks" 2
  by unfold_locales (simp_all add: members_unpacks)

section \<open>Reading a file\<close>

text \<open>C35: the QAT reader, over any parent that keeps the reader contract and a QATzip that decompresses
  whole blocks, on a file of at most 10 MiB whose blocks, but for the last, all have the same size
  (what the writer produces from pieces that are whole blocks themselves, as the 1 MiB pieces of the
  threaded writer are), asked for whole numbers of blocks (as the threaded reader asks): reading to
  the end gives exactly the text and then \<open>0\<close>. Only when the parent can fail can the last result be
  negative, after a beginning of the text.\<close>

theorem qat_reads_file:
  assumes "reader prd pinv ppend served" "\<forall>n\<le>QAT_BUFFER. served n" "qz_unpacks qz blocks"
    and "qat_open qz p = Some s" "pinv p" "blocks (qr_sess s) (ppend p) = Some bss" "even_blocks B bss"
    and "length (ppend p) \<le> QAT_BUFFER" "0 < B" "B dvd n" "0 < n" "n < 2 ^ 31"
  shows "\<exists>r got s'. read_all (qat_read prd qz) a n s [] = Some (r, got, s') \<and> prefix got (concat bss) \<and>
    (r = 0 \<and> got = concat bss \<or> r < 0 \<and> \<not> never_fails prd pinv served)"
proof -
  note rd = qat_readingI [OF assms(1-3,9)]
  have "qat_reading.whole_blocks B n" using assms(10,12) by (simp add: qat_reading.whole_blocks_def [OF rd])
  from qat_reading.qat_reads_all [OF rd assms(4-8,11) this] show ?thesis .
qed

lemma demo_qat_open: "qat_open members p = Some \<lparr>qr_sess = (), qr_parent = p, qr_in = [], qr_indecomp = 0, qr_err = ERR_OK\<rparr>"
  by (simp add: qat_open_def members_def stored_def)

text \<open>Three blocks of two bytes and one of a single byte, read four bytes at a time.\<close>

theorem qat_reads_file_witness:
  "\<exists>s s'. qat_open members (demo_file [2, 7, 8, 2, 9, 10, 2, 11, 12, 1, 13]) = Some s \<and>
    read_all (qat_read stdio_read members) 0 4 s [] = Some (0, [7, 8, 9, 10, 11, 12, 13], s')"
proof -
  let ?p = "demo_file [2, 7, 8, 2, 9, 10, 2, 11, 12, 1, 13]"
  have p: "stdio_calm ?p" "stdio_pending ?p = [2, 7, 8, 2, 9, 10, 2, 11, 12, 1, 13]"
    by (simp_all add: stdio_calm_def demo_file_def demo_fd_def stdio_pending_def fd_rest_def)
  have "member_blocks (stdio_pending ?p) = Some [[7, 8], [9, 10], [11, 12], [13]]"
    "even_blocks 2 [[7::byte, 8], [9, 10], [11, 12], [13]]" "length (stdio_pending ?p) \<le> QAT_BUFFER"
    "(0::nat) < 2" "(2::nat) dvd 4" "(0::nat) < 4" "(4::nat) < 2 ^ 31"
    unfolding p(2) by (simp_all add: QAT_BUFFER_def WANDIO_BUFFER_SIZE_def)
  note result = qat_reads_file [where prd = stdio_read and pinv = stdio_calm and ppend = stdio_pending and
      served = any_size and qz = members and blocks = "\<lambda>_. member_blocks" and B = 2 and n = 4 and a = 0,
      OF calm_stdio.reader_axioms _ members_unpacks demo_qat_open p(1) this]
  have "\<forall>n\<le>QAT_BUFFER. any_size n" by simp
  from result [OF this] calm_stdio.never demo_qat_open [of ?p] show ?thesis by auto
qed

section \<open>Outside the caller's buffer\<close>

text \<open>C37: \<^verbatim>\<open>qat_read\<close> tells QATzip in every round that the whole request is free: when a first call gives
  less than was asked for and a second one more than is left, bytes are stored behind the end of the
  caller's buffer.\<close>

theorem qat_read_overruns:
  assumes "\<And>b k. prd (qr_parent s) b k = Some (0, [], qr_parent s)" "qr_err s = ERR_OK"
    and "length (qr_in s) \<le> QAT_BUFFER" "qr_unread s = m1 @ m2" "m2 \<noteq> []" "n < 2 ^ 31"
    and "qz_decompress qz (qr_sess s) (m1 @ m2) n = (code1, length m1, t1, q)" "length t1 < n"
    and "qz_decompress qz q m2 n = (code2, k, t2, q')" "n < length t1 + length t2"
    and "code1 = QZ_OK \<or> code1 = QZ_BUF_ERROR" "code2 = QZ_OK \<or> code2 = QZ_BUF_ERROR"
  shows "qat_read prd qz s a n = None"
proof -
  let ?c = "qat_compact s"
  let ?s = "?c\<lparr>qr_sess := q, qr_err := ERR_OK, qr_indecomp := qr_indecomp ?c + length m1\<rparr>"
  have "qr_unread ?c = m1 @ m2" using assms(4) by (simp only: qat_compact_unread)
  then have left: "qr_unread ?s = m2" by (simp add: drop_drop [symmetric] add.commute del: drop_drop)
  have more: "m1 @ m2 \<noteq> []" "length ([] :: byte list) < n" using assms(5,8) by simp_all
  have codes: "code1 = QZ_OK \<or> code1 = QZ_BUF_ERROR \<or> code1 = QZ_DATA_ERROR"
    "code2 = QZ_OK \<or> code2 = QZ_BUF_ERROR \<or> code2 = QZ_DATA_ERROR" using assms(11,12) by blast+
  from qat_pass_ended [where prd = prd and s = s and out = "[]" and len = n, OF assms(1,4) more(1) assms(3,2) more(2) assms(6,7) codes(1)] assms(8)
  have "qat_pass prd qz n ([], s) = Some (Inr (t1, ?s))" by simp
  then have "c_loop (qat_pass prd qz n) ([], s) = c_loop (qat_pass prd qz n) (t1, ?s)" by (rule c_loop_next)
  moreover have run: "qz_decompress qz (qr_sess ?s) m2 n = (code2, k, t2, q')" using assms(9) by simp
  have "qat_pass prd qz n (t1, ?s) =
    (if length t1 + length t2 \<le> n
     then Some (Inr (t1 @ t2, (qat_compact ?s)\<lparr>qr_sess := q', qr_err := ERR_OK, qr_indecomp := qr_indecomp (qat_compact ?s) + k\<rparr>))
     else None)"
    by (rule qat_pass_ended [OF _ left assms(5) _ _ assms(8,6) run codes(2)])
      (use assms(1) qat_compact_bounds [OF assms(3)] in simp_all)
  then have "c_loop (qat_pass prd qz n) (t1, ?s) = None" using assms(10) by (subst c_loop.simps) simp
  ultimately show ?thesis using assms(2) by (simp add: qat_read_def)
qed

text \<open>Two blocks of two bytes and a request for three: the second block is stored behind the first.\<close>

theorem qat_read_overruns_witness:
  "qat_read stdio_read members \<lparr>qr_sess = (), qr_parent = demo_file [], qr_in = [2, 7, 7, 2, 8, 8], qr_indecomp = 0, qr_err = ERR_OK\<rparr> 0 3 = None"
proof (rule qat_read_overruns [where ?m1.0 = "[2, 7, 7]" and ?m2.0 = "[2, 8, 8]" and ?t1.0 = "[7, 7]" and ?t2.0 = "[8, 8]"
      and ?code1.0 = QZ_BUF_ERROR and ?code2.0 = QZ_OK])
  fix b k
  show "stdio_read (qr_parent \<lparr>qr_sess = (), qr_parent = demo_file [], qr_in = [2, 7, 7, 2, 8, 8], qr_indecomp = 0, qr_err = ERR_OK\<rparr>) b k =
      Some (0, [], qr_parent \<lparr>qr_sess = (), qr_parent = demo_file [], qr_in = [2, 7, 7, 2, 8, 8], qr_indecomp = 0, qr_err = ERR_OK\<rparr>)"
    by (simp add: stdio_read_def posix_read_def demo_file_def demo_fd_def fd_rest_def)
qed (simp_all add: members_def QAT_BUFFER_def WANDIO_BUFFER_SIZE_def)

section \<open>Corrupt input\<close>

text \<open>\<^verbatim>\<open>QZ_DATA_ERROR\<close> counts as success, so on input QATzip rejects without taking any of it
  \<^verbatim>\<open>qat_read\<close> goes round for ever.\<close>

theorem qat_corrupt_hangs:
  assumes "\<And>b k. prd (qr_parent s) b k = Some (0, [], qr_parent s)" "qr_err s = ERR_OK"
    and "length (qr_in s) \<le> QAT_BUFFER" "qr_unread s \<noteq> []" "0 < n" "n < 2 ^ 31"
    and "qz_decompress qz (qr_sess s) (qr_unread s) n = (QZ_DATA_ERROR, 0, [], qr_sess s)"
  shows "qat_read prd qz s a n = None"
proof (rule ccontr)
  let ?I = "\<lambda>(out, u). out = [] \<and> qr_parent u = qr_parent s \<and> qr_err u = ERR_OK \<and> qr_sess u = qr_sess s \<and>
    qr_unread u = qr_unread s \<and> length (qr_in u) \<le> QAT_BUFFER"
  assume "qat_read prd qz s a n \<noteq> None"
  then obtain r where run: "c_loop (qat_pass prd qz n) ([], s) = Some r" using assms(2) by (auto simp: qat_read_def)
  have step: "\<exists>u'. qat_pass prd qz n x = Some (Inr ([], u')) \<and> ?I ([], u')" if "?I x" for x
  proof -
    note I = that
    obtain u where x: "x = ([], u)" using I by (cases x) simp
    with I have u: "qr_parent u = qr_parent s" "qr_err u = ERR_OK" "qr_sess u = qr_sess s"
      "qr_unread u = qr_unread s" "length (qr_in u) \<le> QAT_BUFFER" by auto
    let ?u = "(qat_compact u)\<lparr>qr_sess := qr_sess s, qr_err := ERR_OK, qr_indecomp := qr_indecomp (qat_compact u) + 0\<rparr>"
    have run: "qz_decompress qz (qr_sess u) (qr_unread s) n = (QZ_DATA_ERROR, 0, [], qr_sess s)"
      using assms(7) u(3) by simp
    have "qat_pass prd qz n ([], u) = (if length ([] :: byte list) + length ([] :: byte list) \<le> n then Some (Inr ([] @ [], ?u)) else None)"
      by (rule qat_pass_ended [OF _ u(4) assms(4) u(5,2) _ assms(6) run]) (use assms(1,5) u(1) in simp_all)
    then have "qat_pass prd qz n ([], u) = Some (Inr ([], ?u))" by simp
    moreover have "?I ([], ?u)" using u qat_compact_unread [of u] qat_compact_bounds [OF u(5)] by simp
    ultimately show ?thesis unfolding x by blast
  qed
  have "False"
  proof (rule c_loop_partial [where I = ?I and Q = "\<lambda>_. False", OF run])
    show "?I ([], s)" using assms(2,3) by simp
  next
    fix x x' assume "?I x" "qat_pass prd qz n x = Some (Inr x')"
    with step [of x] show "?I x'" by auto
  next
    fix x r assume "?I x" "qat_pass prd qz n x = Some (Inl r)"
    with step [of x] show False by auto
  qed
  then show False .
qed

text \<open>A library that takes nothing.\<close>

definition rejecting :: "unit qatzip" where
  "rejecting = stored\<lparr>qz_decompress := (\<lambda>q _ _. (QZ_DATA_ERROR, 0, [], q))\<rparr>"

theorem qat_corrupt_hangs_witness:
  "qat_read stdio_read rejecting \<lparr>qr_sess = (), qr_parent = demo_file [], qr_in = [1], qr_indecomp = 0, qr_err = ERR_OK\<rparr> 0 5 = None"
proof (rule qat_corrupt_hangs)
  fix b k
  show "stdio_read (qr_parent \<lparr>qr_sess = (), qr_parent = demo_file [], qr_in = [1], qr_indecomp = 0, qr_err = ERR_OK\<rparr>) b k =
      Some (0, [], qr_parent \<lparr>qr_sess = (), qr_parent = demo_file [], qr_in = [1], qr_indecomp = 0, qr_err = ERR_OK\<rparr>)"
    by (simp add: stdio_read_def posix_read_def demo_file_def demo_fd_def fd_rest_def)
qed (simp_all add: rejecting_def QAT_BUFFER_def WANDIO_BUFFER_SIZE_def)

end
