(* ===== verification/Qat_Writing.thy ===== *)
theory Qat_Writing
  imports Qat_Files Codec_Writers
begin

text \<open>
  The QAT writer over any child that keeps the writer contract: every non-empty write becomes one
  member of the file; and what its calls return.
\<close>

section \<open>What is relied on\<close>

text \<open>Given \<^verbatim>\<open>qzMaxCompressedLength\<close> bytes of room, \<^verbatim>\<open>qzCompress\<close> takes the whole input and gives a
  member for it.\<close>

definition qz_packs :: "'q qatzip \<Rightarrow> ('q \<Rightarrow> bool) \<Rightarrow> (byte list \<Rightarrow> byte list \<Rightarrow> bool) \<Rightarrow> bool" where
  "qz_packs qz ok member \<longleftrightarrow>
     (\<forall>q bs room z code n got q'. ok q \<and> bs \<noteq> [] \<and> qz_max qz (length bs) \<le> room \<and>
        qz_compress qz q bs room z = (code, n, got, q') \<longrightarrow>
          \<not> qz_negative code \<and> n = length bs \<and> length got \<le> room \<and> ok q' \<and> member bs got)"

lemma qz_packsD:
  assumes "qz_packs qz ok member" "qz_compress qz q bs room z = (code, n, got, q')"
    and "ok q" "bs \<noteq> []" "qz_max qz (length bs) \<le> room"
  shows "\<not> qz_negative code" "n = length bs" "length got \<le> room" "ok q'" "member bs got"
  using assms unfolding qz_packs_def by blast+

lemma stored_packs: "qz_packs stored (\<lambda>_. True) (=)"
  by (auto simp: qz_packs_def stored_def qz_negative_def)

text \<open>A write QATzip can hold in an empty buffer.\<close>

definition qat_fits :: "'q qatzip \<Rightarrow> byte list \<Rightarrow> bool" where
  "qat_fits qz bs \<longleftrightarrow> length bs < 2 ^ 30 \<and> qz_max qz (length bs) \<le> QAT_BUFFER"

abbreviation nonempty :: "byte list list \<Rightarrow> byte list list" where
  "nonempty bss \<equiv> filter (\<lambda>bs. bs \<noteq> []) bss"

locale qat_writing = child: flusher "wsrc_write csrc" cwinv csunk "wsrc_flush csrc"
  for csrc :: "'w iow_source_t" and cwinv csunk +
  fixes qz :: "'q qatzip" and ok :: "'q \<Rightarrow> bool" and member :: "byte list \<Rightarrow> byte list \<Rightarrow> bool"
  assumes packs: "qz_packs qz ok member"
begin

text \<open>The members of \<open>bss\<close> are in the child, behind what was there, and in the buffer.\<close>

definition qatw_inv :: "byte list \<Rightarrow> byte list list \<Rightarrow> ('w, 'q) qatw_t \<Rightarrow> bool" where
  "qatw_inv base bss w \<longleftrightarrow> cwinv (qw_child w) \<and> length (qw_out w) \<le> QAT_BUFFER \<and> qw_err w = ERR_OK \<and>
     ok (qw_sess w) \<and> (\<exists>ms. list_all2 member (nonempty bss) ms \<and> csunk (qw_child w) @ qw_out w = base @ concat ms)"

lemma child_takes:
  assumes "cwinv c" "length bs \<le> QAT_BUFFER"
  obtains c' where "wandio_wwrite csrc c bs = Some (int (length bs), c')" "cwinv c'" "csunk c' = csunk c @ bs"
    "c_int (int (length bs)) = int (length bs)"
proof -
  have small: "length bs < 2 ^ 30" by (rule le_less_trans [OF assms(2)]) (simp add: QAT_BUFFER_def WANDIO_BUFFER_SIZE_def)
  then have "length bs < 2 ^ 31" by simp
  with child.wr_ok [OF assms(1) small] that c_int_id_nat [of "length bs"] show thesis by (auto simp: wandio_wwrite_def)
qed

lemma qat_make_room_ok:
  assumes "qatw_inv base bss w" "qz_max qz n \<le> QAT_BUFFER"
  obtains w' where "qat_make_room csrc qz n w = Some (True, w')" "qatw_inv base bss w'"
    "qz_max qz n \<le> QAT_BUFFER - length (qw_out w')"
proof (cases "QAT_BUFFER - length (qw_out w) < qz_max qz n")
  case False
  with assms that show thesis by (simp add: qat_make_room_def)
next
  case True
  then have some: "0 < length (qw_out w)" using assms(2) by (cases "qw_out w") simp_all
  from assms(1) have w: "cwinv (qw_child w)" "length (qw_out w) \<le> QAT_BUFFER" by (simp_all add: qatw_inv_def)
  obtain c' where c': "wandio_wwrite csrc (qw_child w) (qw_out w) = Some (int (length (qw_out w)), c')" "cwinv c'"
    "csunk c' = csunk (qw_child w) @ qw_out w" "c_int (int (length (qw_out w))) = int (length (qw_out w))"
    by (rule child_takes [OF w])
  let ?w = "w\<lparr>qw_child := c', qw_out := []\<rparr>"
  have "qat_make_room csrc qz n w = Some (True, ?w)" using True c'(1,4) some by (simp add: qat_make_room_def)
  moreover have "qatw_inv base bss ?w" using assms(1) c'(2,3) by (simp add: qatw_inv_def)
  ultimately show thesis using that assms(2) by simp
qed

lemma qat_wwrite_ok:
  assumes "qatw_inv base bss w" "qat_fits qz bs"
  shows "\<exists>w'. qat_wwrite csrc qz w bs = Some (0, w') \<and> qatw_inv base (bss @ [bs]) w'"
proof (cases "bs = []")
  case True
  then have "qat_wpass csrc qz bs False (0, w) = Some (Inl (0, w))" by (simp add: qat_wpass_def)
  then have "qat_wwrite csrc qz w bs = Some (0, w)" unfolding qat_wwrite_def qat_wwrite_last_def by (rule c_loop_stop)
  with True assms(1) show ?thesis by (simp add: qatw_inv_def)
next
  case False
  from assms(2) have len: "length bs < 2 ^ 32" "qz_max qz (length bs) \<le> QAT_BUFFER" by (simp_all add: qat_fits_def)
  from len(1) have uint: "c_uint (int (length bs)) = length bs" by (rule c_uint_id)
  from assms(1) have err: "qw_err w = ERR_OK" by (simp add: qatw_inv_def)
  obtain w1 where w1: "qat_make_room csrc qz (length bs) w = Some (True, w1)" "qatw_inv base bss w1"
    "qz_max qz (length bs) \<le> QAT_BUFFER - length (qw_out w1)" by (rule qat_make_room_ok [OF assms(1) len(2)])
  obtain code n got q where run: "qz_compress qz (qw_sess w1) bs (QAT_BUFFER - length (qw_out w1)) False = (code, n, got, q)"
    by (metis prod_cases4)
  from w1(2) obtain ms where inv: "cwinv (qw_child w1)" "length (qw_out w1) \<le> QAT_BUFFER" "ok (qw_sess w1)"
    "list_all2 member (nonempty bss) ms" "csunk (qw_child w1) @ qw_out w1 = base @ concat ms" by (auto simp: qatw_inv_def)
  note law = qz_packsD [OF packs run inv(3) False w1(3)]
  let ?w = "w1\<lparr>qw_sess := q, qw_err := ERR_OK, qw_out := qw_out w1 @ got\<rparr>"
  have "qat_wpass csrc qz bs False (0, w) = Some (Inr (length bs, ?w))"
    using err False uint w1(1) run law(1,2) by (simp add: qat_wpass_def)
  then have "qat_wwrite csrc qz w bs = c_loop (qat_wpass csrc qz bs False) (length bs, ?w)"
    unfolding qat_wwrite_def qat_wwrite_last_def by (rule c_loop_next)
  also have "\<dots> = Some (0, ?w)" by (rule c_loop_stop) (simp add: qat_wpass_def)
  finally have "qat_wwrite csrc qz w bs = Some (0, ?w)" .
  moreover have "length (qw_out w1 @ got) \<le> QAT_BUFFER" using law(3) inv(2) by simp
  moreover have "list_all2 member (nonempty (bss @ [bs])) (ms @ [got])"
    using inv(4) law(5) False by (simp add: list_all2_appendI)
  moreover have "csunk (qw_child w1) @ qw_out w1 @ got = base @ concat (ms @ [got])" using inv(5) by simp
  ultimately show ?thesis using inv(1) law(4) unfolding qatw_inv_def
    by (intro exI [of _ ?w] conjI exI [of _ "ms @ [got]"]) simp_all
qed

lemma qat_write_list_ok:
  "qatw_inv base done w \<Longrightarrow> \<forall>bs\<in>set bss. qat_fits qz bs \<Longrightarrow>
    \<exists>w'. write_list (qat_wwrite csrc qz) w bss = Some w' \<and> qatw_inv base (done @ bss) w'"
proof (induction bss arbitrary: w "done")
  case (Cons bs rest)
  with qat_wwrite_ok [OF Cons.prems(1), of bs] obtain w1 where
    w1: "qat_wwrite csrc qz w bs = Some (0, w1)" "qatw_inv base (done @ [bs]) w1" by auto
  from Cons.IH [OF w1(2)] Cons.prems(2) w1(1) show ?case by auto
qed simp

lemma qat_wflush_ok:
  assumes "qatw_inv base bss w"
  shows "\<exists>w'. qat_wflush csrc qz w = Some (1, w') \<and> qatw_inv base bss w' \<and> qw_out w' = []"
proof -
  from assms have w: "cwinv (qw_child w)" "length (qw_out w) \<le> QAT_BUFFER" "qw_err w = ERR_OK"
    by (simp_all add: qatw_inv_def)
  have "qat_wwrite_last csrc qz w [] True = Some (0, w)"
    unfolding qat_wwrite_last_def by (rule c_loop_stop) (simp add: qat_wpass_def)
  moreover obtain c1 where c1: "wandio_wwrite csrc (qw_child w) (qw_out w) = Some (int (length (qw_out w)), c1)" "cwinv c1"
    "csunk c1 = csunk (qw_child w) @ qw_out w" "c_int (int (length (qw_out w))) = int (length (qw_out w))"
    by (rule child_takes [OF w(1,2)])
  moreover from child.fl_ok [OF c1(2)] obtain r c2 where c2: "wsrc_flush csrc c1 = Some (r, c2)" "0 \<le> r" "cwinv c2" "csunk c2 = csunk c1"
    by blast
  ultimately have "qat_wflush csrc qz w = Some (1, w\<lparr>qw_child := c2, qw_out := []\<rparr>)"
    using w(3) by (simp add: qat_wflush_def)
  with assms c1(3) c2(3,4) show ?thesis by (simp add: qatw_inv_def)
qed

lemma qat_wclose_ok:
  assumes "qatw_inv base bss w"
  shows "\<exists>c1 ms w2. list_all2 member (nonempty bss) ms \<and> cwinv c1 \<and> csunk c1 = base @ concat ms \<and>
    qat_wclose csrc qz w = map_option (\<lambda>c2. w2\<lparr>qw_child := c2\<rparr>) (wsrc_close csrc c1)"
proof -
  from qat_wflush_ok [OF assms] obtain w1 where w1: "qat_wflush csrc qz w = Some (1, w1)" "qatw_inv base bss w1" "qw_out w1 = []"
    by blast
  from w1(2,3) obtain ms where "list_all2 member (nonempty bss) ms" "cwinv (qw_child w1)" "csunk (qw_child w1) = base @ concat ms"
    by (auto simp: qatw_inv_def)
  moreover have "qat_wclose csrc qz w =
      map_option (\<lambda>c2. (w1\<lparr>qw_sess := qz_teardown qz (qw_sess w1)\<rparr>)\<lparr>qw_child := c2\<rparr>) (wsrc_close csrc (qw_child w1))"
    using w1(1) by (cases "wsrc_close csrc (qw_child w1)") (simp_all add: qat_wclose_def wandio_wdestroy_def)
  ultimately show ?thesis by blast
qed

lemma qat_wopen_inv:
  "qat_wopen qz (Some c) level = Some w \<Longrightarrow> cwinv c \<Longrightarrow> ok (qw_sess w) \<Longrightarrow> qatw_inv (csunk c) [] w"
  by (auto simp: qat_wopen_def qatw_inv_def split: prod.splits if_splits)

end

interpretation qatw_stdio: qat_writing stdio_wsource stdio_winv stdio_sunk stored "\<lambda>_. True" "(=)"
  by unfold_locales (simp_all add: stdiow.wr_ok stdiow.fl_ok stored_packs)

lemma qat_writingI:
  "flusher (wsrc_write csrc) cwinv csunk (wsrc_flush csrc) \<Longrightarrow> qz_packs qz ok member \<Longrightarrow>
    qat_writing csrc cwinv csunk qz ok member"
  by (intro qat_writing.intro qat_writing_axioms.intro)

section \<open>Properties\<close>

text \<open>C36: whatever is written through the QAT writer, in pieces that QATzip can hold, closing it leaves
  the child, just before it is closed itself, having accepted one member for each piece that is not
  empty, in order and nothing else.\<close>

theorem qat_write_then_close:
  assumes "flusher (wsrc_write csrc) cwinv csunk (wsrc_flush csrc)" "qz_packs qz ok member"
    and "qat_wopen qz (Some c) level = Some w" "ok (qw_sess w)" "cwinv c" "csunk c = []"
    and "\<forall>bs\<in>set bss. qat_fits qz bs"
  shows "\<exists>w1 c1 ms w2. write_list (qat_wwrite csrc qz) w bss = Some w1 \<and> cwinv c1 \<and>
    list_all2 member (nonempty bss) ms \<and> csunk c1 = concat ms \<and>
    qat_wclose csrc qz w1 = map_option (\<lambda>c2. w2\<lparr>qw_child := c2\<rparr>) (wsrc_close csrc c1)"
proof -
  note loc = qat_writingI [OF assms(1,2)]
  from qat_writing.qat_write_list_ok [OF loc qat_writing.qat_wopen_inv [OF loc assms(3,5,4)] assms(7)] assms(6)
  obtain w1 where w1: "write_list (qat_wwrite csrc qz) w bss = Some w1" "qat_writing.qatw_inv cwinv csunk ok member [] bss w1"
    by auto
  from qat_writing.qat_wclose_ok [OF loc w1(2)] w1(1) show ?thesis by fastforce
qed

abbreviation demo_qatw :: "(stdiow_t, unit) qatw_t" where
  "demo_qatw \<equiv> \<lparr>qw_sess = (), qw_child = demo_iow []\<lparr>wbuffer := []\<rparr>, qw_out = [], qw_err = ERR_OK\<rparr>"

lemma demo_qat_wopen: "qat_wopen stored (Some (demo_iow []\<lparr>wbuffer := []\<rparr>)) 1 = Some demo_qatw"
  by (simp add: qat_wopen_def stored_def)

theorem qat_write_then_close_witness:
  "\<exists>w1 c1 w2. write_list (qat_wwrite stdio_wsource stored) demo_qatw [[7, 7], [], [8]] = Some w1 \<and> stdio_sunk c1 = [7, 7, 8] \<and>
    qat_wclose stdio_wsource stored w1 = map_option (\<lambda>c2. w2\<lparr>qw_child := c2\<rparr>) (wsrc_close stdio_wsource c1)"
proof -
  have "\<forall>bs\<in>set [[7::byte, 7], [], [8]]. qat_fits stored bs"
    by (simp add: qat_fits_def stored_def QAT_BUFFER_def WANDIO_BUFFER_SIZE_def)
  from qat_write_then_close [OF stdio_flusher stored_packs demo_qat_wopen TrueI demo_child this] show ?thesis
    by (fastforce simp: list_all2_eq [symmetric])
qed

text \<open>C38: the results of \<^verbatim>\<open>qat_wwrite\<close> are the wrong way round: a write that went well returns \<open>0\<close>,
  whatever its length; and once an error is latched every write returns its full length and does
  nothing.\<close>

theorem qat_wwrite_results:
  assumes "flusher (wsrc_write csrc) cwinv csunk (wsrc_flush csrc)" "qz_packs qz ok member"
    and "qat_wopen qz (Some c) level = Some w" "ok (qw_sess w)" "cwinv c" "qat_fits qz bs" "qw_err w' \<noteq> ERR_OK"
  shows "(\<exists>w1. qat_wwrite csrc qz w bs = Some (0, w1) \<and> qw_err w1 = ERR_OK) \<and>
    qat_wwrite csrc qz w' bs = Some (int (length bs), w')"
proof
  note loc = qat_writingI [OF assms(1,2)]
  from qat_writing.qat_wwrite_ok [OF loc qat_writing.qat_wopen_inv [OF loc assms(3,5,4)] assms(6)]
  show "\<exists>w1. qat_wwrite csrc qz w bs = Some (0, w1) \<and> qw_err w1 = ERR_OK"
    by (auto simp: qat_writing.qatw_inv_def [OF loc])
  show "qat_wwrite csrc qz w' bs = Some (int (length bs), w')"
    unfolding qat_wwrite_def qat_wwrite_last_def by (rule c_loop_stop) (use assms(7) in \<open>simp add: qat_wpass_def\<close>)
qed

theorem qat_wwrite_results_witness:
  "(\<exists>w1. qat_wwrite stdio_wsource stored demo_qatw [7, 7] = Some (0, w1) \<and> qw_err w1 = ERR_OK) \<and>
    qat_wwrite stdio_wsource stored (demo_qatw\<lparr>qw_err := ERR_ERROR\<rparr>) [7, 7] = Some (2, demo_qatw\<lparr>qw_err := ERR_ERROR\<rparr>)"
proof -
  have "qat_fits stored [7, 7]" by (simp add: qat_fits_def stored_def QAT_BUFFER_def WANDIO_BUFFER_SIZE_def)
  from qat_wwrite_results [OF stdio_flusher stored_packs demo_qat_wopen TrueI demo_child(1) this, of "demo_qatw\<lparr>qw_err := ERR_ERROR\<rparr>"]
  show ?thesis by simp
qed

end
