(* ===== verification/Wandio_Options.thy ===== *)
theory Wandio_Options
  imports Wandio_Prelude "HOL-Library.Char_ord"
begin

text \<open>
  The parts of \<^verbatim>\<open>lib/wandio.c\<close> that work on strings: the \<^verbatim>\<open>LIBTRACEIO\<close> environment
  variable (\<open>parse_env\<close>, \<open>do_option\<close>), the table of compression methods with its two lookups,
  the detection of a method from a file name, and the test whether a name is a URL. A C string
  is the list of its characters, without the final NUL.
\<close>

section \<open>C library functions on strings\<close>

text \<open>\<open>strstr\<close>: the index of the first occurrence.\<close>

fun strstr :: "string \<Rightarrow> string \<Rightarrow> nat option" where
  "strstr [] needle = (if needle = [] then Some 0 else None)"
| "strstr (c # cs) needle =
     (if take (length needle) (c # cs) = needle then Some 0 else map_option Suc (strstr cs needle))"

definition isalnum :: "char \<Rightarrow> bool" where
  "isalnum c \<longleftrightarrow> c \<in> set ''0123456789abcdefghijklmnopqrstuvwxyzABCDEFGHIJKLMNOPQRSTUVWXYZ''"

definition isspace :: "char \<Rightarrow> bool" where
  "isspace c \<longleftrightarrow> c \<in> {CHR '' '', CHR 0x09, CHR 0x0A, CHR 0x0B, CHR 0x0C, CHR 0x0D}"

definition digit :: "char \<Rightarrow> int option" where
  "digit c = (let d = int (of_char c) - 48 in if 0 \<le> d \<and> d \<le> 9 then Some d else None)"

fun digits :: "int \<Rightarrow> string \<Rightarrow> int" where
  "digits acc [] = acc"
| "digits acc (c # cs) = (case digit c of None \<Rightarrow> acc | Some d \<Rightarrow> digits (10 * acc + d) cs)"

text \<open>\<open>atoi\<close>: \<^verbatim>\<open>strtol\<close>, which saturates at the limits of a \<^verbatim>\<open>long\<close>, converted to \<open>int\<close>.\<close>

definition atoi :: "string \<Rightarrow> int" where
  "atoi s =
     (let t = dropWhile isspace s;
          v = (case t of
                 [] \<Rightarrow> 0
               | c # cs \<Rightarrow> if c = CHR ''-'' then - digits 0 cs
                           else if c = CHR ''+'' then digits 0 cs else digits 0 t)
      in c_int (max (- (2 ^ 63)) (min (2 ^ 63 - 1) v)))"

section \<open>The options\<close>

record opts_t =
  keep_stats :: bool
  use_autodetect :: bool
  use_threads :: nat
  max_buffers :: nat
  loghttpservererrors :: bool

text \<open>The initial values; \<open>use_threads\<close> is an \<^verbatim>\<open>unsigned int\<close> set to \<open>-1\<close>.\<close>

definition default_opts :: opts_t where
  "default_opts = \<lparr>keep_stats = False, use_autodetect = True, use_threads = c_uint (-1),
     max_buffers = 50, loghttpservererrors = True\<rparr>"

text \<open>An unknown option is only reported on standard error.\<close>

definition do_option :: "opts_t \<Rightarrow> string \<Rightarrow> opts_t" where
  "do_option g option =
     (if option = [] then g
      else if option = ''stats'' then g\<lparr>keep_stats := True\<rparr>
      else if option = ''nothreads'' then g\<lparr>use_threads := 0\<rparr>
      else if option = ''nologhttpservererrors'' then g\<lparr>loghttpservererrors := False\<rparr>
      else if option = ''noautodetect'' then g\<lparr>use_autodetect := False\<rparr>
      else if take 8 option = ''threads='' then g\<lparr>use_threads := c_uint (atoi (drop 8 option))\<rparr>
      else if take 8 option = ''buffers='' then g\<lparr>max_buffers := c_uint (atoi (drop 8 option))\<rparr>
      else g)"

text \<open>
  \<open>parse_env\<close> collects characters in \<open>char option[1024]\<close>: \<open>op\<close> is what has been collected. The
  loop stops when the array is full, and then the terminating \<open>*op = 0\<close> is a write one past its
  end: \<open>None\<close>.
\<close>

definition OPTION_SIZE :: nat where
  "OPTION_SIZE = 1024"

fun parse_loop :: "opts_t \<Rightarrow> string \<Rightarrow> string \<Rightarrow> opts_t option" where
  "parse_loop g op [] = (if length op < OPTION_SIZE then Some (do_option g op) else None)"
| "parse_loop g op (c # cs) =
     (if length op < OPTION_SIZE
      then if c = CHR '','' then parse_loop (do_option g op) [] cs else parse_loop g (op @ [c]) cs
      else None)"

definition parse_env :: "opts_t \<Rightarrow> string option \<Rightarrow> opts_t option" where
  "parse_env g env = (case env of None \<Rightarrow> Some g | Some str \<Rightarrow> parse_loop g [] str)"

text \<open>The specification: the options are the comma-separated parts of the string.\<close>

fun split_commas :: "string \<Rightarrow> string list" where
  "split_commas [] = [[]]"
| "split_commas (c # cs) =
     (if c = CHR '','' then [] # split_commas cs
      else case split_commas cs of [] \<Rightarrow> [[c]] | p # ps \<Rightarrow> (c # p) # ps)"

lemma split_commas_Cons: "\<exists>p ps. split_commas s = p # ps"
  by (induction s) (auto split: list.splits)

lemma parse_loop_split:
  assumes "split_commas s = p # ps"
  shows "parse_loop g op s =
    (if list_all (\<lambda>q. length q < OPTION_SIZE) ((op @ p) # ps)
     then Some (foldl do_option g ((op @ p) # ps)) else None)"
  using assms
proof (induction s arbitrary: g op p ps)
  case Nil
  then show ?case by auto
next
  case (Cons c cs)
  obtain q qs where q: "split_commas cs = q # qs" using split_commas_Cons by blast
  show ?case
  proof (cases "c = CHR '',''")
    case True
    with Cons.prems q have "p = []" "ps = q # qs" by auto
    with True Cons.IH [OF q] show ?thesis by auto
  next
    case False
    with Cons.prems q have "p = c # q" "ps = qs" by auto
    with False Cons.IH [OF q, of g "op @ [c]"] show ?thesis by auto
  qed
qed

text \<open>C30: \<open>parse_env\<close> applies \<open>do_option\<close> to the comma-separated parts of \<^verbatim>\<open>LIBTRACEIO\<close>, from
  left to right, exactly when every part is shorter than 1024 characters; a longer part makes it
  write past its array.\<close>

theorem parse_env_spec:
  "parse_env g (Some str) =
    (if list_all (\<lambda>q. length q < 1024) (split_commas str)
     then Some (foldl do_option g (split_commas str)) else None)"
proof -
  obtain p ps where "split_commas str = p # ps" using split_commas_Cons by blast
  from parse_loop_split [OF this, of g "[]"] this show ?thesis
    by (simp add: parse_env_def OPTION_SIZE_def)
qed

section \<open>Compression methods\<close>

definition WANDIO_COMPRESS_NONE :: int where "WANDIO_COMPRESS_NONE = 0"
definition WANDIO_COMPRESS_ZLIB :: int where "WANDIO_COMPRESS_ZLIB = 1"
definition WANDIO_COMPRESS_BZ2 :: int where "WANDIO_COMPRESS_BZ2 = 2"
definition WANDIO_COMPRESS_LZO :: int where "WANDIO_COMPRESS_LZO = 3"
definition WANDIO_COMPRESS_LZMA :: int where "WANDIO_COMPRESS_LZMA = 4"
definition WANDIO_COMPRESS_ZSTD :: int where "WANDIO_COMPRESS_ZSTD = 5"
definition WANDIO_COMPRESS_LZ4 :: int where "WANDIO_COMPRESS_LZ4 = 6"
definition WANDIO_COMPRESS_MASK :: int where "WANDIO_COMPRESS_MASK = 7"

lemmas wandio_compress_defs = WANDIO_COMPRESS_NONE_def WANDIO_COMPRESS_ZLIB_def
  WANDIO_COMPRESS_BZ2_def WANDIO_COMPRESS_LZO_def WANDIO_COMPRESS_LZMA_def
  WANDIO_COMPRESS_ZSTD_def WANDIO_COMPRESS_LZ4_def WANDIO_COMPRESS_MASK_def

record compression_type_t =
  ct_name :: string
  ct_ext :: string
  ct_type :: int

definition compression_type :: "compression_type_t list" where
  "compression_type =
     [\<lparr>ct_name = ''gzip'', ct_ext = ''gz'', ct_type = WANDIO_COMPRESS_ZLIB\<rparr>,
      \<lparr>ct_name = ''bzip2'', ct_ext = ''bz2'', ct_type = WANDIO_COMPRESS_BZ2\<rparr>,
      \<lparr>ct_name = ''lzo'', ct_ext = ''lzo'', ct_type = WANDIO_COMPRESS_LZO\<rparr>,
      \<lparr>ct_name = ''lzma'', ct_ext = ''xz'', ct_type = WANDIO_COMPRESS_LZMA\<rparr>,
      \<lparr>ct_name = ''zstd'', ct_ext = ''zst'', ct_type = WANDIO_COMPRESS_ZSTD\<rparr>,
      \<lparr>ct_name = ''lz4'', ct_ext = ''lz4'', ct_type = WANDIO_COMPRESS_LZ4\<rparr>,
      \<lparr>ct_name = ''NONE'', ct_ext = [], ct_type = WANDIO_COMPRESS_NONE\<rparr>]"

text \<open>The two searches: up to and including the \<open>NONE\<close> entry, and up to it.\<close>

fun ctype_search :: "compression_type_t list \<Rightarrow> int \<Rightarrow> string" where
  "ctype_search [] t = ''unknown''"
| "ctype_search (e # es) t =
     (if ct_type e = t then ct_name e
      else if ct_type e = WANDIO_COMPRESS_NONE then ''unknown'' else ctype_search es t)"

definition ctype_name :: "int \<Rightarrow> string" where
  "ctype_name t = ctype_search compression_type t"

fun lookup_search :: "compression_type_t list \<Rightarrow> string \<Rightarrow> compression_type_t option" where
  "lookup_search [] name = None"
| "lookup_search (e # es) name =
     (if ct_name e = ''NONE'' then None else if ct_name e = name then Some e
      else lookup_search es name)"

definition wandio_lookup_compression_type :: "string \<Rightarrow> compression_type_t option" where
  "wandio_lookup_compression_type name = lookup_search compression_type name"

text \<open>\<open>strcmp\<close> on the last \<open>strlen suffix\<close> characters, guarded by the length test.\<close>

definition has_suffix :: "string \<Rightarrow> string \<Rightarrow> bool" where
  "has_suffix filename sfx \<longleftrightarrow>
     length sfx \<le> length filename \<and> drop (length filename - length sfx) filename = sfx"

definition wandio_detect_compression_type :: "string \<Rightarrow> int" where
  "wandio_detect_compression_type filename =
     (if has_suffix filename ''.gz'' then WANDIO_COMPRESS_ZLIB
      else if has_suffix filename ''.bz2'' then WANDIO_COMPRESS_BZ2
      else if has_suffix filename ''.xz'' then WANDIO_COMPRESS_LZMA
      else if has_suffix filename ''.lzo'' then WANDIO_COMPRESS_LZO
      else if has_suffix filename ''.lz4'' then WANDIO_COMPRESS_LZ4
      else if has_suffix filename ''.zst'' then WANDIO_COMPRESS_ZSTD
      else WANDIO_COMPRESS_NONE)"

lemma has_suffix_iff: "has_suffix f sfx \<longleftrightarrow> (\<exists>stem. f = stem @ sfx)"
proof
  assume "has_suffix f sfx"
  then have "f = take (length f - length sfx) f @ sfx"
    unfolding has_suffix_def by (metis append_take_drop_id)
  then show "\<exists>stem. f = stem @ sfx" ..
qed (auto simp: has_suffix_def)

text \<open>Read backwards, the test is on the first characters and decides at once.\<close>

lemma has_suffix_rev: "has_suffix f sfx \<longleftrightarrow> take (length sfx) (rev f) = rev sfx"
proof -
  have "take (length sfx) (rev f) = rev (drop (length f - length sfx) f)"
    by (simp add: take_rev)
  moreover have "drop (length f - length sfx) f = sfx \<Longrightarrow> length sfx \<le> length f"
    by (metis length_drop diff_le_self)
  ultimately show ?thesis by (auto simp: has_suffix_def)
qed

lemma detect_ext [simp]:
  "wandio_detect_compression_type (stem @ ''.gz'') = WANDIO_COMPRESS_ZLIB"
  "wandio_detect_compression_type (stem @ ''.bz2'') = WANDIO_COMPRESS_BZ2"
  "wandio_detect_compression_type (stem @ ''.xz'') = WANDIO_COMPRESS_LZMA"
  "wandio_detect_compression_type (stem @ ''.lzo'') = WANDIO_COMPRESS_LZO"
  "wandio_detect_compression_type (stem @ ''.lz4'') = WANDIO_COMPRESS_LZ4"
  "wandio_detect_compression_type (stem @ ''.zst'') = WANDIO_COMPRESS_ZSTD"
  by (simp_all add: wandio_detect_compression_type_def has_suffix_rev)

text \<open>The method a name's extension stands for is the method of the table whose extension it is:
  a file named with the extension of any entry (\<open>wandiocat\<close> and libtrace build names so) is
  detected as that entry, and looking the entry's name up finds the entry again.\<close>

theorem detect_table_roundtrip:
  assumes "e \<in> set compression_type" "ct_ext e \<noteq> []"
  shows "wandio_detect_compression_type (stem @ ''.'' @ ct_ext e) = ct_type e \<and>
    wandio_lookup_compression_type (ct_name e) = Some e \<and> ctype_name (ct_type e) = ct_name e"
proof -
  have "list_all (\<lambda>e. ct_ext e \<noteq> [] \<longrightarrow> wandio_lookup_compression_type (ct_name e) = Some e \<and>
      ctype_name (ct_type e) = ct_name e) compression_type"
    by code_simp
  with assms have "wandio_lookup_compression_type (ct_name e) = Some e \<and>
      ctype_name (ct_type e) = ct_name e"
    by (simp add: list_all_iff)
  moreover have "ct_ext e = ''gz'' \<and> ct_type e = WANDIO_COMPRESS_ZLIB \<or>
      ct_ext e = ''bz2'' \<and> ct_type e = WANDIO_COMPRESS_BZ2 \<or>
      ct_ext e = ''lzo'' \<and> ct_type e = WANDIO_COMPRESS_LZO \<or>
      ct_ext e = ''xz'' \<and> ct_type e = WANDIO_COMPRESS_LZMA \<or>
      ct_ext e = ''zst'' \<and> ct_type e = WANDIO_COMPRESS_ZSTD \<or>
      ct_ext e = ''lz4'' \<and> ct_type e = WANDIO_COMPRESS_LZ4"
    using assms by (auto simp: compression_type_def)
  then have "wandio_detect_compression_type (stem @ ''.'' @ ct_ext e) = ct_type e"
    by (elim disjE conjE) simp_all
  ultimately show ?thesis by blast
qed

theorem detect_table_roundtrip_witness:
  "wandio_detect_compression_type ''trace.bz2'' = WANDIO_COMPRESS_BZ2"
  using detect_table_roundtrip
    [of "\<lparr>ct_name = ''bzip2'', ct_ext = ''bz2'', ct_type = WANDIO_COMPRESS_BZ2\<rparr>" "''trace''"]
  by (simp add: compression_type_def)

section \<open>Which names are URLs\<close>

text \<open>A name with \<^verbatim>\<open>://\<close> after nothing but letters and digits is not a standard file.\<close>

definition is_url :: "string \<Rightarrow> bool" where
  "is_url filename =
     (case strstr filename ''://'' of
        None \<Rightarrow> False
      | Some i \<Rightarrow> list_all isalnum (take i filename))"

definition is_swift :: "string \<Rightarrow> bool" where
  "is_swift filename = (strstr filename ''swift://'' \<noteq> None)"

end
