(* ===== verification/Wandio_Api.thy ===== *)
theory Wandio_Api
  imports Wandio_Options Stdio_Reader Stdio_Writer Peek_Reader
begin

text \<open>
  The rest of \<^verbatim>\<open>lib/wandio.c\<close>: how \<open>wandio_create\<close> and \<open>wandio_wcreate\<close> choose and stack
  the modules, line reading (\<open>wandio_fgets\<close>) and formatted output (\<open>wandio_vprintf\<close>).

  Which modules exist depends on the build (\<open>build_t\<close>) and whether a module's open call
  succeeds on the library below it (\<open>opens\<close>); both are parameters. A pipeline is the list of its
  modules from the file upwards.
\<close>

unbundle bit_operations_syntax

section \<open>Modules and build configuration\<close>

datatype io_module = M_stdio | M_http | M_swift | M_peek | M_thread
  | M_qat | M_zlib | M_bzip | M_lzma | M_zstd_lz4 | M_lzo | M_zstd | M_lz4

record build_t =
  HAVE_HTTP :: bool
  HAVE_LIBQATZIP :: bool
  HAVE_LIBZ :: bool
  HAVE_LIBBZ2 :: bool
  HAVE_LIBLZO2 :: bool
  HAVE_LIBLZMA :: bool
  HAVE_LIBZSTD :: bool
  HAVE_LIBLZ4F :: bool

section \<open>Recognising a compressed stream\<close>

text \<open>
  Each test of \<open>create_io_reader\<close> has the current module \<open>io\<close> (\<open>None\<close> is NULL) and gives the
  next one; the outer \<open>None\<close> is the early \<open>return NULL\<close> of a format the build does not support.
  \<open>opened\<close> is an open call.
\<close>

definition opened :: "(io_module \<Rightarrow> bool) \<Rightarrow> io_module \<Rightarrow> io_module option" where
  "opened opens m = (if opens m then Some m else None)"

definition starts :: "int \<Rightarrow> byte list \<Rightarrow> int \<Rightarrow> byte list \<Rightarrow> bool" where
  "starts len buffer need magic \<longleftrightarrow> need \<le> len \<and> take (length magic) buffer = magic"

definition sniff_gzip :: "build_t \<Rightarrow> (io_module \<Rightarrow> bool) \<Rightarrow> int \<Rightarrow> byte list \<Rightarrow> io_module option \<Rightarrow>
    io_module option option" where
  "sniff_gzip b opens len buffer io =
     (if starts len buffer 3 [0x1f, 0x8b, 0x08]
      then let io1 = (if HAVE_LIBQATZIP b then opened opens M_qat else io);
               io2 = (if HAVE_LIBZ b \<and> io1 = None then opened opens M_zlib else io1)
           in if io2 = None then None else Some io2
      else Some io)"

definition sniff_one :: "bool \<Rightarrow> (io_module \<Rightarrow> bool) \<Rightarrow> io_module \<Rightarrow> bool \<Rightarrow> io_module option \<Rightarrow>
    io_module option option" where
  "sniff_one have_lib opens m matches io =
     (if matches then if have_lib then Some (opened opens m) else None else Some io)"

definition sniff :: "build_t \<Rightarrow> (io_module \<Rightarrow> bool) \<Rightarrow> int \<Rightarrow> byte list \<Rightarrow> io_module option option" where
  "sniff b opens len buffer =
     do { io1 \<leftarrow> sniff_gzip b opens len buffer None;
          io2 \<leftarrow> sniff_one (HAVE_LIBZ b) opens M_zlib (starts len buffer 2 [0x1f, 0x9d]) io1;
          io3 \<leftarrow> sniff_one (HAVE_LIBBZ2 b) opens M_bzip (starts len buffer 3 [0x42, 0x5a, 0x68]) io2;
          io4 \<leftarrow> sniff_one (HAVE_LIBLZMA b) opens M_lzma
                   (starts len buffer 5 [0xfd, 0x37, 0x7a, 0x58, 0x5a]) io3;
          io5 \<leftarrow> sniff_one (HAVE_LIBZSTD b) opens M_zstd_lz4
                   (starts len buffer 6 [0x28, 0xb5, 0x2f, 0xfd]) io4;
          io6 \<leftarrow> sniff_one (HAVE_LIBLZ4F b) opens M_zstd_lz4
                   (starts len buffer 6 [0x04, 0x22, 0x4d, 0x18]) io5;
          sniff_one (HAVE_LIBLZ4F b \<or> HAVE_LIBZSTD b) opens M_zstd_lz4
            (6 \<le> len \<and> (hd buffer AND 0xf0) = 0x50 \<and> take 3 (tl buffer) = [0x2a, 0x4d, 0x18]) io6 }"

section \<open>Opening for reading\<close>

text \<open>
  The base reader is of a type \<open>'b\<close> with the function table \<open>src\<close>; \<open>open_stdio\<close>, \<open>open_swift\<close>
  and \<open>open_http\<close> are its open calls. The result is NULL, or the modules of the pipeline and the
  state of the lower peeking reader, which the modules above it read from.
\<close>

record 'b base_t =
  open_stdio :: "string \<Rightarrow> 'b option"
  open_swift :: "string \<Rightarrow> 'b option"
  open_http :: "string \<Rightarrow> 'b option"
  base_src :: "'b io_source_t"

definition open_base :: "build_t \<Rightarrow> 'b base_t \<Rightarrow> string \<Rightarrow> (io_module \<times> 'b) option" where
  "open_base b env filename =
     (if \<not> is_url filename then map_option (Pair M_stdio) (open_stdio env filename)
      else if \<not> HAVE_HTTP b then None
      else if is_swift filename then map_option (Pair M_swift) (open_swift env filename)
      else map_option (Pair M_http) (open_http env filename))"

definition create_io_reader :: "build_t \<Rightarrow> (io_module \<Rightarrow> bool) \<Rightarrow> (nat \<Rightarrow> int) \<Rightarrow> 'b base_t \<Rightarrow> opts_t \<Rightarrow>
    string \<Rightarrow> bool \<Rightarrow> (io_module list \<times> 'b peek_t) option option" where
  "create_io_reader b opens alloc env g filename autodetect =
     (case open_base b env filename of
        None \<Rightarrow> Some None
      | Some (m, io) \<Rightarrow>
          (case peek_open (Some io) of
             None \<Rightarrow> Some None
           | Some base \<Rightarrow> do {
               (len, buffer, base') \<leftarrow> peek_peek (wandio_read (base_src env)) alloc base 0 1024;
               let found = (if autodetect then sniff b opens (c_int len) buffer else Some None);
               Some (case found of
                   None \<Rightarrow> None
                 | Some io \<Rightarrow>
                     Some ([m, M_peek] @ (case io of None \<Rightarrow> [] | Some f \<Rightarrow> [f]) @
                           (if use_threads g \<noteq> 0 then [M_thread] else []) @ [M_peek], base')) }))"

definition wandio_create :: "build_t \<Rightarrow> (io_module \<Rightarrow> bool) \<Rightarrow> (nat \<Rightarrow> int) \<Rightarrow> 'b base_t \<Rightarrow> opts_t \<Rightarrow>
    string option \<Rightarrow> string \<Rightarrow> (io_module list \<times> 'b peek_t) option option" where
  "wandio_create b opens alloc env g libtraceio filename =
     do { g' \<leftarrow> parse_env g libtraceio;
          create_io_reader b opens alloc env g' filename (use_autodetect g') }"

definition wandio_create_uncompressed :: "build_t \<Rightarrow> (io_module \<Rightarrow> bool) \<Rightarrow> (nat \<Rightarrow> int) \<Rightarrow>
    'b base_t \<Rightarrow> opts_t \<Rightarrow> string option \<Rightarrow> string \<Rightarrow> (io_module list \<times> 'b peek_t) option option" where
  "wandio_create_uncompressed b opens alloc env g libtraceio filename =
     do { g' \<leftarrow> parse_env g libtraceio; create_io_reader b opens alloc env g' filename False }"

section \<open>Opening for writing\<close>

text \<open>The result is the pipeline (\<open>None\<close>: a module's open call failed, NULL is returned) and whether
  the "not built with support" warning is printed; the outer \<open>None\<close> is a failed assertion.\<close>

definition wcreate_module :: "build_t \<Rightarrow> (io_module \<Rightarrow> bool) \<Rightarrow> int \<Rightarrow> io_module list option" where
  "wcreate_module b opens compress_type =
     (let base = Some [];
          sel = (\<lambda>m. map_option (\<lambda>x. [x]) (opened opens m));
          iow1 = (if compress_type = WANDIO_COMPRESS_ZLIB
                  then let q = (if HAVE_LIBQATZIP b then sel M_qat else base)
                       in if HAVE_LIBZ b \<and> (q = None \<or> q = base) then sel M_zlib else q
                  else base);
          iow2 = (if HAVE_LIBLZO2 b \<and> compress_type = WANDIO_COMPRESS_LZO then sel M_lzo else iow1);
          iow3 = (if HAVE_LIBBZ2 b \<and> compress_type = WANDIO_COMPRESS_BZ2 then sel M_bzip else iow2);
          iow4 = (if HAVE_LIBLZMA b \<and> compress_type = WANDIO_COMPRESS_LZMA then sel M_lzma else iow3);
          iow5 = (if HAVE_LIBZSTD b \<and> compress_type = WANDIO_COMPRESS_ZSTD then sel M_zstd else iow4)
      in if HAVE_LIBLZ4F b \<and> compress_type = WANDIO_COMPRESS_LZ4 then sel M_lz4 else iow5)"

definition wandio_wcreate :: "build_t \<Rightarrow> (io_module \<Rightarrow> bool) \<Rightarrow> (string \<Rightarrow> int \<Rightarrow> 'w option) \<Rightarrow> opts_t \<Rightarrow>
    string option \<Rightarrow> string \<Rightarrow> int \<Rightarrow> int \<Rightarrow> int \<Rightarrow> ((io_module list \<times> 'w) option \<times> bool) option" where
  "wandio_wcreate b opens wopen g libtraceio filename compress_type compression_level flags =
     do { g' \<leftarrow> parse_env g libtraceio;
          c_assert (0 \<le> compression_level \<and> compression_level \<le> 9);
          c_assert (compress_type \<noteq> WANDIO_COMPRESS_MASK);
          Some (case wopen filename flags of
              None \<Rightarrow> (None, False)
            | Some base \<Rightarrow>
                let iow = (if compression_level \<noteq> 0 then wcreate_module b opens compress_type else Some []);
                    warned = (compress_type \<noteq> WANDIO_COMPRESS_NONE \<and> iow = Some [])
                in (case iow of
                      None \<Rightarrow> (None, warned)
                    | Some ms \<Rightarrow> (Some (M_stdio # ms @ (if use_threads g' \<noteq> 0 then [M_thread] else []),
                                      base), warned))) }"

section \<open>Lines and formatted output\<close>

text \<open>
  \<open>wandio_generic_fgets\<close>: \<open>k\<close> is how often the loop may still run, \<open>buf\<close> what is stored so far;
  the result is the return value and the contents of the caller's buffer. The newline is 10. The
  counter \<^verbatim>\<open>i\<close> is an \<^verbatim>\<open>int\<close> in the code, so the model is that of lines below \<open>2 ^ 31\<close> bytes.
\<close>

fun fgets_loop :: "'s read_fn \<Rightarrow> nat \<Rightarrow> bool \<Rightarrow> nat \<Rightarrow> 's \<Rightarrow> byte list \<Rightarrow> (int \<times> byte list \<times> 's) option" where
  "fgets_loop read_cb a chomp 0 file buf = Some (int (length buf), buf @ [0], file)"
| "fgets_loop read_cb a chomp (Suc k) file buf =
     do { (r, bs, file') \<leftarrow> read_cb file a 1;
          let rval = c_int r;
          if rval < 0 then Some (rval, buf, file')
          else if rval = 0 then Some (int (length buf), buf @ [0], file')
          else let cbuf = hd bs
               in if cbuf = 10
                  then let buf' = buf @ [if chomp then 0 else cbuf]
                       in Some (int (length buf'), buf' @ [0], file')
                  else fgets_loop read_cb a chomp k file' (buf @ [cbuf]) }"

definition wandio_generic_fgets :: "'s option \<Rightarrow> bool \<Rightarrow> int \<Rightarrow> bool \<Rightarrow> 's read_fn \<Rightarrow> nat \<Rightarrow>
    (int \<times> byte list \<times> 's) option" where
  "wandio_generic_fgets file buffer_is_null len chomp read_cb a =
     (case file of
        None \<Rightarrow> None
      | Some s \<Rightarrow> if buffer_is_null \<or> len \<le> 0 then Some (0, [], s)
                  else fgets_loop read_cb a chomp (nat (len - 1)) s [])"

definition wandio_fgets :: "'s io_source_t \<Rightarrow> 's option \<Rightarrow> bool \<Rightarrow> int \<Rightarrow> bool \<Rightarrow> nat \<Rightarrow>
    (int \<times> byte list \<times> 's) option" where
  "wandio_fgets src file buffer_is_null len chomp a =
     wandio_generic_fgets file buffer_is_null len chomp (wandio_read src) a"

text \<open>\<open>vasprintf\<close> is a C library call: \<open>formatted\<close> is its negative result or the bytes it made.\<close>

definition wandio_vprintf :: "'w iow_source_t \<Rightarrow> 'w option \<Rightarrow> int + byte list \<Rightarrow> (int \<times> 'w) option" where
  "wandio_vprintf src file formatted =
     (case file of
        None \<Rightarrow> None
      | Some w \<Rightarrow> (case formatted of
            Inl ret \<Rightarrow> Some (ret, w)
          | Inr buf \<Rightarrow> if length buf = c_uint (int (length buf)) then wandio_wwrite src w buf
                      else Some (0, w)))"

definition wandio_printf :: "'w iow_source_t \<Rightarrow> 'w option \<Rightarrow> int + byte list \<Rightarrow> (int \<times> 'w) option" where
  "wandio_printf src file formatted = wandio_vprintf src file formatted"

section \<open>What is recognised\<close>

text \<open>The specification of the sniffing: the format whose magic number starts the stream, and the
  module that reads it. The tests exclude each other, so their order does not matter.\<close>

datatype format = F_gzip | F_compress | F_bzip2 | F_xz | F_zstd | F_lz4 | F_skippable

definition recognise :: "int \<Rightarrow> byte list \<Rightarrow> format option" where
  "recognise len buffer =
     (if starts len buffer 3 [0x1f, 0x8b, 0x08] then Some F_gzip
      else if starts len buffer 2 [0x1f, 0x9d] then Some F_compress
      else if starts len buffer 3 [0x42, 0x5a, 0x68] then Some F_bzip2
      else if starts len buffer 5 [0xfd, 0x37, 0x7a, 0x58, 0x5a] then Some F_xz
      else if starts len buffer 6 [0x28, 0xb5, 0x2f, 0xfd] then Some F_zstd
      else if starts len buffer 6 [0x04, 0x22, 0x4d, 0x18] then Some F_lz4
      else if 6 \<le> len \<and> (hd buffer AND 0xf0) = 0x50 \<and> take 3 (tl buffer) = [0x2a, 0x4d, 0x18]
      then Some F_skippable else None)"

definition module_for :: "build_t \<Rightarrow> (io_module \<Rightarrow> bool) \<Rightarrow> format \<Rightarrow> io_module option option" where
  "module_for b opens f =
     (case f of
        F_gzip \<Rightarrow> if HAVE_LIBQATZIP b \<and> opens M_qat then Some (Some M_qat)
                  else if HAVE_LIBZ b \<and> opens M_zlib then Some (Some M_zlib) else None
      | F_compress \<Rightarrow> if HAVE_LIBZ b then Some (opened opens M_zlib) else None
      | F_bzip2 \<Rightarrow> if HAVE_LIBBZ2 b then Some (opened opens M_bzip) else None
      | F_xz \<Rightarrow> if HAVE_LIBLZMA b then Some (opened opens M_lzma) else None
      | F_zstd \<Rightarrow> if HAVE_LIBZSTD b then Some (opened opens M_zstd_lz4) else None
      | F_lz4 \<Rightarrow> if HAVE_LIBLZ4F b then Some (opened opens M_zstd_lz4) else None
      | F_skippable \<Rightarrow> if HAVE_LIBLZ4F b \<or> HAVE_LIBZSTD b then Some (opened opens M_zstd_lz4) else None)"

lemma starts_hd: "starts len buffer need (x # xs) \<Longrightarrow> \<exists>cs. buffer = x # cs"
  by (cases buffer) (auto simp: starts_def)

lemma starts_Cons:
  "starts len (y # cs) need (x # xs) \<longleftrightarrow> y = x \<and> starts len cs need xs"
  by (auto simp: starts_def)

text \<open>The first byte (or the second) tells the formats apart.\<close>

lemma magic_exclusive:
  "starts len buffer 3 [0x1f, 0x8b, 0x08] \<Longrightarrow> \<not> starts len buffer 2 [0x1f, 0x9d]"
  "starts len buffer n (x # xs) \<Longrightarrow> x \<noteq> y \<Longrightarrow> \<not> starts len buffer m (y # ys)"
proof -
  show "\<not> starts len buffer m (y # ys)" if "starts len buffer n (x # xs)" "x \<noteq> y"
    using starts_hd [OF that(1)] starts_hd [of len buffer m y ys] that(2) by auto
  show "\<not> starts len buffer 2 [0x1f, 0x9d]" if "starts len buffer 3 [0x1f, 0x8b, 0x08]"
  proof
    assume two: "starts len buffer 2 [0x1f, 0x9d]"
    from starts_hd [OF that] obtain cs where cs: "buffer = 0x1f # cs" by blast
    with that two have "starts len cs 3 [0x8b, 0x08]" "starts len cs 2 [0x9d]"
      by (simp_all only: starts_Cons simp_thms)
    then show False using starts_hd [of len cs 3 "0x8b" "[0x08]"] starts_hd [of len cs 2 "0x9d" "[]"]
      by auto
  qed
qed

lemma magic_not_skippable:
  "starts len buffer n (x # xs) \<Longrightarrow> (x AND 0xf0) \<noteq> 0x50 \<Longrightarrow> (hd buffer AND 0xf0) \<noteq> 0x50"
  using starts_hd [of len buffer n x xs] by auto

text \<open>C26: \<open>create_io_reader\<close> picks the module of the one format whose magic number the stream starts
  with; NULL is returned exactly when the build lacks that format (or, for gzip, no gzip module
  opens); the later tests never override an earlier match.\<close>

theorem sniff_recognises:
  "sniff b opens len buffer =
    (case recognise len buffer of None \<Rightarrow> Some None | Some f \<Rightarrow> module_for b opens f)"
proof -
  note excl = magic_exclusive(2) [of len buffer]
  have ns: "\<not> (hd buffer AND 0xf0) = 0x50" if "starts len buffer n (x # xs)"
    "x \<in> {0x1f, 0x42, 0xfd, 0x28, 0x04}" for n x xs
    using magic_not_skippable [OF that(1)] that(2) by auto
  consider "starts len buffer 3 [0x1f, 0x8b, 0x08]" | "starts len buffer 2 [0x1f, 0x9d]"
    | "starts len buffer 3 [0x42, 0x5a, 0x68]" | "starts len buffer 5 [0xfd, 0x37, 0x7a, 0x58, 0x5a]"
    | "starts len buffer 6 [0x28, 0xb5, 0x2f, 0xfd]" | "starts len buffer 6 [0x04, 0x22, 0x4d, 0x18]"
    | "\<not> starts len buffer 3 [0x1f, 0x8b, 0x08]" "\<not> starts len buffer 2 [0x1f, 0x9d]"
      "\<not> starts len buffer 3 [0x42, 0x5a, 0x68]" "\<not> starts len buffer 5 [0xfd, 0x37, 0x7a, 0x58, 0x5a]"
      "\<not> starts len buffer 6 [0x28, 0xb5, 0x2f, 0xfd]" "\<not> starts len buffer 6 [0x04, 0x22, 0x4d, 0x18]"
    by blast
  then show ?thesis
  proof cases
    case 1
    then show ?thesis using magic_exclusive(1) [OF 1] excl [OF 1] ns [OF 1]
      by (auto simp: sniff_def sniff_gzip_def sniff_one_def recognise_def module_for_def opened_def Let_def)
  next
    case 2
    then have "\<not> starts len buffer 3 [0x1f, 0x8b, 0x08]" using magic_exclusive(1) by blast
    with 2 excl [OF 2] ns [OF 2] show ?thesis
      by (auto simp: sniff_def sniff_gzip_def sniff_one_def recognise_def module_for_def)
  next
    case 7
    then show ?thesis by (auto simp: sniff_def sniff_gzip_def sniff_one_def recognise_def module_for_def)
  qed (use excl ns in \<open>auto simp: sniff_def sniff_gzip_def sniff_one_def recognise_def module_for_def\<close>)
qed

section \<open>Opening a file loses nothing\<close>

text \<open>C27: whatever the base reader, when \<open>create_io_reader\<close> returns a reader the header it looked at
  is still there: the lower peeking reader owes exactly the bytes the base reader owed, the header
  was a prefix of them, and the module above it is the one that prefix stands for.\<close>

theorem create_io_reader_keeps_input:
  assumes "reader (wandio_read (base_src env)) cinv cpending any_size"
    and "open_base b env filename = Some (m, io)" "cinv io"
    and "create_io_reader b opens alloc_ok env g filename True = Some (Some (ms, base'))"
  shows "\<exists>buffer len. peek_pending cpending base' = cpending io \<and> prefix buffer (cpending io) \<and>
    (case sniff b opens len buffer of None \<Rightarrow> False
     | Some found \<Rightarrow> ms = [m, M_peek] @ (case found of None \<Rightarrow> [] | Some f \<Rightarrow> [f]) @
         (if use_threads g \<noteq> 0 then [M_thread] else []) @ [M_peek])"
proof -
  let ?base = "\<lparr>child = io, pbuffer = Null, plength = 0, poffset = 0\<rparr>"
  have op: "peek_open (Some io) = Some ?base" by (simp add: peek_open_def)
  obtain r buffer where run: "peek_peek (wandio_read (base_src env)) alloc_ok ?base 0 1024 = Some (r, buffer, base')"
    and found: "(case sniff b opens (c_int r) buffer of None \<Rightarrow> False
      | Some found \<Rightarrow> ms = [m, M_peek] @ (case found of None \<Rightarrow> [] | Some f \<Rightarrow> [f]) @
         (if use_threads g \<noteq> 0 then [M_thread] else []) @ [M_peek])"
    using assms(2,4) op
    by (auto simp: create_io_reader_def bind_eq_Some_conv split: option.splits)
  note over = peek_over_peekable [OF assms(1)]
  have base: "peek_inv cinv ?base" "peek_ready ?base" "peek_pending cpending ?base = cpending io"
    using assms(3) by (simp_all add: peek_inv_def peek_shape_def peek_ready_def peek_pending_def
        peek_buffered_def)
  have "peek_pending cpending base' = cpending io \<and> prefix buffer (cpending io)"
    using peekable.pk_keeps [OF over base(1,2) run]
      peekable.pk_data [OF over base(1,2) run] base(3) by simp
  with found show ?thesis by blast
qed

definition full_build :: build_t where
  "full_build = \<lparr>HAVE_HTTP = True, HAVE_LIBQATZIP = False, HAVE_LIBZ = True, HAVE_LIBBZ2 = True,
     HAVE_LIBLZO2 = True, HAVE_LIBLZMA = True, HAVE_LIBZSTD = True, HAVE_LIBLZ4F = True\<rparr>"

definition file_env :: "byte list \<Rightarrow> io_event list \<Rightarrow> stdio_t base_t" where
  "file_env bs plan = \<lparr>open_stdio = (\<lambda>_. Some \<lparr>fd = demo_fd bs plan\<rparr>), open_swift = (\<lambda>_. None),
     open_http = (\<lambda>_. None), base_src = stdio_source\<rparr>"

lemmas api_run_defs = create_io_reader_def open_base_def file_env_def is_url_def peek_open_def
  sniff_recognises recognise_def starts_def module_for_def opened_def full_build_def
  wandio_read_def stdio_source_def c_int_def default_opts_def

lemma file_env_stdio: "reader (wandio_read (base_src (file_env bs plan))) stdio_inv stdio_pending any_size"
  using stdio.reader_axioms by (simp add: file_env_def wandio_read_def [abs_def] stdio_source_def)

theorem create_io_reader_keeps_input_witness:
  "\<exists>ms base'. create_io_reader full_build (\<lambda>_. True) alloc_ok (file_env [0x1f, 0x8b, 8, 0] []) default_opts
      ''a.gz'' True = Some (Some (ms, base')) \<and>
     peek_pending stdio_pending base' = [0x1f, 0x8b, 8, 0]"
proof -
  obtain ms base' where run: "create_io_reader full_build (\<lambda>_. True) alloc_ok
      (file_env [0x1f, 0x8b, 8, 0] []) default_opts ''a.gz'' True = Some (Some (ms, base'))"
    by (simp add: api_run_defs peek_run_defs)
  have op: "open_base full_build (file_env [0x1f, 0x8b, 8, 0] []) ''a.gz'' =
      Some (M_stdio, \<lparr>fd = demo_fd [0x1f, 0x8b, 8, 0] []\<rparr>)"
    by (simp add: api_run_defs)
  have "stdio_inv \<lparr>fd = demo_fd [0x1f, 0x8b, 8, 0] []\<rparr>" by (simp add: stdio_inv_def demo_fd_def)
  from create_io_reader_keeps_input [OF file_env_stdio op this run] run show ?thesis
    by (auto simp: stdio_pending_def fd_rest_def demo_fd_def)
qed

text \<open>The detection looks at whatever the first \<^verbatim>\<open>read(2)\<close> gave: when that is less than the
  magic number (a pipe may give a single byte), a gzip stream is opened as an uncompressed one.\<close>

theorem short_first_read_defeats_detection:
  assumes "bs \<noteq> []"
  shows "\<exists>base'. create_io_reader b opens alloc_ok (file_env bs [Short 0]) g ''a.gz'' True =
    Some (Some ([M_stdio, M_peek] @ (if use_threads g \<noteq> 0 then [M_thread] else []) @ [M_peek], base'))"
proof -
  obtain c cs where "bs = c # cs" using assms by (cases bs) auto
  then show ?thesis by (simp add: api_run_defs peek_run_defs)
qed

theorem short_first_read_defeats_detection_witness:
  "\<exists>base'. create_io_reader full_build (\<lambda>_. True) alloc_ok (file_env [0x1f, 0x8b, 8, 0] [Short 0])
     default_opts ''a.gz'' True = Some (Some ([M_stdio, M_peek, M_thread, M_peek], base'))"
  using short_first_read_defeats_detection [of "[0x1f, 0x8b, 8, 0]" full_build "\<lambda>_. True" default_opts]
  by (simp add: default_opts_def c_uint_def)

lemma strstr_append: "strstr ys needle \<noteq> None \<Longrightarrow> strstr (xs @ ys) needle \<noteq> None"
  by (induction xs) auto

text \<open>An HTTP URL is handed to the swift reader as soon as \<^verbatim>\<open>swift://\<close> occurs anywhere in it,
  in its query for instance: the test is \<^verbatim>\<open>strstr\<close> on the whole name, not on its protocol.\<close>

theorem swift_matched_anywhere:
  assumes "HAVE_HTTP b" "strstr rest ''swift://'' \<noteq> None"
  shows "open_base b env (''http://'' @ rest) =
    map_option (Pair M_swift) (open_swift env (''http://'' @ rest))"
proof -
  have "is_url (''http://'' @ rest)" by (simp add: is_url_def isalnum_def)
  moreover have "is_swift (''http://'' @ rest)"
    using strstr_append [OF assms(2), of "''http://''"] by (simp add: is_swift_def)
  ultimately show ?thesis using assms(1) by (simp add: open_base_def)
qed

theorem swift_matched_anywhere_witness:
  "open_base full_build (file_env [] []) ''http://h/?next=swift://c'' =
     map_option (Pair M_swift) (open_swift (file_env [] []) ''http://h/?next=swift://c'')"
  using swift_matched_anywhere [of full_build "''h/?next=swift://c''" "file_env [] []"]
  by (simp add: full_build_def)

text \<open>With compression level 0 a requested method is not used, whatever the build, and the
  message says that libwandio was not built with support for it.\<close>

theorem level_zero_blames_build:
  assumes "parse_env g libtraceio = Some g'" "wopen filename flags = Some base"
    and "t \<noteq> WANDIO_COMPRESS_NONE" "t \<noteq> WANDIO_COMPRESS_MASK"
  shows "wandio_wcreate b opens wopen g libtraceio filename t 0 flags =
    Some (Some (M_stdio # (if use_threads g' \<noteq> 0 then [M_thread] else []), base), True)"
  using assms by (simp add: wandio_wcreate_def)

theorem level_zero_blames_build_witness:
  "wandio_wcreate full_build (\<lambda>_. True) (\<lambda>_ _. Some ()) default_opts None ''x.gz'' WANDIO_COMPRESS_ZLIB 0 0 =
     Some (Some ([M_stdio, M_thread], ()), True)"
  using level_zero_blames_build [of default_opts None default_opts "\<lambda>_ _. Some ()" "''x.gz''" 0 "()"
      WANDIO_COMPRESS_ZLIB full_build "\<lambda>_. True"]
  by (simp add: parse_env_def wandio_compress_defs default_opts_def c_uint_def)

section \<open>Reading a line\<close>

text \<open>The specification: up to and including the first newline.\<close>

fun first_line :: "byte list \<Rightarrow> byte list" where
  "first_line [] = []"
| "first_line (c # cs) = (if c = 10 then [c] else c # first_line cs)"

definition chomped :: "bool \<Rightarrow> byte list \<Rightarrow> byte list" where
  "chomped chomp l = (if chomp then map (\<lambda>c. if c = 10 then 0 else c) l else l)"

context reader
begin

lemma fgets_loop_spec:
  assumes "inv s" "served 1"
  shows "\<exists>r out s'. fgets_loop rd a chomp k s buf = Some (r, out, s') \<and> inv s' \<and>
    (r < 0 \<or> (let l = take k (first_line (pending s)) in
       r = int (length buf + length l) \<and> out = buf @ chomped chomp l @ [0] \<and>
       pending s = l @ pending s'))"
  using assms(1)
proof (induction k arbitrary: s buf)
  case 0
  then show ?case by (simp add: chomped_def)
next
  case (Suc k)
  from Suc.prems assms(2) show ?case
  proof (cases rule: rd_cases [where a = a])
    case (data bs s')
    then obtain c where bs: "bs = [c]" by (cases bs) auto
    have one: "rd s a (Suc 0) = Some (1, [c], s')" "c_int 1 = 1" using data(1) bs by (simp_all add: c_int_def)
    show ?thesis
    proof (cases "c = 10")
      case True
      with data(4,5) bs show ?thesis by (simp add: one chomped_def)
    next
      case False
      from Suc.IH [OF data(5), of "buf @ [c]"] obtain r out t where
        "fgets_loop rd a chomp k s' (buf @ [c]) = Some (r, out, t)" "inv t"
        "r < 0 \<or> (let l = take k (first_line (pending s')) in
           r = int (length (buf @ [c]) + length l) \<and> out = (buf @ [c]) @ chomped chomp l @ [0] \<and>
           pending s' = l @ pending t)" by blast
      with False data(4) bs show ?thesis
        by (auto simp: one chomped_def Let_def)
    qed
  next
    case (eof s')
    then have "pending s = []" by simp
    with eof show ?thesis by (simp add: chomped_def c_int_def)
  next
    case (err r s')
    then have "c_int r = r" by (intro c_int_id) auto
    with err show ?thesis by simp
  qed
qed

end

text \<open>C28: over any reader, \<open>wandio_fgets\<close> stores the pending bytes up to and including the first
  newline, at most \<open>len - 1\<close> of them, and a NUL; it takes exactly those from the stream and returns
  their number. With \<open>chomp\<close> the newline is overwritten by a NUL but still counted. The
  alternative is a negative result, the reader's error.\<close>

theorem wandio_fgets_line:
  assumes "reader (wandio_read src) cinv pending served" "served 1" "cinv s" "0 < len"
  shows "\<exists>r out s'. wandio_fgets src (Some s) False len chomp a = Some (r, out, s') \<and> cinv s' \<and>
    (r < 0 \<or> (let l = take (nat (len - 1)) (first_line (pending s)) in
       r = int (length l) \<and> out = chomped chomp l @ [0] \<and> pending s = l @ pending s'))"
  using reader.fgets_loop_spec [OF assms(1,3,2), of a chomp "nat (len - 1)" "[]"] assms(4)
  by (simp add: wandio_fgets_def wandio_generic_fgets_def)

theorem wandio_fgets_line_witness:
  "wandio_fgets stdio_source (Some \<lparr>fd = demo_fd [65, 10, 66] []\<rparr>) False 3 True 0 =
     Some (2, [65, 0, 0], \<lparr>fd = (demo_fd [65, 10, 66] [])\<lparr>fd_pos := 2\<rparr>\<rparr>) \<and>
   (\<exists>r out s'. wandio_fgets stdio_source (Some \<lparr>fd = demo_fd [65, 10, 66] []\<rparr>) False 3 True 0 = Some (r, out, s') \<and>
     stdio_inv s')"
proof
  have two: "fgets_loop rd a chomp 2 s buf = fgets_loop rd a chomp (Suc (Suc 0)) s buf"
    for rd a chomp and s :: stdio_t and buf by (simp add: numeral_2_eq_2)
  show "wandio_fgets stdio_source (Some \<lparr>fd = demo_fd [65, 10, 66] []\<rparr>) False 3 True 0 =
     Some (2, [65, 0, 0], \<lparr>fd = (demo_fd [65, 10, 66] [])\<lparr>fd_pos := 2\<rparr>\<rparr>)"
    by (simp add: wandio_fgets_def wandio_generic_fgets_def wandio_read_def stdio_source_def two
        stdio_read_def posix_read_def demo_fd_def fd_rest_def c_int_def Let_def)
  have rd: "reader (wandio_read stdio_source) stdio_inv stdio_pending any_size"
    using file_env_stdio by (simp add: file_env_def)
  have "stdio_inv \<lparr>fd = demo_fd [65, 10, 66] []\<rparr>" by (simp add: stdio_inv_def demo_fd_def)
  from wandio_fgets_line [OF rd TrueI this, of 3 True 0]
  show "\<exists>r out s'. wandio_fgets stdio_source (Some \<lparr>fd = demo_fd [65, 10, 66] []\<rparr>) False 3 True 0 =
     Some (r, out, s') \<and> stdio_inv s'" by auto
qed

end
