(* ===== verification/Wcat.thy ===== *)
theory Wcat
  imports Wandio_Api Codec_Writers
begin

text \<open>
  \<^verbatim>\<open>tools/wandiocat/wcat.c\<close>: the program that concatenates files into one compressed file. It works on
  whatever \<open>wandio_create\<close> and \<open>wandio_wcreate\<close> give it, so those and the function tables of their
  results are its environment. Messages are left out.
\<close>

section \<open>getopt\<close>

text \<open>\<^verbatim>\<open>getopt(3)\<close> of glibc on \<^verbatim>\<open>Z:z:o:h\<close>, without \<^verbatim>\<open>POSIXLY_CORRECT\<close>: what its calls return, and the
  operands, in order, that are left for \<^verbatim>\<open>argv[optind]\<close> on. \<open>Opt_bad c\<close> is \<open>'?'\<close> with \<^verbatim>\<open>optopt\<close>.\<close>

datatype getopt_ret = Opt char | Opt_arg char string | Opt_bad char

definition wcat_optspec :: "char \<Rightarrow> bool option" where
  "wcat_optspec c = (if c \<in> {CHR ''Z'', CHR ''z'', CHR ''o''} then Some True else if c = CHR ''h'' then Some False else None)"

text \<open>The letters of one argument; the option that still waits for its argument is in the second
  component.\<close>

fun getopt_letters :: "string \<Rightarrow> getopt_ret list \<times> char option" where
  "getopt_letters [] = ([], None)"
| "getopt_letters (c # cs) =
     (case wcat_optspec c of
        Some True \<Rightarrow> if cs = [] then ([], Some c) else ([Opt_arg c cs], None)
      | Some False \<Rightarrow> apfst ((#) (Opt c)) (getopt_letters cs)
      | None \<Rightarrow> apfst ((#) (Opt_bad c)) (getopt_letters cs))"

fun getopt_scan :: "char option \<Rightarrow> string list \<Rightarrow> getopt_ret list \<times> string list" where
  "getopt_scan (Some c) [] = ([Opt_bad c], [])"
| "getopt_scan (Some c) (a # args) = apfst ((#) (Opt_arg c a)) (getopt_scan None args)"
| "getopt_scan None [] = ([], [])"
| "getopt_scan None (a # args) =
     (if a = ''--'' then ([], args)
      else if 2 \<le> length a \<and> hd a = CHR ''-''
      then (case getopt_letters (tl a) of (rs, waits) \<Rightarrow> apfst ((@) rs) (getopt_scan waits args))
      else apsnd ((#) a) (getopt_scan None args))"

section \<open>The options\<close>

record wcat_opts =
  wc_level :: int
  wc_type :: int
  wc_output :: string

definition wcat_defaults :: wcat_opts where
  "wcat_defaults = \<lparr>wc_level = 0, wc_type = WANDIO_COMPRESS_NONE, wc_output = ''-''\<rparr>"

text \<open>One turn of the \<^verbatim>\<open>switch\<close>: \<open>Inl\<close> is a return from \<^verbatim>\<open>main\<close>; the outer \<open>None\<close> is \<^verbatim>\<open>abort\<close>.\<close>

definition wcat_option :: "getopt_ret \<Rightarrow> wcat_opts \<Rightarrow> (int + wcat_opts) option" where
  "wcat_option r opts =
     (case r of
        Opt_arg c optarg \<Rightarrow>
          if c = CHR ''Z'' then
            (case wandio_lookup_compression_type optarg of
               None \<Rightarrow> Some (Inl (-1))
             | Some t \<Rightarrow> Some (Inr (opts\<lparr>wc_type := ct_type t\<rparr>)))
          else if c = CHR ''z'' then Some (Inr (opts\<lparr>wc_level := atoi optarg\<rparr>))
          else if c = CHR ''o'' then Some (Inr (opts\<lparr>wc_output := optarg\<rparr>))
          else None
      | Opt c \<Rightarrow> if c = CHR ''h'' then Some (Inl 0) else None
      | Opt_bad _ \<Rightarrow> Some (Inl 1))"

fun wcat_options :: "getopt_ret list \<Rightarrow> wcat_opts \<Rightarrow> (int + wcat_opts) option" where
  "wcat_options [] opts = Some (Inr opts)"
| "wcat_options (r # rs) opts = do {
     x \<leftarrow> wcat_option r opts;
     case x of Inl rc \<Rightarrow> Some (Inl rc) | Inr opts \<Rightarrow> wcat_options rs opts }"

section \<open>Copying\<close>

text \<open>\<open>env_create\<close> and \<open>env_wcreate\<close> are \<open>wandio_create\<close> and \<open>wandio_wcreate\<close> (name, method, level,
  flags; the outer \<open>None\<close> is a failed assertion) with the state they open in; \<open>env_memalign\<close> tells
  whether the buffer can be had.\<close>

record ('i, 'w) wcat_env =
  env_create :: "string \<Rightarrow> 'i option"
  env_isrc :: "'i io_source_t"
  env_wcreate :: "string \<Rightarrow> int \<Rightarrow> int \<Rightarrow> int \<Rightarrow> 'w option option"
  env_wsrc :: "'w iow_source_t"
  env_memalign :: bool

text \<open>A NULL \<^verbatim>\<open>iow\<close> is dereferenced by \<open>wandio_wwrite\<close>: \<open>None\<close>. What it returns is not looked at.\<close>

definition wcat_write :: "'w iow_source_t \<Rightarrow> 'w option \<Rightarrow> byte list \<Rightarrow> 'w option option" where
  "wcat_write wsrc iow buffer = do {
     w \<leftarrow> iow;
     (_, w) \<leftarrow> wandio_wwrite wsrc w buffer;
     Some (Some w) }"

definition wcat_pass ::
  "'i io_source_t \<Rightarrow> 'w iow_source_t \<Rightarrow> 'i \<times> 'w option \<Rightarrow> (('i \<times> 'w option) + ('i \<times> 'w option)) option" where
  "wcat_pass isrc wsrc = (\<lambda>(ior, iow). do {
     (len, buffer, ior) \<leftarrow> wandio_read isrc ior 0 WANDIO_BUFFER_SIZE;
     if 0 < len then do {
       iow \<leftarrow> wcat_write wsrc iow (take (nat len) buffer);
       Some (Inr (ior, iow)) }
     else Some (Inl (ior, iow)) })"

fun wcat_files :: "('i, 'w) wcat_env \<Rightarrow> string list \<Rightarrow> 'w option \<Rightarrow> int \<Rightarrow> (int \<times> 'w option) option" where
  "wcat_files env [] iow rc = Some (rc, iow)"
| "wcat_files env (f # fs) iow rc =
     (case env_create env f of
        None \<Rightarrow> wcat_files env fs iow (rc + 1)
      | Some ior \<Rightarrow> do {
          (ior, iow) \<leftarrow> c_loop (wcat_pass (env_isrc env) (env_wsrc env)) (ior, iow);
          let _ = wandio_destroy (env_isrc env) (Some ior);
          wcat_files env fs iow rc })"

text \<open>\<^verbatim>\<open>main\<close>, from its arguments behind the program's name to what it returns and the closed writer.\<close>

definition wcat_main :: "('i, 'w) wcat_env \<Rightarrow> string list \<Rightarrow> (int \<times> 'w option) option" where
  "wcat_main env argv =
     (case getopt_scan None argv of (rs, files) \<Rightarrow> do {
        x \<leftarrow> wcat_options rs wcat_defaults;
        case x of
          Inl rc \<Rightarrow> Some (rc, None)
        | Inr opts \<Rightarrow> do {
            iow \<leftarrow> env_wcreate env (wc_output opts) (wc_type opts) (wc_level opts) 0;
            c_assert (env_memalign env);
            (rc, iow) \<leftarrow> wcat_files env files iow 0;
            w \<leftarrow> iow;
            w \<leftarrow> wandio_wdestroy (env_wsrc env) w;
            Some (rc, Some w) } })"

section \<open>What a run writes\<close>

text \<open>What one file contributes: nothing when it cannot be opened, else what reading it to its end or
  to an error gives.\<close>

definition wcat_part :: "('i, 'w) wcat_env \<Rightarrow> string \<Rightarrow> byte list \<Rightarrow> bool" where
  "wcat_part env f part \<longleftrightarrow>
     (case env_create env f of
        None \<Rightarrow> part = []
      | Some io \<Rightarrow> \<exists>r io'. read_all (wandio_read (env_isrc env)) 0 WANDIO_BUFFER_SIZE io [] = Some (r, part, io') \<and> r \<le> 0)"

definition wcat_unopened :: "('i, 'w) wcat_env \<Rightarrow> string list \<Rightarrow> int" where
  "wcat_unopened env fs = int (length (filter (\<lambda>f. env_create env f = None) fs))"

text \<open>The pieces in which it is written.\<close>

definition wcat_wrote :: "('i, 'w) wcat_env \<Rightarrow> 'w \<Rightarrow> byte list \<Rightarrow> 'w \<Rightarrow> bool" where
  "wcat_wrote env w bytes w' \<longleftrightarrow>
     (\<exists>bss. write_list (wandio_wwrite (env_wsrc env)) w bss = Some w' \<and> concat bss = bytes \<and> (\<forall>bs\<in>set bss. length bs < 2 ^ 30))"

lemma write_list_append: "write_list wr w (xs @ ys) = do { w' \<leftarrow> write_list wr w xs; write_list wr w' ys }"
proof (induction xs arbitrary: w)
  case (Cons x xs)
  then show ?case by (cases "wr w x") auto
qed simp

lemma wcat_wrote_nothing: "wcat_wrote env w [] w"
  by (auto simp: wcat_wrote_def intro!: exI [of _ "[]"])

lemma wcat_wrote_more: "wcat_wrote env w xs w1 \<Longrightarrow> wcat_wrote env w1 ys w2 \<Longrightarrow> wcat_wrote env w (xs @ ys) w2"
proof -
  assume "wcat_wrote env w xs w1" "wcat_wrote env w1 ys w2"
  then obtain xss yss where "write_list (wandio_wwrite (env_wsrc env)) w xss = Some w1" "concat xss = xs"
    "\<forall>bs\<in>set xss. length bs < 2 ^ 30" "write_list (wandio_wwrite (env_wsrc env)) w1 yss = Some w2" "concat yss = ys"
    "\<forall>bs\<in>set yss. length bs < 2 ^ 30" by (auto simp: wcat_wrote_def)
  then show ?thesis unfolding wcat_wrote_def by (intro exI [of _ "xss @ yss"]) (auto simp: write_list_append)
qed

lemma wcat_wrote_one:
  assumes "wandio_wwrite (env_wsrc env) w bs = Some (r, w')" "length bs < 2 ^ 30"
  shows "wcat_wrote env w bs w'"
  unfolding wcat_wrote_def using assms by (intro exI [of _ "[bs]"]) simp

locale wcat_world = inp: reader "wandio_read (env_isrc env)" iinv ipend served
  + outp: writer "wandio_wwrite (env_wsrc env)" winv sunk
  for env :: "('i, 'w) wcat_env" and iinv ipend served winv sunk +
  assumes served_buffer: "served WANDIO_BUFFER_SIZE"
    and created: "env_create env f = Some io \<Longrightarrow> iinv io"
begin

lemma wcat_copy_ok:
  assumes "iinv io" "winv w"
  shows "\<exists>r part io' w'. c_loop (wcat_pass (env_isrc env) (env_wsrc env)) (io, Some w) = Some (io', Some w') \<and>
    read_all (wandio_read (env_isrc env)) 0 WANDIO_BUFFER_SIZE io acc = Some (r, acc @ part, io') \<and> r \<le> 0 \<and>
    winv w' \<and> sunk w' = sunk w @ part \<and> wcat_wrote env w part w'"
  using assms
proof (induction "length (ipend io)" arbitrary: io w acc rule: less_induct)
  case less
  from less.prems(1) served_buffer show ?case
  proof (cases rule: inp.rd_cases [where a = 0])
    case (data bs io1)
    have "length bs < 2 ^ 30" by (rule le_less_trans [OF data(3)]) (simp add: WANDIO_BUFFER_SIZE_def)
    from outp.wr_ok [OF less.prems(2) this] obtain w1 where
      w1: "wandio_wwrite (env_wsrc env) w bs = Some (int (length bs), w1)" "winv w1" "sunk w1 = sunk w @ bs" by blast
    have "length (ipend io1) < length (ipend io)" using data(2,4) by simp
    from less.hyps [OF this data(5) w1(2), of "acc @ bs"] obtain r part io' w' where
      rest: "c_loop (wcat_pass (env_isrc env) (env_wsrc env)) (io1, Some w1) = Some (io', Some w')"
        "read_all (wandio_read (env_isrc env)) 0 WANDIO_BUFFER_SIZE io1 (acc @ bs) = Some (r, (acc @ bs) @ part, io')"
        "r \<le> 0" "winv w'" "sunk w' = sunk w1 @ part" "wcat_wrote env w1 part w'" by blast
    have wrote: "wcat_wrote env w (bs @ part) w'"
      by (rule wcat_wrote_more [OF wcat_wrote_one [OF w1(1) \<open>length bs < 2 ^ 30\<close>] rest(6)])
    have "wcat_pass (env_isrc env) (env_wsrc env) (io, Some w) = Some (Inr (io1, Some w1))"
      using data(1,2) w1(1) by (simp add: wcat_pass_def wcat_write_def)
    note step = c_loop_next [where body = "wcat_pass (env_isrc env) (env_wsrc env)", OF this]
    have "read_all (wandio_read (env_isrc env)) 0 WANDIO_BUFFER_SIZE io acc = Some (r, acc @ bs @ part, io')"
      using data(1,2) rest(2) by (subst read_all.simps) simp
    with step rest(1,3-5) w1(3) wrote show ?thesis by (intro exI [of _ r] exI [of _ "bs @ part"] exI [of _ io'] exI [of _ w']) simp
  next
    case (eof io')
    then have "c_loop (wcat_pass (env_isrc env) (env_wsrc env)) (io, Some w) = Some (io', Some w)"
      by (intro c_loop_stop) (simp add: wcat_pass_def)
    moreover have "read_all (wandio_read (env_isrc env)) 0 WANDIO_BUFFER_SIZE io acc = Some (0, acc @ [], io')"
      using eof(1) by (subst read_all.simps) simp
    ultimately show ?thesis using less.prems(2) wcat_wrote_nothing [of env w] by fastforce
  next
    case (err r io')
    then have "c_loop (wcat_pass (env_isrc env) (env_wsrc env)) (io, Some w) = Some (io', Some w)"
      by (intro c_loop_stop) (simp add: wcat_pass_def)
    moreover have "read_all (wandio_read (env_isrc env)) 0 WANDIO_BUFFER_SIZE io acc = Some (r, acc @ [], io')"
      using err(1,2) by (subst read_all.simps) simp
    ultimately show ?thesis using less.prems(2) err(2) wcat_wrote_nothing [of env w] by fastforce
  qed
qed

lemma wcat_files_ok:
  assumes "winv w"
  shows "\<exists>parts w'. wcat_files env fs (Some w) rc = Some (rc + wcat_unopened env fs, Some w') \<and>
    list_all2 (wcat_part env) fs parts \<and> winv w' \<and> sunk w' = sunk w @ concat parts \<and> wcat_wrote env w (concat parts) w'"
  using assms
proof (induction fs arbitrary: w rc)
  case Nil
  then show ?case using wcat_wrote_nothing [of env w] by (auto simp: wcat_unopened_def)
next
  case (Cons f fs)
  show ?case
  proof (cases "env_create env f")
    case None
    from Cons.IH [OF Cons.prems, of "rc + 1"] obtain parts w' where
      "wcat_files env fs (Some w) (rc + 1) = Some (rc + 1 + wcat_unopened env fs, Some w')"
      "list_all2 (wcat_part env) fs parts" "winv w'" "sunk w' = sunk w @ concat parts" "wcat_wrote env w (concat parts) w'" by blast
    moreover have "wcat_part env f []" using None by (simp add: wcat_part_def)
    ultimately show ?thesis using None
      by (intro exI [of _ "[] # parts"] exI [of _ w']) (simp add: wcat_unopened_def)
  next
    case (Some io)
    from wcat_copy_ok [OF created [OF Some] Cons.prems, of "[]"] obtain r part io' w1 where
      copy: "c_loop (wcat_pass (env_isrc env) (env_wsrc env)) (io, Some w) = Some (io', Some w1)"
        "wcat_part env f part" "winv w1" "sunk w1 = sunk w @ part" "wcat_wrote env w part w1"
      using Some by (auto simp: wcat_part_def)
    from Cons.IH [OF copy(3), of rc] obtain parts w' where
      "wcat_files env fs (Some w1) rc = Some (rc + wcat_unopened env fs, Some w')"
      "list_all2 (wcat_part env) fs parts" "winv w'" "sunk w' = sunk w1 @ concat parts" "wcat_wrote env w1 (concat parts) w'" by blast
    with Some copy wcat_wrote_more [OF copy(5), of "concat parts" w'] show ?thesis
      by (intro exI [of _ "part # parts"] exI [of _ w']) (simp add: wcat_unopened_def)
  qed
qed

lemma wcat_main_ok:
  assumes "getopt_scan None argv = (rs, files)" "wcat_options rs wcat_defaults = Some (Inr opts)"
    and "env_wcreate env (wc_output opts) (wc_type opts) (wc_level opts) 0 = Some (Some w)" "env_memalign env" "winv w"
  shows "\<exists>parts w1. list_all2 (wcat_part env) files parts \<and> winv w1 \<and> sunk w1 = sunk w @ concat parts \<and>
    wcat_wrote env w (concat parts) w1 \<and>
    wcat_main env argv = map_option (\<lambda>w2. (wcat_unopened env files, Some w2)) (wsrc_close (env_wsrc env) w1)"
proof -
  from wcat_files_ok [OF assms(5), of files 0] obtain parts w1 where
    run: "wcat_files env files (Some w) 0 = Some (wcat_unopened env files, Some w1)"
      "list_all2 (wcat_part env) files parts" "winv w1" "sunk w1 = sunk w @ concat parts"
      "wcat_wrote env w (concat parts) w1" by auto
  have "wcat_main env argv = map_option (\<lambda>w2. (wcat_unopened env files, Some w2)) (wsrc_close (env_wsrc env) w1)"
    using assms(1-4) run(1) by (cases "wsrc_close (env_wsrc env) w1") (simp_all add: wcat_main_def wandio_wdestroy_def)
  with run(2-5) show ?thesis by blast
qed

end

text \<open>Whatever the readers and the writer do: when the program comes to an end with a writer, its exit
  code is the number of files that could not be opened. Errors of reading and of writing do not show
  in it.\<close>

lemma wcat_files_count:
  "wcat_files env fs iow rc = Some (rc', iow') \<Longrightarrow> rc' = rc + wcat_unopened env fs"
proof (induction fs arbitrary: iow rc)
  case (Cons f fs)
  show ?case
  proof (cases "env_create env f")
    case None
    with Cons show ?thesis by (fastforce simp: wcat_unopened_def)
  next
    case (Some io)
    with Cons.prems obtain iow1 where "wcat_files env fs iow1 rc = Some (rc', iow')"
      by (auto simp: bind_eq_Some_conv)
    from Cons.IH [OF this] Some show ?thesis by (simp add: wcat_unopened_def)
  qed
qed (simp add: wcat_unopened_def)

lemma wcat_exit_code:
  assumes "getopt_scan None argv = (rs, files)" "wcat_main env argv = Some (rc, Some w)"
  shows "rc = wcat_unopened env files"
proof -
  from assms obtain x where x: "wcat_options rs wcat_defaults = Some x"
    by (auto simp: wcat_main_def bind_eq_Some_conv)
  obtain opts where "x = Inr opts" using assms x by (cases x) (auto simp: wcat_main_def)
  with assms x obtain iow1 iow2 where "wcat_files env files iow1 0 = Some (rc, iow2)"
    by (auto simp: wcat_main_def bind_eq_Some_conv c_assert_def split: if_splits)
  from wcat_files_count [OF this] show ?thesis by simp
qed

text \<open>C34: over readers that keep the contract of \<^verbatim>\<open>wandio.h\<close>, which may fail at any time, and a writer that
  accepts everything it is given: \<open>wandiocat\<close> comes to an end, the writer, just before it is closed, has
  accepted what reading the files one after the other gives (a file up to its end or to the first
  error of reading) and nothing else, and the exit code is the number of files that could not be
  opened, whatever errors of reading there were.\<close>

theorem wcat_concatenates:
  assumes "reader (wandio_read (env_isrc env)) iinv ipend served" "writer (wandio_wwrite (env_wsrc env)) winv sunk"
    and "served WANDIO_BUFFER_SIZE" "\<forall>f io. env_create env f = Some io \<longrightarrow> iinv io"
    and "getopt_scan None argv = (rs, files)" "wcat_options rs wcat_defaults = Some (Inr opts)"
    and "env_wcreate env (wc_output opts) (wc_type opts) (wc_level opts) 0 = Some (Some w)"
    and "winv w" "sunk w = []" "env_memalign env"
  shows "\<exists>parts w1. list_all2 (wcat_part env) files parts \<and> winv w1 \<and> sunk w1 = concat parts \<and>
    wcat_main env argv = map_option (\<lambda>w2. (wcat_unopened env files, Some w2)) (wsrc_close (env_wsrc env) w1)"
proof -
  have "wcat_world env iinv ipend served winv sunk"
    by (intro wcat_world.intro wcat_world_axioms.intro) (use assms(1-4) in blast)+
  from wcat_world.wcat_main_ok [OF this assms(5-7,10,8)] assms(9) show ?thesis by auto
qed

text \<open>Plain files over the stdio modules.\<close>

definition stdio_env :: "(string \<Rightarrow> byte list option) \<Rightarrow> (stdio_t, stdiow_t) wcat_env" where
  "stdio_env fs = \<lparr>env_create = (\<lambda>f. map_option demo_file (fs f)), env_isrc = stdio_source,
     env_wcreate = (\<lambda>_ _ _ _. Some (Some (demo_iow []\<lparr>wbuffer := []\<rparr>))), env_wsrc = stdio_wsource, env_memalign = True\<rparr>"

lemma stdio_env_reads: "wandio_read (env_isrc (stdio_env fs)) = stdio_read"
  by (intro ext) (simp add: wandio_read_def stdio_env_def stdio_source_def)

lemma stdio_env_writes: "wandio_wwrite (env_wsrc (stdio_env fs)) = stdio_wwrite"
  by (intro ext) (simp add: wandio_wwrite_def stdio_env_def)

lemma stdio_env_created: "\<forall>f io. env_create (stdio_env fs) f = Some io \<longrightarrow> stdio_inv io"
  by (auto simp: stdio_env_def)

interpretation wcat_stdio: wcat_world "stdio_env fs" stdio_inv stdio_pending any_size stdio_winv stdio_sunk for fs
proof (intro wcat_world.intro wcat_world_axioms.intro)
  show "reader (wandio_read (env_isrc (stdio_env fs))) stdio_inv stdio_pending any_size"
    unfolding stdio_env_reads by (rule stdio.reader_axioms)
  show "writer (wandio_wwrite (env_wsrc (stdio_env fs))) stdio_winv stdio_sunk"
    unfolding stdio_env_writes by (rule stdiow.writer_axioms)
qed (simp_all add: stdio_env_created)

lemma demo_scan: "getopt_scan None [''-Zgzip'', ''a'', ''-z'', ''6'', ''b''] =
    ([Opt_arg CHR ''Z'' ''gzip'', Opt_arg CHR ''z'' ''6''], [''a'', ''b''])"
  by (simp add: wcat_optspec_def)

lemma demo_opts: "wcat_options [Opt_arg CHR ''Z'' ''gzip'', Opt_arg CHR ''z'' ''6''] wcat_defaults =
    Some (Inr \<lparr>wc_level = 6, wc_type = WANDIO_COMPRESS_ZLIB, wc_output = ''-''\<rparr>)"
  by code_simp

theorem wcat_concatenates_witness:
  "\<exists>parts w1. list_all2 (wcat_part (stdio_env [''a'' \<mapsto> [7]])) [''a'', ''b''] parts \<and> stdio_sunk w1 = concat parts \<and>
    wcat_main (stdio_env [''a'' \<mapsto> [7]]) [''-Zgzip'', ''a'', ''-z'', ''6'', ''b''] =
      map_option (\<lambda>w2. (1, Some w2)) (stdio_wclose w1)"
proof -
  let ?env = "stdio_env [''a'' \<mapsto> [7]]"
  have rest: "env_wcreate ?env ''-'' WANDIO_COMPRESS_ZLIB 6 0 = Some (Some (demo_iow []\<lparr>wbuffer := []\<rparr>))"
    "env_memalign ?env" by (simp_all add: stdio_env_def)
  from wcat_concatenates [OF wcat_stdio.inp.reader_axioms wcat_stdio.outp.writer_axioms TrueI
      stdio_env_created [where fs = "[''a'' \<mapsto> [7]]"] demo_scan demo_opts _ demo_child rest(2)] rest(1)
  obtain parts w1 where "list_all2 (wcat_part ?env) [''a'', ''b''] parts" "stdio_sunk w1 = concat parts"
    "wcat_main ?env [''-Zgzip'', ''a'', ''-z'', ''6'', ''b''] =
      map_option (\<lambda>w2. (wcat_unopened ?env [''a'', ''b''], Some w2)) (wsrc_close (env_wsrc ?env) w1)" by auto
  moreover have "wcat_unopened ?env [''a'', ''b''] = 1" by (simp add: wcat_unopened_def stdio_env_def)
  moreover have "wsrc_close (env_wsrc ?env) w1 = stdio_wclose w1" by (simp add: stdio_env_def stdio_wsource_def)
  ultimately show ?thesis by auto
qed

text \<open>When the output cannot be opened the program crashes on the NULL it goes on with, whatever the
  files.\<close>

lemma wcat_needs_output:
  assumes "getopt_scan None argv = (rs, files)" "wcat_options rs wcat_defaults = Some (Inr opts)"
    and "env_wcreate env (wc_output opts) (wc_type opts) (wc_level opts) 0 = Some None"
  shows "wcat_main env argv = None"
proof -
  have pass: "iow' = None" if "wcat_pass (env_isrc env) (env_wsrc env) (io, None) = Some (Inl (io', iow')) \<or>
      wcat_pass (env_isrc env) (env_wsrc env) (io, None) = Some (Inr (io', iow'))" for io io' iow'
    using that by (auto simp: wcat_pass_def wcat_write_def bind_eq_Some_conv split: if_splits)
  have copy: "snd res = None" if "c_loop (wcat_pass (env_isrc env) (env_wsrc env)) (io, None) = Some res" for io res
  proof (rule c_loop_partial [where I = "\<lambda>x. snd x = None" and Q = "\<lambda>r. snd r = None", OF that])
    fix x x' assume "snd x = None" "wcat_pass (env_isrc env) (env_wsrc env) x = Some (Inr x')"
    then show "snd x' = None" using pass [of "fst x" "fst x'" "snd x'"] by (cases x, cases x') auto
  next
    fix x r assume "snd x = None" "wcat_pass (env_isrc env) (env_wsrc env) x = Some (Inl r)"
    then show "snd r = None" using pass [of "fst x" "fst r" "snd r"] by (cases x, cases r) auto
  qed simp
  have "snd res = None" if "wcat_files env fs None rc = Some res" for fs rc res
    using that
  proof (induction fs arbitrary: rc)
    case (Cons f fs)
    show ?case
    proof (cases "env_create env f")
      case None
      with Cons show ?thesis by simp
    next
      case (Some io)
      with Cons.prems obtain io' iow' where run: "c_loop (wcat_pass (env_isrc env) (env_wsrc env)) (io, None) = Some (io', iow')"
        "wcat_files env fs iow' rc = Some res" by (auto simp: bind_eq_Some_conv)
      from copy [OF run(1)] run(2) Cons.IH show ?thesis by simp
    qed
  qed auto
  then have none: "wcat_files env files None 0 = Some res \<Longrightarrow> snd res = None" for res by blast
  show ?thesis
    using assms none
    by (cases "wcat_files env files None 0") (auto simp: wcat_main_def c_assert_def split: prod.splits)
qed

end
