(* ===== verification/Spec2Isabelle.thy ===== *)
theory Spec2Isabelle
  imports Stdio_Reader Stdio_Writer Peek_Reader Thread_Reader Thread_Writer Codec_Readers Codec_Writers
    Lzo_Files Zstd_Writer Lz4_Writer Zstd_Lz4_Files Http_Files Keystone_Files Swift_Files
    Qat_Files Qat_Writing Wandio_Options Wandio_Api Wcat
begin

text \<open>
  wandio reads and writes files through stacks of small modules. A module is a table of functions
  (\<^verbatim>\<open>io_source_t\<close>, \<^verbatim>\<open>iow_source_t\<close> of \<^verbatim>\<open>lib/wandio.h\<close>) over a private state that holds the module
  below it. \<^verbatim>\<open>wandio_create\<close> opens a file, puts a peeking reader on it, recognises its compression
  by magic numbers, adds the matching decompressing reader, a threaded reader and another peeking
  reader; \<^verbatim>\<open>wandio_wcreate\<close> puts a compressing writer and a threaded writer on a stdio writer.
  Every module is a Hoare-style pair here: its operations, translated from its file, and the
  contract of its interface (locales \<open>reader\<close>, \<open>writer\<close>, \<open>flusher\<close> of \<open>Wandio_Io\<close>), proved over any
  module below that keeps the same contract. A reader may fail at any time; where it fails only because
  the module below it did, that is a second contract (locale \<open>calm_reader\<close>, predicate \<open>never_fails\<close>), kept
  by every layer from the file up to the threaded reader: over a kernel whose reads do not fail, what
  is read is the whole text and the last result is 0.

  Conventions. A C function is a HOL function from the state to an option: \<open>None\<close> is an abort, an
  access outside a buffer, or a loop that does not end, so a result \<open>Some\<close> is a proof that none of
  these happens. Buffers are byte lists; lengths are naturals and results integers, with the
  truncations of C (\<open>c_int\<close>, \<open>c_uint\<close>) where the code narrows them. Loops are structural, or
  \<open>c_loop\<close>, a partial function that is \<open>None\<close> when it runs for ever; no fuel is used. Threads are
  program counters in a shared state, a critical section is one step, waiting on a condition
  variable is a state of its own, and a call under a schedule is the run of the step relation
  that the schedule picks.

  Theories, with the files of \<^verbatim>\<open>src/lib\<close> they model.
  \<^item> \<open>Wandio_Prelude\<close>: C integers, assertions, loops, lists. \<open>Wandio_Io\<close>: the tables and
    dispatching calls of \<^verbatim>\<open>wandio.h\<close> and \<^verbatim>\<open>wandio.c\<close> and the contracts.
  \<^item> \<open>Posix_Fd\<close>: read, write, writev, lseek and close, with short and failed transfers given by a
    plan. \<open>Stdio_Reader\<close> (\<^verbatim>\<open>ior-stdio.c\<close>), \<open>Stdio_Writer\<close> (\<^verbatim>\<open>iow-stdio.c\<close>): the two ends of a stack;
    bytes are conserved whatever the kernel does, writes come in whole blocks.
  \<^item> \<open>Peek_Reader\<close> (\<^verbatim>\<open>ior-peek.c\<close>): buffer, refill, peek and seek, with the memory it frees; it keeps
    the reader contract, and a peek foretells the next read.
  \<^item> \<open>Ring\<close>, \<open>Thread_Reader\<close> (\<^verbatim>\<open>ior-thread.c\<close>), \<open>Thread_Writer\<close> (\<^verbatim>\<open>iow-thread.c\<close>): a ring of slices
    between two threads; safety of every interleaving, progress, termination, and the contracts
    of the calls under any schedule.
  \<^item> \<open>Codec\<close>: the compression libraries as parameters (a decoder or encoder and what its manual
    promises) with a small instance that keeps every promise; the read loop of the codecs.
    \<open>Zlib_Reader\<close>, \<open>Bzip_Reader\<close>, \<open>Lzma_Reader\<close> (\<^verbatim>\<open>ior-zlib.c\<close>, \<^verbatim>\<open>ior-bzip.c\<close>, \<^verbatim>\<open>ior-lzma.c\<close>), and
    \<open>Codec_Readers\<close> with their contracts, their results on any input and their ways with truncated
    files. \<open>Codec_Writer\<close>, \<open>Codec_Writers\<close> (\<^verbatim>\<open>iow-zlib.c\<close>, \<^verbatim>\<open>iow-bzip.c\<close>, \<^verbatim>\<open>iow-lzma.c\<close>): one complete
    stream for exactly the bytes written, and the way back through the readers.
  \<^item> \<open>Lzo_Format\<close>, \<open>Lzo_Writer\<close>, \<open>Lzo_Proofs\<close>, \<open>Lzo_Close\<close>, \<open>Lzo_Files\<close> (\<^verbatim>\<open>iow-lzo.c\<close>): the lzop format
    with a reference reader, worker threads that compress blocks in parallel, the ring of threads
    as a queue, and the file that is left, including the order in which closing gets it wrong.
  \<^item> \<open>Zstd_Writer\<close>, \<open>Lz4_Writer\<close> (\<^verbatim>\<open>iow-zstd.c\<close>, \<^verbatim>\<open>iow-lz4.c\<close>): one complete stream or frame for what
    was written. \<open>Zstd_Lz4_Reader\<close>, \<open>Zstd_Lz4_Proofs\<close>, \<open>Zstd_Lz4_Files\<close> (\<^verbatim>\<open>ior-zstd-lz4.c\<close>): the reader
    that tells the formats apart frame by frame; a file of one frame is read whole, by requests of at
    least four bytes.
  \<^item> \<open>Curl\<close> (\<^verbatim>\<open>curl-helper.c\<close>, and libcurl as a parameter whose calls run the write callback),
    \<open>Http_Reader\<close>, \<open>Http_Proofs\<close>, \<open>Http_Fill\<close>, \<open>Http_Files\<close> (\<^verbatim>\<open>ior-http.c\<close>): the buffer, the transfer loop,
    restarts and seeks; the contract of libcurl for one file (locale \<open>http_server\<close>, with the headers a
    request needs and whether the network is steady) makes \<^verbatim>\<open>http_read\<close> keep the reader contract. A
    \<^verbatim>\<open>select(2)\<close> that fails before the length is known makes the file look empty.
  \<^item> \<open>Jsmn\<close>, \<open>Jsmn_Proofs\<close>, \<open>Json_Text\<close>, \<open>Json_Parse\<close> (\<^verbatim>\<open>swift-support/jsmn.c\<close>): the JSON tokeniser, well-formed
    tokens on any text, and exactly the tokens of a value on its text in any layout. \<open>Json_Utils\<close>
    (\<^verbatim>\<open>jsmn_utils.c\<close>): comparing, copying and skipping tokens, and where a value stands among them.
  \<^item> \<open>Keystone\<close>, \<open>Keystone_Proofs\<close>, \<open>Keystone_Files\<close> (\<^verbatim>\<open>keystone.c\<close>): environment, request, callbacks and
    the walk over the response, which computes what the JSON value means (\<open>response_of\<close>). \<open>Swift\<close>,
    \<open>Swift_Files\<close> (\<^verbatim>\<open>ior-swift.c\<close>): the HTTP reader with a token, reading exactly the object from a store
    that asks for the token, as long as no transfer has to be started again.
  \<^item> \<open>Qat\<close> (\<^verbatim>\<open>ior-qat.c\<close>, \<^verbatim>\<open>iow-qat.c\<close>, and QATzip as a parameter), \<open>Qat_Reading\<close>, \<open>Qat_Files\<close>: QATzip
    decompresses whole blocks; a file of even blocks that fits the 10 MiB buffer is read whole by requests
    of whole blocks, and where \<^verbatim>\<open>qat_read\<close> leaves the caller's buffer or does not
    come back. \<open>Qat_Writing\<close>: one member for each write, and the results of the calls.
  \<^item> \<open>Wandio_Options\<close>, \<open>Wandio_Api\<close> (\<^verbatim>\<open>wandio.c\<close>): \<^verbatim>\<open>LIBTRACEIO\<close>, compression methods, detection of
    formats, construction of the stacks, \<^verbatim>\<open>wandio_fgets\<close> and \<^verbatim>\<open>wandio_printf\<close>. \<open>Wcat\<close> (\<^verbatim>\<open>tools/wandiocat/wcat.c\<close>): the
    program on top, which concatenates what its files give.

  This theory puts whole stacks together: a gzip file written through all layers holds one
  complete stream for the bytes written, and read through all layers gives them back; \<^verbatim>\<open>wandiocat\<close> on
  top of them leaves one complete stream for its files together.

  Bounds. The contracts speak of requests and writes for which the code's own \<^verbatim>\<open>int\<close> arithmetic does
  not overflow (\<open>2 ^ 30\<close> or \<open>2 ^ 31\<close> bytes, written out in each statement); what happens beyond is
  stated where it is a fault of the code (\<open>stdio_wwrite_truncates_length\<close>). The tokeniser is modelled for
  texts below \<open>2 ^ 31\<close> characters, where its 32-bit positions and offsets cannot wrap (\<open>Jsmn\<close>), and
  \<^verbatim>\<open>wandio_fgets\<close> for lines below \<open>2 ^ 31\<close> bytes.

  Not modelled: naming of threads, signal masks, messages and statistics (no effect on data), and
  memory that is allocated or freed without anything depending on it. The compression libraries,
  libcurl, QATzip and the kernel are parameters; what is relied on is written out where it is used.
\<close>

section \<open>The modules put together\<close>

text \<open>What \<open>wandio_wcreate\<close> builds for a gzip file: a threaded writer on a gzip writer on a
  stdio writer.\<close>

lemma gzip_child:
  assumes "encoder_runs {Z_OK} enc v" "encoder_flushes Z_STREAM_ERROR enc v"
    and "encoder_finishes Z_STREAM_END {Z_OK, Z_BUF_ERROR} enc v stream"
  shows "threaded_writer (zlib_wsource stdio_wsource enc)
    (\<lambda>w sent. pack_inv stdio_winv stdio_sunk v [] w \<and> pack_sunk v w = [] @ sent)"
proof (rule good_child)
  show "flusher (wsrc_write (zlib_wsource stdio_wsource enc)) (pack_inv stdio_winv stdio_sunk v [])
      (pack_sunk v) (wsrc_flush (zlib_wsource stdio_wsource enc))"
    using zlib_flusher [OF stdio_flusher assms(1,2)] by (simp add: zlib_wsource_def)
next
  fix w assume inv: "pack_inv stdio_winv stdio_sunk v [] w"
  have wr: "writer (wsrc_write stdio_wsource) stdio_winv stdio_sunk" by (simp add: stdiow.writer_axioms)
  from packing.pack_wclose_ok [OF packingI [OF wr assms(1)] assms(3) _ _ inv,
      of "\<lambda>code. code \<noteq> Z_STREAM_END \<and> code \<noteq> Z_STREAM_ERROR"]
  show "\<exists>w'. wsrc_close (zlib_wsource stdio_wsource enc) w = Some w'"
    using stdio_wclose_clean by (fastforce simp: zlib_wsource_def zlib_wclose_def stdio_wsource_def)
qed

text \<open>Writes through all three layers and a close.\<close>

lemma gzip_pipeline:
  assumes "encoder_runs {Z_OK} enc v" "encoder_flushes Z_STREAM_ERROR enc v"
    and "encoder_finishes Z_STREAM_END {Z_OK, Z_BUF_ERROR} enc v stream"
    and "stdio_winv iow" "stdio_sunk iow = []"
    and "zlib_wopen enc (Some iow) level = Some z" "thread_wopen (Some z) = Some s"
    and "\<forall>bs\<in>set bss. length bs < 2 ^ 30"
  shows "\<exists>io sched' t zc. write_list (thread_wwrite (zlib_wsource stdio_wsource enc)) (sched, s) bss = Some io \<and>
    thread_wclose (zlib_wsource stdio_wsource enc) io = Some (sched', t) \<and> tw_gone t = Some zc \<and>
    \<not> ofd_open (wfd (pw_child zc)) \<and> stream (ofd_out (wfd (pw_child zc))) (concat bss)"
proof -
  let ?src = "zlib_wsource stdio_wsource enc"
  have start: "pack_inv stdio_winv stdio_sunk v [] z \<and> pack_sunk v z = [] @ []"
    using pack_wopen_inv(1) [where cwinv = stdio_winv and csunk = stdio_sunk, OF assms(1) _ assms(4)]
      pack_wopen_inv(2) [where cwinv = stdio_winv, OF assms(1) _ assms(4)] assms(5,6)
    by (fastforce simp: zlib_wopen_def)
  from threaded_writer.write_all_then_close [OF gzip_child [OF assms(1-3)] start assms(7,8), of sched]
  obtain io sched' t where run: "write_list (thread_wwrite ?src) (sched, s) bss = Some io"
    "thread_wclose ?src io = Some (sched', t)"
    and inv: "pack_inv stdio_winv stdio_sunk v [] (tw_iow t)" "pack_sunk v (tw_iow t) = concat bss"
    and gone: "tw_gone t = wsrc_close ?src (tw_iow t)" by auto
  have wr: "writer (wsrc_write stdio_wsource) stdio_winv stdio_sunk" by (simp add: stdiow.writer_axioms)
  from packing.pack_wclose_ok [OF packingI [OF wr assms(1)] assms(3) _ _ inv(1),
      of "\<lambda>code. code \<noteq> Z_STREAM_END \<and> code \<noteq> Z_STREAM_ERROR"] inv(2)
  obtain c1 w1 where c1: "stdio_winv c1" "stream (stdio_sunk c1) (concat bss)"
    "zlib_wclose stdio_wsource enc (tw_iow t) = map_option (\<lambda>c2. w1\<lparr>pw_child := c2\<rparr>) (stdio_wclose c1)"
    by (auto simp: zlib_wclose_def stdio_wsource_def)
  from stdio_wclose_clean [OF c1(1)] obtain c2 where
    "stdio_wclose c1 = Some c2" "ofd_out (wfd c2) = stdio_sunk c1" "\<not> ofd_open (wfd c2)" by blast
  with run gone c1(2,3) show ?thesis by (simp add: zlib_wsource_def)
qed

text \<open>C6: the writing side as a whole: whatever is written through the threaded gzip writer, in
  whatever pieces and under whatever schedule of its two threads, the file that is left after
  \<open>wandio_wdestroy\<close> is closed and holds one complete stream for exactly those bytes.\<close>

theorem gzip_pipeline_write:
  assumes "encoder_runs {Z_OK} enc v" "encoder_flushes Z_STREAM_ERROR enc v"
    and "encoder_finishes Z_STREAM_END {Z_OK, Z_BUF_ERROR} enc v stream"
    and "stdio_winv iow" "stdio_sunk iow = []"
    and "zlib_wopen enc (Some iow) level = Some z" "thread_wopen (Some z) = Some s"
    and "\<forall>bs\<in>set bss. length bs < 2 ^ 30"
  shows "\<exists>io sched' t zc. write_list (thread_wwrite (zlib_wsource stdio_wsource enc)) (sched, s) bss = Some io \<and>
    thread_wclose (zlib_wsource stdio_wsource enc) io = Some (sched', t) \<and> tw_gone t = Some zc \<and>
    \<not> ofd_open (wfd (pw_child zc)) \<and> stream (ofd_out (wfd (pw_child zc))) (concat bss)"
  by (rule gzip_pipeline [OF assms])

theorem gzip_pipeline_write_witness:
  "\<exists>s io sched' t zc. thread_wopen (zlib_wopen spell_zw (Some (demo_iow []\<lparr>wbuffer := []\<rparr>)) 6) = Some s \<and>
     write_list (thread_wwrite (zlib_wsource stdio_wsource spell_zw)) ([True, False], s) [[7], [8]] = Some io \<and>
     thread_wclose (zlib_wsource stdio_wsource spell_zw) io = Some (sched', t) \<and> tw_gone t = Some zc \<and>
     ofd_out (wfd (pw_child zc)) = [1, 7, 1, 8, 0]"
proof -
  obtain z where z: "zlib_wopen spell_zw (Some (demo_iow []\<lparr>wbuffer := []\<rparr>)) 6 = Some z"
    by (simp add: zlib_wopen_def pack_wopen_def)
  obtain s where s: "thread_wopen (Some z) = Some s" by (simp add: thread_wopen_def)
  have flush: "encoder_flushes Z_STREAM_ERROR spell_zw spell_view" by (rule spell_encoder_flushes) simp
  from gzip_pipeline_write [OF spell_encoder_runs flush spell_z_finishes demo_child z s,
      of "[[7], [8]]" "[True, False]"] z s
  show ?thesis by (fastforce simp: spell_stream_def)
qed

text \<open>C8: the reading side as a whole, \<open>thread_read\<close> on \<open>zlib_read\<close> on \<open>peek_read\<close> on a file: under
  whatever schedule, and with whatever short reads of the kernel, reading a well-formed gzip file to
  the end gives exactly its text and then \<open>0\<close>. Only when a \<^verbatim>\<open>read(2)\<close> fails can the last
  result be negative, and then what was read is a beginning of the text.\<close>

theorem gzip_pipeline_read:
  assumes "decoder_sane Z_OK Z_STREAM_END dec"
    and "decoder_reads Z_OK Z_STREAM_END dec plain (next_member dec plain)"
    and "plain (dec_init dec) bytes = Some text1"
    and "peek_open (Some \<lparr>fd = demo_fd bytes events\<rparr>) = Some p" "zlib_open dec at (Some p) = Some y"
    and "thread_open m memalign (Some y) = Some s" "0 < m" "0 < n" "n < 2 ^ 31"
  shows "\<exists>r got io. read_all (thread_read (zlib_source dec (peek_source stdio_source alloc_ok))) a n (sched, s) [] =
      Some (r, got, io) \<and> r \<le> 0 \<and> prefix got text1 \<and> (r = 0 \<longrightarrow> got = text1) \<and>
      (Fail \<notin> set events \<longrightarrow> r = 0)"
proof -
  let ?src = "zlib_source dec (peek_source stdio_source alloc_ok)"
  have src: "src_read ?src = zlib_read dec (peek_read stdio_read alloc_ok)" by (simp add: zlib_source_def)
  have none: "never_empty plain" using assms(2) by (simp add: decoder_reads_def)
  have chunk: "below_2G WANDIO_BUFFER_SIZE" by (simp add: WANDIO_BUFFER_SIZE_def)
  show ?thesis
  proof (cases "Fail \<in> set events")
    case False
    note y = gzip_calm_open [OF False none assms(3-5)]
    note calm = gzip_calm_reader [OF assms(1,2), folded src]
    have th: "threaded ?src (calm_gzip plain) (zlib_pending plain (peek_pending stdio_pending)) below_2G"
      by (intro threaded.intro threaded_axioms.intro chunk calm_reader.axioms(1) [OF calm])
    note whole = calm_reader.read_all_whole [OF threaded.thread_calm [OF th calm_reader.never [OF calm]]]
    have "thread_inv (calm_gzip plain) (zlib_pending plain (peek_pending stdio_pending)) (sched, s)"
      "thread_pending (zlib_pending plain (peek_pending stdio_pending)) (sched, s) = text1"
      using thread_open_inv [where cinv = "calm_gzip plain" and cpending = "zlib_pending plain (peek_pending stdio_pending)",
          OF assms(6,7) y(1)] y(2) by simp_all
    with whole [of "(sched, s)" n a "[]"] thread_open_calm [OF assms(6)] assms(8,9) show ?thesis by auto
  next
    case True
    let ?inv = "zlib_inv plain (peek_inv stdio_inv) (peek_pending stdio_pending)"
    let ?pend = "zlib_pending plain (peek_pending stdio_pending)"
    have rd: "reader (src_read ?src) ?inv ?pend below_2G"
      unfolding src by (rule feed_peek_stdio.zlib_contract [OF assms(1,2)])
    with chunk have th: "threaded ?src ?inv ?pend below_2G" by (intro threaded.intro threaded_axioms.intro)
    have p: "peek_inv stdio_inv p" "peek_pending stdio_pending p = bytes"
      using assms(4) demo_peek_inv(1) [of bytes events] demo_peek_pending [of bytes events]
      by (auto simp: peek_open_def demo_peek_def)
    from zlib_open_inv [where pinv = "peek_inv stdio_inv" and plain = plain and
        ppend = "peek_pending stdio_pending" and t = text1, OF assms(5) p(1) _ none] p(2) assms(3)
    have y: "?inv y" "?pend y = text1" by simp_all
    have s: "thread_inv ?inv ?pend (sched, s)" "thread_pending ?pend (sched, s) = text1"
      using thread_open_inv [where cinv = ?inv and cpending = ?pend, OF assms(6,7) y(1)] y(2) by simp_all
    have "reader (thread_read ?src) (thread_inv ?inv ?pend) (thread_pending ?pend) below_2G"
      by (rule readerI) (rule threaded.thread_read_outcome [OF th])
    from reader.read_all_result [OF this s(1) assms(9,8), of a "[]"] s(2) True show ?thesis
      by (auto simp: prefix_def)
  qed
qed

text \<open>Two members, with a short read on the way.\<close>

theorem gzip_pipeline_read_witness:
  "\<exists>p y s io. peek_open (Some \<lparr>fd = demo_fd [1, 7, 0, 1, 8, 0] [Short 2]\<rparr>) = Some p \<and>
     zlib_open spell_z 0 (Some p) = Some y \<and> thread_open 2 alloc_ok (Some y) = Some s \<and>
     read_all (thread_read (zlib_source spell_z (peek_source stdio_source alloc_ok))) 0 5 ([True, False], s) [] =
       Some (0, [7, 8], io)"
proof -
  obtain p where p: "peek_open (Some \<lparr>fd = demo_fd [1, 7, 0, 1, 8, 0] [Short 2]\<rparr>) = Some p"
    by (simp add: peek_open_def)
  obtain y where y: "zlib_open spell_z 0 (Some p) = Some y" by (simp add: zlib_open_def)
  obtain s where s: "thread_open 2 alloc_ok (Some y) = Some s" by (simp add: thread_open_def)
  have "spell_plain True (dec_init spell_z) [1, 7, 0, 1, 8, 0] = Some [7, 8]" "(0::nat) < 2" "(0::nat) < 5"
    "(5::nat) < 2 ^ 31" by (simp_all add: spell_decoder_def)
  from gzip_pipeline_read [OF spell_sane(1) spell_decoder_many this(1) p y s this(2-4), of 0 "[True, False]"] p y s
  show ?thesis by auto
qed

section \<open>The program on top\<close>

lemma gzip_pipeline_writer:
  assumes "encoder_runs {Z_OK} enc v" "encoder_flushes Z_STREAM_ERROR enc v"
    and "encoder_finishes Z_STREAM_END {Z_OK, Z_BUF_ERROR} enc v stream"
  shows "writer (wandio_wwrite (thread_wsource (zlib_wsource stdio_wsource enc)))
    (threadw_inv (\<lambda>w sent. pack_inv stdio_winv stdio_sunk v [] w \<and> pack_sunk v w = [] @ sent)) threadw_sunk"
proof -
  have "wandio_wwrite (thread_wsource (zlib_wsource stdio_wsource enc)) = thread_wwrite (zlib_wsource stdio_wsource enc)"
    by (intro ext) (simp add: wandio_wwrite_def thread_wsource_def)
  then show ?thesis
    using threaded_writer.thread_wwrite_ok [OF gzip_child [OF assms]] by unfold_locales fastforce
qed

text \<open>C7: \<open>wandiocat\<close> writing a gzip file: whatever readers it is given that keep the contract, and
  whatever the schedule of the writing thread, the file that is left is closed and holds one complete
  gzip stream for what the input files give, one after the other; the exit code is the number of
  files that could not be opened.\<close>

theorem wcat_writes_gzip:
  assumes "encoder_runs {Z_OK} enc v" "encoder_flushes Z_STREAM_ERROR enc v"
    and "encoder_finishes Z_STREAM_END {Z_OK, Z_BUF_ERROR} enc v stream"
    and "reader (wandio_read (env_isrc env)) iinv ipend served" "served WANDIO_BUFFER_SIZE"
    and "\<forall>f io. env_create env f = Some io \<longrightarrow> iinv io" "env_memalign env"
    and "env_wsrc env = thread_wsource (zlib_wsource stdio_wsource enc)"
    and "getopt_scan None argv = (rs, files)" "wcat_options rs wcat_defaults = Some (Inr opts)"
    and "env_wcreate env (wc_output opts) (wc_type opts) (wc_level opts) 0 = Some (Some (sched, s))"
    and "stdio_winv iow" "stdio_sunk iow = []"
    and "zlib_wopen enc (Some iow) (wc_level opts) = Some z" "thread_wopen (Some z) = Some s"
  shows "\<exists>parts sched' t zc. wcat_main env argv = Some (wcat_unopened env files, Some (sched', t)) \<and>
    list_all2 (wcat_part env) files parts \<and> tw_gone t = Some zc \<and> \<not> ofd_open (wfd (pw_child zc)) \<and>
    stream (ofd_out (wfd (pw_child zc))) (concat parts)"
proof -
  let ?src = "zlib_wsource stdio_wsource enc"
  let ?J = "\<lambda>w sent. pack_inv stdio_winv stdio_sunk v [] w \<and> pack_sunk v w = [] @ sent"
  have world: "wcat_world env iinv ipend served (threadw_inv ?J) threadw_sunk"
    by (intro wcat_world.intro wcat_world_axioms.intro)
      (use assms(4-6) gzip_pipeline_writer [OF assms(1-3)] in \<open>auto simp: assms(8)\<close>)
  have "?J z []"
    using pack_wopen_inv(1) [where cwinv = stdio_winv and csunk = stdio_sunk, OF assms(1) _ assms(12)]
      pack_wopen_inv(2) [where cwinv = stdio_winv, OF assms(1) _ assms(12)] assms(13,14)
    by (fastforce simp: zlib_wopen_def)
  from thread_wopen_inv(1) [where J = ?J and sched = sched, OF assms(15) this]
  obtain parts w1 where run: "list_all2 (wcat_part env) files parts" "wcat_wrote env (sched, s) (concat parts) w1"
    "wcat_main env argv = map_option (\<lambda>w2. (wcat_unopened env files, Some w2)) (wsrc_close (env_wsrc env) w1)"
    using wcat_world.wcat_main_ok [OF world assms(9-11,7)] by blast
  have wr: "wandio_wwrite (env_wsrc env) = thread_wwrite ?src"
    by (intro ext) (simp add: wandio_wwrite_def assms(8) thread_wsource_def)
  from run(2) obtain bss where bss: "write_list (thread_wwrite ?src) (sched, s) bss = Some w1" "concat bss = concat parts"
    "\<forall>bs\<in>set bss. length bs < 2 ^ 30" by (auto simp: wcat_wrote_def wr)
  from gzip_pipeline [OF assms(1-3,12-15) bss(3), of sched] bss(1,2) obtain sched' t zc where
    "thread_wclose ?src w1 = Some (sched', t)" "tw_gone t = Some zc" "\<not> ofd_open (wfd (pw_child zc))"
    "stream (ofd_out (wfd (pw_child zc))) (concat parts)" by auto
  with run(1,3) show ?thesis by (simp add: assms(8) thread_wsource_def) blast
qed

definition demo_gzip_env ::
  "(bool list \<times> (stdiow_t, byte list \<times> byte list) zlibw_t threadw_t) \<Rightarrow>
    (stdio_t, bool list \<times> (stdiow_t, byte list \<times> byte list) zlibw_t threadw_t) wcat_env" where
  "demo_gzip_env w = \<lparr>env_create = (\<lambda>f. map_option demo_file ([''a'' \<mapsto> [7]] f)), env_isrc = stdio_source,
     env_wcreate = (\<lambda>_ _ _ _. Some (Some w)), env_wsrc = thread_wsource (zlib_wsource stdio_wsource spell_zw), env_memalign = True\<rparr>"

theorem wcat_writes_gzip_witness:
  "\<exists>s parts sched' t zc. thread_wopen (zlib_wopen spell_zw (Some (demo_iow []\<lparr>wbuffer := []\<rparr>)) 6) = Some s \<and>
    wcat_main (demo_gzip_env ([True], s)) [''-Zgzip'', ''a'', ''-z'', ''6'', ''b''] = Some (1, Some (sched', t)) \<and>
    tw_gone t = Some zc \<and> spell_stream (ofd_out (wfd (pw_child zc))) (concat parts)"
proof -
  obtain z where z: "zlib_wopen spell_zw (Some (demo_iow []\<lparr>wbuffer := []\<rparr>)) 6 = Some z"
    by (simp add: zlib_wopen_def pack_wopen_def)
  obtain s where s: "thread_wopen (Some z) = Some s" by (simp add: thread_wopen_def)
  let ?env = "demo_gzip_env ([True], s)"
  have flush: "encoder_flushes Z_STREAM_ERROR spell_zw spell_view" by (rule spell_encoder_flushes) simp
  have rd: "reader (wandio_read (env_isrc ?env)) stdio_inv stdio_pending any_size"
    using stdio.reader_axioms stdio_env_reads by (simp add: demo_gzip_env_def stdio_env_def)
  have env: "\<forall>f io. env_create ?env f = Some io \<longrightarrow> stdio_inv io" "env_memalign ?env"
    "env_wsrc ?env = thread_wsource (zlib_wsource stdio_wsource spell_zw)"
    by (auto simp: demo_gzip_env_def split: if_splits)
  let ?opts = "\<lparr>wc_level = 6, wc_type = WANDIO_COMPRESS_ZLIB, wc_output = ''-''\<rparr>"
  have out: "env_wcreate ?env (wc_output ?opts) (wc_type ?opts) (wc_level ?opts) 0 = Some (Some ([True], s))"
    "zlib_wopen spell_zw (Some (demo_iow []\<lparr>wbuffer := []\<rparr>)) (wc_level ?opts) = Some z"
    using z by (simp_all add: demo_gzip_env_def)
  have "wcat_unopened ?env [''a'', ''b''] = 1" by (simp add: wcat_unopened_def demo_gzip_env_def)
  with wcat_writes_gzip [OF spell_encoder_runs flush spell_z_finishes rd TrueI env demo_scan demo_opts out(1) demo_child out(2) s] z s
  show ?thesis by auto
qed

end
